(* ===== verification/Prelude.thy ===== *)
theory Prelude
  imports Main "HOL-Library.Word"
begin

text \<open>
  Shared vocabulary of the development: the machine types of the C sources, the result
  type of fallible C code, bounds-checked access to byte buffers, and the lemmas about
  lists, results and words that the component theories share.

  A C function that can fail is modelled by a value of a sum type: \<open>Inl e\<close> is the
  failure \<open>e\<close>, \<open>Inr v\<close> the value.  \<open>rbind\<close> sequences two such computations, as
  statements separated by an early return do.  Reads and writes through a C pointer
  go through \<open>fetch\<close> and \<open>store\<close>, which return an explicit failure for an access
  outside the object, so that memory safety is a provable property of the model and
  never an accident of HOL's total functions.
\<close>

unbundle bit_operations_syntax

section \<open>Machine types\<close>

type_synonym byte = "8 word"
type_synonym u16 = "16 word"
type_synonym u32 = "32 word"
type_synonym u64 = "64 word"

named_theorems result_simps \<open>sequencing of fallible computations\<close>
named_theorems buffer_simps \<open>bounds-checked buffer access\<close>
named_theorems width_simps \<open>narrowing and widening of machine words\<close>

section \<open>Fallible computations\<close>

definition rbind :: "'e + 'a \<Rightarrow> ('a \<Rightarrow> 'e + 'b) \<Rightarrow> 'e + 'b" where
  "rbind r k = (case r of Inl e \<Rightarrow> Inl e | Inr v \<Rightarrow> k v)"

lemma rbind_Inl [simp, result_simps]: "rbind (Inl e) k = Inl e"
  by (simp add: rbind_def)

lemma rbind_Inr [simp, result_simps]: "rbind (Inr v) k = k v"
  by (simp add: rbind_def)

lemma rbind_eq_Inr_iff: "rbind r k = Inr w \<longleftrightarrow> (\<exists>v. r = Inr v \<and> k v = Inr w)"
  by (cases r) auto

lemma rbind_eq_Inl_iff:
  "rbind r k = Inl e \<longleftrightarrow> r = Inl e \<or> (\<exists>v. r = Inr v \<and> k v = Inl e)"
  by (cases r) auto

lemma rbind_assoc [result_simps]: "rbind (rbind r f) g = rbind r (\<lambda>v. rbind (f v) g)"
  by (cases r) auto

lemma rbind_cong [fundef_cong]:
  "r = r' \<Longrightarrow> (\<And>v. r' = Inr v \<Longrightarrow> f v = g v) \<Longrightarrow> rbind r f = rbind r' g"
  by (cases r') auto

definition guard :: "'e \<Rightarrow> bool \<Rightarrow> 'e + unit" where
  "guard e b = (if b then Inr () else Inl e)"

lemma guard_simps [simp, result_simps]: "guard e True = Inr ()" "guard e False = Inl e"
  by (simp_all add: guard_def)

lemma guard_eq_Inr_iff [simp]: "guard e b = Inr u \<longleftrightarrow> b"
  by (simp add: guard_def)

lemma guard_eq_Inl_iff [simp]: "guard e b = Inl e' \<longleftrightarrow> \<not> b \<and> e' = e"
  by (auto simp: guard_def)

section \<open>Bounds-checked access\<close>

definition fetch :: "'e \<Rightarrow> 'a list \<Rightarrow> nat \<Rightarrow> 'e + 'a" where
  "fetch e xs i = (if i < length xs then Inr (xs ! i) else Inl e)"

definition store :: "'e \<Rightarrow> 'a list \<Rightarrow> nat \<Rightarrow> 'a \<Rightarrow> 'e + 'a list" where
  "store e xs i x = (if i < length xs then Inr (xs[i := x]) else Inl e)"

text \<open>\<open>rdblock\<close> is the block of \<open>n\<close> elements a \<open>memmove\<close> reads from offset \<open>i\<close>.\<close>

definition rdblock :: "'e \<Rightarrow> 'a list \<Rightarrow> nat \<Rightarrow> nat \<Rightarrow> 'e + 'a list" where
  "rdblock e xs i n = (if i + n \<le> length xs then Inr (take n (drop i xs)) else Inl e)"

text \<open>\<open>wrblock\<close> is the \<open>memmove\<close> of a block into an object at offset \<open>i\<close>.\<close>

definition wrblock :: "'e \<Rightarrow> 'a list \<Rightarrow> nat \<Rightarrow> 'a list \<Rightarrow> 'e + 'a list" where
  "wrblock e xs i ys =
     (if i + length ys \<le> length xs then Inr (take i xs @ ys @ drop (i + length ys) xs)
      else Inl e)"

lemma fetch_in [simp, buffer_simps]: "i < length xs \<Longrightarrow> fetch e xs i = Inr (xs ! i)"
  by (simp add: fetch_def)

lemma fetch_out [simp, buffer_simps]: "length xs \<le> i \<Longrightarrow> fetch e xs i = Inl e"
  by (simp add: fetch_def)

lemma fetch_eq_Inr_iff: "fetch e xs i = Inr x \<longleftrightarrow> i < length xs \<and> x = xs ! i"
  by (auto simp: fetch_def)

lemma fetch_append_left [buffer_simps]:
  "i < length xs \<Longrightarrow> fetch e (xs @ ys) i = Inr (xs ! i)"
  by (simp add: fetch_def nth_append)

lemma fetch_append_right [buffer_simps]:
  "fetch e (xs @ ys) (length xs + i) = fetch e ys i"
  by (simp add: fetch_def)

lemma store_in [simp, buffer_simps]: "i < length xs \<Longrightarrow> store e xs i x = Inr (xs[i := x])"
  by (simp add: store_def)

lemma store_out [simp, buffer_simps]: "length xs \<le> i \<Longrightarrow> store e xs i x = Inl e"
  by (simp add: store_def)

lemma rdblock_in [buffer_simps]:
  "i + n \<le> length xs \<Longrightarrow> rdblock e xs i n = Inr (take n (drop i xs))"
  by (simp add: rdblock_def)

lemma rdblock_eq_Inr_iff:
  "rdblock e xs i n = Inr ys \<longleftrightarrow> i + n \<le> length xs \<and> ys = take n (drop i xs)"
  by (auto simp: rdblock_def)

lemma wrblock_eq_Inr_iff:
  "wrblock e xs i ys = Inr zs \<longleftrightarrow>
   i + length ys \<le> length xs \<and> zs = take i xs @ ys @ drop (i + length ys) xs"
  by (auto simp: wrblock_def)

lemma wrblock_length: "wrblock e xs i ys = Inr zs \<Longrightarrow> length zs = length xs"
  by (auto simp: wrblock_def split: if_splits)

section \<open>Procedures over a state\<close>

text \<open>
  A C routine that works on a state through a cursor and may \<open>return 0\<close> from the middle is
  a \<open>proc\<close>: from a state it faults (an access outside an object), or it ends early with
  the state as it left it (\<open>Inr (None, s)\<close>), or it yields a value and the new state.
\<close>

datatype access_fault = OutOfBounds

type_synonym ('s, 'a) proc = "'s \<Rightarrow> access_fault + 'a option \<times> 's"

definition ret :: "'a \<Rightarrow> ('s, 'a) proc" where
  "ret v s = Inr (Some v, s)"

definition quit :: "('s, 'a) proc" where
  "quit s = Inr (None, s)"

definition need :: "bool \<Rightarrow> ('s, unit) proc" where
  "need b s = Inr (if b then Some () else None, s)"

definition bnd :: "('s, 'a) proc \<Rightarrow> ('a \<Rightarrow> ('s, 'b) proc) \<Rightarrow> ('s, 'b) proc" where
  "bnd m k s = rbind (m s) (\<lambda>(r, t). case r of None \<Rightarrow> Inr (None, t) | Some v \<Rightarrow> k v t)"

definition lift :: "('s \<Rightarrow> access_fault + 's) \<Rightarrow> ('s, unit) proc" where
  "lift f s = rbind (f s) (\<lambda>t. Inr (Some (), t))"

primrec seqs :: "('s, unit) proc list \<Rightarrow> ('s, unit) proc" where
  "seqs [] = ret ()"
| "seqs (m # ms) = bnd m (\<lambda>_. seqs ms)"

declare seqs.simps [simp del]

text \<open>
  \<open>wp m Q E s\<close>: run from \<open>s\<close>, \<open>m\<close> does not fault; if it ends early the state satisfies
  \<open>E\<close>, and otherwise value and state satisfy \<open>Q\<close>.
\<close>

definition wp :: "('s, 'a) proc \<Rightarrow> ('a \<Rightarrow> 's \<Rightarrow> bool) \<Rightarrow> ('s \<Rightarrow> bool) \<Rightarrow> 's \<Rightarrow> bool" where
  "wp m Q E s = (case m s of Inl _ \<Rightarrow> False
     | Inr (r, t) \<Rightarrow> (case r of None \<Rightarrow> E t | Some v \<Rightarrow> Q v t))"

named_theorems wp_simps \<open>weakest preconditions of the basic procedures\<close>

lemma wp_ret [wp_simps]: "wp (ret v) Q E s \<longleftrightarrow> Q v s"
  by (simp add: wp_def ret_def)

lemma wp_quit [wp_simps]: "wp quit Q E s \<longleftrightarrow> E s"
  by (simp add: wp_def quit_def)

lemma wp_need [wp_simps]: "wp (need b) Q E s \<longleftrightarrow> (if b then Q () s else E s)"
  by (simp add: wp_def need_def)

lemma wp_bnd [wp_simps]: "wp (bnd m k) Q E s \<longleftrightarrow> wp m (\<lambda>v. wp (k v) Q E) E s"
  by (auto simp: wp_def bnd_def split: sum.splits option.splits)

lemma wp_lift [wp_simps]: "wp (lift f) Q E s \<longleftrightarrow> (\<exists>t. f s = Inr t \<and> Q () t)"
  by (cases "f s") (auto simp: wp_def lift_def)

lemma wp_seqs [wp_simps]:
  "wp (seqs []) Q E s \<longleftrightarrow> Q () s"
  "wp (seqs (m # ms)) Q E s \<longleftrightarrow> wp m (\<lambda>_. wp (seqs ms) Q E) E s"
  by (simp_all add: seqs.simps wp_ret wp_bnd)

lemma wp_seqs_last [simp, wp_simps]: "(\<lambda>_. wp (seqs []) Q E) = Q"
  by (rule ext)+ (simp add: wp_seqs)

lemma wp_seqs_append: "wp (seqs (ms @ ns)) Q E = wp (seqs ms) (\<lambda>_. wp (seqs ns) Q E) E"
proof (induction ms)
  case Nil
  show ?case by (rule ext) (simp add: wp_seqs)
next
  case (Cons m ms)
  show ?case by (rule ext) (simp only: append_Cons wp_seqs Cons)
qed

lemma wp_if [wp_simps]:
  "wp (if b then m else n) Q E s \<longleftrightarrow> (if b then wp m Q E s else wp n Q E s)"
  by simp

lemma wp_mono:
  assumes "wp m Q E s" "\<And>v t. Q v t \<Longrightarrow> Q' v t" "\<And>t. E t \<Longrightarrow> E' t"
  shows "wp m Q' E' s"
  using assms by (auto simp: wp_def split: sum.splits option.splits)

lemma wp_not_fault: "wp m Q E s \<Longrightarrow> \<exists>r t. m s = Inr (r, t) \<and> (case r of None \<Rightarrow> E t | Some v \<Rightarrow> Q v t)"
  by (auto simp: wp_def split: sum.splits)

text \<open>The cases of a \<open>switch\<close>: \<open>None\<close> is a value that is not among them.\<close>

definition opt_wp :: "('s, unit) proc list option \<Rightarrow> (unit \<Rightarrow> 's \<Rightarrow> bool) \<Rightarrow> ('s \<Rightarrow> bool) \<Rightarrow> 's \<Rightarrow> bool" where
  "opt_wp om Q E s = (case om of None \<Rightarrow> True | Some ms \<Rightarrow> wp (seqs ms) Q E s)"

lemma opt_wp_if:
  "(b \<Longrightarrow> opt_wp x Q E s) \<Longrightarrow> (\<not> b \<Longrightarrow> opt_wp y Q E s) \<Longrightarrow> opt_wp (if b then x else y) Q E s"
  by simp

lemma opt_wp_None: "opt_wp None Q E s"
  by (simp add: opt_wp_def)

lemma opt_wp_Nil: "Q () s \<Longrightarrow> opt_wp (Some []) Q E s"
  by (simp add: opt_wp_def wp_seqs)

lemma opt_wp_Cons: "wp m (\<lambda>_. wp (seqs ms) Q E) E s \<Longrightarrow> opt_wp (Some (m # ms)) Q E s"
  by (simp add: opt_wp_def wp_seqs)

lemma wp_seqs_intro:
  "Q () s \<Longrightarrow> wp (seqs []) Q E s"
  "wp m (\<lambda>_. wp (seqs ms) Q E) E s \<Longrightarrow> wp (seqs (m # ms)) Q E s"
  by (simp_all only: wp_seqs)

lemmas opt_wp_rules = opt_wp_if opt_wp_None opt_wp_Nil opt_wp_Cons

section \<open>Words\<close>

lemma unat_ucast_le [width_simps]:
  "LENGTH('a) \<le> LENGTH('b) \<Longrightarrow> unat (ucast (x :: 'a::len word) :: 'b::len word) = unat x"
  by (simp add: unsigned_ucast_eq take_bit_nat_eq_self_iff)
    (meson order_less_le_trans one_le_numeral power_increasing unsigned_less)

lemma ucast_narrow [simp, width_simps]:
  "(ucast (ucast (x :: u16) :: u32) :: u16) = x"
  "(ucast (ucast (b :: byte) :: u32) :: byte) = b"
  by (rule bit_word_eqI; simp add: bit_simps)+

text \<open>
  Equality of words of a fixed width, bit by bit: the goals about shifts and masks that
  the codecs leave are closed by \<open>simp add: bit_simps\<close> after these rules.
\<close>

lemma word_bit_bound:
  fixes c :: "'a::len word"
  assumes "unat c < 2 ^ k" "k \<le> n"
  shows "\<not> bit c n"
proof -
  have "unat c < 2 ^ n"
    using assms by (meson order_less_le_trans one_le_numeral power_increasing)
  then have "\<not> bit (unat c) n" by (simp add: bit_iff_odd)
  then show ?thesis by (simp add: bit_unsigned_iff)
qed

lemma high_bit [simp]:
  "8 \<le> n \<Longrightarrow> \<not> bit (b :: byte) n"
  "16 \<le> n \<Longrightarrow> \<not> bit (x :: u16) n"
  "32 \<le> n \<Longrightarrow> \<not> bit (y :: u32) n"
  "64 \<le> n \<Longrightarrow> \<not> bit (z :: u64) n"
  by (auto dest: bit_imp_le_length)

lemma bit_word_div: "bit (b :: 'a::len word) n \<longleftrightarrow> odd (unat b div 2 ^ n)"
proof -
  have "bit (unat b) n = bit b n" by (simp add: bit_unsigned_iff)
  then show ?thesis by (metis bit_iff_odd)
qed

lemma less_8_cases: "(n::nat) < 8 \<Longrightarrow> n \<in> {0,1,2,3,4,5,6,7}"
  by (simp, presburger)

lemma less_32_cases:
  "(n::nat) < 32 \<Longrightarrow> n \<in> {0,1,2,3,4,5,6,7,8,9,10,11,12,13,14,15,16,17,18,19,20,21,22,23,
     24,25,26,27,28,29,30,31}"
  by (simp, presburger)

lemma u8_eqI:
  fixes x y :: byte
  assumes "\<forall>n \<in> {0,1,2,3,4,5,6,7}. bit x n = bit y n"
  shows "x = y"
  by (rule bit_word_eqI) (rule assms [THEN bspec, OF less_8_cases], simp)

lemma u32_eqI:
  fixes x y :: u32
  assumes "\<forall>n \<in> {0,1,2,3,4,5,6,7,8,9,10,11,12,13,14,15,16,17,18,19,20,21,22,23,
     24,25,26,27,28,29,30,31}. bit x n = bit y n"
  shows "x = y"
  by (rule bit_word_eqI) (rule assms [THEN bspec, OF less_32_cases], simp)

lemma word_eq_unatI: "unat x = unat y \<Longrightarrow> x = y"
  by (simp add: word_unat_eq_iff)

end
