(* ===== verification/Utf.thy ===== *)
theory Utf
  imports Prelude
begin

text \<open>
  UTF-8, as \<^verbatim>\<open>libkern/rune.c\<close> (and its copy in \<^verbatim>\<open>lib9/rune.c\<close>) codes it: \<open>chartorune\<close>
  decodes one rune from a byte pointer, \<open>runetochar\<close> encodes one, \<open>runelen\<close> and
  \<open>runenlen\<close> count bytes, \<open>fullrune\<close> says whether a prefix holds a whole rune.
  A \<open>char*\<close> is the list of bytes readable from it; a read past the list is \<open>Inl OutOfBounds\<close>.
\<close>

section \<open>Constants of rune.c\<close>

type_synonym rune = u32

definition Bitpos :: "nat \<Rightarrow> nat" where
  "Bitpos i = 7 - i"

definition T :: "nat \<Rightarrow> u32" where
  "T i = (push_bit (Bitpos i + 1) 1 - 1) XOR 0xFF"

definition RuneX :: "nat \<Rightarrow> u32" where
  "RuneX i = push_bit (Bitpos i + (i - 1) * Bitpos 1) 1 - 1"

definition Bitx :: nat where "Bitx = Bitpos 1"
definition Tx :: u32 where "Tx = T 1"
definition Rune1 :: u32 where "Rune1 = push_bit (Bitpos 0 + 0 * Bitx) 1 - 1"
definition Maskx :: u32 where "Maskx = push_bit Bitx 1 - 1"
definition Testx :: u32 where "Testx = Maskx XOR 0xFF"
definition SurrogateMin :: u32 where "SurrogateMin = 0xD800"
definition SurrogateMax :: u32 where "SurrogateMax = 0xDFFF"
definition Runeerror :: u32 where "Runeerror = 0xFFFD"
definition Runemax :: u32 where "Runemax = 0x10FFFF"
definition Runeself :: u32 where "Runeself = 0x80"
definition UTFmax :: nat where "UTFmax = 4"

section \<open>Operations\<close>

text \<open>The loop of \<open>chartorune\<close>, from index \<open>i\<close> with the bits \<open>l\<close> gathered so far.\<close>

function chartorune_loop :: "byte list \<Rightarrow> u32 \<Rightarrow> rune \<Rightarrow> nat \<Rightarrow> access_fault + rune \<times> nat" where
  "chartorune_loop str c0 l i =
     (if i < UTFmax then
        rbind (fetch OutOfBounds str i) (\<lambda>b.
          let c = ucast b XOR Tx in
          if c AND Testx \<noteq> 0 then Inr (Runeerror, 1)
          else
            let l = push_bit Bitx l OR c in
            if c0 < T (i + 2) then
              let l = l AND RuneX (i + 1) in
              if (if i = 1 then c0 < T 2 \<or> l \<le> Rune1 else l \<le> RuneX i \<or> l > Runemax)
              then Inr (Runeerror, 1)
              else if i = 2 \<and> SurrogateMin \<le> l \<and> l \<le> SurrogateMax then Inr (Runeerror, 1)
              else Inr (l, i + 1)
            else chartorune_loop str c0 l (i + 1))
      else Inr (Runeerror, 1))"
  by pat_completeness auto
termination
  by (relation "measure (\<lambda>(str, c0, l, i). UTFmax - i)") auto

declare chartorune_loop.simps [simp del]

definition chartorune :: "byte list \<Rightarrow> access_fault + rune \<times> nat" where
  "chartorune str =
     rbind (fetch OutOfBounds str 0) (\<lambda>b.
       let c0 = ucast b in
       if c0 < Tx then Inr (c0, 1) else chartorune_loop str c0 c0 1)"

text \<open>
  The encoder's loop over the length \<open>i\<close>; \<open>runetochar\<close> returns the bytes it stores, so its
  return value is the length of the list.
\<close>

function runetochar_loop :: "rune \<Rightarrow> nat \<Rightarrow> byte list" where
  "runetochar_loop c i =
     (if i < UTFmax + 1 then
        let c = (if i = 3 \<and> c > Runemax then Runeerror else c);
            c = (if i = 3 \<and> SurrogateMin \<le> c \<and> c \<le> SurrogateMax then Runeerror else c) in
        if c \<le> RuneX i \<or> i = UTFmax then
          ucast (T i OR drop_bit ((i - 1) * Bitx) c) #
          map (\<lambda>j. ucast (Tx OR (drop_bit ((i - j - 1) * Bitx) c AND Maskx))) [1..<i]
        else runetochar_loop c (i + 1)
      else [])"
  by pat_completeness auto
termination
  by (relation "measure (\<lambda>(c, i). UTFmax + 1 - i)") auto

declare runetochar_loop.simps [simp del]

definition runetochar :: "rune \<Rightarrow> byte list" where
  "runetochar c = (if c \<le> Rune1 then [ucast c] else runetochar_loop c 2)"

definition runelen :: "rune \<Rightarrow> nat" where
  "runelen c = length (runetochar c)"

function runenlen_loop :: "rune \<Rightarrow> nat \<Rightarrow> nat" where
  "runenlen_loop c i =
     (if i < UTFmax + 1 then
        if c \<le> RuneX i \<or> i = UTFmax then i else runenlen_loop c (i + 1)
      else 0)"
  by pat_completeness auto
termination
  by (relation "measure (\<lambda>(c, i). UTFmax + 1 - i)") auto

declare runenlen_loop.simps [simp del]

fun runenlen :: "rune list \<Rightarrow> nat" where
  "runenlen [] = 0"
| "runenlen (c # cs) = (if c \<le> Rune1 then 1 else runenlen_loop c 2) + runenlen cs"

function fullrune_loop :: "u32 \<Rightarrow> int \<Rightarrow> nat \<Rightarrow> bool" where
  "fullrune_loop c n i =
     (if i < UTFmax + 1 then
        if c < T i then n \<ge> int i - 1 else fullrune_loop c n (i + 1)
      else n \<ge> int UTFmax)"
  by pat_completeness auto
termination
  by (relation "measure (\<lambda>(c, n, i). UTFmax + 1 - i)") auto

declare fullrune_loop.simps [simp del]

definition fullrune :: "byte list \<Rightarrow> int \<Rightarrow> access_fault + bool" where
  "fullrune str n =
     (if n \<le> 0 then Inr False
      else rbind (fetch OutOfBounds str 0) (\<lambda>b.
        let c = ucast b in
        if c < Tx then Inr True else Inr (fullrune_loop c n 3)))"

section \<open>The constants evaluated\<close>

lemma utf_consts [simp]:
  "Tx = 0x80" "Rune1 = 0x7F" "Maskx = 0x3F" "Testx = 0xC0" "Bitx = 6" "UTFmax = 4"
  "SurrogateMin = 0xD800" "SurrogateMax = 0xDFFF" "Runeerror = 0xFFFD" "Runemax = 0x10FFFF"
  "Runeself = 0x80"
  by (simp_all add: Tx_def Rune1_def Maskx_def Testx_def Bitx_def UTFmax_def T_def Bitpos_def
      SurrogateMin_def SurrogateMax_def Runeerror_def Runemax_def Runeself_def)

lemma T_values [simp]:
  "T 2 = 0xC0" "T (Suc (Suc 0)) = 0xC0" "T 3 = 0xE0" "T 4 = 0xF0" "T 5 = 0xF8"
  by (simp_all add: T_def Bitpos_def)

lemma RuneX_values [simp]:
  "RuneX 2 = 0x7FF" "RuneX (Suc (Suc 0)) = 0x7FF" "RuneX 3 = 0xFFFF" "RuneX 4 = 0x1FFFFF"
  by (simp_all add: RuneX_def Bitpos_def)

definition sanitize :: "rune \<Rightarrow> rune" where
  "sanitize c =
     (if c > Runemax \<or> SurrogateMin \<le> c \<and> c \<le> SurrogateMax then Runeerror else c)"

definition valid_rune :: "rune \<Rightarrow> bool" where
  "valid_rune c \<longleftrightarrow> c \<le> Runemax \<and> \<not> (SurrogateMin \<le> c \<and> c \<le> SurrogateMax)"

lemma upt_small: "[Suc 0..<2] = [1]" "[Suc 0..<3] = [1,2]" "[Suc 0..<4] = [1,2,3]"
  by (simp_all add: upt_rec numeral_eq_Suc)

lemmas word_order = word_le_nat_alt word_less_nat_alt

definition enc2 :: "rune \<Rightarrow> byte list" where
  "enc2 c = [ucast (0xC0 OR drop_bit 6 c), ucast (0x80 OR (c AND 0x3F))]"
definition enc3 :: "rune \<Rightarrow> byte list" where
  "enc3 c = [ucast (0xE0 OR drop_bit 12 c), ucast (0x80 OR (drop_bit 6 c AND 0x3F)), ucast (0x80 OR (c AND 0x3F))]"
definition enc4 :: "rune \<Rightarrow> byte list" where
  "enc4 c = [ucast (0xF0 OR drop_bit 18 c), ucast (0x80 OR (drop_bit 12 c AND 0x3F)), ucast (0x80 OR (drop_bit 6 c AND 0x3F)), ucast (0x80 OR (c AND 0x3F))]"

lemma sanitize_steps:
  "(let c = (if c > Runemax then Runeerror else c) in
    if SurrogateMin \<le> c \<and> c \<le> SurrogateMax then Runeerror else c) = sanitize c"
  by (auto simp: sanitize_def Let_def)

lemma sanitize_le: "sanitize c \<le> 0x10FFFF"
  by (auto simp: sanitize_def)

lemma runetochar_loop_4: "runetochar_loop c 4 = enc4 c"
  by (subst runetochar_loop.simps) (simp add: upt_small enc4_def)

lemma runetochar_loop_3:
  "runetochar_loop c 3 = (if sanitize c \<le> 0xFFFF then enc3 (sanitize c) else enc4 (sanitize c))"
proof -
  have "runetochar_loop c 3 = (let c = (let c = (if c > Runemax then Runeerror else c) in
    if SurrogateMin \<le> c \<and> c \<le> SurrogateMax then Runeerror else c) in
      if c \<le> 0xFFFF then enc3 c else runetochar_loop c 4)"
    by (subst runetochar_loop.simps) (simp add: upt_small enc3_def Let_def del: utf_consts(7-10))
  then show ?thesis unfolding sanitize_steps by (simp add: Let_def runetochar_loop_4)
qed

lemma runetochar_cases:
  "runetochar c =
     (if c \<le> 0x7F then [ucast c] else if c \<le> 0x7FF then enc2 c
      else if sanitize c \<le> 0xFFFF then enc3 (sanitize c) else enc4 (sanitize c))"
  by (simp add: runetochar_def runetochar_loop.simps [of c 2] runetochar_loop_3 upt_small enc2_def)


definition contin :: "byte \<Rightarrow> bool" where
  "contin b \<longleftrightarrow> (ucast b XOR 0x80) AND 0xC0 = (0::u32)"

abbreviation shift_in :: "u32 \<Rightarrow> byte \<Rightarrow> u32" where
  "shift_in l b \<equiv> push_bit 6 l OR (ucast b XOR 0x80)"

abbreviation bad_utf :: "access_fault + rune \<times> nat" where
  "bad_utf \<equiv> Inr (0xFFFD, 1)"

lemma chartorune_loop_1:
  "chartorune_loop str c0 l (Suc 0) =
     rbind (fetch OutOfBounds str 1) (\<lambda>b.
       if \<not> contin b then bad_utf
       else if c0 < 0xE0 then
         (if c0 < 0xC0 \<or> shift_in l b AND 0x7FF \<le> 0x7F then bad_utf
          else Inr (shift_in l b AND 0x7FF, 2))
       else chartorune_loop str c0 (shift_in l b) 2)"
  by (subst chartorune_loop.simps)
    (simp add: Let_def contin_def T_def RuneX_def Bitpos_def numeral_2_eq_2 cong: if_cong)

lemma chartorune_loop_2:
  "chartorune_loop str c0 l 2 =
     rbind (fetch OutOfBounds str 2) (\<lambda>b.
       if \<not> contin b then bad_utf
       else if c0 < 0xF0 then
         (let r = shift_in l b AND 0xFFFF in
          if r \<le> 0x7FF \<or> r > 0x10FFFF then bad_utf
          else if 0xD800 \<le> r \<and> r \<le> 0xDFFF then bad_utf
          else Inr (r, 3))
       else chartorune_loop str c0 (shift_in l b) 3)"
  by (subst chartorune_loop.simps) (simp add: Let_def contin_def cong: if_cong)

lemma chartorune_loop_4: "chartorune_loop str c0 l 4 = bad_utf"
  by (subst chartorune_loop.simps) simp

lemma chartorune_loop_3:
  "chartorune_loop str c0 l 3 =
     rbind (fetch OutOfBounds str 3) (\<lambda>b.
       if \<not> contin b then bad_utf
       else if c0 < 0xF8 then
         (let r = shift_in l b AND 0x1FFFFF in
          if r \<le> 0xFFFF \<or> r > 0x10FFFF then bad_utf else Inr (r, 4))
       else bad_utf)"
  by (subst chartorune_loop.simps)
    (simp add: Let_def contin_def chartorune_loop_4 cong: if_cong)

lemma chartorune_eq:
  "chartorune str =
     rbind (fetch OutOfBounds str 0) (\<lambda>b.
       if ucast b < (0x80::u32) then Inr (ucast b, 1)
       else chartorune_loop str (ucast b) (ucast b) (Suc 0))"
  by (simp add: chartorune_def Let_def cong: if_cong)

lemmas chartorune_unfold = chartorune_eq chartorune_loop_1 chartorune_loop_2 chartorune_loop_3


lemma contin_mark [simp]: "contin (ucast (0x80 OR (x AND 0x3F)) :: byte)" for x :: u32
  unfolding contin_def by (rule u32_eqI) (simp add: bit_simps)

lemma unmark [simp]:
  "(ucast (ucast (0x80 OR (x AND 0x3F)) :: byte) :: u32) XOR 0x80 = x AND 0x3F" for x :: u32
  by (rule u32_eqI) (simp add: bit_simps)

lemma lead2:
  assumes "(c::u32) \<le> 0x7FF"
  shows "(ucast (ucast (0xC0 OR drop_bit 6 c) :: byte) :: u32) = 0xC0 OR drop_bit 6 c"
    "0xC0 OR drop_bit 6 c \<le> 0xDF"
    "(push_bit 6 (0xC0 OR drop_bit 6 c) OR (c AND 0x3F)) AND 0x7FF = c"
proof -
  have "unat c < 2 ^ 11" using assms by (simp add: word_le_nat_alt)
  note b = word_bit_bound [OF this]
  show "(ucast (ucast (0xC0 OR drop_bit 6 c) :: byte) :: u32) = 0xC0 OR drop_bit 6 c"
    by (rule u32_eqI) (simp add: bit_simps b)
  have "0xC0 OR drop_bit 6 c = (0xC0 OR drop_bit 6 c) AND 0xDF"
    by (rule u32_eqI) (simp add: bit_simps b)
  then show "0xC0 OR drop_bit 6 c \<le> 0xDF" by (metis word_and_le1)
  show "(push_bit 6 (0xC0 OR drop_bit 6 c) OR (c AND 0x3F)) AND 0x7FF = c"
    by (rule u32_eqI) (simp add: bit_simps b)
qed

lemma lead3:
  assumes "(c::u32) \<le> 0xFFFF"
  shows "(ucast (ucast (0xE0 OR drop_bit 12 c) :: byte) :: u32) = 0xE0 OR drop_bit 12 c"
    "0xE0 OR drop_bit 12 c \<le> 0xEF"
    "(push_bit 6 (push_bit 6 (0xE0 OR drop_bit 12 c) OR (drop_bit 6 c AND 0x3F))
      OR (c AND 0x3F)) AND 0xFFFF = c"
proof -
  have "unat c < 2 ^ 16" using assms by (simp add: word_le_nat_alt)
  note b = word_bit_bound [OF this]
  show "(ucast (ucast (0xE0 OR drop_bit 12 c) :: byte) :: u32) = 0xE0 OR drop_bit 12 c"
    by (rule u32_eqI) (simp add: bit_simps b)
  have "0xE0 OR drop_bit 12 c = (0xE0 OR drop_bit 12 c) AND 0xEF"
    by (rule u32_eqI) (simp add: bit_simps b)
  then show "0xE0 OR drop_bit 12 c \<le> 0xEF" by (metis word_and_le1)
  show "(push_bit 6 (push_bit 6 (0xE0 OR drop_bit 12 c) OR (drop_bit 6 c AND 0x3F))
      OR (c AND 0x3F)) AND 0xFFFF = c"
    by (rule u32_eqI) (simp add: bit_simps b)
qed

lemma lead4:
  assumes "(c::u32) \<le> 0x10FFFF"
  shows "(ucast (ucast (0xF0 OR drop_bit 18 c) :: byte) :: u32) = 0xF0 OR drop_bit 18 c"
    "0xF0 OR drop_bit 18 c \<le> 0xF7"
    "(push_bit 6 (push_bit 6 (push_bit 6 (0xF0 OR drop_bit 18 c) OR (drop_bit 12 c AND 0x3F))
      OR (drop_bit 6 c AND 0x3F)) OR (c AND 0x3F)) AND 0x1FFFFF = c"
proof -
  have "unat c < 2 ^ 21" using assms by (simp add: word_le_nat_alt)
  note b = word_bit_bound [OF this]
  show "(ucast (ucast (0xF0 OR drop_bit 18 c) :: byte) :: u32) = 0xF0 OR drop_bit 18 c"
    by (rule u32_eqI) (simp add: bit_simps b)
  have "0xF0 OR drop_bit 18 c = (0xF0 OR drop_bit 18 c) AND 0xF7"
    by (rule u32_eqI) (simp add: bit_simps b)
  then show "0xF0 OR drop_bit 18 c \<le> 0xF7" by (metis word_and_le1)
  show "(push_bit 6 (push_bit 6 (push_bit 6 (0xF0 OR drop_bit 18 c) OR (drop_bit 12 c AND 0x3F))
      OR (drop_bit 6 c AND 0x3F)) OR (c AND 0x3F)) AND 0x1FFFFF = c"
    by (rule u32_eqI) (simp add: bit_simps b)
qed

lemma chartorune_enc1: "c \<le> 0x7F \<Longrightarrow> chartorune (ucast c # rest) = Inr (c, 1)"
proof -
  assume "c \<le> 0x7F"
  then have "unat c < 2 ^ 7" by (simp add: word_le_nat_alt)
  note b = word_bit_bound [OF this]
  have "(ucast (ucast c :: byte) :: u32) = c" by (rule u32_eqI) (simp add: bit_simps b)
  with \<open>c \<le> 0x7F\<close> show ?thesis by (simp add: chartorune_eq word_order)
qed

lemma chartorune_enc2:
  assumes "0x7F < c" "c \<le> 0x7FF"
  shows "chartorune (enc2 c @ rest) = Inr (c, 2)"
proof -
  have "0xC0 \<le> 0xC0 OR drop_bit 6 c" by (rule le_word_or2)
  with assms lead2 [OF assms(2)] show ?thesis
    by (simp add: chartorune_unfold enc2_def word_order)
qed

lemma chartorune_enc3:
  assumes "0x7FF < c" "c \<le> 0xFFFF" "valid_rune c"
  shows "chartorune (enc3 c @ rest) = Inr (c, 3)"
proof -
  have "0xE0 \<le> 0xE0 OR drop_bit 12 c" by (rule le_word_or2)
  with assms lead3 [OF assms(2)] show ?thesis
    by (simp add: chartorune_unfold enc3_def word_order valid_rune_def Let_def)
qed

lemma chartorune_enc4:
  assumes "0xFFFF < c" "c \<le> 0x10FFFF"
  shows "chartorune (enc4 c @ rest) = Inr (c, 4)"
proof -
  have "0xF0 \<le> 0xF0 OR drop_bit 18 c" by (rule le_word_or2)
  with assms lead4 [OF assms(2)] show ?thesis
    by (simp add: chartorune_unfold enc4_def word_order Let_def)
qed

lemma sanitize_valid: "valid_rune c \<Longrightarrow> sanitize c = c"
  by (auto simp: valid_rune_def sanitize_def)

lemma valid_sanitize: "valid_rune (sanitize c)"
  by (auto simp: valid_rune_def sanitize_def)

lemma length_enc [simp]: "length (enc2 c) = 2" "length (enc3 c) = 3" "length (enc4 c) = 4"
  by (simp_all add: enc2_def enc3_def enc4_def)

lemma sanitize_small: "c \<le> 0x7FF \<Longrightarrow> sanitize c = c"
  by (auto simp: sanitize_def word_order)

lemma sanitize_big: "0x7FF < c \<Longrightarrow> 0x7FF < sanitize c"
  by (auto simp: sanitize_def word_order)


lemma contin_bits: "contin b \<longleftrightarrow> bit b 7 \<and> \<not> bit b 6"
proof
  assume "contin b"
  then have e: "(ucast b XOR 0x80) AND 0xC0 = (0::u32)" by (simp add: contin_def)
  have "bit ((ucast b XOR 0x80) AND 0xC0 :: u32) 7 = bit (0::u32) 7"
    "bit ((ucast b XOR 0x80) AND 0xC0 :: u32) 6 = bit (0::u32) 6"
    by (simp_all only: e)
  then show "bit b 7 \<and> \<not> bit b 6" by (simp add: bit_simps)
next
  assume "bit b 7 \<and> \<not> bit b 6"
  then show "contin b" unfolding contin_def by (intro u32_eqI) (simp add: bit_simps)
qed

lemma lead_bits2:
  assumes "0xC0 \<le> (ucast (b::byte) :: u32)" "ucast b < (0xE0::u32)"
  shows "bit b 7 \<and> bit b 6 \<and> \<not> bit b 5"
proof -
  have "192 \<le> unat b" "unat b < 224"
    using assms by (simp_all add: word_order unat_ucast_le)
  then have "unat b div 32 = 6" "unat b div 64 = 3" "unat b div 128 = 1"
    by (simp_all; presburger)+
  then show ?thesis by (simp add: bit_word_div)
qed

lemma lead_bits3:
  assumes "0xE0 \<le> (ucast (b::byte) :: u32)" "ucast b < (0xF0::u32)"
  shows "bit b 7 \<and> bit b 6 \<and> bit b 5 \<and> \<not> bit b 4"
proof -
  have "224 \<le> unat b" "unat b < 240"
    using assms by (simp_all add: word_order unat_ucast_le)
  then have "unat b div 16 = 14" "unat b div 32 = 7" "unat b div 64 = 3" "unat b div 128 = 1"
    by (simp_all; presburger)+
  then show ?thesis by (simp add: bit_word_div)
qed

lemma lead_bits4:
  assumes "0xF0 \<le> (ucast (b::byte) :: u32)" "ucast b < (0xF8::u32)"
  shows "bit b 7 \<and> bit b 6 \<and> bit b 5 \<and> bit b 4 \<and> \<not> bit b 3"
proof -
  have "240 \<le> unat b" "unat b < 248"
    using assms by (simp_all add: word_order unat_ucast_le)
  then have "unat b div 8 = 30" "unat b div 16 = 15" "unat b div 32 = 7" "unat b div 64 = 3" "unat b div 128 = 1"
    by (simp_all; presburger)+
  then show ?thesis by (simp add: bit_word_div)
qed

lemma enc2_decoded:
  assumes "0xC0 \<le> (ucast b0 :: u32)" "ucast b0 < (0xE0::u32)" "contin b1"
  shows "enc2 (shift_in (ucast b0) b1 AND 0x7FF) = [b0, b1]"
proof -
  note l = lead_bits2 [OF assms(1,2)] note c = assms(3) [unfolded contin_bits]
  show ?thesis unfolding enc2_def
    by (intro arg_cong2 [where f = Cons] refl u8_eqI) (simp_all add: bit_simps l c)
qed

lemma enc3_decoded:
  assumes "0xE0 \<le> (ucast b0 :: u32)" "ucast b0 < (0xF0::u32)" "contin b1" "contin b2"
  shows "enc3 (shift_in (shift_in (ucast b0) b1) b2 AND 0xFFFF) = [b0, b1, b2]"
proof -
  note l = lead_bits3 [OF assms(1,2)] note c = assms(3,4) [unfolded contin_bits]
  show ?thesis unfolding enc3_def
    by (intro arg_cong2 [where f = Cons] refl u8_eqI) (simp_all add: bit_simps l c)
qed

lemma enc4_decoded:
  assumes "0xF0 \<le> (ucast b0 :: u32)" "ucast b0 < (0xF8::u32)" "contin b1" "contin b2" "contin b3"
  shows "enc4 (shift_in (shift_in (shift_in (ucast b0) b1) b2) b3 AND 0x1FFFFF) = [b0, b1, b2, b3]"
proof -
  note l = lead_bits4 [OF assms(1,2)] note c = assms(3-5) [unfolded contin_bits]
  show ?thesis unfolding enc4_def
    by (intro arg_cong2 [where f = Cons] refl u8_eqI) (simp_all add: bit_simps l c)
qed

lemma and_mask_le [simp]: "(x AND 0x7FF :: u32) \<le> 0x7FF" "(x AND 0xFFFF :: u32) \<le> 0xFFFF"
  "(x AND 0x1FFFFF :: u32) \<le> 0x1FFFFF"
  by (rule word_and_le1)+

lemma gt_not_le: "a < b \<Longrightarrow> \<not> b \<le> (a :: 'a::linorder)"
  by simp

lemma runetochar_enc2: "0x7F < c \<Longrightarrow> c \<le> 0x7FF \<Longrightarrow> runetochar c = enc2 c"
  by (simp add: runetochar_cases gt_not_le)

lemma runetochar_enc3:
  "0x7FF < c \<Longrightarrow> c \<le> 0xFFFF \<Longrightarrow> valid_rune c \<Longrightarrow> runetochar c = enc3 c"
  by (simp add: runetochar_cases leD sanitize_valid) (simp add: word_order)

lemma runetochar_enc4:
  "0xFFFF < c \<Longrightarrow> c \<le> 0x10FFFF \<Longrightarrow> runetochar c = enc4 c"
  by (simp add: runetochar_cases sanitize_valid valid_rune_def word_order)

lemma fullrune_loop_3:
  "fullrune_loop c n 3 \<longleftrightarrow> (if c < 0xE0 then n \<ge> 2 else if c < 0xF0 then n \<ge> 3 else n \<ge> 4)"
  by (simp add: fullrune_loop.simps [of c n 3] fullrune_loop.simps [of c n 4]
      fullrune_loop.simps [of c n 5])

lemma chartorune_loop_total:
  assumes "n \<le> length str" "c < 0xE0 \<and> 2 \<le> n \<or> c < 0xF0 \<and> 3 \<le> n \<or> 4 \<le> n"
  shows "\<exists>r k. chartorune_loop (take n str) c c (Suc 0) = Inr (r, k) \<and> 1 \<le> k \<and> k \<le> n"
proof -
  consider "2 \<le> n" "c < 0xE0" | "3 \<le> n" "c < 0xF0" "\<not> c < 0xE0" | "4 \<le> n" "\<not> c < 0xE0"
    using assms(2) by fastforce
  then show ?thesis
    by cases (use assms(1) in \<open>simp_all add: chartorune_unfold Let_def\<close>)
qed

lemma runenlen_single:
  "(if c \<le> Rune1 then 1 else runenlen_loop c 2) =
   length (runetochar c) + (if c \<le> Runemax then 0 else 1)"
proof -
  have l: "runenlen_loop c 2 = (if c \<le> 0x7FF then 2 else if c \<le> 0xFFFF then 3 else 4)"
    by (simp add: runenlen_loop.simps [of c 2] runenlen_loop.simps [of c 3]
        runenlen_loop.simps [of c 4])
  show ?thesis
    by (simp add: l runetochar_cases) (simp add: sanitize_def word_order)
qed

text \<open>
  C15. Decoding inverts encoding: \<open>chartorune\<close> applied to the bytes \<open>runetochar\<close> stores,
  whatever follows them, yields the rune (surrogates and values above \<open>Runemax\<close> having
  become \<open>Runeerror\<close>) and exactly the number of bytes stored.
\<close>

theorem chartorune_runetochar:
  "chartorune (runetochar c @ rest) = Inr (sanitize c, length (runetochar c))"
proof -
  consider "c \<le> 0x7F" | "0x7F < c" "c \<le> 0x7FF" | "0x7FF < c" "sanitize c \<le> 0xFFFF"
    | "0x7FF < c" "0xFFFF < sanitize c"
    by (meson linorder_not_le)
  then show ?thesis
  proof cases
    case 1
    then show ?thesis using chartorune_enc1 [of c rest] sanitize_small [of c]
      by (simp add: runetochar_cases word_order)
  next
    case 2
    then show ?thesis using chartorune_enc2 [OF 2] sanitize_small [of c]
      by (simp add: runetochar_cases gt_not_le)
  next
    case 3
    then have "\<not> c \<le> 0x7F" by (simp add: word_order)
    with 3 show ?thesis using chartorune_enc3 [OF sanitize_big [OF 3(1)] 3(2) valid_sanitize]
      by (simp add: runetochar_cases gt_not_le)
  next
    case 4
    then have "\<not> c \<le> 0x7F" by (simp add: word_order)
    with 4 show ?thesis using chartorune_enc4 [OF 4(2) sanitize_le]
      by (simp add: runetochar_cases gt_not_le)
  qed
qed

text \<open>
  C16. The decoder accepts canonical UTF-8 only: whenever \<open>chartorune\<close> yields anything but
  the bad-sequence result, the bytes consumed are exactly what \<open>runetochar\<close> stores for
  that rune, and the rune is neither a surrogate nor above \<open>Runemax\<close>.  No overlong form is
  accepted.
\<close>

theorem chartorune_canonical:
  assumes "chartorune str = Inr (r, n)" "(r, n) \<noteq> (Runeerror, 1)"
  shows "runetochar r = take n str \<and> valid_rune r"
proof -
  obtain b0 s1 where str: "str = b0 # s1"
    using assms(1) by (cases str) (auto simp: chartorune_eq)
  consider "ucast b0 < (0x80::u32)" | "\<not> ucast b0 < (0x80::u32)" "ucast b0 < (0xE0::u32)"
    | "\<not> ucast b0 < (0xE0::u32)" "ucast b0 < (0xF0::u32)" | "\<not> ucast b0 < (0xF0::u32)"
    by blast
  then show ?thesis
  proof cases
    case 1
    then have "r = ucast b0" "n = 1" "ucast b0 \<le> (0x7F::u32)"
      using assms str by (auto simp: chartorune_eq word_order)
    moreover have "ucast (ucast b0 :: u32) = b0" by (rule u8_eqI) (simp add: bit_simps)
    ultimately show ?thesis by (simp add: runetochar_cases str valid_rune_def word_order)
  next
    case 2
    then obtain b1 s2 where s1: "s1 = b1 # s2" using assms(1) str
      by (cases s1) (auto simp: chartorune_unfold)
    with 2 assms str have r: "r = shift_in (ucast b0) b1 AND 0x7FF" "n = 2" "contin b1"
      "0xC0 \<le> (ucast b0 :: u32)" "0x7F < r"
      by (auto simp: chartorune_unfold split: if_splits)
    then have "r \<le> 0x7FF" by simp
    moreover have "valid_rune r" using \<open>r \<le> 0x7FF\<close> by (auto simp: valid_rune_def word_order)
    ultimately show ?thesis using enc2_decoded [OF r(4) 2(2) r(3)] runetochar_enc2 r
      by (simp add: str s1)
  next
    case 3
    then have nlt: "\<not> ucast b0 < (0x80::u32)" by (simp add: word_order)
    with 3 obtain b1 b2 s2 where s1: "s1 = b1 # b2 # s2" using assms str
      by (cases s1; cases "tl s1") (auto simp: chartorune_unfold split: if_splits)
    with 3 nlt assms str have r: "r = shift_in (shift_in (ucast b0) b1) b2 AND 0xFFFF" "n = 3"
      "contin b1" "contin b2" "0x7FF < r" "\<not> (0xD800 \<le> r \<and> r \<le> 0xDFFF)" "\<not> r > 0x10FFFF"
      by (auto simp: chartorune_unfold Let_def split: if_splits)
    then have "r \<le> 0xFFFF" "valid_rune r" by (simp_all add: valid_rune_def)
    then show ?thesis using enc3_decoded [OF _ 3(2) r(3,4)] 3(1) runetochar_enc3 r
      by (simp add: str s1)
  next
    case 4
    then have nlt: "\<not> ucast b0 < (0x80::u32)" "\<not> ucast b0 < (0xE0::u32)"
      by (simp_all add: word_order)
    with 4 obtain b1 b2 b3 s2 where s1: "s1 = b1 # b2 # b3 # s2" using assms str
      by (cases s1; cases "tl s1"; cases "tl (tl s1)")
        (auto simp: chartorune_unfold split: if_splits)
    with 4 nlt assms str have r: "n = 4"
      "r = shift_in (shift_in (shift_in (ucast b0) b1) b2) b3 AND 0x1FFFFF"
      "contin b1" "contin b2" "contin b3" "ucast b0 < (0xF8::u32)" "0xFFFF < r" "r \<le> 0x10FFFF"
      by (auto simp: chartorune_unfold Let_def split: if_splits)
    then have "valid_rune r" by (auto simp: valid_rune_def word_order)
    then show ?thesis using enc4_decoded [OF _ r(6) r(3-5)] 4(1) runetochar_enc4 r
      by (simp add: str s1)
  qed
qed

theorem chartorune_canonical_witness:
  "runetochar 0x20AC = take 3 [0xE2, 0x82, 0xAC, 0x21] \<and> valid_rune 0x20AC"
  by (rule chartorune_canonical) (simp_all add: chartorune_unfold contin_def Let_def)

text \<open>
  C30. When \<open>fullrune\<close> accepts the first \<open>n\<close> bytes, \<open>chartorune\<close> on these \<open>n\<close> bytes reads
  nothing past them, and consumes at least one and at most \<open>n\<close> of them.
\<close>

theorem fullrune_sound:
  assumes "fullrune str (int n) = Inr True" "n \<le> length str"
  shows "\<exists>r k. chartorune (take n str) = Inr (r, k) \<and> 1 \<le> k \<and> k \<le> n"
proof (cases "ucast (str ! 0) < (0x80::u32)")
  case True
  then show ?thesis using assms by (auto simp: fullrune_def chartorune_eq fetch_def split: if_splits)
next
  case False
  then have "fullrune_loop (ucast (str ! 0)) (int n) 3" "0 < n"
    using assms by (auto simp: fullrune_def fetch_def split: if_splits)
  then show ?thesis
    using chartorune_loop_total [of n str "ucast (str ! 0)"] assms(2) False
    by (auto simp: chartorune_eq fullrune_loop_3 split: if_splits)
qed

theorem fullrune_sound_witness:
  "\<exists>r k. chartorune (take 2 [0xC3, 0xA9, 0x41]) = Inr (r, k) \<and> 1 \<le> k \<and> k \<le> 2"
  by (rule fullrune_sound) (simp_all add: fullrune_def fullrune_loop_3)

text \<open>
  \<open>runenlen\<close> never counts fewer bytes than \<open>runetochar\<close> stores, so a buffer sized by it
  is large enough; it counts exactly them unless a rune lies above \<open>Runemax\<close>.
\<close>

theorem runenlen_bytes:
  "sum_list (map (\<lambda>c. length (runetochar c)) cs) \<le> runenlen cs \<and>
   (runenlen cs = sum_list (map (\<lambda>c. length (runetochar c)) cs) \<longleftrightarrow> (\<forall>c \<in> set cs. c \<le> Runemax))"
  by (induction cs) (auto simp: runenlen_single simp del: utf_consts split: if_splits)

theorem runenlen_bytes_witness:
  "runenlen [0x41, 0x20AC] = sum_list (map (\<lambda>c. length (runetochar c)) [0x41, 0x20AC])"
  using runenlen_bytes [of "[0x41, 0x20AC]"] by simp

end
