(* ===== verification/Fcall.thy ===== *)
theory Fcall
  imports Prelude
begin

text \<open>
  The 9P2000 (Styx) message codec: \<^verbatim>\<open>include/fcall.h\<close>, \<^verbatim>\<open>libkern/convM2S.c\<close> and
  \<^verbatim>\<open>libkern/convS2M.c\<close> (\<^verbatim>\<open>lib9\<close> has the same text).  \<open>convM2S\<close> parses a message out of a
  byte buffer into an \<open>Fcall\<close>, \<open>sizeS2M\<close> computes the size of a message and \<open>convS2M\<close>
  writes it.  A pointer into the buffer is an offset; every access is checked against
  the buffer object.  Integer fields have the widths of an LP64 build (\<open>ulong\<close> is 64 bits).
\<close>

section \<open>Data: fcall.h\<close>

text \<open>A \<open>char*\<close> field: \<open>None\<close> is \<open>nil\<close>; the string ends at its first zero byte or at its end.\<close>

type_synonym cstr = "byte list option"

definition c_string :: "byte list \<Rightarrow> byte list" where
  "c_string s = takeWhile (\<lambda>b. b \<noteq> 0) s"

record Qid =
  q_path :: u64
  q_vers :: u64
  q_type :: byte

record Fcall =
  fc_type :: byte
  fc_fid :: u32
  fc_tag :: u16
  fc_msize :: u32
  fc_version :: cstr
  fc_oldtag :: u16
  fc_ename :: cstr
  fc_qid :: Qid
  fc_iounit :: u32
  fc_aqid :: Qid
  fc_afid :: u32
  fc_uname :: cstr
  fc_aname :: cstr
  fc_perm :: u32
  fc_name :: cstr
  fc_mode :: byte
  fc_newfid :: u32
  fc_nwname :: u16
  fc_wname :: "cstr list"
  fc_nwqid :: u16
  fc_wqid :: "Qid list"
  fc_offset :: u64
  fc_count :: u32
  fc_data :: "byte list"
  fc_nstat :: u16
  fc_stat :: "byte list"

definition MAXWELEM :: nat where "MAXWELEM = 16"
definition BIT8SZ :: nat where "BIT8SZ = 1"
definition BIT16SZ :: nat where "BIT16SZ = 2"
definition BIT32SZ :: nat where "BIT32SZ = 4"
definition BIT64SZ :: nat where "BIT64SZ = 8"
definition QIDSZ :: nat where "QIDSZ = BIT8SZ + BIT32SZ + BIT64SZ"
definition STATFIXLEN :: nat where
  "STATFIXLEN = BIT16SZ + QIDSZ + 5 * BIT16SZ + 4 * BIT32SZ + 1 * BIT64SZ"

lemma sz_consts [simp]:
  "MAXWELEM = 16" "BIT8SZ = 1" "BIT16SZ = 2" "BIT32SZ = 4" "BIT64SZ = 8" "QIDSZ = 13"
  "STATFIXLEN = 49"
  by (simp_all add: MAXWELEM_def BIT8SZ_def BIT16SZ_def BIT32SZ_def BIT64SZ_def QIDSZ_def
      STATFIXLEN_def)

definition Tversion :: byte where "Tversion = 100"
definition Rversion :: byte where "Rversion = 101"
definition Tauth :: byte where "Tauth = 102"
definition Rauth :: byte where "Rauth = 103"
definition Tattach :: byte where "Tattach = 104"
definition Rattach :: byte where "Rattach = 105"
definition Rerror :: byte where "Rerror = 107"
definition Tflush :: byte where "Tflush = 108"
definition Rflush :: byte where "Rflush = 109"
definition Twalk :: byte where "Twalk = 110"
definition Rwalk :: byte where "Rwalk = 111"
definition Topen :: byte where "Topen = 112"
definition Ropen :: byte where "Ropen = 113"
definition Tcreate :: byte where "Tcreate = 114"
definition Rcreate :: byte where "Rcreate = 115"
definition Tread :: byte where "Tread = 116"
definition Rread :: byte where "Rread = 117"
definition Twrite :: byte where "Twrite = 118"
definition Rwrite :: byte where "Rwrite = 119"
definition Tclunk :: byte where "Tclunk = 120"
definition Rclunk :: byte where "Rclunk = 121"
definition Tremove :: byte where "Tremove = 122"
definition Rremove :: byte where "Rremove = 123"
definition Tstat :: byte where "Tstat = 124"
definition Rstat :: byte where "Rstat = 125"
definition Twstat :: byte where "Twstat = 126"
definition Rwstat :: byte where "Rwstat = 127"

lemmas type_codes = Tversion_def Rversion_def Tauth_def Rauth_def Tattach_def Rattach_def
  Rerror_def Tflush_def Rflush_def Twalk_def Rwalk_def Topen_def Ropen_def Tcreate_def
  Rcreate_def Tread_def Rread_def Twrite_def Rwrite_def Tclunk_def Rclunk_def Tremove_def
  Rremove_def Tstat_def Rstat_def Twstat_def Rwstat_def

section \<open>Little-endian integers\<close>

definition GBIT8 :: "byte list \<Rightarrow> nat \<Rightarrow> access_fault + byte" where
  "GBIT8 b p = fetch OutOfBounds b p"

definition GBIT16 :: "byte list \<Rightarrow> nat \<Rightarrow> access_fault + u32" where
  "GBIT16 b p =
     rbind (fetch OutOfBounds b p) (\<lambda>b0.
     rbind (fetch OutOfBounds b (p + 1)) (\<lambda>b1.
     Inr (ucast b0 OR push_bit 8 (ucast b1))))"

definition GBIT32 :: "byte list \<Rightarrow> nat \<Rightarrow> access_fault + u32" where
  "GBIT32 b p =
     rbind (fetch OutOfBounds b p) (\<lambda>b0.
     rbind (fetch OutOfBounds b (p + 1)) (\<lambda>b1.
     rbind (fetch OutOfBounds b (p + 2)) (\<lambda>b2.
     rbind (fetch OutOfBounds b (p + 3)) (\<lambda>b3.
     Inr (ucast b0 OR push_bit 8 (ucast b1) OR push_bit 16 (ucast b2)
       OR push_bit 24 (ucast b3))))))"

definition GBIT64 :: "byte list \<Rightarrow> nat \<Rightarrow> access_fault + u64" where
  "GBIT64 b p =
     rbind (GBIT32 b p) (\<lambda>l. rbind (GBIT32 b (p + 4)) (\<lambda>h.
     Inr (ucast l OR push_bit 32 (ucast h))))"

definition PBIT8 :: "'a::len word \<Rightarrow> byte list" where
  "PBIT8 v = [ucast v]"

definition PBIT16 :: "'a::len word \<Rightarrow> byte list" where
  "PBIT16 v = [ucast v, ucast (drop_bit 8 v)]"

definition PBIT32 :: "'a::len word \<Rightarrow> byte list" where
  "PBIT32 v = [ucast v, ucast (drop_bit 8 v), ucast (drop_bit 16 v), ucast (drop_bit 24 v)]"

definition PBIT64 :: "u64 \<Rightarrow> byte list" where
  "PBIT64 v = [ucast v, ucast (drop_bit 8 v), ucast (drop_bit 16 v), ucast (drop_bit 24 v),
     ucast (drop_bit 32 v), ucast (drop_bit 40 v), ucast (drop_bit 48 v), ucast (drop_bit 56 v)]"

section \<open>The wire format\<close>

text \<open>
  What a message is on the wire, as a specification that reader and writer are checked
  against: a sequence of typed fields.  \<open>layout\<close> gives the fields that a message of each
  type carries, in the order of the protocol.
\<close>

datatype wfield = W8 byte | W16 u16 | W32 u32 | W64 u64 | WStr "byte list" | WQid Qid
  | WData "byte list"

fun wire_field :: "wfield \<Rightarrow> byte list" where
  "wire_field (W8 v) = PBIT8 v"
| "wire_field (W16 v) = PBIT16 v"
| "wire_field (W32 v) = PBIT32 v"
| "wire_field (W64 v) = PBIT64 v"
| "wire_field (WStr s) = PBIT16 (of_nat (length s) :: u16) @ s"
| "wire_field (WQid q) = PBIT8 (q_type q) @ PBIT32 (q_vers q) @ PBIT64 (q_path q)"
| "wire_field (WData d) = d"

definition wire :: "wfield list \<Rightarrow> byte list" where
  "wire ws = concat (map wire_field ws)"

lemma wire_simps [simp]:
  "wire [] = []" "wire (w # ws) = wire_field w @ wire ws" "wire (vs @ ws) = wire vs @ wire ws"
  by (simp_all add: wire_def)

definition str_of :: "cstr \<Rightarrow> byte list" where
  "str_of s = (case s of None \<Rightarrow> [] | Some t \<Rightarrow> c_string t)"

text \<open>
  The strings are read with \<open>rd\<close>: \<open>str_of\<close> reads a C string up to its NUL, \<open>raw_str\<close> all the bytes
  a parsed string has.
\<close>

definition raw_str :: "cstr \<Rightarrow> byte list" where
  "raw_str s = (case s of None \<Rightarrow> [] | Some t \<Rightarrow> t)"

definition layout_by :: "(cstr \<Rightarrow> byte list) \<Rightarrow> Fcall \<Rightarrow> wfield list option" where
  "layout_by rd f =
     (let t = fc_type f in
      if t = Tversion \<or> t = Rversion then Some [W32 (fc_msize f), WStr (rd (fc_version f))]
      else if t = Tauth then
        Some [W32 (fc_afid f), WStr (rd (fc_uname f)), WStr (rd (fc_aname f))]
      else if t = Tattach then Some [W32 (fc_fid f), W32 (fc_afid f),
        WStr (rd (fc_uname f)), WStr (rd (fc_aname f))]
      else if t = Tflush then Some [W16 (fc_oldtag f)]
      else if t = Twalk then Some ([W32 (fc_fid f), W32 (fc_newfid f), W16 (fc_nwname f)] @
        map (\<lambda>s. WStr (rd s)) (take (unat (fc_nwname f)) (fc_wname f)))
      else if t = Topen then Some [W32 (fc_fid f), W8 (fc_mode f)]
      else if t = Tcreate then Some [W32 (fc_fid f), WStr (rd (fc_name f)),
        W32 (fc_perm f), W8 (fc_mode f)]
      else if t = Tread then Some [W32 (fc_fid f), W64 (fc_offset f), W32 (fc_count f)]
      else if t = Twrite then Some [W32 (fc_fid f), W64 (fc_offset f), W32 (fc_count f),
        WData (take (unat (fc_count f)) (fc_data f))]
      else if t = Tclunk \<or> t = Tremove \<or> t = Tstat then Some [W32 (fc_fid f)]
      else if t = Twstat then Some [W32 (fc_fid f), W16 (fc_nstat f),
        WData (take (unat (fc_nstat f)) (fc_stat f))]
      else if t = Rerror then Some [WStr (rd (fc_ename f))]
      else if t = Rflush \<or> t = Rclunk \<or> t = Rremove \<or> t = Rwstat then Some []
      else if t = Rauth then Some [WQid (fc_aqid f)]
      else if t = Rattach then Some [WQid (fc_qid f)]
      else if t = Rwalk then Some (W16 (fc_nwqid f) #
        map WQid (take (unat (fc_nwqid f)) (fc_wqid f)))
      else if t = Ropen \<or> t = Rcreate then Some [WQid (fc_qid f), W32 (fc_iounit f)]
      else if t = Rread then
        Some [W32 (fc_count f), WData (take (unat (fc_count f)) (fc_data f))]
      else if t = Rwrite then Some [W32 (fc_count f)]
      else if t = Rstat then Some [W16 (fc_nstat f), WData (take (unat (fc_nstat f)) (fc_stat f))]
      else None)"

definition layout :: "Fcall \<Rightarrow> wfield list option" where
  "layout f = layout_by str_of f"

lemma layout_simps:
  "fc_type f = Tversion \<Longrightarrow> layout f = Some [W32 (fc_msize f), WStr (str_of (fc_version f))]"
  "fc_type f = Rversion \<Longrightarrow> layout f = Some [W32 (fc_msize f), WStr (str_of (fc_version f))]"
  "fc_type f = Tauth \<Longrightarrow> layout f = Some [W32 (fc_afid f), WStr (str_of (fc_uname f)), WStr (str_of (fc_aname f))]"
  "fc_type f = Tattach \<Longrightarrow> layout f = Some [W32 (fc_fid f), W32 (fc_afid f), WStr (str_of (fc_uname f)), WStr (str_of (fc_aname f))]"
  "fc_type f = Tflush \<Longrightarrow> layout f = Some [W16 (fc_oldtag f)]"
  "fc_type f = Twalk \<Longrightarrow> layout f = Some ([W32 (fc_fid f), W32 (fc_newfid f), W16 (fc_nwname f)] @
     map WStr (map str_of (take (unat (fc_nwname f)) (fc_wname f))) @ [])"
  "fc_type f = Topen \<Longrightarrow> layout f = Some [W32 (fc_fid f), W8 (fc_mode f)]"
  "fc_type f = Tcreate \<Longrightarrow> layout f = Some [W32 (fc_fid f), WStr (str_of (fc_name f)), W32 (fc_perm f), W8 (fc_mode f)]"
  "fc_type f = Tread \<Longrightarrow> layout f = Some [W32 (fc_fid f), W64 (fc_offset f), W32 (fc_count f)]"
  "fc_type f = Twrite \<Longrightarrow> layout f = Some [W32 (fc_fid f), W64 (fc_offset f), W32 (fc_count f),
     WData (take (unat (fc_count f)) (fc_data f))]"
  "fc_type f = Tclunk \<Longrightarrow> layout f = Some [W32 (fc_fid f)]"
  "fc_type f = Tremove \<Longrightarrow> layout f = Some [W32 (fc_fid f)]"
  "fc_type f = Tstat \<Longrightarrow> layout f = Some [W32 (fc_fid f)]"
  "fc_type f = Twstat \<Longrightarrow> layout f = Some [W32 (fc_fid f), W16 (fc_nstat f),
     WData (take (unat (fc_nstat f)) (fc_stat f))]"
  "fc_type f = Rerror \<Longrightarrow> layout f = Some [WStr (str_of (fc_ename f))]"
  "fc_type f = Rflush \<Longrightarrow> layout f = Some []"
  "fc_type f = Rclunk \<Longrightarrow> layout f = Some []"
  "fc_type f = Rremove \<Longrightarrow> layout f = Some []"
  "fc_type f = Rwstat \<Longrightarrow> layout f = Some []"
  "fc_type f = Rauth \<Longrightarrow> layout f = Some [WQid (fc_aqid f)]"
  "fc_type f = Rattach \<Longrightarrow> layout f = Some [WQid (fc_qid f)]"
  "fc_type f = Rwalk \<Longrightarrow> layout f = Some (W16 (fc_nwqid f) #
     map WQid (take (unat (fc_nwqid f)) (fc_wqid f)) @ [])"
  "fc_type f = Ropen \<Longrightarrow> layout f = Some [WQid (fc_qid f), W32 (fc_iounit f)]"
  "fc_type f = Rcreate \<Longrightarrow> layout f = Some [WQid (fc_qid f), W32 (fc_iounit f)]"
  "fc_type f = Rread \<Longrightarrow> layout f = Some [W32 (fc_count f), WData (take (unat (fc_count f)) (fc_data f))]"
  "fc_type f = Rwrite \<Longrightarrow> layout f = Some [W32 (fc_count f)]"
  "fc_type f = Rstat \<Longrightarrow> layout f = Some [W16 (fc_nstat f), WData (take (unat (fc_nstat f)) (fc_stat f))]"
  by (simp_all add: layout_def layout_by_def type_codes o_def)

text \<open>The bytes of a message: its total size, type, tag and the fields of its type.\<close>

definition header :: "u32 \<Rightarrow> Fcall \<Rightarrow> wfield list" where
  "header n f = [W32 n, W8 (fc_type f), W16 (fc_tag f)]"

definition msg_size :: "wfield list \<Rightarrow> nat" where
  "msg_size ws = 7 + length (wire ws)"

definition message :: "Fcall \<Rightarrow> byte list" where
  "message f = (case layout f of None \<Rightarrow> []
     | Some ws \<Rightarrow> wire (header (of_nat (msg_size ws)) f @ ws))"

section \<open>Integers read back\<close>

lemma length_PBIT [simp]:
  "length (PBIT8 v) = 1" "length (PBIT16 v) = 2" "length (PBIT32 v) = 4" "length (PBIT64 x) = 8"
  by (simp_all add: PBIT8_def PBIT16_def PBIT32_def PBIT64_def)

lemma take_drop_nth:
  "p + 1 \<le> length b \<Longrightarrow> take 1 (drop p b) = [b ! p]"
  "p + 2 \<le> length b \<Longrightarrow> take 2 (drop p b) = [b ! p, b ! (p + 1)]"
  "p + 4 \<le> length b \<Longrightarrow> take 4 (drop p b) = [b ! p, b ! (p + 1), b ! (p + 2), b ! (p + 3)]"
  by (simp_all add: numeral_eq_Suc take_Suc_conv_app_nth)

lemma GBIT8_ok: "p + 1 \<le> length b \<Longrightarrow> \<exists>v. GBIT8 b p = Inr v \<and> take 1 (drop p b) = PBIT8 v"
  using take_drop_nth(1) [of p b] by (simp add: GBIT8_def PBIT8_def)

lemma GBIT16_ok: "p + 2 \<le> length b \<Longrightarrow>
    \<exists>v. GBIT16 b p = Inr v \<and> take 2 (drop p b) = PBIT16 v \<and> unat v < 65536"
proof -
  have lt: "unat (ucast x OR push_bit 8 (ucast y) :: u32) < 65536" for x y :: byte
  proof -
    have "(ucast x OR push_bit 8 (ucast y) :: u32) = (ucast x OR push_bit 8 (ucast y)) AND 0xFFFF"
      by (rule u32_eqI) (simp add: bit_simps)
    then have "(ucast x OR push_bit 8 (ucast y) :: u32) \<le> 0xFFFF" by (metis word_and_le1)
    then show ?thesis by (simp add: word_le_nat_alt)
  qed
  assume "p + 2 \<le> length b"
  then show ?thesis
    by (simp add: GBIT16_def PBIT16_def take_drop_nth lt, intro conjI; intro u8_eqI; simp add: bit_simps)
qed

lemma GBIT32_ok: "p + 4 \<le> length b \<Longrightarrow> \<exists>v. GBIT32 b p = Inr v \<and> take 4 (drop p b) = PBIT32 v"
  by (simp add: GBIT32_def PBIT32_def take_drop_nth, intro conjI; rule u8_eqI; simp add: bit_simps)

lemma take_add_drop: "take (m + n) (drop p b) = take m (drop p b) @ take n (drop (p + m) b)"
  by (simp add: take_add add.commute)

lemma PBIT64_halves: "PBIT64 v = PBIT32 (ucast v :: u32) @ PBIT32 (ucast (drop_bit 32 v) :: u32)"
  by (simp add: PBIT64_def PBIT32_def, intro conjI; rule u8_eqI; simp add: bit_simps)

lemma join_halves:
  "(ucast (ucast l OR push_bit 32 (ucast h) :: u64) :: u32) = l"
  "(ucast (drop_bit 32 (ucast l OR push_bit 32 (ucast h) :: u64)) :: u32) = h" for l h :: u32
  by (rule u32_eqI; simp add: bit_simps)+

lemma PBIT64_join:
  "PBIT64 (ucast l OR push_bit 32 (ucast h)) = PBIT32 l @ PBIT32 h" for l h :: u32
  by (simp only: PBIT64_halves join_halves)

lemma GBIT64_ok:
  assumes "p + 8 \<le> length b"
  shows "\<exists>v. GBIT64 b p = Inr v \<and> take 8 (drop p b) = PBIT64 v"
proof -
  from assms obtain l where l: "GBIT32 b p = Inr l" "take 4 (drop p b) = PBIT32 l"
    using GBIT32_ok [of p b] by auto
  from assms obtain h where h: "GBIT32 b (p + 4) = Inr h" "take 4 (drop (p + 4) b) = PBIT32 h"
    using GBIT32_ok [of "p + 4" b] by auto
  show ?thesis
    using take_add_drop [of 4 4 p b]
    by (simp add: GBIT64_def l h PBIT64_join)
qed

lemma PBIT16_ucast [simp]: "PBIT16 (ucast (v :: u32) :: u16) = PBIT16 v"
  by (simp add: PBIT16_def, intro conjI; rule u8_eqI; simp add: bit_simps)

lemma PBIT32_ucast [simp]: "PBIT32 (ucast (v :: u32) :: u64) = PBIT32 v"
  by (simp add: PBIT32_def, intro conjI; rule u8_eqI; simp add: bit_simps)

lemma nth_of_drop: "drop p b = xs @ r \<Longrightarrow> i < length xs \<Longrightarrow> p + i < length b \<and> b ! (p + i) = xs ! i"
  by (metis append_take_drop_id length_drop length_append less_diff_conv nth_append nth_drop
      add.commute trans_less_add1 less_imp_le_nat drop_eq_Nil linorder_not_le append_is_Nil_conv
      list.size(3) not_less_zero)

lemma GBIT8_put: "drop p b = PBIT8 v @ r \<Longrightarrow> GBIT8 b p = Inr v"
  using nth_of_drop [of p b "PBIT8 v" r 0] by (simp add: GBIT8_def PBIT8_def)

lemma GBIT16_put:
  assumes "drop p b = PBIT16 (v :: u16) @ r"
  shows "GBIT16 b p = Inr (ucast v)"
proof -
  have "(ucast (ucast v :: byte) OR push_bit 8 (ucast (ucast (drop_bit 8 v) :: byte)) :: u32) = ucast v"
    by (rule u32_eqI) (simp add: bit_simps)
  then show ?thesis
    using nth_of_drop [OF assms, of 0] nth_of_drop [OF assms, of 1]
    by (simp add: GBIT16_def PBIT16_def)
qed

lemma GBIT32_put:
  assumes "drop p b = PBIT32 (v :: u32) @ r"
  shows "GBIT32 b p = Inr v"
proof -
  have "(ucast (ucast v :: byte) OR push_bit 8 (ucast (ucast (drop_bit 8 v) :: byte)) OR
      push_bit 16 (ucast (ucast (drop_bit 16 v) :: byte)) OR
      push_bit 24 (ucast (ucast (drop_bit 24 v) :: byte)) :: u32) = v"
    by (rule u32_eqI) (simp add: bit_simps)
  then show ?thesis
    using nth_of_drop [OF assms, of 0] nth_of_drop [OF assms, of 1] nth_of_drop [OF assms, of 2]
      nth_of_drop [OF assms, of 3]
    by (simp add: GBIT32_def PBIT32_def numeral_3_eq_3)
qed

lemma GBIT64_put:
  assumes "drop p b = PBIT64 v @ r"
  shows "GBIT64 b p = Inr v"
proof -
  have "drop (p + 4) b = PBIT32 (ucast (drop_bit 32 v) :: u32) @ r"
    using arg_cong [OF assms, of "drop 4"] by (simp add: PBIT64_halves add.commute)
  moreover have "(ucast (ucast v :: u32) OR push_bit 32 (ucast (ucast (drop_bit 32 v) :: u32)) :: u64) = v"
    by (rule bit_word_eqI) (auto simp: bit_simps)
  ultimately show ?thesis
    using GBIT32_put [of p b "ucast v"] GBIT32_put [of "p + 4" b] assms
    by (simp add: GBIT64_def PBIT64_halves)
qed

lemma PBIT32_inj: "PBIT32 (v :: u32) = PBIT32 w \<Longrightarrow> v = w"
  using GBIT32_put [of 0 "PBIT32 v" v "[]"] GBIT32_put [of 0 "PBIT32 v" w "[]"] by simp

text \<open>
  The messages the protocol can express: strings and counts fit their fields, the arrays
  have their declared length, and the data is there.
\<close>

fun field_ok :: "wfield \<Rightarrow> bool" where
  "field_ok (WStr s) = (length s < 65536)"
| "field_ok (WQid q) = (unat (q_vers q) < 2 ^ 32)"
| "field_ok _ = True"

definition expressible :: "Fcall \<Rightarrow> bool" where
  "expressible f \<longleftrightarrow>
     length (fc_wname f) = MAXWELEM \<and> length (fc_wqid f) = MAXWELEM \<and>
     unat (fc_nwname f) \<le> MAXWELEM \<and> unat (fc_nwqid f) \<le> MAXWELEM \<and>
     (fc_type f = Twrite \<or> fc_type f = Rread \<longrightarrow> unat (fc_count f) \<le> length (fc_data f)) \<and>
     (fc_type f = Twstat \<or> fc_type f = Rstat \<longrightarrow> unat (fc_nstat f) \<le> length (fc_stat f)) \<and>
     (case layout f of None \<Rightarrow> False | Some ws \<Rightarrow> (\<forall>w \<in> set ws. field_ok w) \<and> msg_size ws < 2 ^ 32)"

lemma c_string_nul_free: "0 \<notin> set s \<Longrightarrow> c_string s = s"
  unfolding c_string_def by (rule takeWhile_eq_all_conv [THEN iffD2]) auto

lemma c_string_idem [simp]: "c_string (c_string s) = c_string s"
  by (rule c_string_nul_free) (auto simp: c_string_def dest: set_takeWhileD)

lemma str_of_idem [simp]: "str_of (Some (str_of s)) = str_of s"
  by (cases s) (simp_all add: str_of_def c_string_def)

end
