(* ===== verification/Cursor.thy ===== *)
theory Cursor
  imports Fcall
begin

text \<open>
  Reading typed fields from a byte buffer through a cursor, as the parsers of 9P messages and
  directory entries do: the steps, and for each step two rules.  The \<open>sound\<close> rules hold on any
  input and say what the bytes consumed were; the \<open>done\<close> rules say that a step does not stop
  on the bytes of the field it expects.
\<close>

section \<open>Cursor steps\<close>

text \<open>
  The locals of a parser: the buffer (which \<open>gstring\<close> modifies), the pointer \<open>p\<close> and the
  structure being filled.  A routine that makes \<open>p\<close> nil leads to \<open>return 0\<close> on every path,
  so it ends the run.
\<close>

record 'f mstate =
  ms_buf :: "byte list"
  ms_p :: nat
  ms_f :: 'f

type_synonym 'f cstep = "('f mstate, unit) proc"

definition room :: "nat \<Rightarrow> nat \<Rightarrow> 'f cstep" where
  "room ep n s = need (ms_p s + n \<le> ep) s"

definition ld8 :: "(byte \<Rightarrow> 'f \<Rightarrow> 'f) \<Rightarrow> 'f cstep" where
  "ld8 u = lift (\<lambda>s. rbind (GBIT8 (ms_buf s) (ms_p s))
     (\<lambda>v. Inr (s\<lparr>ms_p := ms_p s + BIT8SZ, ms_f := u v (ms_f s)\<rparr>)))"

definition ld16 :: "(u32 \<Rightarrow> 'f \<Rightarrow> 'f) \<Rightarrow> 'f cstep" where
  "ld16 u = lift (\<lambda>s. rbind (GBIT16 (ms_buf s) (ms_p s))
     (\<lambda>v. Inr (s\<lparr>ms_p := ms_p s + BIT16SZ, ms_f := u v (ms_f s)\<rparr>)))"

definition ld32 :: "(u32 \<Rightarrow> 'f \<Rightarrow> 'f) \<Rightarrow> 'f cstep" where
  "ld32 u = lift (\<lambda>s. rbind (GBIT32 (ms_buf s) (ms_p s))
     (\<lambda>v. Inr (s\<lparr>ms_p := ms_p s + BIT32SZ, ms_f := u v (ms_f s)\<rparr>)))"

definition ld64 :: "(u64 \<Rightarrow> 'f \<Rightarrow> 'f) \<Rightarrow> 'f cstep" where
  "ld64 u = lift (\<lambda>s. rbind (GBIT64 (ms_buf s) (ms_p s))
     (\<lambda>v. Inr (s\<lparr>ms_p := ms_p s + BIT64SZ, ms_f := u v (ms_f s)\<rparr>)))"

text \<open>
  \<open>gstring\<close> moves the string down over the second byte of its count and terminates it in
  the buffer; the string it stores starts at the new position of its first byte.
\<close>

definition gstring_move :: "(byte list \<Rightarrow> 'f \<Rightarrow> 'f) \<Rightarrow> nat \<Rightarrow> 'f cstep" where
  "gstring_move u n = lift (\<lambda>s. let p = ms_p s + BIT16SZ - 1 in
     rbind (rdblock OutOfBounds (ms_buf s) (p + 1) n) (\<lambda>t.
     rbind (wrblock OutOfBounds (ms_buf s) p t) (\<lambda>b.
     rbind (store OutOfBounds b (p + n) 0) (\<lambda>b.
     Inr (s\<lparr>ms_buf := b, ms_p := p + n + 1, ms_f := u t (ms_f s)\<rparr>)))))"

definition gstring :: "nat \<Rightarrow> (byte list \<Rightarrow> 'f \<Rightarrow> 'f) \<Rightarrow> 'f cstep" where
  "gstring ep u = bnd (room ep BIT16SZ) (\<lambda>_ s.
     rbind (GBIT16 (ms_buf s) (ms_p s)) (\<lambda>n.
     bnd (need (ms_p s + (BIT16SZ - 1) + unat n + 1 \<le> ep)) (\<lambda>_. gstring_move u (unat n)) s))"

definition gqid :: "nat \<Rightarrow> (Qid \<Rightarrow> 'f \<Rightarrow> 'f) \<Rightarrow> 'f cstep" where
  "gqid ep u = bnd (room ep QIDSZ) (\<lambda>_. lift (\<lambda>s.
     rbind (GBIT8 (ms_buf s) (ms_p s)) (\<lambda>t.
     rbind (GBIT32 (ms_buf s) (ms_p s + BIT8SZ)) (\<lambda>v.
     rbind (GBIT64 (ms_buf s) (ms_p s + BIT8SZ + BIT32SZ)) (\<lambda>x.
     Inr (s\<lparr>ms_p := ms_p s + BIT8SZ + BIT32SZ + BIT64SZ,
       ms_f := u \<lparr>q_path = x, q_vers = ucast v, q_type = t\<rparr> (ms_f s)\<rparr>))))))"


text \<open>\<open>f->data = p; p += n\<close> and the same for \<open>stat\<close>, after the check that \<open>n\<close> bytes remain.\<close>

definition gblock :: "nat \<Rightarrow> ('f \<Rightarrow> nat) \<Rightarrow> (byte list \<Rightarrow> 'f \<Rightarrow> 'f) \<Rightarrow> 'f cstep" where
  "gblock ep n u s = bnd (room ep (n (ms_f s))) (\<lambda>_. lift (\<lambda>s.
     Inr (s\<lparr>ms_p := ms_p s + n (ms_f s),
       ms_f := u (take (n (ms_f s)) (drop (ms_p s) (ms_buf s))) (ms_f s)\<rparr>))) s"

definition at_most :: "('f \<Rightarrow> nat) \<Rightarrow> nat \<Rightarrow> 'f cstep" where
  "at_most n m s = need (n (ms_f s) \<le> m) s"


section \<open>What every parse step keeps\<close>

text \<open>
  \<open>untouched\<close> is kept on every path: the buffer keeps its length and the bytes from \<open>ep\<close>
  on are not written.  \<open>parsed\<close> says besides that the bytes consumed so far were, in the
  buffer as it was given, the wire form of the fields \<open>ws\<close>, and that the bytes not yet
  consumed are unchanged.
\<close>

definition untouched :: "byte list \<Rightarrow> nat \<Rightarrow> 'f mstate \<Rightarrow> bool" where
  "untouched ap ep s \<longleftrightarrow> length (ms_buf s) = length ap \<and> drop ep (ms_buf s) = drop ep ap"

definition parsed :: "byte list \<Rightarrow> nat \<Rightarrow> wfield list \<Rightarrow> 'f mstate \<Rightarrow> bool" where
  "parsed ap ep ws s \<longleftrightarrow> ep \<le> length ap \<and> ms_p s \<le> ep \<and> length (ms_buf s) = length ap \<and>
     drop (ms_p s) (ms_buf s) = drop (ms_p s) ap \<and> take (ms_p s) ap = wire ws"

lemma parsed_untouched: "parsed ap ep ws s \<Longrightarrow> untouched ap ep s"
  unfolding parsed_def untouched_def by (metis drop_drop le_add_diff_inverse2)

lemma parsed_bound: "parsed ap ep ws s \<Longrightarrow> ms_p s \<le> ep \<and> ms_p s = length (wire ws)"
  unfolding parsed_def by (metis length_take min_absorb2 order_trans)

lemma parsed_step:
  assumes "parsed ap ep ws s" "ms_p s + n \<le> ep" "take n (drop (ms_p s) (ms_buf s)) = wire vs"
    "length (ms_buf t) = length ap" "drop (ms_p s + n) (ms_buf t) = drop (ms_p s + n) (ms_buf s)"
    "ms_p t = ms_p s + n"
  shows "parsed ap ep (ws @ vs) t"
proof -
  have "drop (ms_p s + n) (ms_buf s) = drop (ms_p s + n) ap"
    using assms(1) unfolding parsed_def by (metis add.commute drop_drop)
  then show ?thesis using assms by (simp add: parsed_def take_add)
qed

lemma room_sound:
  assumes "parsed ap ep ws s" "ms_p s + n \<le> ep \<Longrightarrow> Q () s"
  shows "wp (room ep n) Q (untouched ap ep) s"
  using assms by (auto simp: wp_def room_def need_def parsed_untouched)

lemma ld8_sound:
  assumes "parsed ap ep ws s" "ms_p s + 1 \<le> ep"
    "\<And>t v. parsed ap ep (ws @ [W8 v]) t \<Longrightarrow> ms_p t = ms_p s + 1 \<Longrightarrow> ms_f t = u v (ms_f s) \<Longrightarrow>
       ms_buf t = ms_buf s \<Longrightarrow> Q () t"
  shows "wp (ld8 u) Q E s"
proof -
  have "ms_p s + 1 \<le> length (ms_buf s)" using assms(1,2) by (simp add: parsed_def)
  then obtain v where v: "GBIT8 (ms_buf s) (ms_p s) = Inr v"
    "take 1 (drop (ms_p s) (ms_buf s)) = PBIT8 v"
    using GBIT8_ok by blast
  let ?t = "s\<lparr>ms_p := ms_p s + 1, ms_f := u v (ms_f s)\<rparr>"
  have "parsed ap ep (ws @ [W8 v]) ?t"
    by (rule parsed_step [OF assms(1,2)]) (use v assms(1) in \<open>simp_all add: parsed_def\<close>)
  then show ?thesis using assms(3) v by (simp add: wp_lift ld8_def)
qed

lemma ld16_sound:
  assumes "parsed ap ep ws s" "ms_p s + 2 \<le> ep"
    "\<And>t v. parsed ap ep (ws @ [W16 (ucast v)]) t \<Longrightarrow> ms_p t = ms_p s + 2 \<Longrightarrow>
       ms_f t = u v (ms_f s) \<Longrightarrow>
       ms_buf t = ms_buf s \<Longrightarrow> Q () t"
  shows "wp (ld16 u) Q E s"
proof -
  have "ms_p s + 2 \<le> length (ms_buf s)" using assms(1,2) by (simp add: parsed_def)
  then obtain v where v: "GBIT16 (ms_buf s) (ms_p s) = Inr v"
    "take 2 (drop (ms_p s) (ms_buf s)) = PBIT16 v"
    using GBIT16_ok by blast
  let ?t = "s\<lparr>ms_p := ms_p s + 2, ms_f := u v (ms_f s)\<rparr>"
  have "parsed ap ep (ws @ [W16 (ucast v)]) ?t"
    by (rule parsed_step [OF assms(1,2)]) (use v assms(1) in \<open>simp_all add: parsed_def\<close>)
  then show ?thesis using assms(3) v by (simp add: wp_lift ld16_def)
qed

lemma ld32_sound:
  assumes "parsed ap ep ws s" "ms_p s + 4 \<le> ep"
    "\<And>t v. parsed ap ep (ws @ [W32 v]) t \<Longrightarrow> ms_p t = ms_p s + 4 \<Longrightarrow>
       ms_f t = u v (ms_f s) \<Longrightarrow>
       ms_buf t = ms_buf s \<Longrightarrow> Q () t"
  shows "wp (ld32 u) Q E s"
proof -
  have "ms_p s + 4 \<le> length (ms_buf s)" using assms(1,2) by (simp add: parsed_def)
  then obtain v where v: "GBIT32 (ms_buf s) (ms_p s) = Inr v"
    "take 4 (drop (ms_p s) (ms_buf s)) = PBIT32 v"
    using GBIT32_ok by blast
  let ?t = "s\<lparr>ms_p := ms_p s + 4, ms_f := u v (ms_f s)\<rparr>"
  have "parsed ap ep (ws @ [W32 v]) ?t"
    by (rule parsed_step [OF assms(1,2)]) (use v assms(1) in \<open>simp_all add: parsed_def\<close>)
  then show ?thesis using assms(3) v by (simp add: wp_lift ld32_def)
qed

lemma ld64_sound:
  assumes "parsed ap ep ws s" "ms_p s + 8 \<le> ep"
    "\<And>t v. parsed ap ep (ws @ [W64 v]) t \<Longrightarrow> ms_p t = ms_p s + 8 \<Longrightarrow>
       ms_f t = u v (ms_f s) \<Longrightarrow>
       ms_buf t = ms_buf s \<Longrightarrow> Q () t"
  shows "wp (ld64 u) Q E s"
proof -
  have "ms_p s + 8 \<le> length (ms_buf s)" using assms(1,2) by (simp add: parsed_def)
  then obtain v where v: "GBIT64 (ms_buf s) (ms_p s) = Inr v"
    "take 8 (drop (ms_p s) (ms_buf s)) = PBIT64 v"
    using GBIT64_ok by blast
  let ?t = "s\<lparr>ms_p := ms_p s + 8, ms_f := u v (ms_f s)\<rparr>"
  have "parsed ap ep (ws @ [W64 v]) ?t"
    by (rule parsed_step [OF assms(1,2)]) (use v assms(1) in \<open>simp_all add: parsed_def\<close>)
  then show ?thesis using assms(3) v by (simp add: wp_lift ld64_def)
qed

lemma gblock_sound:
  assumes "parsed ap ep ws s"
    "\<And>t d. parsed ap ep (ws @ [WData d]) t \<Longrightarrow> length d = n (ms_f s) \<Longrightarrow>
       ms_f t = u d (ms_f s) \<Longrightarrow> Q () t"
  shows "wp (gblock ep n u) Q (untouched ap ep) s"
proof -
  let ?n = "n (ms_f s)" and ?d = "take (n (ms_f s)) (drop (ms_p s) (ms_buf s))"
  let ?t = "s\<lparr>ms_p := ms_p s + ?n, ms_f := u ?d (ms_f s)\<rparr>"
  have "parsed ap ep (ws @ [WData ?d]) ?t" if "ms_p s + ?n \<le> ep"
    by (rule parsed_step [OF assms(1) that]) (use assms(1) in \<open>simp_all add: parsed_def\<close>)
  moreover have "length ?d = ?n" if "ms_p s + ?n \<le> ep"
    using assms(1) that by (auto simp: parsed_def min_def)
  ultimately have "ms_p s + ?n \<le> ep \<Longrightarrow> Q () ?t" using assms(2) by simp
  then have "wp (bnd (room ep ?n) (\<lambda>_. lift (\<lambda>s. Inr (s\<lparr>ms_p := ms_p s + n (ms_f s),
       ms_f := u (take (n (ms_f s)) (drop (ms_p s) (ms_buf s))) (ms_f s)\<rparr>)))) Q (untouched ap ep) s"
    by (auto simp: wp_bnd wp_lift intro!: room_sound [OF assms(1)])
  then show ?thesis by (simp add: gblock_def wp_def)
qed

lemma gqid_sound:
  assumes "parsed ap ep ws s"
    "\<And>t q. parsed ap ep (ws @ [WQid q]) t \<Longrightarrow> ms_f t = u q (ms_f s) \<Longrightarrow> Q () t"
  shows "wp (gqid ep u) Q (untouched ap ep) s"
proof -
  have "\<exists>t. rbind (GBIT8 (ms_buf s) (ms_p s)) (\<lambda>t.
     rbind (GBIT32 (ms_buf s) (ms_p s + BIT8SZ)) (\<lambda>v.
     rbind (GBIT64 (ms_buf s) (ms_p s + BIT8SZ + BIT32SZ)) (\<lambda>x.
     Inr (s\<lparr>ms_p := ms_p s + BIT8SZ + BIT32SZ + BIT64SZ,
       ms_f := u \<lparr>q_path = x, q_vers = ucast v, q_type = t\<rparr> (ms_f s)\<rparr>)))) = Inr t \<and> Q () t"
    if le: "ms_p s + 13 \<le> ep"
  proof -
    let ?b = "ms_buf s" and ?p = "ms_p s"
    have l: "?p + 13 \<le> length ?b" using le assms(1) by (simp add: parsed_def)
    obtain t where t: "GBIT8 ?b ?p = Inr t" "take 1 (drop ?p ?b) = PBIT8 t"
      using GBIT8_ok [of ?p ?b] l by auto
    obtain v where v: "GBIT32 ?b (?p + 1) = Inr v" "take 4 (drop (?p + 1) ?b) = PBIT32 v"
      using GBIT32_ok [of "?p + 1" ?b] l by auto
    obtain x where x: "GBIT64 ?b (?p + 5) = Inr x" "take 8 (drop (?p + 5) ?b) = PBIT64 x"
      using GBIT64_ok [of "?p + 5" ?b] l by auto
    let ?q = "\<lparr>q_path = x, q_vers = ucast v, q_type = t\<rparr>"
    let ?s = "s\<lparr>ms_p := ?p + 13, ms_f := u ?q (ms_f s)\<rparr>"
    have "take 13 (drop ?p ?b) = wire [WQid ?q]"
      using take_add_drop [of 1 12 ?p ?b] take_add_drop [of 4 8 "?p + 1" ?b] t v x
      by (simp add: add.commute)
    then have "parsed ap ep (ws @ [WQid ?q]) ?s"
      by (intro parsed_step [OF assms(1) le]) (use assms(1) in \<open>simp_all add: parsed_def\<close>)
    then have "Q () ?s" by (rule assms(2)) simp
    then show ?thesis using t(1) v(1) x(1) by (simp add: add.commute)
  qed
  then show ?thesis unfolding gqid_def wp_bnd wp_lift
    by (intro room_sound [OF assms(1)]) simp
qed

lemma gstring_sound:
  assumes "parsed ap ep ws s"
    "\<And>t v. parsed ap ep (ws @ [WStr v]) t \<Longrightarrow> length v < 65536 \<Longrightarrow> ms_f t = u v (ms_f s) \<Longrightarrow> Q () t"
  shows "wp (gstring ep u) Q (untouched ap ep) s"
proof -
  let ?b = "ms_buf s" and ?p = "ms_p s"
  have "wp (\<lambda>s. rbind (GBIT16 (ms_buf s) (ms_p s)) (\<lambda>n.
     bnd (need (ms_p s + (BIT16SZ - 1) + unat n + 1 \<le> ep)) (\<lambda>_. gstring_move u (unat n)) s))
     Q (untouched ap ep) s" if le: "?p + 2 \<le> ep"
  proof -
    obtain n where n: "GBIT16 ?b ?p = Inr n" "take 2 (drop ?p ?b) = PBIT16 n" "unat n < 65536"
      using GBIT16_ok [of ?p ?b] le assms(1) by (auto simp: parsed_def)
    have "wp (gstring_move u (unat n)) Q (untouched ap ep) s" if l2: "?p + 2 + unat n \<le> ep"
    proof -
      have l: "?p + 2 + unat n \<le> length ?b" using l2 assms(1) by (simp add: parsed_def)
      obtain v where v: "v = take (unat n) (drop (?p + 2) ?b)" "length v = unat n" using l by simp
      let ?b' = "(take (?p + 1) ?b @ v @ drop (?p + 1 + unat n) ?b)[?p + 1 + unat n := 0]"
      let ?t = "s\<lparr>ms_buf := ?b', ms_p := ?p + 2 + unat n, ms_f := u v (ms_f s)\<rparr>"
      have "rdblock OutOfBounds ?b (?p + 2) (unat n) = Inr v" using l v by (simp add: rdblock_def)
      then have "gstring_move u (unat n) s = Inr (Some (), ?t)"
        using l v(2) by (simp add: gstring_move_def lift_def Let_def wrblock_def)
      moreover have "parsed ap ep (ws @ [WStr v]) ?t"
      proof (rule parsed_step [OF assms(1), where n = "2 + unat n"])
        show "?p + (2 + unat n) \<le> ep" using l2 by simp
        show "take (2 + unat n) (drop ?p ?b) = wire [WStr v]"
          using take_add_drop [of 2 "unat n" ?p ?b] n v by (simp add: add.commute)
      qed (use l v(2) assms(1) in \<open>simp_all add: parsed_def drop_update_cancel\<close>)
      ultimately show ?thesis using assms(2) v(2) n(3) by (simp add: wp_def)
    qed
    then show ?thesis using n parsed_untouched [OF assms(1)]
      by (auto simp: wp_def bnd_def need_def)
  qed
  then show ?thesis unfolding gstring_def wp_bnd
    by (intro room_sound [OF assms(1)]) simp
qed


lemma unit_post: "(\<lambda>_ :: unit. Q ()) = Q"
  by (rule ext) simp


lemma at_most_sound:
  assumes "parsed ap ep ws s" "n (ms_f s) \<le> m \<Longrightarrow> Q () s"
  shows "wp (at_most n m) Q (untouched ap ep) s"
  using assms by (auto simp: wp_def at_most_def need_def parsed_untouched)


section \<open>Well-formed messages are accepted\<close>

text \<open>
  \<open>todo n ws s\<close>: from the pointer on, the buffer holds the wire form of \<open>ws\<close>, which ends at
  offset \<open>n\<close>.  From such a state no step faults or ends the run.
\<close>

definition todo :: "nat \<Rightarrow> wfield list \<Rightarrow> 'f mstate \<Rightarrow> bool" where
  "todo n ws s \<longleftrightarrow> ms_p s + length (wire ws) = n \<and> n \<le> length (ms_buf s) \<and>
     (\<exists>r. drop (ms_p s) (ms_buf s) = wire ws @ r)"

abbreviation never :: "'f mstate \<Rightarrow> bool" where
  "never \<equiv> (\<lambda>_. False)"

lemma room_done:
  assumes "todo n ws s" "n \<le> ep" "m \<le> length (wire ws)" "Q () s"
  shows "wp (room ep m) Q never s"
  using assms by (auto simp: wp_def room_def need_def todo_def)

lemma todo_step:
  assumes "todo n (w # ws) s" "length (ms_buf t) = length (ms_buf s)"
    "ms_p t = ms_p s + length (wire_field w)" "drop (ms_p t) (ms_buf t) = drop (ms_p t) (ms_buf s)"
  shows "todo n ws t"
proof -
  from assms(1) obtain r where r: "drop (ms_p s) (ms_buf s) = wire_field w @ wire ws @ r"
    by (auto simp: todo_def)
  have "drop (ms_p t) (ms_buf s) = wire ws @ r"
    using arg_cong [OF r, of "drop (length (wire_field w))"] assms(3) by (simp add: add.commute)
  then show ?thesis using assms by (auto simp: todo_def)
qed

lemma todo_head: "todo n (w # ws) s \<Longrightarrow> \<exists>r. drop (ms_p s) (ms_buf s) = wire_field w @ r"
  by (auto simp: todo_def)

lemma ld8_done:
  assumes "todo n (W8 v # ws) s" "\<And>t. todo n ws t \<Longrightarrow> ms_f t = u v (ms_f s) \<Longrightarrow> Q () t"
  shows "wp (ld8 u) Q never s"
proof -
  let ?t = "s\<lparr>ms_p := ms_p s + 1, ms_f := u v (ms_f s)\<rparr>"
  have "GBIT8 (ms_buf s) (ms_p s) = Inr v" using todo_head [OF assms(1)] by (auto intro: GBIT8_put)
  moreover have "todo n ws ?t" by (rule todo_step [OF assms(1)]) simp_all
  ultimately show ?thesis using assms(2) by (simp add: wp_lift ld8_def)
qed

lemma ld16_done:
  assumes "todo n (W16 v # ws) s" "\<And>t. todo n ws t \<Longrightarrow> ms_f t = u (ucast v) (ms_f s) \<Longrightarrow> Q () t"
  shows "wp (ld16 u) Q never s"
proof -
  let ?t = "s\<lparr>ms_p := ms_p s + 2, ms_f := u (ucast v) (ms_f s)\<rparr>"
  have "GBIT16 (ms_buf s) (ms_p s) = Inr (ucast v)"
    using todo_head [OF assms(1)] by (auto intro: GBIT16_put)
  moreover have "todo n ws ?t" by (rule todo_step [OF assms(1)]) simp_all
  ultimately show ?thesis using assms(2) by (simp add: wp_lift ld16_def)
qed

lemma ld32_done:
  assumes "todo n (W32 v # ws) s" "\<And>t. todo n ws t \<Longrightarrow> ms_f t = u v (ms_f s) \<Longrightarrow> Q () t"
  shows "wp (ld32 u) Q never s"
proof -
  let ?t = "s\<lparr>ms_p := ms_p s + 4, ms_f := u v (ms_f s)\<rparr>"
  have "GBIT32 (ms_buf s) (ms_p s) = Inr v" using todo_head [OF assms(1)] by (auto intro: GBIT32_put)
  moreover have "todo n ws ?t" by (rule todo_step [OF assms(1)]) simp_all
  ultimately show ?thesis using assms(2) by (simp add: wp_lift ld32_def)
qed

lemma ld64_done:
  assumes "todo n (W64 v # ws) s" "\<And>t. todo n ws t \<Longrightarrow> ms_f t = u v (ms_f s) \<Longrightarrow> Q () t"
  shows "wp (ld64 u) Q never s"
proof -
  let ?t = "s\<lparr>ms_p := ms_p s + 8, ms_f := u v (ms_f s)\<rparr>"
  have "GBIT64 (ms_buf s) (ms_p s) = Inr v" using todo_head [OF assms(1)] by (auto intro: GBIT64_put)
  moreover have "todo n ws ?t" by (rule todo_step [OF assms(1)]) simp_all
  ultimately show ?thesis using assms(2) by (simp add: wp_lift ld64_def)
qed

lemma gblock_done:
  assumes "todo n (WData d # ws) s" "n \<le> ep" "m (ms_f s) = length d"
    "\<And>t. todo n ws t \<Longrightarrow> ms_f t = u d (ms_f s) \<Longrightarrow> Q () t"
  shows "wp (gblock ep m u) Q never s"
proof -
  let ?t = "s\<lparr>ms_p := ms_p s + length d, ms_f := u d (ms_f s)\<rparr>"
  have "take (length d) (drop (ms_p s) (ms_buf s)) = d" "ms_p s + length d \<le> ep"
    using assms(1,2) by (auto simp: todo_def)
  moreover have "todo n ws ?t" by (rule todo_step [OF assms(1)]) simp_all
  ultimately show ?thesis using assms(3,4) by (simp add: wp_def gblock_def bnd_def room_def need_def lift_def)
qed

lemma gqid_done:
  assumes "todo n (WQid q # ws) s" "n \<le> ep" "field_ok (WQid q)"
    "\<And>t. todo n ws t \<Longrightarrow> ms_f t = u q (ms_f s) \<Longrightarrow> Q () t"
  shows "wp (gqid ep u) Q never s"
proof -
  let ?b = "ms_buf s" and ?p = "ms_p s"
  let ?t = "s\<lparr>ms_p := ?p + 13, ms_f := u q (ms_f s)\<rparr>"
  obtain r where r: "drop ?p ?b = PBIT8 (q_type q) @ PBIT32 (q_vers q) @ PBIT64 (q_path q) @ r"
    using todo_head [OF assms(1)] by auto
  have v: "ucast (ucast (q_vers q) :: u32) = q_vers q" "PBIT32 (q_vers q) = PBIT32 (ucast (q_vers q) :: u32)"
  proof -
    have "unat (ucast (q_vers q) :: u32) = unat (q_vers q)"
      using assms(3) by (simp add: unsigned_ucast_eq take_bit_nat_eq_self_iff)
    then show "ucast (ucast (q_vers q) :: u32) = q_vers q"
      by (intro word_eq_unatI) (simp add: unat_ucast_le)
    then show "PBIT32 (q_vers q) = PBIT32 (ucast (q_vers q) :: u32)"
      by (metis PBIT32_ucast)
  qed
  have d1: "drop (?p + 1) ?b = PBIT32 (q_vers q) @ PBIT64 (q_path q) @ r"
    using arg_cong [OF r, of "drop 1"] by (simp add: PBIT8_def add.commute)
  have "drop (?p + 5) ?b = PBIT64 (q_path q) @ r"
    using arg_cong [OF d1, of "drop 4"] by (simp add: add.commute)
  with d1 have "GBIT8 ?b ?p = Inr (q_type q)" "GBIT32 ?b (?p + 1) = Inr (ucast (q_vers q))"
    "GBIT64 ?b (?p + 5) = Inr (q_path q)"
    using r v(2) by (auto intro!: GBIT8_put GBIT32_put GBIT64_put)
  moreover have "todo n ws ?t" by (rule todo_step [OF assms(1)]) simp_all
  moreover have "?p + 13 \<le> ep" using assms(1,2) by (auto simp: todo_def)
  ultimately show ?thesis using assms(4) v(1)
    by (cases q) (simp add: wp_def gqid_def bnd_def room_def need_def lift_def add.commute)
qed

lemma gstring_done:
  assumes "todo n (WStr v # ws) s" "n \<le> ep" "field_ok (WStr v)"
    "\<And>t. todo n ws t \<Longrightarrow> ms_f t = u v (ms_f s) \<Longrightarrow> Q () t"
  shows "wp (gstring ep u) Q never s"
proof -
  let ?b = "ms_buf s" and ?p = "ms_p s" and ?n = "length v"
  let ?b' = "(take (?p + 1) ?b @ v @ drop (?p + 1 + ?n) ?b)[?p + 1 + ?n := 0]"
  let ?t = "s\<lparr>ms_buf := ?b', ms_p := ?p + 2 + ?n, ms_f := u v (ms_f s)\<rparr>"
  obtain r where r: "drop ?p ?b = PBIT16 (of_nat ?n :: u16) @ v @ r"
    using todo_head [OF assms(1)] by auto
  have l: "?p + 2 + ?n \<le> length ?b" "?p + 2 + ?n \<le> ep" using assms(1,2) by (auto simp: todo_def)
  have "unat (of_nat ?n :: u16) = ?n" using assms(3) by (simp add: unsigned_of_nat take_bit_nat_eq_self_iff)
  then have un: "GBIT16 ?b ?p = Inr (ucast (of_nat ?n :: u16))" "unat (ucast (of_nat ?n :: u16) :: u32) = ?n"
    using GBIT16_put [OF r] by (simp_all add: unat_ucast_le)
  have "drop (?p + 2) ?b = v @ r" using arg_cong [OF r, of "drop 2"] by (simp add: add.commute)
  then have "rdblock OutOfBounds ?b (?p + 2) ?n = Inr v" using l by (simp add: rdblock_def)
  then have "gstring_move u ?n s = Inr (Some (), ?t)"
    using l by (simp add: gstring_move_def lift_def Let_def wrblock_def)
  moreover have "todo n ws ?t" by (rule todo_step [OF assms(1)]) (use l in simp_all)
  ultimately show ?thesis using un l assms(4)
    by (simp add: wp_def gstring_def bnd_def room_def need_def)
qed

lemma at_most_done: "todo n ws s \<Longrightarrow> m (ms_f s) \<le> k \<Longrightarrow> Q () s \<Longrightarrow> wp (at_most m k) Q never s"
  by (simp add: wp_def at_most_def need_def)

end
