(* ===== verification/M2S.thy ===== *)
theory M2S
  imports Cursor
begin

text \<open>
  The parser of 9P messages, \<^verbatim>\<open>libkern/convM2S.c\<close>: a list of cursor steps for each case of
  its \<open>switch\<close>, run by \<open>seqs\<close>.  The buffer is part of the state because \<open>gstring\<close> moves
  strings in it.
\<close>

section \<open>Parsing: convM2S.c\<close>

type_synonym mstep = "Fcall cstep"

text \<open>
  The loops over \<open>wname\<close> and \<open>wqid\<close>, with \<open>k\<close> elements left from index \<open>i\<close>; storing past the
  array is an access fault.
\<close>

definition wname_slot :: "nat \<Rightarrow> mstep" where
  "wname_slot i s = rbind (fetch OutOfBounds (fc_wname (ms_f s)) i) (\<lambda>_. ret () s)"

primrec gnames :: "nat \<Rightarrow> nat \<Rightarrow> nat \<Rightarrow> mstep" where
  "gnames ep i 0 = ret ()"
| "gnames ep i (Suc k) = seqs [wname_slot i,
     gstring ep (\<lambda>v f. f\<lparr>fc_wname := (fc_wname f)[i := Some v]\<rparr>),
     gnames ep (i + 1) k]"

definition wqid_slot :: "nat \<Rightarrow> mstep" where
  "wqid_slot i s = rbind (fetch OutOfBounds (fc_wqid (ms_f s)) i) (\<lambda>_. ret () s)"

primrec gqids :: "nat \<Rightarrow> nat \<Rightarrow> nat \<Rightarrow> mstep" where
  "gqids ep i 0 = ret ()"
| "gqids ep i (Suc k) = seqs [wqid_slot i,
     gqid ep (\<lambda>v f. f\<lparr>fc_wqid := (fc_wqid f)[i := v]\<rparr>),
     gqids ep (i + 1) k]"

definition for_wnames :: "nat \<Rightarrow> mstep" where
  "for_wnames ep s = gnames ep 0 (unat (fc_nwname (ms_f s))) s"

definition for_wqids :: "nat \<Rightarrow> mstep" where
  "for_wqids ep s = gqids ep 0 (unat (fc_nwqid (ms_f s))) s"

text \<open>The cases of the \<open>switch\<close>, requests first; a type that is no case is \<open>None\<close>.\<close>

definition T_cases :: "nat \<Rightarrow> byte \<Rightarrow> mstep list option" where
  "T_cases ep t =
     (if t = Tversion then Some [room ep BIT32SZ, ld32 (\<lambda>v. fc_msize_update (\<lambda>_. v)),
        gstring ep (\<lambda>v. fc_version_update (\<lambda>_. Some v))]
      else if t = Tflush then Some [room ep BIT16SZ, ld16 (\<lambda>v. fc_oldtag_update (\<lambda>_. ucast v))]
      else if t = Tauth then Some [room ep BIT32SZ, ld32 (\<lambda>v. fc_afid_update (\<lambda>_. v)),
        gstring ep (\<lambda>v. fc_uname_update (\<lambda>_. Some v)),
        gstring ep (\<lambda>v. fc_aname_update (\<lambda>_. Some v))]
      else if t = Tattach then Some [room ep BIT32SZ, ld32 (\<lambda>v. fc_fid_update (\<lambda>_. v)),
        room ep BIT32SZ, ld32 (\<lambda>v. fc_afid_update (\<lambda>_. v)),
        gstring ep (\<lambda>v. fc_uname_update (\<lambda>_. Some v)),
        gstring ep (\<lambda>v. fc_aname_update (\<lambda>_. Some v))]
      else if t = Twalk then Some [room ep (BIT32SZ + BIT32SZ + BIT16SZ),
        ld32 (\<lambda>v. fc_fid_update (\<lambda>_. v)), ld32 (\<lambda>v. fc_newfid_update (\<lambda>_. v)),
        ld16 (\<lambda>v. fc_nwname_update (\<lambda>_. ucast v)),
        at_most (\<lambda>f. unat (fc_nwname f)) MAXWELEM, for_wnames ep]
      else if t = Topen then Some [room ep (BIT32SZ + BIT8SZ), ld32 (\<lambda>v. fc_fid_update (\<lambda>_. v)),
        ld8 (\<lambda>v. fc_mode_update (\<lambda>_. v))]
      else if t = Tcreate then Some [room ep BIT32SZ, ld32 (\<lambda>v. fc_fid_update (\<lambda>_. v)),
        gstring ep (\<lambda>v. fc_name_update (\<lambda>_. Some v)), room ep (BIT32SZ + BIT8SZ),
        ld32 (\<lambda>v. fc_perm_update (\<lambda>_. v)), ld8 (\<lambda>v. fc_mode_update (\<lambda>_. v))]
      else if t = Tread then Some [room ep (BIT32SZ + BIT64SZ + BIT32SZ),
        ld32 (\<lambda>v. fc_fid_update (\<lambda>_. v)), ld64 (\<lambda>v. fc_offset_update (\<lambda>_. v)),
        ld32 (\<lambda>v. fc_count_update (\<lambda>_. v))]
      else if t = Twrite then Some [room ep (BIT32SZ + BIT64SZ + BIT32SZ),
        ld32 (\<lambda>v. fc_fid_update (\<lambda>_. v)), ld64 (\<lambda>v. fc_offset_update (\<lambda>_. v)),
        ld32 (\<lambda>v. fc_count_update (\<lambda>_. v)),
        gblock ep (\<lambda>f. unat (fc_count f)) (\<lambda>v. fc_data_update (\<lambda>_. v))]
      else if t = Tclunk \<or> t = Tremove \<or> t = Tstat then
        Some [room ep BIT32SZ, ld32 (\<lambda>v. fc_fid_update (\<lambda>_. v))]
      else if t = Twstat then Some [room ep (BIT32SZ + BIT16SZ),
        ld32 (\<lambda>v. fc_fid_update (\<lambda>_. v)), ld16 (\<lambda>v. fc_nstat_update (\<lambda>_. ucast v)),
        gblock ep (\<lambda>f. unat (fc_nstat f)) (\<lambda>v. fc_stat_update (\<lambda>_. v))]
      else None)"

definition R_cases :: "nat \<Rightarrow> byte \<Rightarrow> mstep list option" where
  "R_cases ep t =
     (if t = Rversion then Some [room ep BIT32SZ, ld32 (\<lambda>v. fc_msize_update (\<lambda>_. v)),
        gstring ep (\<lambda>v. fc_version_update (\<lambda>_. Some v))]
      else if t = Rerror then Some [gstring ep (\<lambda>v. fc_ename_update (\<lambda>_. Some v))]
      else if t = Rflush then Some []
      else if t = Rauth then Some [gqid ep (\<lambda>v. fc_aqid_update (\<lambda>_. v))]
      else if t = Rattach then Some [gqid ep (\<lambda>v. fc_qid_update (\<lambda>_. v))]
      else if t = Rwalk then Some [room ep BIT16SZ, ld16 (\<lambda>v. fc_nwqid_update (\<lambda>_. ucast v)),
        at_most (\<lambda>f. unat (fc_nwqid f)) MAXWELEM, for_wqids ep]
      else if t = Ropen \<or> t = Rcreate then Some [gqid ep (\<lambda>v. fc_qid_update (\<lambda>_. v)),
        room ep BIT32SZ, ld32 (\<lambda>v. fc_iounit_update (\<lambda>_. v))]
      else if t = Rread then Some [room ep BIT32SZ, ld32 (\<lambda>v. fc_count_update (\<lambda>_. v)),
        gblock ep (\<lambda>f. unat (fc_count f)) (\<lambda>v. fc_data_update (\<lambda>_. v))]
      else if t = Rwrite then Some [room ep BIT32SZ, ld32 (\<lambda>v. fc_count_update (\<lambda>_. v))]
      else if t = Rclunk \<or> t = Rremove then Some []
      else if t = Rstat then Some [room ep BIT16SZ, ld16 (\<lambda>v. fc_nstat_update (\<lambda>_. ucast v)),
        gblock ep (\<lambda>f. unat (fc_nstat f)) (\<lambda>v. fc_stat_update (\<lambda>_. v))]
      else if t = Rwstat then Some []
      else None)"

definition M2S_cases :: "nat \<Rightarrow> mstep" where
  "M2S_cases ep s =
     (case T_cases ep (fc_type (ms_f s)) of Some ms \<Rightarrow> seqs ms s
      | None \<Rightarrow> (case R_cases ep (fc_type (ms_f s)) of Some ms \<Rightarrow> seqs ms s | None \<Rightarrow> quit s))"

definition M2S_body :: "nat \<Rightarrow> u32 \<Rightarrow> (Fcall mstate, u32) proc" where
  "M2S_body ep n = bnd (seqs [lift (\<lambda>s. Inr (s\<lparr>ms_p := ms_p s + BIT32SZ\<rparr>)),
       need (BIT32SZ + BIT8SZ + BIT16SZ \<le> unat n),
       ld8 (\<lambda>v. fc_type_update (\<lambda>_. v)), ld16 (\<lambda>v. fc_tag_update (\<lambda>_. ucast v)),
       M2S_cases ep])
     (\<lambda>_ s. bnd (need (ms_p s \<le> ep \<and> unat n = ms_p s)) (\<lambda>_. ret n) s)"

definition M2S_run :: "nat \<Rightarrow> (Fcall mstate, u32) proc" where
  "M2S_run ep = bnd (room ep (BIT32SZ + BIT8SZ + BIT16SZ)) (\<lambda>_ s.
     rbind (GBIT32 (ms_buf s) (ms_p s)) (\<lambda>size. M2S_body ep size s))"

text \<open>The return value, the buffer and the structure as \<open>convM2S\<close> leaves them.\<close>

definition convM2S :: "byte list \<Rightarrow> nat \<Rightarrow> Fcall \<Rightarrow> access_fault + u32 \<times> byte list \<times> Fcall" where
  "convM2S ap nap f =
     rbind (M2S_run nap \<lparr>ms_buf = ap, ms_p = 0, ms_f = f\<rparr>)
       (\<lambda>(r, s). Inr (case r of None \<Rightarrow> 0 | Some n \<Rightarrow> n, ms_buf s, ms_f s))"

lemma wp_slot:
  "i < length (fc_wname (ms_f s)) \<Longrightarrow> wp (wname_slot i) Q E s \<longleftrightarrow> Q () s"
  "i < length (fc_wqid (ms_f s)) \<Longrightarrow> wp (wqid_slot i) Q E s \<longleftrightarrow> Q () s"
  by (simp_all add: wp_def wname_slot_def wqid_slot_def ret_def)

lemma gnames_sound:
  assumes "parsed ap ep ws s" "i + k \<le> length (fc_wname (ms_f s))"
    "\<And>t vs. parsed ap ep (ws @ map WStr vs) t \<Longrightarrow> length vs = k \<Longrightarrow>
       ms_f t = (ms_f s)\<lparr>fc_wname := take i (fc_wname (ms_f s)) @ map Some vs @
         drop (i + k) (fc_wname (ms_f s))\<rparr> \<Longrightarrow> Q () t"
  shows "wp (gnames ep i k) Q (untouched ap ep) s"
  using assms
proof (induction k arbitrary: i s ws)
  case 0
  then show ?case by (simp add: wp_ret)
next
  case (Suc k)
  let ?w = "fc_wname (ms_f s)"
  have "wp (seqs [gstring ep (\<lambda>v f. f\<lparr>fc_wname := (fc_wname f)[i := Some v]\<rparr>), gnames ep (i + 1) k])
    Q (untouched ap ep) s"
    unfolding wp_seqs
  proof (rule gstring_sound [OF Suc.prems(1)])
    fix t v
    assume t: "parsed ap ep (ws @ [WStr v]) t"
      "ms_f t = (ms_f s)\<lparr>fc_wname := ?w[i := Some v]\<rparr>"
    show "wp (gnames ep (i + 1) k) (\<lambda>_. Q ()) (untouched ap ep) t"
      unfolding unit_post
    proof (rule Suc.IH [OF t(1)])
      show "i + 1 + k \<le> length (fc_wname (ms_f t))" using Suc.prems(2) t(2) by simp
      fix t' vs
      assume t': "parsed ap ep ((ws @ [WStr v]) @ map WStr vs) t'" "length vs = k"
        "ms_f t' = (ms_f t)\<lparr>fc_wname := take (i + 1) (fc_wname (ms_f t)) @ map Some vs @
         drop (i + 1 + k) (fc_wname (ms_f t))\<rparr>"
      have "take (Suc i) (?w[i := Some v]) = take i ?w @ [Some v]"
        using Suc.prems(2) by (simp add: take_Suc_conv_app_nth)
      then show "Q () t'" using t' t(2)
        by (intro Suc.prems(3) [of "v # vs"]) simp_all
    qed
  qed
  then show ?case using Suc.prems(2) unfolding gnames.simps wp_seqs by (simp add: wp_slot)
qed

lemma gqids_sound:
  assumes "parsed ap ep ws s" "i + k \<le> length (fc_wqid (ms_f s))"
    "\<And>t vs. parsed ap ep (ws @ map WQid vs) t \<Longrightarrow> length vs = k \<Longrightarrow>
       ms_f t = (ms_f s)\<lparr>fc_wqid := take i (fc_wqid (ms_f s)) @ vs @
         drop (i + k) (fc_wqid (ms_f s))\<rparr> \<Longrightarrow> Q () t"
  shows "wp (gqids ep i k) Q (untouched ap ep) s"
  using assms
proof (induction k arbitrary: i s ws)
  case 0
  then show ?case by (simp add: wp_ret)
next
  case (Suc k)
  let ?w = "fc_wqid (ms_f s)"
  have "wp (seqs [gqid ep (\<lambda>v f. f\<lparr>fc_wqid := (fc_wqid f)[i := v]\<rparr>), gqids ep (i + 1) k])
    Q (untouched ap ep) s"
    unfolding wp_seqs
  proof (rule gqid_sound [OF Suc.prems(1)])
    fix t v
    assume t: "parsed ap ep (ws @ [WQid v]) t" "ms_f t = (ms_f s)\<lparr>fc_wqid := ?w[i := v]\<rparr>"
    show "wp (gqids ep (i + 1) k) (\<lambda>_. Q ()) (untouched ap ep) t"
      unfolding unit_post
    proof (rule Suc.IH [OF t(1)])
      show "i + 1 + k \<le> length (fc_wqid (ms_f t))" using Suc.prems(2) t(2) by simp
      fix t' vs
      assume t': "parsed ap ep ((ws @ [WQid v]) @ map WQid vs) t'" "length vs = k"
        "ms_f t' = (ms_f t)\<lparr>fc_wqid := take (i + 1) (fc_wqid (ms_f t)) @ vs @
         drop (i + 1 + k) (fc_wqid (ms_f t))\<rparr>"
      have "take (Suc i) (?w[i := v]) = take i ?w @ [v]"
        using Suc.prems(2) by (simp add: take_Suc_conv_app_nth)
      then show "Q () t'" using t' t(2)
        by (intro Suc.prems(3) [of "v # vs"]) simp_all
    qed
  qed
  then show ?case using Suc.prems(2) unfolding gqids.simps wp_seqs by (simp add: wp_slot)
qed

lemma for_wnames_sound:
  assumes "parsed ap ep ws s" "unat (fc_nwname (ms_f s)) \<le> length (fc_wname (ms_f s))"
    "\<And>t vs. parsed ap ep (ws @ map WStr vs) t \<Longrightarrow> length vs = unat (fc_nwname (ms_f s)) \<Longrightarrow>
       ms_f t = (ms_f s)\<lparr>fc_wname := map Some vs @
         drop (unat (fc_nwname (ms_f s))) (fc_wname (ms_f s))\<rparr> \<Longrightarrow> Q () t"
  shows "wp (for_wnames ep) Q (untouched ap ep) s"
proof -
  have "wp (gnames ep 0 (unat (fc_nwname (ms_f s)))) Q (untouched ap ep) s"
    by (rule gnames_sound [OF assms(1)]) (use assms(2,3) in simp_all)
  then show ?thesis by (simp add: wp_def for_wnames_def)
qed

lemma for_wqids_sound:
  assumes "parsed ap ep ws s" "unat (fc_nwqid (ms_f s)) \<le> length (fc_wqid (ms_f s))"
    "\<And>t vs. parsed ap ep (ws @ map WQid vs) t \<Longrightarrow> length vs = unat (fc_nwqid (ms_f s)) \<Longrightarrow>
       ms_f t = (ms_f s)\<lparr>fc_wqid := vs @
         drop (unat (fc_nwqid (ms_f s))) (fc_wqid (ms_f s))\<rparr> \<Longrightarrow> Q () t"
  shows "wp (for_wqids ep) Q (untouched ap ep) s"
proof -
  have "wp (gqids ep 0 (unat (fc_nwqid (ms_f s)))) Q (untouched ap ep) s"
    by (rule gqids_sound [OF assms(1)]) (use assms(2,3) in simp_all)
  then show ?thesis by (simp add: wp_def for_wqids_def)
qed

fun nul_free :: "wfield \<Rightarrow> bool" where
  "nul_free (WStr s) = (0 \<notin> set s)"
| "nul_free _ = True"

text \<open>What the bytes of a message say of the structure: its fields, with every byte of the strings.\<close>

abbreviation parsed_layout :: "Fcall \<Rightarrow> wfield list option" where
  "parsed_layout \<equiv> layout_by raw_str"

fun cut_field :: "wfield \<Rightarrow> wfield" where
  "cut_field (WStr s) = WStr (c_string s)"
| "cut_field w = w"

lemma str_of_raw: "str_of s = c_string (raw_str s)"
  by (cases s) (simp_all add: raw_str_def str_of_def c_string_def)

lemma layout_cut: "layout f = map_option (map cut_field) (parsed_layout f)"
  unfolding layout_def layout_by_def Let_def
  by (simp add: if_distrib [where f = "map_option (map cut_field)"] str_of_raw o_def cong: if_cong)

lemma cut_nul_free: "nul_free v \<Longrightarrow> cut_field v = v"
  by (cases v) (simp_all add: c_string_nul_free)

lemma parsed_layout_nul_free:
  "parsed_layout f = Some ws \<Longrightarrow> \<forall>v \<in> set ws. nul_free v \<Longrightarrow> layout f = Some ws"
  by (simp add: layout_cut cut_nul_free map_idI)

lemmas parse_sound = room_sound ld8_sound ld16_sound ld32_sound ld64_sound gblock_sound
  gqid_sound gstring_sound at_most_sound for_wnames_sound for_wqids_sound

lemma T_cases_sound:
  assumes "parsed ap ep ws s" "length (fc_wname (ms_f s)) = MAXWELEM"
    "\<And>t us. parsed ap ep us t \<Longrightarrow> take (length ws) us = ws \<Longrightarrow>
       fc_type (ms_f t) = fc_type (ms_f s) \<Longrightarrow> fc_tag (ms_f t) = fc_tag (ms_f s) \<Longrightarrow>
       parsed_layout (ms_f t) = Some (drop (length ws) us) \<Longrightarrow> Q () t"
  shows "opt_wp (T_cases ep (fc_type (ms_f s))) Q (untouched ap ep) s"
  unfolding T_cases_def
  by (intro opt_wp_rules;
    (rule wp_seqs_intro(2) | rule parse_sound, rule assms(1) | rule parse_sound, assumption
      | (simp add: assms(2); fail) | rule wp_seqs_intro(1))+;
    (rule assms(3), assumption, simp, simp, simp,
      ((simp add: layout_by_def raw_str_def type_codes o_def; fail)
      | (auto simp: layout_by_def type_codes))))

lemma R_cases_sound:
  assumes "parsed ap ep ws s" "length (fc_wqid (ms_f s)) = MAXWELEM"
    "\<And>t us. parsed ap ep us t \<Longrightarrow> take (length ws) us = ws \<Longrightarrow>
       fc_type (ms_f t) = fc_type (ms_f s) \<Longrightarrow> fc_tag (ms_f t) = fc_tag (ms_f s) \<Longrightarrow>
       parsed_layout (ms_f t) = Some (drop (length ws) us) \<Longrightarrow> Q () t"
  shows "opt_wp (R_cases ep (fc_type (ms_f s))) Q (untouched ap ep) s"
  unfolding R_cases_def
  apply (intro opt_wp_rules;
    ((rule wp_seqs_intro(2) | rule parse_sound, rule assms(1) | rule parse_sound, assumption
      | (simp add: assms(2); fail) | rule wp_seqs_intro(1))+)?;
    (rule assms(3), (assumption | rule assms(1)), simp, simp, simp,
      ((simp add: layout_by_def raw_str_def type_codes o_def; fail)
      | (auto simp: layout_by_def type_codes))))

  done

lemma M2S_cases_sound:
  assumes "parsed ap ep ws s" "length (fc_wname (ms_f s)) = MAXWELEM"
    "length (fc_wqid (ms_f s)) = MAXWELEM"
    "\<And>t us. parsed ap ep us t \<Longrightarrow> take (length ws) us = ws \<Longrightarrow>
       fc_type (ms_f t) = fc_type (ms_f s) \<Longrightarrow> fc_tag (ms_f t) = fc_tag (ms_f s) \<Longrightarrow>
       parsed_layout (ms_f t) = Some (drop (length ws) us) \<Longrightarrow> Q () t"
  shows "wp (M2S_cases ep) Q (untouched ap ep) s"
proof -
  have "opt_wp (T_cases ep (fc_type (ms_f s))) Q (untouched ap ep) s"
    "opt_wp (R_cases ep (fc_type (ms_f s))) Q (untouched ap ep) s"
    by (rule T_cases_sound [OF assms(1,2)] R_cases_sound [OF assms(1,3)]; rule assms(4);
        assumption)+
  then show ?thesis using parsed_untouched [OF assms(1)]
    by (cases "T_cases ep (fc_type (ms_f s))"; cases "R_cases ep (fc_type (ms_f s))")
      (simp_all add: wp_def opt_wp_def M2S_cases_def quit_def)
qed

definition accepted :: "byte list \<Rightarrow> nat \<Rightarrow> u32 \<Rightarrow> Fcall mstate \<Rightarrow> bool" where
  "accepted ap nap n t \<longleftrightarrow> untouched ap nap t \<and> 7 \<le> unat n \<and> unat n \<le> nap \<and>
     (\<exists>ws. parsed_layout (ms_f t) = Some ws \<and> take (unat n) ap = wire (header n (ms_f t) @ ws))"

lemma M2S_body_sound:
  assumes "parsed ap nap [W32 n] (s\<lparr>ms_p := 4\<rparr>)" "ms_p s = 0" "7 \<le> nap"
    "length (fc_wname (ms_f s)) = MAXWELEM" "length (fc_wqid (ms_f s)) = MAXWELEM"
  shows "wp (M2S_body nap n) (accepted ap nap) (untouched ap nap) s"
proof -
  let ?t = "s\<lparr>ms_p := 4\<rparr>"
  let ?Q = "\<lambda>_. wp (\<lambda>s. bnd (need (ms_p s \<le> nap \<and> unat n = ms_p s)) (\<lambda>_. ret n) s)
    (accepted ap nap) (untouched ap nap)"
  have "wp (seqs [ld8 (\<lambda>v. fc_type_update (\<lambda>_. v)), ld16 (\<lambda>v. fc_tag_update (\<lambda>_. ucast v)),
     M2S_cases nap]) ?Q (untouched ap nap) ?t" if n7: "7 \<le> unat n"
  proof (rule wp_seqs_intro(2), rule ld8_sound [OF assms(1)])
    show "ms_p ?t + 1 \<le> nap" using assms(3) by simp
    fix t v
    assume t: "parsed ap nap ([W32 n] @ [W8 v]) t" "ms_p t = ms_p ?t + 1"
      "ms_f t = (ms_f ?t)\<lparr>fc_type := v\<rparr>"
    show "wp (seqs [ld16 (\<lambda>v. fc_tag_update (\<lambda>_. ucast v)), M2S_cases nap]) ?Q (untouched ap nap) t"
    proof (rule wp_seqs_intro(2), rule ld16_sound [OF t(1)])
      show "ms_p t + 2 \<le> nap" using assms(3) t(2) by simp
      fix t2 g
      assume t2: "parsed ap nap (([W32 n] @ [W8 v]) @ [W16 (ucast g)]) t2"
        "ms_f t2 = (ms_f t)\<lparr>fc_tag := ucast g\<rparr>"
      show "wp (seqs [M2S_cases nap]) ?Q (untouched ap nap) t2"
      proof (rule wp_seqs_intro(2), rule M2S_cases_sound [OF t2(1)])
        show "length (fc_wname (ms_f t2)) = MAXWELEM" "length (fc_wqid (ms_f t2)) = MAXWELEM"
          using assms(4,5) t(3) t2(2) by simp_all
        fix t3 us
        assume t3: "parsed ap nap us t3"
          "take (length (([W32 n] @ [W8 v]) @ [W16 (ucast g)])) us = ([W32 n] @ [W8 v]) @ [W16 (ucast g)]"
          "fc_type (ms_f t3) = fc_type (ms_f t2)" "fc_tag (ms_f t3) = fc_tag (ms_f t2)"
          "parsed_layout (ms_f t3) = Some (drop (length (([W32 n] @ [W8 v]) @ [W16 (ucast g)])) us)"
        have "take 3 us = header n (ms_f t3)"
          using t3(2,3,4) t(3) t2(2) by (simp add: header_def numeral_3_eq_3)
        then have "us = header n (ms_f t3) @ drop 3 us" by (metis append_take_drop_id)
        moreover have "parsed_layout (ms_f t3) = Some (drop 3 us)"
          using t3(5) by (simp add: numeral_3_eq_3)
        ultimately have "unat n = ms_p t3 \<Longrightarrow> accepted ap nap n t3"
          using t3(1) n7 parsed_bound [OF t3(1)] parsed_untouched [OF t3(1)]
          unfolding accepted_def parsed_def
          by (intro conjI exI [of _ "drop 3 us"]) simp_all
        then show "wp (seqs []) ?Q (untouched ap nap) t3"
          using parsed_untouched [OF t3(1)] by (auto simp: seqs.simps wp_def bnd_def need_def ret_def)
      qed
    qed
  qed
  then show ?thesis using parsed_untouched [OF assms(1)] assms(2)
    by (auto simp: M2S_body_def wp_bnd wp_seqs wp_lift wp_need untouched_def)
qed

lemma M2S_run_sound:
  assumes "nap \<le> length ap" "length (fc_wname f) = MAXWELEM" "length (fc_wqid f) = MAXWELEM"
  shows "wp (M2S_run nap) (accepted ap nap) (untouched ap nap) \<lparr>ms_buf = ap, ms_p = 0, ms_f = f\<rparr>"
proof -
  let ?s = "\<lparr>ms_buf = ap, ms_p = 0, ms_f = f\<rparr>"
  have s0: "parsed ap nap [] ?s" using assms(1) by (simp add: parsed_def)
  show ?thesis unfolding M2S_run_def wp_bnd
  proof (rule room_sound [OF s0])
    assume "ms_p ?s + (BIT32SZ + BIT8SZ + BIT16SZ) \<le> nap"
    then have le: "7 \<le> nap" by simp
    then obtain n where n: "GBIT32 ap 0 = Inr n" "take 4 ap = PBIT32 n"
      using GBIT32_ok [of 0 ap] assms(1) by auto
    have "parsed ap nap [W32 n] (?s\<lparr>ms_p := 4\<rparr>)" using le assms(1) n(2) by (simp add: parsed_def)
    then have "wp (M2S_body nap n) (accepted ap nap) (untouched ap nap) ?s"
      using le assms by (intro M2S_body_sound) simp_all
    then show "wp (\<lambda>s. rbind (GBIT32 (ms_buf s) (ms_p s)) (\<lambda>size. M2S_body nap size s))
      (accepted ap nap) (untouched ap nap) ?s"
      using n(1) by (simp add: wp_def)
  qed
qed

lemma convM2S_sound:
  assumes "nap \<le> length ap" "length (fc_wname f) = MAXWELEM" "length (fc_wqid f) = MAXWELEM"
  obtains n b g where "convM2S ap nap f = Inr (n, b, g)" "length b = length ap" "drop nap b = drop nap ap"
    "n \<noteq> 0 \<Longrightarrow> 7 \<le> unat n \<and> unat n \<le> nap \<and> (\<exists>ws. parsed_layout g = Some ws \<and> take (unat n) ap = wire (header n g @ ws))"
proof -
  from wp_not_fault [OF M2S_run_sound [OF assms]] obtain r t where
    run: "M2S_run nap \<lparr>ms_buf = ap, ms_p = 0, ms_f = f\<rparr> = Inr (r, t)"
    "case r of None \<Rightarrow> untouched ap nap t | Some v \<Rightarrow> accepted ap nap v t" by auto
  show ?thesis
  proof (rule that [of "case r of None \<Rightarrow> 0 | Some n \<Rightarrow> n" "ms_buf t" "ms_f t"])
  qed (use run in \<open>auto simp: convM2S_def untouched_def accepted_def split: option.splits\<close>)
qed

lemma gnames_done:
  assumes "todo n (map WStr vs @ ws) s" "n \<le> ep" "\<forall>v \<in> set vs. field_ok (WStr v)"
    "i + length vs \<le> length (fc_wname (ms_f s))"
    "\<And>t. todo n ws t \<Longrightarrow> ms_f t = (ms_f s)\<lparr>fc_wname := take i (fc_wname (ms_f s)) @ map Some vs @
         drop (i + length vs) (fc_wname (ms_f s))\<rparr> \<Longrightarrow> Q () t"
  shows "wp (gnames ep i (length vs)) Q never s"
  using assms
proof (induction vs arbitrary: i s)
  case Nil
  then show ?case by (simp add: wp_ret)
next
  case (Cons v vs)
  let ?w = "fc_wname (ms_f s)"
  have "wp (seqs [gstring ep (\<lambda>v f. f\<lparr>fc_wname := (fc_wname f)[i := Some v]\<rparr>), gnames ep (i + 1) (length vs)])
    Q never s"
    unfolding wp_seqs unit_post
  proof (rule gstring_done [of n v "map WStr vs @ ws"])
    fix t
    assume t: "todo n (map WStr vs @ ws) t" "ms_f t = (ms_f s)\<lparr>fc_wname := ?w[i := Some v]\<rparr>"
    have w: "take (Suc i) (?w[i := Some v]) = take i ?w @ [Some v]"
      using Cons.prems(4) by (simp add: take_Suc_conv_app_nth)
    show "wp (gnames ep (i + 1) (length vs)) Q never t"
    proof (rule Cons.IH [OF t(1) Cons.prems(2)])
      show "i + 1 + length vs \<le> length (fc_wname (ms_f t))" using Cons.prems(4) t(2) by simp
    qed (use Cons.prems(3) t(2) w in \<open>auto intro: Cons.prems(5)\<close>)
  qed (use Cons.prems in simp_all)
  then show ?case using Cons.prems(4) unfolding length_Cons gnames.simps wp_seqs by (simp add: wp_slot)
qed

lemma gqids_done:
  assumes "todo n (map WQid vs @ ws) s" "n \<le> ep" "\<forall>v \<in> set vs. field_ok (WQid v)"
    "i + length vs \<le> length (fc_wqid (ms_f s))"
    "\<And>t. todo n ws t \<Longrightarrow> ms_f t = (ms_f s)\<lparr>fc_wqid := take i (fc_wqid (ms_f s)) @ vs @
         drop (i + length vs) (fc_wqid (ms_f s))\<rparr> \<Longrightarrow> Q () t"
  shows "wp (gqids ep i (length vs)) Q never s"
  using assms
proof (induction vs arbitrary: i s)
  case Nil
  then show ?case by (simp add: wp_ret)
next
  case (Cons v vs)
  let ?w = "fc_wqid (ms_f s)"
  have "wp (seqs [gqid ep (\<lambda>v f. f\<lparr>fc_wqid := (fc_wqid f)[i := v]\<rparr>), gqids ep (i + 1) (length vs)])
    Q never s"
    unfolding wp_seqs unit_post
  proof (rule gqid_done [of n v "map WQid vs @ ws"])
    fix t
    assume t: "todo n (map WQid vs @ ws) t" "ms_f t = (ms_f s)\<lparr>fc_wqid := ?w[i := v]\<rparr>"
    have w: "take (Suc i) (?w[i := v]) = take i ?w @ [v]"
      using Cons.prems(4) by (simp add: take_Suc_conv_app_nth)
    show "wp (gqids ep (i + 1) (length vs)) Q never t"
    proof (rule Cons.IH [OF t(1) Cons.prems(2)])
      show "i + 1 + length vs \<le> length (fc_wqid (ms_f t))" using Cons.prems(4) t(2) by simp
    qed (use Cons.prems(3) t(2) w in \<open>auto intro: Cons.prems(5)\<close>)
  qed (use Cons.prems in simp_all)
  then show ?case using Cons.prems(4) unfolding length_Cons gqids.simps wp_seqs by (simp add: wp_slot)
qed

lemma for_wnames_done:
  assumes "todo n (map WStr vs @ ws) s" "n \<le> ep" "\<forall>v \<in> set vs. field_ok (WStr v)"
    "length vs = unat (fc_nwname (ms_f s))" "length vs \<le> length (fc_wname (ms_f s))"
    "\<And>t. todo n ws t \<Longrightarrow> ms_f t = (ms_f s)\<lparr>fc_wname := map Some vs @
         drop (length vs) (fc_wname (ms_f s))\<rparr> \<Longrightarrow> Q () t"
  shows "wp (for_wnames ep) Q never s"
proof -
  have "wp (gnames ep 0 (length vs)) Q never s"
    by (rule gnames_done [OF assms(1-3)]) (use assms(5,6) in simp_all)
  then show ?thesis using assms(4) by (simp add: wp_def for_wnames_def)
qed

lemma for_wqids_done:
  assumes "todo n (map WQid vs @ ws) s" "n \<le> ep" "\<forall>v \<in> set vs. field_ok (WQid v)"
    "length vs = unat (fc_nwqid (ms_f s))" "length vs \<le> length (fc_wqid (ms_f s))"
    "\<And>t. todo n ws t \<Longrightarrow> ms_f t = (ms_f s)\<lparr>fc_wqid := vs @
         drop (length vs) (fc_wqid (ms_f s))\<rparr> \<Longrightarrow> Q () t"
  shows "wp (for_wqids ep) Q never s"
proof -
  have "wp (gqids ep 0 (length vs)) Q never s"
    by (rule gqids_done [OF assms(1-3)]) (use assms(5,6) in simp_all)
  then show ?thesis using assms(4) by (simp add: wp_def for_wqids_def)
qed

lemmas parse_done = for_wnames_done for_wqids_done room_done ld8_done ld16_done ld32_done ld64_done gblock_done
  gqid_done gstring_done at_most_done

text \<open>\<open>Q\<close> after the fields of \<open>f\<close> have been parsed over \<open>g\<close>: the message is the one of \<open>f\<close>.\<close>

lemma T_cases_done:
  assumes "todo n ws s" "n \<le> ep" "layout f = Some ws" "expressible f" "fc_type (ms_f s) = fc_type f"
    "length (fc_wname (ms_f s)) = MAXWELEM"
    "\<And>t. todo n [] t \<Longrightarrow> fc_type (ms_f t) = fc_type f \<Longrightarrow>
       fc_tag (ms_f t) = fc_tag (ms_f s) \<Longrightarrow> layout (ms_f t) = layout f \<Longrightarrow> Q () t"
  shows "opt_wp (T_cases ep (fc_type f)) Q never s"
proof -
  from assms(3,4) have ok: "\<forall>w \<in> set ws. field_ok w" by (simp add: expressible_def)
  have [simp]: "fc_type f = Twrite \<Longrightarrow> unat (fc_count f) \<le> length (fc_data f)"
    "fc_type f = Twstat \<Longrightarrow> unat (fc_nstat f) \<le> length (fc_stat f)"
    "unat (fc_nwname f) \<le> 16" "length (fc_wname f) = 16"
    using assms(4) by (auto simp: expressible_def)
  show ?thesis unfolding T_cases_def
    by (intro opt_wp_rules; insert assms(1,3,5,6) ok; (elim disjE)?;
      simp only: layout_simps option.inject append_Cons append_Nil; hypsubst_thin;
      ((rule parse_done | rule wp_seqs_intro(2) | assumption | rule assms(2) | (simp; fail))+)?;
      (rule wp_seqs_intro(1))?; (rule assms(7), assumption, simp, simp, simp add: layout_simps))
qed

lemma R_cases_done:
  assumes "todo n ws s" "n \<le> ep" "layout f = Some ws" "expressible f" "fc_type (ms_f s) = fc_type f"
    "length (fc_wqid (ms_f s)) = MAXWELEM"
    "\<And>t. todo n [] t \<Longrightarrow> fc_type (ms_f t) = fc_type f \<Longrightarrow>
       fc_tag (ms_f t) = fc_tag (ms_f s) \<Longrightarrow> layout (ms_f t) = layout f \<Longrightarrow> Q () t"
  shows "opt_wp (R_cases ep (fc_type f)) Q never s"
proof -
  from assms(3,4) have ok: "\<forall>w \<in> set ws. field_ok w" by (simp add: expressible_def)
  have [simp]: "fc_type f = Rread \<Longrightarrow> unat (fc_count f) \<le> length (fc_data f)"
    "fc_type f = Rstat \<Longrightarrow> unat (fc_nstat f) \<le> length (fc_stat f)"
    "unat (fc_nwqid f) \<le> 16" "length (fc_wqid f) = 16"
    using assms(4) by (auto simp: expressible_def)
  show ?thesis unfolding R_cases_def
    by (intro opt_wp_rules; insert assms(1,3,5,6) ok; (elim disjE)?;
      simp only: layout_simps option.inject append_Cons append_Nil; hypsubst_thin;
      ((rule parse_done | rule wp_seqs_intro(2) | assumption | rule assms(2) | (simp; fail))+)?;
      (rule wp_seqs_intro(1))?; (rule assms(7), assumption, simp, simp, simp add: layout_simps))
qed

lemma M2S_cases_done:
  assumes "todo n ws s" "n \<le> ep" "layout f = Some ws" "expressible f" "fc_type (ms_f s) = fc_type f"
    "length (fc_wname (ms_f s)) = MAXWELEM" "length (fc_wqid (ms_f s)) = MAXWELEM"
    "\<And>t. todo n [] t \<Longrightarrow> fc_type (ms_f t) = fc_type f \<Longrightarrow>
       fc_tag (ms_f t) = fc_tag (ms_f s) \<Longrightarrow> layout (ms_f t) = layout f \<Longrightarrow> Q () t"
  shows "wp (M2S_cases ep) Q never s"
proof -
  have "opt_wp (T_cases ep (fc_type f)) Q never s"
    "opt_wp (R_cases ep (fc_type f)) Q never s"
    by (rule T_cases_done [OF assms(1-6)] R_cases_done [OF assms(1-5,7)]; rule assms(8);
        assumption)+
  moreover have "T_cases ep (fc_type f) \<noteq> None \<or> R_cases ep (fc_type f) \<noteq> None"
    using assms(3) by (auto simp: layout_def layout_by_def T_cases_def R_cases_def Let_def split: if_splits)
  ultimately show ?thesis
    by (cases "T_cases ep (fc_type f)"; cases "R_cases ep (fc_type f)")
      (simp_all add: wp_def opt_wp_def M2S_cases_def quit_def assms(5))
qed

lemma M2S_run_done:
  assumes "expressible f" "layout f = Some ws" "length (fc_wname g) = MAXWELEM"
    "length (fc_wqid g) = MAXWELEM" "msg_size ws \<le> nap" "nap \<le> length (message f @ r)"
  shows "wp (M2S_run nap) (\<lambda>n t. n = of_nat (msg_size ws) \<and> fc_type (ms_f t) = fc_type f \<and>
      fc_tag (ms_f t) = fc_tag f \<and> layout (ms_f t) = layout f) never
    \<lparr>ms_buf = message f @ r, ms_p = 0, ms_f = g\<rparr>"
proof -
  let ?n = "of_nat (msg_size ws) :: u32"
  let ?s = "\<lparr>ms_buf = message f @ r, ms_p = 0, ms_f = g\<rparr>"
  have n: "unat ?n = msg_size ws" "7 \<le> msg_size ws"
  proof -
    have "msg_size ws < 2 ^ 32" using assms(1,2) by (simp add: expressible_def)
    then show "unat ?n = msg_size ws" by (simp add: unsigned_of_nat take_bit_nat_eq_self_iff)
  qed (simp add: msg_size_def)
  have m: "message f = wire (header ?n f @ ws)" by (simp add: message_def assms(2))
  have "length (message f) = msg_size ws" by (simp add: m header_def msg_size_def)
  then have t0: "todo (msg_size ws) (header ?n f @ ws) ?s"
    by (auto simp: todo_def m header_def msg_size_def)
  then have t: "todo (msg_size ws) ([W8 (fc_type f), W16 (fc_tag f)] @ ws) (?s\<lparr>ms_p := 4\<rparr>)"
    unfolding header_def append_Cons by (rule todo_step) simp_all
  have g: "GBIT32 (message f @ r) 0 = Inr ?n"
    by (rule GBIT32_put [of _ _ _ "wire (W8 (fc_type f) # W16 (fc_tag f) # ws) @ r"])
      (simp add: m header_def)
  let ?E = "\<lambda>t. fc_type (ms_f t) = fc_type f \<and> fc_tag (ms_f t) = fc_tag f \<and> layout (ms_f t) = layout f"
  have "wp (seqs [ld8 (\<lambda>v. fc_type_update (\<lambda>_. v)), ld16 (\<lambda>v. fc_tag_update (\<lambda>_. ucast v)), M2S_cases nap])
     (\<lambda>_ t. todo (msg_size ws) [] t \<and> ?E t) never (?s\<lparr>ms_p := 4\<rparr>)"
    using t unfolding append_Cons append_Nil
    apply -
    apply (rule wp_seqs_intro(2), rule ld8_done, assumption)
    apply (rule wp_seqs_intro(2), rule ld16_done, assumption)
    apply (rule wp_seqs_intro(2), rule M2S_cases_done, assumption, rule assms(5), rule assms(2), rule assms(1))
    using assms(3,4) by (simp_all add: wp_seqs)
  then have "wp (M2S_body nap ?n) (\<lambda>n t. n = ?n \<and> ?E t) never ?s"
    using n assms(5) by (simp add: M2S_body_def wp_bnd wp_seqs wp_lift wp_need)
     (auto simp: wp_def todo_def bnd_def need_def ret_def split: sum.splits option.splits)
  then show ?thesis
    using assms(5) n g by (simp add: M2S_run_def wp_def bnd_def room_def need_def)
qed

end
