(* ===== verification/S2M.thy ===== *)
theory S2M
  imports Fcall
begin

text \<open>
  The writer of 9P messages, \<^verbatim>\<open>libkern/convS2M.c\<close>: \<open>sizeS2M\<close> adds up the size in a 32-bit
  \<open>uint\<close>, as the code does, and \<open>convS2M\<close> writes through a cursor into the buffer object.
\<close>

definition c_strlen :: "byte list \<Rightarrow> nat" where
  "c_strlen s = length (c_string s)"

definition stringsz :: "cstr \<Rightarrow> u32" where
  "stringsz s = (case s of None \<Rightarrow> of_nat BIT16SZ
     | Some t \<Rightarrow> of_nat (BIT16SZ + c_strlen t))"

primrec size_names :: "cstr list \<Rightarrow> nat \<Rightarrow> nat \<Rightarrow> u32 \<Rightarrow> access_fault + u32" where
  "size_names w i 0 n = Inr n"
| "size_names w i (Suc k) n =
     rbind (fetch OutOfBounds w i) (\<lambda>s. size_names w (i + 1) k (n + stringsz s))"

abbreviation (input) sz32 :: u32 where "sz32 \<equiv> of_nat BIT32SZ"
abbreviation (input) sz16 :: u32 where "sz16 \<equiv> of_nat BIT16SZ"
abbreviation (input) sz8 :: u32 where "sz8 \<equiv> of_nat BIT8SZ"
abbreviation (input) sz64 :: u32 where "sz64 \<equiv> of_nat BIT64SZ"
abbreviation (input) szqid :: u32 where "szqid \<equiv> of_nat QIDSZ"

definition sizeS2M :: "Fcall \<Rightarrow> access_fault + u32" where
  "sizeS2M f =
     (let n = sz32 + sz8 + sz16; t = fc_type f in
      if t = Tversion then Inr (n + sz32 + stringsz (fc_version f))
      else if t = Tflush then Inr (n + sz16)
      else if t = Tauth then Inr (n + sz32 + stringsz (fc_uname f) + stringsz (fc_aname f))
      else if t = Tattach then
        Inr (n + sz32 + sz32 + stringsz (fc_uname f) + stringsz (fc_aname f))
      else if t = Twalk then
        size_names (fc_wname f) 0 (unat (fc_nwname f)) (n + sz32 + sz32 + sz16)
      else if t = Topen then Inr (n + sz32 + sz8)
      else if t = Tcreate then Inr (n + sz32 + stringsz (fc_name f) + sz32 + sz8)
      else if t = Tread then Inr (n + sz32 + sz64 + sz32)
      else if t = Twrite then Inr (n + sz32 + sz64 + sz32 + fc_count f)
      else if t = Tclunk \<or> t = Tremove then Inr (n + sz32)
      else if t = Tstat then Inr (n + sz32)
      else if t = Twstat then Inr (n + sz32 + sz16 + ucast (fc_nstat f))
      else if t = Rversion then Inr (n + sz32 + stringsz (fc_version f))
      else if t = Rerror then Inr (n + stringsz (fc_ename f))
      else if t = Rflush then Inr n
      else if t = Rauth then Inr (n + szqid)
      else if t = Rattach then Inr (n + szqid)
      else if t = Rwalk then Inr (n + sz16 + ucast (fc_nwqid f) * szqid)
      else if t = Ropen \<or> t = Rcreate then Inr (n + szqid + sz32)
      else if t = Rread then Inr (n + sz32 + fc_count f)
      else if t = Rwrite then Inr (n + sz32)
      else if t = Rclunk \<or> t = Rremove then Inr n
      else if t = Rstat then Inr (n + sz16 + ucast (fc_nstat f))
      else if t = Rwstat then Inr n
      else Inr 0)"

text \<open>The locals of \<open>convS2M\<close>: the buffer and the pointer \<open>p\<close> into it.\<close>

record wstate =
  ws_buf :: "byte list"
  ws_p :: nat

type_synonym wstep = "(wstate, unit) proc"

text \<open>\<open>put bs\<close> stores the bytes at \<open>p\<close> and advances it: a \<open>PBIT\<close> macro or a \<open>memmove\<close>.\<close>

definition put :: "byte list \<Rightarrow> wstep" where
  "put bs = lift (\<lambda>s. rbind (wrblock OutOfBounds (ws_buf s) (ws_p s) bs)
     (\<lambda>b. Inr (s\<lparr>ws_buf := b, ws_p := ws_p s + length bs\<rparr>)))"

definition pstring :: "cstr \<Rightarrow> wstep" where
  "pstring s = (case s of None \<Rightarrow> put (PBIT16 (0 :: u32))
     | Some t \<Rightarrow> (let n = (of_nat (c_strlen t) :: u32) in
         seqs [put (PBIT16 n),
           (\<lambda>w. rbind (rdblock OutOfBounds t 0 (unat n)) (\<lambda>bs. put bs w))]))"

definition pqid :: "Qid \<Rightarrow> wstep" where
  "pqid q = seqs [put (PBIT8 (q_type q)), put (PBIT32 (q_vers q)), put (PBIT64 (q_path q))]"

text \<open>\<open>memmove(p, s, n); p += n\<close>, reading \<open>n\<close> bytes of the object \<open>s\<close>.\<close>

definition pblock :: "byte list \<Rightarrow> nat \<Rightarrow> wstep" where
  "pblock s n w = rbind (rdblock OutOfBounds s 0 n) (\<lambda>bs. put bs w)"

primrec pnames :: "cstr list \<Rightarrow> nat \<Rightarrow> nat \<Rightarrow> wstep" where
  "pnames w i 0 = ret ()"
| "pnames w i (Suc k) = seqs [
     (\<lambda>s. rbind (fetch OutOfBounds w i) (\<lambda>x. pstring x s)), pnames w (i + 1) k]"

primrec pqids :: "Qid list \<Rightarrow> nat \<Rightarrow> nat \<Rightarrow> wstep" where
  "pqids q i 0 = ret ()"
| "pqids q i (Suc k) = seqs [
     (\<lambda>s. rbind (fetch OutOfBounds q i) (\<lambda>x. pqid x s)), pqids q (i + 1) k]"

definition S2M_T :: "Fcall \<Rightarrow> wstep list option" where
  "S2M_T f =
     (let t = fc_type f in
      if t = Tversion then Some [put (PBIT32 (fc_msize f)), pstring (fc_version f)]
      else if t = Tflush then Some [put (PBIT16 (fc_oldtag f))]
      else if t = Tauth then
        Some [put (PBIT32 (fc_afid f)), pstring (fc_uname f), pstring (fc_aname f)]
      else if t = Tattach then Some [put (PBIT32 (fc_fid f)), put (PBIT32 (fc_afid f)),
        pstring (fc_uname f), pstring (fc_aname f)]
      else if t = Twalk then Some [put (PBIT32 (fc_fid f)), put (PBIT32 (fc_newfid f)),
        put (PBIT16 (fc_nwname f)), need (unat (fc_nwname f) \<le> MAXWELEM),
        pnames (fc_wname f) 0 (unat (fc_nwname f))]
      else if t = Topen then Some [put (PBIT32 (fc_fid f)), put (PBIT8 (fc_mode f))]
      else if t = Tcreate then Some [put (PBIT32 (fc_fid f)), pstring (fc_name f),
        put (PBIT32 (fc_perm f)), put (PBIT8 (fc_mode f))]
      else if t = Tread then Some [put (PBIT32 (fc_fid f)), put (PBIT64 (fc_offset f)),
        put (PBIT32 (fc_count f))]
      else if t = Twrite then Some [put (PBIT32 (fc_fid f)), put (PBIT64 (fc_offset f)),
        put (PBIT32 (fc_count f)), pblock (fc_data f) (unat (fc_count f))]
      else if t = Tclunk \<or> t = Tremove then Some [put (PBIT32 (fc_fid f))]
      else if t = Tstat then Some [put (PBIT32 (fc_fid f))]
      else if t = Twstat then Some [put (PBIT32 (fc_fid f)), put (PBIT16 (fc_nstat f)),
        pblock (fc_stat f) (unat (fc_nstat f))]
      else None)"

definition S2M_R :: "Fcall \<Rightarrow> wstep list option" where
  "S2M_R f =
     (let t = fc_type f in
      if t = Rversion then Some [put (PBIT32 (fc_msize f)), pstring (fc_version f)]
      else if t = Rerror then Some [pstring (fc_ename f)]
      else if t = Rflush then Some []
      else if t = Rauth then Some [pqid (fc_aqid f)]
      else if t = Rattach then Some [pqid (fc_qid f)]
      else if t = Rwalk then Some [put (PBIT16 (fc_nwqid f)),
        need (unat (fc_nwqid f) \<le> MAXWELEM), pqids (fc_wqid f) 0 (unat (fc_nwqid f))]
      else if t = Ropen \<or> t = Rcreate then Some [pqid (fc_qid f), put (PBIT32 (fc_iounit f))]
      else if t = Rread then
        Some [put (PBIT32 (fc_count f)), pblock (fc_data f) (unat (fc_count f))]
      else if t = Rwrite then Some [put (PBIT32 (fc_count f))]
      else if t = Rclunk then Some []
      else if t = Rremove then Some []
      else if t = Rstat then
        Some [put (PBIT16 (fc_nstat f)), pblock (fc_stat f) (unat (fc_nstat f))]
      else if t = Rwstat then Some []
      else None)"

definition S2M_cases :: "Fcall \<Rightarrow> wstep" where
  "S2M_cases f = (case S2M_T f of Some ms \<Rightarrow> seqs ms
     | None \<Rightarrow> (case S2M_R f of Some ms \<Rightarrow> seqs ms | None \<Rightarrow> quit))"

definition S2M_run :: "Fcall \<Rightarrow> u32 \<Rightarrow> (wstate, u32) proc" where
  "S2M_run f sz = bnd (seqs [put (PBIT32 sz), put (PBIT8 (fc_type f)),
       put (PBIT16 (fc_tag f)), S2M_cases f])
     (\<lambda>_ s. bnd (need (unat sz = ws_p s)) (\<lambda>_. ret sz) s)"

text \<open>The return value, and the buffer as \<open>convS2M\<close> leaves it.\<close>

definition convS2M :: "Fcall \<Rightarrow> byte list \<Rightarrow> nat \<Rightarrow> access_fault + u32 \<times> byte list" where
  "convS2M f ap nap =
     rbind (sizeS2M f) (\<lambda>size.
       if size = 0 then Inr (0, ap)
       else if unat size > nap then Inr (0, ap)
       else rbind (S2M_run f size \<lparr>ws_buf = ap, ws_p = 0\<rparr>)
         (\<lambda>(r, s). Inr (case r of None \<Rightarrow> 0 | Some n \<Rightarrow> n, ws_buf s)))"

section \<open>The writer run over a buffer\<close>

text \<open>\<open>wst ap bs\<close> is the state after the bytes \<open>bs\<close> have been written over \<open>ap\<close>.\<close>

definition wst :: "byte list \<Rightarrow> byte list \<Rightarrow> wstate" where
  "wst ap bs = \<lparr>ws_buf = bs @ drop (length bs) ap, ws_p = length bs\<rparr>"

lemma wst_sel [simp]: "ws_p (wst ap bs) = length bs" "ws_buf (wst ap bs) = bs @ drop (length bs) ap"
  by (simp_all add: wst_def)

lemma wp_put [simp]:
  "length bs + length b \<le> length ap \<Longrightarrow> wp (put b) Q E (wst ap bs) \<longleftrightarrow> Q () (wst ap (bs @ b))"
  by (auto simp: put_def wp_lift wrblock_def wst_def add.commute)

lemma stringsz_eq: "stringsz s = of_nat (2 + length (str_of s))"
  by (cases s) (simp_all add: stringsz_def str_of_def c_strlen_def)

lemma PBIT16_of_nat: "PBIT16 (of_nat n :: u32) = PBIT16 (of_nat n :: u16)"
proof -
  have "(of_nat n :: u16) = ucast (of_nat n :: u32)"
    by (rule word_eq_unatI) (simp add: unsigned_of_nat unsigned_ucast_eq min_def)
  then show ?thesis by simp
qed

lemma c_string_take: "take (c_strlen s) s = c_string s"
  by (simp add: c_strlen_def c_string_def takeWhile_eq_take [symmetric])

lemma c_strlen_le: "c_strlen s \<le> length s"
  by (simp add: c_strlen_def c_string_def length_takeWhile_le)

lemma wp_pstring [simp]:
  assumes "length (str_of s) < 65536" "length bs + 2 + length (str_of s) \<le> length ap"
  shows "wp (pstring s) Q E (wst ap bs) \<longleftrightarrow> Q () (wst ap (bs @ wire_field (WStr (str_of s))))"
proof (cases s)
  case None
  then show ?thesis using assms PBIT16_of_nat [of 0] by (simp add: pstring_def str_of_def)
next
  case (Some t)
  then have l: "c_strlen t = length (str_of s)" "str_of s = c_string t"
    by (simp_all add: str_of_def c_strlen_def)
  have "unat (of_nat (c_strlen t) :: u32) = c_strlen t"
    using assms(1) l by (simp add: unsigned_of_nat take_bit_nat_eq_self_iff)
  moreover have "rdblock OutOfBounds t 0 (c_strlen t) = Inr (str_of s)"
    using c_strlen_le l(2) by (simp add: rdblock_def c_string_take)
  moreover have "wp (\<lambda>w. put (str_of s) w) Q E (wst ap (bs @ PBIT16 (of_nat (c_strlen t) :: u32))) \<longleftrightarrow>
      Q () (wst ap (bs @ PBIT16 (of_nat (c_strlen t) :: u32) @ str_of s))"
    using assms(2) by simp
  ultimately show ?thesis using assms Some l(1)
    by (simp add: pstring_def wp_seqs PBIT16_of_nat Let_def)
qed

lemma wp_pqid [simp]:
  "length bs + 13 \<le> length ap \<Longrightarrow>
    wp (pqid q) Q E (wst ap bs) \<longleftrightarrow> Q () (wst ap (bs @ wire_field (WQid q)))"
  by (simp add: pqid_def wp_seqs)

lemma wp_pblock [simp]:
  assumes "n \<le> length s" "length bs + n \<le> length ap"
  shows "wp (pblock s n) Q E (wst ap bs) \<longleftrightarrow> Q () (wst ap (bs @ take n s))"
proof -
  have "wp (pblock s n) Q E (wst ap bs) \<longleftrightarrow> wp (put (take n s)) Q E (wst ap bs)"
    using assms(1) by (simp add: pblock_def rdblock_def wp_def)
  then show ?thesis using assms by simp
qed

lemma wp_fetch_step:
  "i < length xs \<Longrightarrow> wp (\<lambda>s. rbind (fetch e xs i) (\<lambda>x. m x s)) Q E s \<longleftrightarrow> wp (m (xs ! i)) Q E s"
  by (simp add: wp_def)

lemma wp_pnames [simp]:
  assumes "i + k \<le> length w" "\<forall>s \<in> set (take k (drop i w)). length (str_of s) < 65536"
    "length bs + length (wire (map WStr (map str_of (take k (drop i w))))) \<le> length ap"
  shows "wp (pnames w i k) Q E (wst ap bs) \<longleftrightarrow>
    Q () (wst ap (bs @ wire (map WStr (map str_of (take k (drop i w))))))"
  using assms
proof (induction k arbitrary: i bs)
  case 0
  then show ?case by (simp add: wp_ret)
next
  case (Suc k)
  have d: "take (Suc k) (drop i w) = w ! i # take k (drop (Suc i) w)"
    using Suc.prems(1) by (simp add: Cons_nth_drop_Suc [symmetric])
  show ?case
    using Suc.prems Suc.IH [of "i + 1" "bs @ wire_field (WStr (str_of (w ! i)))"]
    by (simp add: wp_seqs wp_fetch_step d)
qed

lemma wp_pqids [simp]:
  assumes "i + k \<le> length w"
    "length bs + length (wire (map WQid (take k (drop i w)))) \<le> length ap"
  shows "wp (pqids w i k) Q E (wst ap bs) \<longleftrightarrow>
    Q () (wst ap (bs @ wire (map WQid (take k (drop i w)))))"
  using assms
proof (induction k arbitrary: i bs)
  case 0
  then show ?case by (simp add: wp_ret)
next
  case (Suc k)
  have d: "take (Suc k) (drop i w) = w ! i # take k (drop (Suc i) w)"
    using Suc.prems(1) by (simp add: Cons_nth_drop_Suc [symmetric])
  then show ?case
    using Suc.prems Suc.IH [of "i + 1" "bs @ wire_field (WQid (w ! i))"]
    by (simp add: wp_seqs wp_fetch_step d)
qed

lemma size_names_eq:
  "i + k \<le> length w \<Longrightarrow> size_names w i k n =
     Inr (n + of_nat (length (wire (map WStr (map str_of (take k (drop i w)))))))"
proof (induction k arbitrary: i n)
  case (Suc k)
  have "take (Suc k) (drop i w) = w ! i # take k (drop (Suc i) w)"
    using Suc.prems by (simp add: Cons_nth_drop_Suc [symmetric])
  then show ?case using Suc by (simp add: stringsz_eq)
qed simp

lemma length_wire_qids: "length (wire (map WQid qs)) = 13 * length qs"
  by (induction qs) simp_all

lemma sizeS2M_eq:
  assumes "expressible f" "layout f = Some ws"
  shows "sizeS2M f = Inr (of_nat (msg_size ws))"
proof -
  have e [simp]: "fc_type f = Twrite \<or> fc_type f = Rread \<Longrightarrow> unat (fc_count f) \<le> length (fc_data f)"
    "fc_type f = Twstat \<or> fc_type f = Rstat \<Longrightarrow> unat (fc_nstat f) \<le> length (fc_stat f)"
    "unat (fc_nwqid f) \<le> 16" "unat (fc_nwname f) \<le> 16" "length (fc_wqid f) = 16" "length (fc_wname f) = 16"
    using assms(1) by (auto simp: expressible_def)
  show ?thesis using assms(2)
    by (auto simp: sizeS2M_def layout_def layout_by_def type_codes Let_def msg_size_def stringsz_eq
        size_names_eq length_wire_qids min_absorb2 o_def split: if_splits)
qed

lemma wp_need_T [simp]: "b \<Longrightarrow> wp (need b) Q E s \<longleftrightarrow> Q () s"
  by (simp add: wp_need)

lemma S2M_cases_writes:
  assumes "expressible f" "layout f = Some ws" "length bs + length (wire ws) \<le> length ap"
    "Q () (wst ap (bs @ wire ws))"
  shows "wp (S2M_cases f) Q E (wst ap bs)"
proof -
  have e [simp]: "fc_type f = Twrite \<or> fc_type f = Rread \<Longrightarrow> unat (fc_count f) \<le> length (fc_data f)"
    "fc_type f = Twstat \<or> fc_type f = Rstat \<Longrightarrow> unat (fc_nstat f) \<le> length (fc_stat f)"
    "unat (fc_nwqid f) \<le> 16" "unat (fc_nwname f) \<le> 16" "length (fc_wqid f) = 16" "length (fc_wname f) = 16"
    and ok: "\<forall>w \<in> set ws. field_ok w"
    using assms(1,2) by (auto simp: expressible_def)
  have "opt_wp (S2M_T f) Q E (wst ap bs)" unfolding S2M_T_def Let_def
    by (intro opt_wp_rules; insert assms(2-4) ok; (elim disjE)?; simp only: layout_simps option.inject;
        hypsubst_thin; simp add: wp_seqs o_def min_absorb2)
  moreover have "opt_wp (S2M_R f) Q E (wst ap bs)" unfolding S2M_R_def Let_def
    by (intro opt_wp_rules; insert assms(2-4) ok; (elim disjE)?; simp only: layout_simps option.inject;
        hypsubst_thin; simp add: wp_seqs o_def min_absorb2)
  moreover have "S2M_T f \<noteq> None \<or> S2M_R f \<noteq> None"
    using assms(2) by (auto simp: layout_def layout_by_def S2M_T_def S2M_R_def Let_def split: if_splits)
  ultimately show ?thesis
    by (cases "S2M_T f"; cases "S2M_R f") (simp_all add: opt_wp_def S2M_cases_def)
qed

lemma expressible_size: "expressible f \<Longrightarrow> layout f = Some ws \<Longrightarrow> unat (of_nat (msg_size ws) :: u32) = msg_size ws"
  by (simp add: expressible_def unsigned_of_nat take_bit_nat_eq_self_iff)

lemma length_message: "layout f = Some ws \<Longrightarrow> length (message f) = msg_size ws"
  by (simp add: message_def header_def msg_size_def)

lemma convS2M_writes_message:
  assumes "expressible f" "layout f = Some ws" "msg_size ws \<le> nap" "nap \<le> length ap"
  shows "convS2M f ap nap = Inr (of_nat (msg_size ws), message f @ drop (msg_size ws) ap)"
proof -
  let ?n = "of_nat (msg_size ws) :: u32"
  note n = expressible_size [OF assms(1,2)]
  have z: "?n \<noteq> 0" using n by (auto simp: msg_size_def)
  have m: "message f = PBIT32 ?n @ PBIT8 (fc_type f) @ PBIT16 (fc_tag f) @ wire ws"
    by (simp add: message_def assms(2) header_def)
  have l: "7 + length (wire ws) \<le> length ap" using assms(3,4) by (simp add: msg_size_def)
  have "wp (seqs [put (PBIT32 ?n), put (PBIT8 (fc_type f)), put (PBIT16 (fc_tag f)), S2M_cases f])
    (\<lambda>_ s. s = wst ap (message f)) (\<lambda>_. False) (wst ap [])"
    using l by (simp add: wp_seqs m S2M_cases_writes [OF assms(1,2)])
  then have r: "S2M_run f ?n (wst ap []) = Inr (Some ?n, wst ap (message f))"
    using n length_message [OF assms(2)]
    by (auto simp: S2M_run_def bnd_def wp_def need_def ret_def split: sum.splits option.splits)
  have start: "\<lparr>ws_buf = ap, ws_p = 0\<rparr> = wst ap []" by (simp add: wst_def)
  show ?thesis unfolding convS2M_def start using r n z assms(3) length_message [OF assms(2)]
    by (simp add: sizeS2M_eq [OF assms(1,2)])
qed

lemma convS2M_too_small:
  "expressible f \<Longrightarrow> layout f = Some ws \<Longrightarrow> nap < msg_size ws \<Longrightarrow> convS2M f ap nap = Inr (0, ap)"
  by (simp add: convS2M_def sizeS2M_eq expressible_size)

lemma convS2M_bad_type: "layout f = None \<Longrightarrow> convS2M f ap nap = Inr (0, ap)"
proof -
  assume n: "layout f = None"
  have "fc_type f \<notin> {Tversion, Tflush, Tauth, Tattach, Twalk, Topen, Tcreate, Tread, Twrite, Tclunk,
    Tremove, Tstat, Twstat, Rversion, Rerror, Rflush, Rauth, Rattach, Rwalk, Ropen, Rcreate, Rread,
    Rwrite, Rclunk, Rremove, Rstat, Rwstat}"
    using n by (auto simp: layout_simps)
  then show ?thesis by (simp add: convS2M_def sizeS2M_def Let_def)
qed

end
