(* ===== verification/Styx9P.thy ===== *)
theory Styx9P
  imports M2S S2M
begin

text \<open>
  The properties of the 9P message codec that span its reader and its writer: what
  \<open>convS2M\<close> writes, that \<open>convM2S\<close> reads it back, and that \<open>convM2S\<close> is safe on any input.
\<close>

text \<open>An \<open>Fcall\<close> as \<open>memset\<close> to zero leaves it.\<close>

definition nil_qid :: Qid where
  "nil_qid = \<lparr>q_path = 0, q_vers = 0, q_type = 0\<rparr>"

definition nil_fcall :: Fcall where
  "nil_fcall = \<lparr>fc_type = 0, fc_fid = 0, fc_tag = 0, fc_msize = 0, fc_version = None,
     fc_oldtag = 0, fc_ename = None, fc_qid = nil_qid, fc_iounit = 0, fc_aqid = nil_qid,
     fc_afid = 0, fc_uname = None, fc_aname = None, fc_perm = 0, fc_name = None, fc_mode = 0,
     fc_newfid = 0, fc_nwname = 0, fc_wname = replicate 16 None, fc_nwqid = 0,
     fc_wqid = replicate 16 nil_qid, fc_offset = 0, fc_count = 0, fc_data = [], fc_nstat = 0,
     fc_stat = []\<rparr>"

definition hello :: Fcall where
  "hello = nil_fcall\<lparr>fc_type := Tversion, fc_tag := 0xFFFF, fc_msize := 8192,
     fc_version := Some [57, 80]\<rparr>"

lemma hello_layout: "layout hello = Some [W32 8192, WStr [57, 80]]"
  by (simp add: layout_simps hello_def str_of_def c_string_def)

lemma hello_ok: "expressible hello"
  unfolding expressible_def hello_layout
  by (simp add: hello_def nil_fcall_def type_codes msg_size_def)

text \<open>
  C11. For every expressible message, \<open>convS2M\<close> writes exactly its wire form at the front of the
  buffer and returns its size when the buffer is large enough, and otherwise returns 0 and
  leaves the buffer alone.  It never writes elsewhere.
\<close>

theorem convS2M_correct:
  assumes "expressible f" "layout f = Some ws" "nap \<le> length ap"
  shows "convS2M f ap nap =
    (if msg_size ws \<le> nap then Inr (of_nat (msg_size ws), message f @ drop (msg_size ws) ap)
     else Inr (0, ap))"
  using convS2M_writes_message [OF assms(1,2) _ assms(3)] convS2M_too_small [OF assms(1,2)]
  by simp

theorem convS2M_correct_witness:
  "convS2M hello (replicate 40 0) 40 =
    Inr (15, [15, 0, 0, 0, 100, 255, 255, 0, 32, 0, 0, 2, 0, 57, 80] @ replicate 25 0)"
  using convS2M_correct [OF hello_ok hello_layout, of 40 "replicate 40 0"]
  by (simp add: message_def hello_layout header_def msg_size_def)
    (simp add: hello_def PBIT32_def PBIT16_def PBIT8_def type_codes)

text \<open>
  C4. Reading inverts writing: after \<open>convS2M\<close> has written an expressible message, \<open>convM2S\<close> on
  that buffer accepts it, consumes the same size, and yields a structure with the same type,
  tag and fields.
\<close>

theorem convM2S_convS2M:
  assumes "expressible f" "layout f = Some ws" "msg_size ws \<le> nap" "nap \<le> length ap"
    "length (fc_wname g) = MAXWELEM" "length (fc_wqid g) = MAXWELEM"
  shows "\<exists>n out b h. convS2M f ap nap = Inr (n, out) \<and> convM2S out nap g = Inr (n, b, h) \<and>
    unat n = msg_size ws \<and>
    fc_type h = fc_type f \<and> fc_tag h = fc_tag f \<and> layout h = layout f"
proof -
  let ?out = "message f @ drop (msg_size ws) ap"
  have "nap \<le> length ?out" using assms(3,4) length_message [OF assms(2)] by simp
  from M2S_run_done [OF assms(1,2,5,6,3) this] show ?thesis
    using convS2M_writes_message [OF assms(1-4)] expressible_size [OF assms(1,2)]
    by (auto simp: convM2S_def wp_def split: sum.splits option.splits)
qed

theorem convM2S_convS2M_witness:
  "\<exists>n out b h. convS2M hello (replicate 40 0) 40 = Inr (n, out) \<and>
    convM2S out 40 nil_fcall = Inr (n, b, h) \<and>
    unat n = msg_size [W32 8192, WStr [57, 80]] \<and>
    fc_type h = fc_type hello \<and> fc_tag h = fc_tag hello \<and> layout h = layout hello"
  by (rule convM2S_convS2M [OF hello_ok hello_layout])
    (simp_all add: msg_size_def nil_fcall_def)

text \<open>
  C12. \<open>convM2S\<close> is memory safe on arbitrary input: with \<open>nap\<close> within the buffer object it never
  reads or writes outside it, never stores past the \<open>wname\<close> and \<open>wqid\<close> arrays, leaves the bytes
  from \<open>nap\<close> on alone, and a size it accepts is at least a header and at most \<open>nap\<close>.
\<close>

theorem convM2S_safe:
  assumes "nap \<le> length ap" "length (fc_wname f) = MAXWELEM" "length (fc_wqid f) = MAXWELEM"
  shows "\<exists>n b g. convM2S ap nap f = Inr (n, b, g) \<and> length b = length ap \<and>
    drop nap b = drop nap ap \<and> (n = 0 \<or> 7 \<le> unat n \<and> unat n \<le> nap)"
  by (rule convM2S_sound [OF assms]) auto

theorem convM2S_safe_witness:
  "\<exists>n b g. convM2S [19, 0, 0, 0, 110, 1] 6 nil_fcall = Inr (n, b, g) \<and> length b = 6 \<and>
    (n = 0 \<or> 7 \<le> unat n \<and> unat n \<le> 6)"
  using convM2S_safe [of 6 "[19, 0, 0, 0, 110, 1]" nil_fcall] by (auto simp: nil_fcall_def)

text \<open>
  C14. What \<open>convM2S\<close> accepts is a message of the protocol: the bytes consumed are, byte for byte, the
  header with the returned size, type and tag, and then the fields that the layout of its type
  reads off the structure (\<open>layout_by raw_str\<close>, all the bytes of each string).  If no string holds a
  zero byte they are exactly what \<open>convS2M\<close> writes for the resulting structure.
\<close>

theorem convM2S_canonical:
  assumes "convM2S ap nap f = Inr (n, b, g)" "n \<noteq> 0"
    "nap \<le> length ap" "length (fc_wname f) = MAXWELEM" "length (fc_wqid f) = MAXWELEM"
  shows "\<exists>ws. layout_by raw_str g = Some ws \<and> take (unat n) ap = wire (header n g @ ws) \<and>
    unat n = msg_size ws \<and> ((\<forall>v \<in> set ws. nul_free v) \<longrightarrow> layout g = Some ws \<and> take (unat n) ap = message g)"
proof -
  obtain n' b' g' where "convM2S ap nap f = Inr (n', b', g')"
    "n' \<noteq> 0 \<Longrightarrow> 7 \<le> unat n' \<and> unat n' \<le> nap \<and>
       (\<exists>ws. layout_by raw_str g' = Some ws \<and> take (unat n') ap = wire (header n' g' @ ws))"
    by (rule convM2S_sound [OF assms(3-5)]) blast
  with assms(1,2) obtain ws where ws: "unat n \<le> nap" "layout_by raw_str g = Some ws"
    "take (unat n) ap = wire (header n g @ ws)" by auto
  have n: "unat n = msg_size ws"
    using arg_cong [OF ws(3), of length] ws(1) assms(3) by (simp add: header_def msg_size_def)
  then have "n = of_nat (msg_size ws)" by (simp flip: n)
  then show ?thesis using ws(2,3) n parsed_layout_nul_free [OF ws(2)] by (auto simp: message_def)
qed

theorem convM2S_canonical_witness:
  "\<exists>n b g. convM2S [11, 0, 0, 0, 120, 1, 0, 5, 0, 0, 0] 11 nil_fcall = Inr (n, b, g) \<and>
     layout_by raw_str g = Some [W32 5] \<and> take (unat n) [11, 0, 0, 0, 120, 1, 0, 5, 0, 0, 0] = message g"
proof -
  let ?b = "[11, 0, 0, 0, 120, 1, 0, 5, 0, 0, 0] :: byte list"
  obtain b g where g: "convM2S ?b 11 nil_fcall = Inr (11, b, g)" "layout_by raw_str g = Some [W32 5]"
    by (simp add: convM2S_def M2S_run_def M2S_body_def M2S_cases_def T_cases_def R_cases_def bnd_def
        room_def need_def seqs.simps lift_def ld8_def ld16_def ld32_def ret_def GBIT8_def GBIT16_def GBIT32_def
        type_codes nil_fcall_def layout_by_def)
  have "length (fc_wname nil_fcall) = MAXWELEM" "length (fc_wqid nil_fcall) = MAXWELEM" "11 \<le> length ?b"
    "(11 :: u32) \<noteq> 0"
    by (simp_all add: nil_fcall_def)
  then obtain ws where ws: "layout_by raw_str g = Some ws"
    "(\<forall>v \<in> set ws. nul_free v) \<longrightarrow> take (unat (11 :: u32)) ?b = message g"
    using convM2S_canonical [OF g(1)] by blast
  have "\<forall>v \<in> set ws. nul_free v" using ws(1) g(2) by auto
  then show ?thesis using g ws(2) by blast
qed

end
