(* ===== verification/Dirstat.thy ===== *)
theory Dirstat
  imports Cursor S2M
begin

text \<open>
  Directory entries: \<^verbatim>\<open>libkern/convM2D.c\<close> (\<open>statcheck\<close>, \<open>convM2D\<close>) and \<^verbatim>\<open>libkern/convD2M.c\<close>
  (\<open>sizeD2M\<close>, \<open>convD2M\<close>); \<^verbatim>\<open>lib9\<close> has the same text.  The fixed part is read by the cursor steps
  of the message parser; the four strings are copied into the caller's buffer \<open>strs\<close>.
\<close>

section \<open>Data: lib9.h\<close>

record Dir =
  d_type :: u16
  d_dev :: u32
  d_qid :: Qid
  d_mode :: u64
  d_atime :: u64
  d_mtime :: u64
  d_length :: u64
  d_name :: cstr
  d_uid :: cstr
  d_gid :: cstr
  d_muid :: cstr

section \<open>statcheck\<close>

text \<open>The loop over the four strings, with \<open>k\<close> to go, from the offset \<open>p\<close>; then the final test.\<close>

primrec statcheck_loop :: "byte list \<Rightarrow> nat \<Rightarrow> nat \<Rightarrow> nat \<Rightarrow> access_fault + int" where
  "statcheck_loop b ep 0 p = Inr (if p \<noteq> ep then - 1 else 0)"
| "statcheck_loop b ep (Suc k) p =
     (if p + BIT16SZ > ep then Inr (- 1)
      else rbind (GBIT16 b p) (\<lambda>n. statcheck_loop b ep k (p + BIT16SZ + unat n)))"

definition statcheck :: "byte list \<Rightarrow> nat \<Rightarrow> access_fault + int" where
  "statcheck b nbuf =
     (if nbuf < STATFIXLEN then Inr (- 1)
      else rbind (GBIT16 b 0) (\<lambda>n.
        if nbuf \<noteq> BIT16SZ + unat n then Inr (- 1)
        else statcheck_loop b nbuf 4 (STATFIXLEN - 4 * BIT16SZ)))"

section \<open>convM2D\<close>

text \<open>
  The locals of \<open>convM2D\<close> beside the cursor: the structure, the object \<open>strs\<close> points into
  (\<open>None\<close> for \<open>nil\<close>), the offset of \<open>strs\<close> in it, and the strings stored so far, \<open>sv\<close>.
\<close>

record dparse =
  dp_dir :: Dir
  dp_strs :: "byte list option"
  dp_sp :: nat
  dp_sv :: "byte list list"

definition skip :: "nat \<Rightarrow> dparse cstep" where
  "skip n = lift (\<lambda>s. Inr (s\<lparr>ms_p := ms_p s + n\<rparr>))"

definition upd :: "(Dir \<Rightarrow> Dir) \<Rightarrow> dparse \<Rightarrow> dparse" where
  "upd g d = d\<lparr>dp_dir := g (dp_dir d)\<rparr>"

definition dir_fixed :: "dparse cstep list" where
  "dir_fixed =
     [skip BIT16SZ, ld16 (\<lambda>v. upd (d_type_update (\<lambda>_. ucast v))),
      ld32 (\<lambda>v. upd (d_dev_update (\<lambda>_. v))),
      ld8 (\<lambda>v. upd (\<lambda>d. d\<lparr>d_qid := (d_qid d)\<lparr>q_type := v\<rparr>\<rparr>)),
      ld32 (\<lambda>v. upd (\<lambda>d. d\<lparr>d_qid := (d_qid d)\<lparr>q_vers := ucast v\<rparr>\<rparr>)),
      ld64 (\<lambda>v. upd (\<lambda>d. d\<lparr>d_qid := (d_qid d)\<lparr>q_path := v\<rparr>\<rparr>)),
      ld32 (\<lambda>v. upd (d_mode_update (\<lambda>_. ucast v))),
      ld32 (\<lambda>v. upd (d_atime_update (\<lambda>_. ucast v))),
      ld32 (\<lambda>v. upd (d_mtime_update (\<lambda>_. ucast v))),
      ld64 (\<lambda>v. upd (d_length_update (\<lambda>_. v)))]"

text \<open>\<open>if(strs) { sv[i] = strs; memmove(strs, p, ns); strs += ns; *strs++ = 0; } p += ns;\<close>\<close>

definition dir_copy :: "nat \<Rightarrow> dparse mstate \<Rightarrow> access_fault + dparse mstate" where
  "dir_copy n s = (let d = ms_f s; p = ms_p s in
     case dp_strs d of None \<Rightarrow> Inr (s\<lparr>ms_p := p + n\<rparr>)
     | Some ob \<Rightarrow>
         rbind (rdblock OutOfBounds (ms_buf s) p n) (\<lambda>t.
         rbind (wrblock OutOfBounds ob (dp_sp d) t) (\<lambda>ob.
         rbind (store OutOfBounds ob (dp_sp d + n) 0) (\<lambda>ob.
         Inr (s\<lparr>ms_p := p + n, ms_f := d\<lparr>dp_strs := Some ob, dp_sp := dp_sp d + n + 1,
           dp_sv := dp_sv d @ [t]\<rparr>\<rparr>)))))"

definition dir_string :: "nat \<Rightarrow> dparse cstep" where
  "dir_string ep = bnd (room ep BIT16SZ) (\<lambda>_ s.
     rbind (GBIT16 (ms_buf s) (ms_p s)) (\<lambda>n.
     seqs [skip BIT16SZ, room ep (unat n), lift (dir_copy (unat n))] s))"

definition dir_names :: "byte list option \<Rightarrow> byte list list \<Rightarrow> Dir \<Rightarrow> Dir" where
  "dir_names strs sv d = (case strs of
     None \<Rightarrow> d\<lparr>d_name := Some [], d_uid := Some [], d_gid := Some [], d_muid := Some []\<rparr>
   | Some _ \<Rightarrow> d\<lparr>d_name := Some (sv ! 0), d_uid := Some (sv ! 1), d_gid := Some (sv ! 2),
       d_muid := Some (sv ! 3)\<rparr>)"

text \<open>The return value, the structure and the string buffer as \<open>convM2D\<close> leaves them.\<close>

definition convM2D ::
  "byte list \<Rightarrow> nat \<Rightarrow> Dir \<Rightarrow> byte list option \<Rightarrow> access_fault + u32 \<times> Dir \<times> byte list option" where
  "convM2D b nbuf d strs =
     (if nbuf < STATFIXLEN then Inr (0, d, strs)
      else rbind (seqs (dir_fixed @ replicate 4 (dir_string nbuf))
          \<lparr>ms_buf = b, ms_p = 0, ms_f = \<lparr>dp_dir = d, dp_strs = strs, dp_sp = 0, dp_sv = []\<rparr>\<rparr>)
        (\<lambda>(r, s). let x = ms_f s in Inr (case r of
             None \<Rightarrow> (0, dp_dir x, dp_strs x)
           | Some _ \<Rightarrow> (of_nat (ms_p s), dir_names strs (dp_sv x) (dp_dir x), dp_strs x))))"

section \<open>convD2M\<close>

definition dir_sv :: "Dir \<Rightarrow> cstr list" where
  "dir_sv d = [d_name d, d_uid d, d_gid d, d_muid d]"

definition dir_nsv :: "Dir \<Rightarrow> u32 list" where
  "dir_nsv d = map (\<lambda>s. case s of None \<Rightarrow> 0 | Some t \<Rightarrow> of_nat (c_strlen t)) (dir_sv d)"

definition sizeD2M :: "Dir \<Rightarrow> u32" where
  "sizeD2M d = of_nat STATFIXLEN + sum_list (dir_nsv d)"

definition put_string :: "nat \<Rightarrow> cstr \<times> u32 \<Rightarrow> wstep" where
  "put_string ep sn s = bnd (need (ws_p s + unat (snd sn) + BIT16SZ \<le> ep)) (\<lambda>_.
     seqs [put (PBIT16 (snd sn)),
       (if snd sn \<noteq> 0 then pblock (case fst sn of None \<Rightarrow> [] | Some t \<Rightarrow> t) (unat (snd sn))
        else ret ())]) s"

definition D2M_fixed :: "Dir \<Rightarrow> wstep list" where
  "D2M_fixed d =
     [put (PBIT16 (d_type d)), put (PBIT32 (d_dev d)), put (PBIT8 (q_type (d_qid d))),
      put (PBIT32 (q_vers (d_qid d))), put (PBIT64 (q_path (d_qid d))), put (PBIT32 (d_mode d)),
      put (PBIT32 (d_atime d)), put (PBIT32 (d_mtime d)), put (PBIT64 (d_length d))]"

text \<open>The return value, and the buffer as \<open>convD2M\<close> leaves it.\<close>

definition convD2M :: "Dir \<Rightarrow> byte list \<Rightarrow> nat \<Rightarrow> access_fault + u32 \<times> byte list" where
  "convD2M d ap nbuf =
     (if nbuf < BIT16SZ then Inr (0, ap)
      else let ss = sizeD2M d in
        rbind (put (PBIT16 (ss - of_nat BIT16SZ)) \<lparr>ws_buf = ap, ws_p = 0\<rparr>) (\<lambda>(_, s).
        if unat ss > nbuf then Inr (of_nat BIT16SZ, ws_buf s)
        else rbind (seqs (D2M_fixed d @ map (put_string nbuf) (zip (dir_sv d) (dir_nsv d))) s)
          (\<lambda>(r, s). Inr (case r of None \<Rightarrow> 0
             | Some _ \<Rightarrow> (if unat ss \<noteq> ws_p s then 0 else of_nat (ws_p s)), ws_buf s))))"

section \<open>The strings of an entry\<close>

text \<open>
  A specification of the string part: \<open>walk b ep k p\<close> is where \<open>k\<close> counted strings from \<open>p\<close> end,
  if they lie before \<open>ep\<close>, and \<open>strings_at b k p\<close> are their bytes.
\<close>

definition le16 :: "byte list \<Rightarrow> nat \<Rightarrow> nat" where
  "le16 b p = (case GBIT16 b p of Inl _ \<Rightarrow> 0 | Inr n \<Rightarrow> unat n)"

primrec walk :: "byte list \<Rightarrow> nat \<Rightarrow> nat \<Rightarrow> nat \<Rightarrow> nat option" where
  "walk b ep 0 p = Some p"
| "walk b ep (Suc k) p =
     (if p + 2 \<le> ep \<and> p + 2 + le16 b p \<le> ep then walk b ep k (p + 2 + le16 b p) else None)"

primrec strings_at :: "byte list \<Rightarrow> nat \<Rightarrow> nat \<Rightarrow> byte list list" where
  "strings_at b 0 p = []"
| "strings_at b (Suc k) p =
     take (le16 b p) (drop (p + 2) b) # strings_at b k (p + 2 + le16 b p)"

lemma GBIT16_le16: "p + 2 \<le> length b \<Longrightarrow> \<exists>n. GBIT16 b p = Inr n \<and> unat n = le16 b p"
  using GBIT16_ok [of p b] by (auto simp: le16_def)

lemma statcheck_loop_walk:
  assumes "ep \<le> length b"
  shows "statcheck_loop b ep k p = Inr (if walk b ep k p = Some ep then 0 else - 1)"
proof (induction k arbitrary: p)
  case (Suc k)
  show ?case
  proof (cases "p + 2 \<le> ep")
    case True
    then obtain n where n: "GBIT16 b p = Inr n" "unat n = le16 b p"
      using GBIT16_le16 [of p b] assms by auto
    have "walk b ep k (p + 2 + le16 b p) \<noteq> Some ep" if "p + 2 + le16 b p > ep"
      using that by (cases k) auto
    then show ?thesis using True n Suc [of "p + 2 + le16 b p"] by (auto simp: add.commute)
  qed simp
qed auto

lemma walk_bound: "walk b ep k p = Some q \<Longrightarrow> 0 < k \<Longrightarrow> q \<le> ep"
proof (induction k arbitrary: p)
  case (Suc k)
  then show ?case by (cases "k = 0") (auto split: if_splits)
qed simp

lemma walk_length: "walk b ep k p = Some q \<Longrightarrow> ep \<le> length b \<Longrightarrow>
    q = p + 2 * k + sum_list (map length (strings_at b k p)) \<and> length (strings_at b k p) = k"
proof (induction k arbitrary: p)
  case (Suc k)
  then show ?case using Suc.IH [of "p + 2 + le16 b p"] by (auto split: if_splits simp: min_def)
qed simp

text \<open>\<open>strs\<close> has room for the strings that lie between \<open>p\<close> and \<open>ep\<close>.\<close>

definition roomy :: "nat \<Rightarrow> dparse mstate \<Rightarrow> bool" where
  "roomy ep s \<longleftrightarrow> (case dp_strs (ms_f s) of None \<Rightarrow> True
     | Some ob \<Rightarrow> ep \<le> length ob \<and> dp_sp (ms_f s) \<le> ms_p s)"

text \<open>What one string adds to the state.\<close>

definition took :: "byte list \<Rightarrow> dparse mstate \<Rightarrow> dparse mstate \<Rightarrow> bool" where
  "took v s t \<longleftrightarrow> ms_buf t = ms_buf s \<and> ms_p t = ms_p s + 2 + length v \<and>
     dp_dir (ms_f t) = dp_dir (ms_f s) \<and>
     (dp_strs (ms_f t) = None \<longleftrightarrow> dp_strs (ms_f s) = None) \<and>
     (dp_strs (ms_f s) \<noteq> None \<longrightarrow> dp_sv (ms_f t) = dp_sv (ms_f s) @ [v])"

lemma dir_copy_takes:
  assumes "roomy ep s" "ms_p s + 2 + n \<le> ep" "ep \<le> length (ms_buf s)"
  shows "\<exists>t. dir_copy n (s\<lparr>ms_p := ms_p s + 2\<rparr>) = Inr t \<and> roomy ep t \<and>
    took (take n (drop (ms_p s + 2) (ms_buf s))) s t"
proof -
  obtain v where v: "v = take n (drop (ms_p s + 2) (ms_buf s))" "length v = n"
    using assms(2,3) by simp
  have r: "rdblock OutOfBounds (ms_buf s) (ms_p s + 2) n = Inr v"
    using assms(2,3) v by (simp add: rdblock_def)
  show ?thesis
  proof (cases "dp_strs (ms_f s)")
    case None
    then show ?thesis using v by (auto simp: dir_copy_def roomy_def took_def)
  next
    case (Some ob)
    then have "dp_sp (ms_f s) + n + 1 \<le> length ob" using assms(1,2) by (simp add: roomy_def)
    then show ?thesis using Some r v assms(1)
      unfolding v(1) [symmetric]
      by (simp add: dir_copy_def Let_def wrblock_def roomy_def took_def)
  qed
qed

lemma dir_string_takes:
  assumes "roomy ep s" "ep \<le> length (ms_buf s)"
  shows "wp (dir_string ep)
    (\<lambda>_ t. ms_p s + 2 + le16 (ms_buf s) (ms_p s) \<le> ep \<and> roomy ep t \<and>
      took (take (le16 (ms_buf s) (ms_p s)) (drop (ms_p s + 2) (ms_buf s))) s t)
    (\<lambda>_. \<not> (ms_p s + 2 + le16 (ms_buf s) (ms_p s) \<le> ep)) s"
proof (cases "ms_p s + 2 \<le> ep")
  case True
  then obtain n where n: "GBIT16 (ms_buf s) (ms_p s) = Inr n" "unat n = le16 (ms_buf s) (ms_p s)"
    using GBIT16_le16 [of "ms_p s" "ms_buf s"] assms(2) by auto
  show ?thesis
  proof (cases "ms_p s + 2 + unat n \<le> ep")
    case l: True
    from dir_copy_takes [OF assms(1) l assms(2)] obtain t where
      "dir_copy (unat n) (s\<lparr>ms_p := ms_p s + 2\<rparr>) = Inr t" "roomy ep t"
      "took (take (unat n) (drop (ms_p s + 2) (ms_buf s))) s t" by blast
    then show ?thesis using True n l
      by (simp add: wp_def dir_string_def bnd_def room_def need_def seqs.simps skip_def lift_def ret_def)
  next
    case False
    then show ?thesis using True n
      by (simp add: wp_def dir_string_def bnd_def room_def need_def seqs.simps skip_def lift_def ret_def)
  qed
next
  case False
  then show ?thesis
    by (simp add: wp_def dir_string_def bnd_def room_def need_def)
qed

lemma dir_strings_take:
  assumes "roomy ep s" "ep \<le> length (ms_buf s)"
  shows "wp (seqs (replicate k (dir_string ep)))
    (\<lambda>_ t. walk (ms_buf s) ep k (ms_p s) = Some (ms_p t) \<and> dp_dir (ms_f t) = dp_dir (ms_f s) \<and>
      (dp_strs (ms_f t) = None \<longleftrightarrow> dp_strs (ms_f s) = None) \<and>
      (dp_strs (ms_f s) \<noteq> None \<longrightarrow>
        dp_sv (ms_f t) = dp_sv (ms_f s) @ strings_at (ms_buf s) k (ms_p s)))
    (\<lambda>_. walk (ms_buf s) ep k (ms_p s) = None) s"
  using assms
proof (induction k arbitrary: s)
  case 0
  then show ?case by (simp add: wp_seqs)
next
  case (Suc k)
  let ?n = "le16 (ms_buf s) (ms_p s)"
  show ?case unfolding replicate_Suc wp_seqs
  proof (rule wp_mono [OF dir_string_takes [OF Suc.prems]])
    fix t
    assume t: "ms_p s + 2 + ?n \<le> ep \<and> roomy ep t \<and> took (take ?n (drop (ms_p s + 2) (ms_buf s))) s t"
    then have p: "ms_buf t = ms_buf s" "ms_p t = ms_p s + 2 + ?n"
      using Suc.prems(2) by (auto simp: took_def)
    show "wp (seqs (replicate k (dir_string ep)))
     (\<lambda>_ t. walk (ms_buf s) ep (Suc k) (ms_p s) = Some (ms_p t) \<and> dp_dir (ms_f t) = dp_dir (ms_f s) \<and>
      (dp_strs (ms_f t) = None \<longleftrightarrow> dp_strs (ms_f s) = None) \<and>
      (dp_strs (ms_f s) \<noteq> None \<longrightarrow>
        dp_sv (ms_f t) = dp_sv (ms_f s) @ strings_at (ms_buf s) (Suc k) (ms_p s)))
     (\<lambda>_. walk (ms_buf s) ep (Suc k) (ms_p s) = None) t"
      by (rule wp_mono [OF Suc.IH [of t]]) (use t p Suc.prems(2) in \<open>auto simp: took_def\<close>)
  qed auto
qed

section \<open>The fixed part\<close>

text \<open>The fields before the strings, and the whole entry on the wire.\<close>

definition dir_head :: "u16 \<Rightarrow> Dir \<Rightarrow> wfield list" where
  "dir_head n d = [W16 n, W16 (d_type d), W32 (d_dev d), W8 (q_type (d_qid d)),
     W32 (ucast (q_vers (d_qid d))), W64 (q_path (d_qid d)), W32 (ucast (d_mode d)),
     W32 (ucast (d_atime d)), W32 (ucast (d_mtime d)), W64 (d_length d)]"

definition dir_strs :: "Dir \<Rightarrow> byte list list" where
  "dir_strs d = map str_of (dir_sv d)"

definition dir_size :: "Dir \<Rightarrow> nat" where
  "dir_size d = STATFIXLEN + sum_list (map length (dir_strs d))"

definition dir_wire :: "Dir \<Rightarrow> byte list" where
  "dir_wire d = wire (dir_head (of_nat (dir_size d - 2)) d @ map WStr (dir_strs d))"

lemma length_dir_head [simp]: "length (wire (dir_head n d)) = 41"
  by (simp add: dir_head_def)

lemma ucast_mode [simp]: "(ucast (ucast (v :: u32) :: u64) :: u32) = v"
  by (rule u32_eqI) (simp add: bit_simps)

lemma skip_sound:
  assumes "parsed ap ep ws s" "ms_p s + 2 \<le> ep"
    "\<And>t v. parsed ap ep (ws @ [W16 v]) t \<Longrightarrow> ms_p t = ms_p s + 2 \<Longrightarrow> ms_f t = ms_f s \<Longrightarrow>
       ms_buf t = ms_buf s \<Longrightarrow> Q () t"
  shows "wp (skip BIT16SZ) Q E s"
proof -
  have "ms_p s + 2 \<le> length (ms_buf s)" using assms(1,2) by (simp add: parsed_def)
  then obtain v :: u32 where v: "take 2 (drop (ms_p s) (ms_buf s)) = PBIT16 v"
    using GBIT16_ok by blast
  let ?t = "s\<lparr>ms_p := ms_p s + 2\<rparr>"
  have "parsed ap ep (ws @ [W16 (ucast v)]) ?t"
    by (rule parsed_step [OF assms(1,2)]) (use v assms(1) in \<open>simp_all add: parsed_def\<close>)
  then show ?thesis using assms(3) v by (simp add: wp_lift skip_def)
qed

lemma upd_sel [simp]: "dp_dir (upd g d) = g (dp_dir d)" "dp_strs (upd g d) = dp_strs d"
  "dp_sp (upd g d) = dp_sp d" "dp_sv (upd g d) = dp_sv d"
  by (simp_all add: upd_def)

lemmas fixed_sound = skip_sound ld8_sound ld16_sound ld32_sound ld64_sound

lemma parsed_take: "parsed ap ep ws s \<Longrightarrow> n = length (wire ws) \<Longrightarrow> take n ap = wire ws"
  by (metis parsed_bound parsed_def)

lemma dir_fixed_sound:
  assumes "49 \<le> ep" "ep \<le> length ap"
  shows "wp (seqs dir_fixed) (\<lambda>_ t. ms_buf t = ap \<and> ms_p t = 41 \<and>
       (\<exists>n. take 41 ap = wire (dir_head n (dp_dir (ms_f t)))) \<and>
       dp_strs (ms_f t) = strs \<and> dp_sp (ms_f t) = 0 \<and> dp_sv (ms_f t) = [])
     (\<lambda>_. False) \<lparr>ms_buf = ap, ms_p = 0, ms_f = \<lparr>dp_dir = d, dp_strs = strs, dp_sp = 0, dp_sv = []\<rparr>\<rparr>"
proof -
  have "parsed ap ep [] \<lparr>ms_buf = ap, ms_p = 0, ms_f = \<lparr>dp_dir = d, dp_strs = strs, dp_sp = 0, dp_sv = []\<rparr>\<rparr>"
    using assms by (simp add: parsed_def)
  then show ?thesis
    unfolding dir_fixed_def
    apply -
    apply ((rule wp_seqs_intro(2) | rule fixed_sound, assumption | (use assms in \<open>simp; fail\<close>))+)
   apply (rule wp_seqs_intro(1))
   apply (intro conjI)
   apply simp
   apply simp
   apply (rule exI, rule trans, rule parsed_take, assumption, (simp; fail))
   apply (simp add: dir_head_def)
   apply simp_all
   done
qed

section \<open>What convM2D returns\<close>

lemma dir_names_strs:
  "dir_strs (dir_names None sv x) = replicate 4 []"
  "length sv = 4 \<Longrightarrow> dir_strs (dir_names (Some ob) sv x) = map c_string sv"
  by (auto simp: dir_names_def dir_strs_def dir_sv_def str_of_def c_string_def eval_nat_numeral
      length_Suc_conv)

lemma convM2D_result:
  assumes "nbuf \<le> length b" "49 \<le> nbuf" "case strs of None \<Rightarrow> True | Some ob \<Rightarrow> nbuf \<le> length ob"
  shows "\<exists>n d' strs'. convM2D b nbuf d strs = Inr (n, d', strs') \<and>
    (case walk b nbuf 4 41 of None \<Rightarrow> n = 0
     | Some q \<Rightarrow> n = of_nat q \<and> (\<exists>m. take 41 b = wire (dir_head m d')) \<and>
         dir_strs d' = (if strs = None then replicate 4 [] else map c_string (strings_at b 4 41)))"
proof -
  let ?s = "\<lparr>ms_buf = b, ms_p = 0, ms_f = \<lparr>dp_dir = d, dp_strs = strs, dp_sp = 0, dp_sv = []\<rparr>\<rparr>"
  let ?Q = "\<lambda>t. walk b nbuf 4 41 = Some (ms_p t) \<and> (\<exists>m. take 41 b = wire (dir_head m (dp_dir (ms_f t)))) \<and>
    (strs \<noteq> None \<longrightarrow> dp_sv (ms_f t) = strings_at b 4 41)"
  have "wp (seqs (dir_fixed @ replicate 4 (dir_string nbuf))) (\<lambda>_. ?Q) (\<lambda>_. walk b nbuf 4 41 = None) ?s"
    unfolding wp_seqs_append
  proof (rule wp_mono [OF dir_fixed_sound [OF assms(2,1)]])
    fix t :: "dparse mstate"
    assume t: "ms_buf t = b \<and> ms_p t = 41 \<and> (\<exists>n. take 41 b = wire (dir_head n (dp_dir (ms_f t)))) \<and>
       dp_strs (ms_f t) = strs \<and> dp_sp (ms_f t) = 0 \<and> dp_sv (ms_f t) = []"
    then have "roomy nbuf t" using assms(3) by (auto simp: roomy_def split: option.splits)
    from wp_mono [OF dir_strings_take [OF this, of 4]]
    show "wp (seqs (replicate 4 (dir_string nbuf))) (\<lambda>_. ?Q) (\<lambda>_. walk b nbuf 4 41 = None) t"
      using t assms(1) by simp
  qed simp
  from wp_not_fault [OF this] obtain r t where
    run: "seqs (dir_fixed @ replicate 4 (dir_string nbuf)) ?s = Inr (r, t)"
    "case r of None \<Rightarrow> walk b nbuf 4 41 = None | Some _ \<Rightarrow> ?Q t"
    by blast
  show ?thesis
  proof (cases r)
    case None
    then show ?thesis using run assms(2) by (simp add: convM2D_def Let_def)
  next
    case (Some u)
    then have q: "?Q t" using run(2) by simp
    then have "length (strings_at b 4 41) = 4" using walk_length assms(1) by blast
    then have "dir_strs (dir_names strs (dp_sv (ms_f t)) (dp_dir (ms_f t))) =
        (if strs = None then replicate 4 [] else map c_string (strings_at b 4 41))"
      using q by (auto simp: dir_names_strs)
    moreover have "dir_head m (dir_names strs sv x) = dir_head m x" for m sv x
      by (simp add: dir_head_def dir_names_def split: option.splits)
    ultimately show ?thesis using run(1) q Some assms(2) by (auto simp: convM2D_def Let_def)
  qed
qed

lemma statcheck_walk:
  assumes "nbuf \<le> length b" "49 \<le> nbuf"
  shows "statcheck b nbuf = Inr (if le16 b 0 + 2 = nbuf \<and> walk b nbuf 4 41 = Some nbuf then 0 else - 1)"
proof -
  obtain n where "GBIT16 b 0 = Inr n" "unat n = le16 b 0"
    using GBIT16_le16 [of 0 b] assms by auto
  then show ?thesis using assms by (simp add: statcheck_def statcheck_loop_walk)
qed

section \<open>What convD2M writes\<close>

lemma walk_wire:
  assumes "drop p b = wire (map WStr vs) @ r" "\<forall>v \<in> set vs. length v < 65536"
    "p + length (wire (map WStr vs)) \<le> ep"
  shows "walk b ep (length vs) p = Some (p + length (wire (map WStr vs))) \<and>
    strings_at b (length vs) p = vs"
  using assms
proof (induction vs arbitrary: p)
  case (Cons v vs)
  have d: "drop p b = PBIT16 (of_nat (length v) :: u16) @ v @ wire (map WStr vs) @ r"
    using Cons.prems(1) by simp
  have n: "le16 b p = length v"
    using GBIT16_put [OF d] Cons.prems(2)
    by (simp add: le16_def unat_ucast_le unsigned_of_nat take_bit_nat_eq_self_iff)
  have d2: "drop (p + 2) b = v @ wire (map WStr vs) @ r"
    using arg_cong [OF d, of "drop 2"] by (simp add: add.commute)
  have "drop (p + 2 + length v) b = wire (map WStr vs) @ r"
    using arg_cong [OF d2, of "drop (length v)"] by (simp add: ac_simps)
  from Cons.IH [OF this] show ?case using Cons.prems(2,3) n d2 by (simp add: add.assoc)
qed simp

text \<open>Entries whose size fits its 16-bit count.\<close>

definition dir_fits :: "Dir \<Rightarrow> bool" where
  "dir_fits d \<longleftrightarrow> dir_size d < 65538"

lemma nsv_eq: "dir_nsv d = map (\<lambda>s. of_nat (length (str_of s))) (dir_sv d)"
  by (auto simp: dir_nsv_def str_of_def c_strlen_def split: option.splits)

lemma sizeD2M_eq: "sizeD2M d = of_nat (dir_size d)"
  by (simp add: sizeD2M_def nsv_eq dir_size_def dir_strs_def dir_sv_def)

lemma wp_put_string [simp]:
  assumes "length (str_of s) < 65536" "length bs + 2 + length (str_of s) \<le> length ap"
    "length bs + 2 + length (str_of s) \<le> ep"
  shows "wp (put_string ep (s, of_nat (length (str_of s)))) Q E (wst ap bs) \<longleftrightarrow>
    Q () (wst ap (bs @ wire_field (WStr (str_of s))))"
proof -
  let ?n = "of_nat (length (str_of s)) :: u32"
  have n: "unat ?n = length (str_of s)"
    using assms(1) by (simp add: unsigned_of_nat take_bit_nat_eq_self_iff)
  have z: "?n = 0 \<longleftrightarrow> str_of s = []" using n by (metis length_0_conv unat_0 unat_eq_0)
  have t: "take (length (str_of s)) (case s of None \<Rightarrow> [] | Some t \<Rightarrow> t) = str_of s"
    "length (str_of s) \<le> length (case s of None \<Rightarrow> [] | Some t \<Rightarrow> t)"
    using c_string_take c_strlen_le by (auto simp: str_of_def c_strlen_def split: option.splits)
  have "wp (put_string ep (s, ?n)) Q E (wst ap bs) \<longleftrightarrow>
    wp (seqs [put (PBIT16 ?n), (if ?n \<noteq> 0 then pblock (case s of None \<Rightarrow> [] | Some t \<Rightarrow> t) (unat ?n)
        else ret ())]) Q E (wst ap bs)"
    using assms(3) n by (simp add: put_string_def wp_def bnd_def need_def)
  also have "\<dots> \<longleftrightarrow> Q () (wst ap (bs @ wire_field (WStr (str_of s))))"
  proof (cases "str_of s = []")
    case True
    then show ?thesis using assms(2) z by (simp add: wp_seqs wp_ret PBIT16_of_nat [of 0, simplified])
  next
    case False
    then show ?thesis using assms(2) z n t by (simp add: wp_seqs PBIT16_of_nat)
  qed
  finally show ?thesis .
qed

lemma dir_size_eq: "dir_size d = 49 + (length (str_of (d_name d)) + length (str_of (d_uid d)) +
    length (str_of (d_gid d)) + length (str_of (d_muid d)))"
  by (simp add: dir_size_def dir_strs_def dir_sv_def)

lemma dir_fits_lengths: "dir_fits d \<Longrightarrow> \<forall>v \<in> set (dir_strs d). length v < 65536"
  by (auto simp: dir_fits_def dir_size_eq dir_strs_def dir_sv_def)

lemma length_dir_wire: "length (dir_wire d) = dir_size d"
  by (simp add: dir_wire_def dir_size_eq dir_strs_def dir_sv_def)

lemma D2M_run:
  assumes "dir_fits d" "dir_size d \<le> nbuf" "nbuf \<le> length ap"
  shows "wp (seqs (D2M_fixed d @ map (put_string nbuf) (zip (dir_sv d) (dir_nsv d))))
    (\<lambda>_ s. s = wst ap (dir_wire d)) (\<lambda>_. False)
    (wst ap (PBIT16 (of_nat (dir_size d - 2) :: u16)))"
proof -
  have u: "PBIT32 (ucast (v :: u64) :: u32) = PBIT32 v" for v
    by (simp add: PBIT32_def, intro conjI; rule u8_eqI; simp add: bit_simps)
  show ?thesis using assms
    by (simp add: dir_fits_def dir_size_eq D2M_fixed_def wp_seqs nsv_eq dir_sv_def
        dir_wire_def dir_head_def dir_strs_def u)
qed

lemma unat_dir_size: "dir_fits d \<Longrightarrow> unat (of_nat (dir_size d) :: u32) = dir_size d"
  by (simp add: dir_fits_def unsigned_of_nat take_bit_nat_eq_self_iff)

lemma dir_size_ge: "49 \<le> dir_size d"
  by (simp add: dir_size_eq)

text \<open>The size is stored before anything can fail.\<close>

lemma put_size:
  assumes "2 \<le> length ap"
  shows "put (PBIT16 (sizeD2M d - of_nat BIT16SZ)) \<lparr>ws_buf = ap, ws_p = 0\<rparr> =
    Inr (Some (), wst ap (PBIT16 (of_nat (dir_size d - 2) :: u16)))"
proof -
  have "(of_nat (dir_size d) - of_nat BIT16SZ :: u32) = of_nat (dir_size d - 2)"
    using dir_size_ge [of d] by (simp add: of_nat_diff)
  then have p: "PBIT16 (sizeD2M d - of_nat BIT16SZ) = PBIT16 (of_nat (dir_size d - 2) :: u16)"
    by (simp add: sizeD2M_eq PBIT16_of_nat)
  have "wp (put (PBIT16 (sizeD2M d - of_nat BIT16SZ))) (\<lambda>_ s. s = wst ap (PBIT16 (of_nat (dir_size d - 2) :: u16)))
      (\<lambda>_. False) (wst ap [])"
    using assms p by simp
  then show ?thesis by (auto simp: wp_def wst_def split: sum.splits option.splits)
qed

lemma convD2M_writes:
  assumes "dir_fits d" "dir_size d \<le> nbuf" "nbuf \<le> length ap"
  shows "convD2M d ap nbuf = Inr (of_nat (dir_size d), dir_wire d @ drop (dir_size d) ap)"
proof -
  have 2: "seqs (D2M_fixed d @ map (put_string nbuf) (zip (dir_sv d) (dir_nsv d)))
      (wst ap (PBIT16 (of_nat (dir_size d - 2) :: u16))) = Inr (Some (), wst ap (dir_wire d))"
    using D2M_run [OF assms] by (auto simp: wp_def split: sum.splits option.splits)
  have "2 \<le> length ap" "\<not> nbuf < 2" using assms dir_size_ge [of d] by auto
  with 2 show ?thesis unfolding convD2M_def Let_def put_size [OF \<open>2 \<le> length ap\<close>] unfolding sizeD2M_eq
    using assms(2) unat_dir_size [OF assms(1)] by (simp add: length_dir_wire)
qed

lemma convD2M_reports_size:
  assumes "dir_fits d" "nbuf < dir_size d" "nbuf \<le> length ap" "2 \<le> nbuf"
  shows "convD2M d ap nbuf = Inr (2, PBIT16 (of_nat (dir_size d - 2) :: u16) @ drop 2 ap)"
proof -
  have "2 \<le> length ap" using assms by simp
  then show ?thesis unfolding convD2M_def Let_def put_size [OF \<open>2 \<le> length ap\<close>] unfolding sizeD2M_eq
    using assms(2,4) unat_dir_size [OF assms(1)] by simp
qed

section \<open>Reading inverts writing\<close>

lemma PBIT8_inj: "PBIT8 (v :: byte) = PBIT8 w \<Longrightarrow> v = w"
  by (simp add: PBIT8_def)

lemma PBIT16_inj: "PBIT16 (v :: u16) = PBIT16 w \<Longrightarrow> v = w"
  using GBIT16_put [of 0 "PBIT16 v" v "[]"] GBIT16_put [of 0 "PBIT16 v" w "[]"]
  by (simp add: word_unat_eq_iff unat_ucast_le)

lemma PBIT64_inj: "PBIT64 v = PBIT64 w \<Longrightarrow> v = w"
  using GBIT64_put [of 0 "PBIT64 v" v "[]"] GBIT64_put [of 0 "PBIT64 v" w "[]"] by simp

lemma dir_head_inj: "wire (dir_head m d) = wire (dir_head n e) \<Longrightarrow> dir_head m d = dir_head n e"
  unfolding dir_head_def wire_simps wire_field.simps
  by (simp add: append_eq_append_conv)
    (auto dest: PBIT8_inj PBIT16_inj PBIT32_inj PBIT64_inj)

lemma convM2D_of_wire:
  assumes "dir_fits d" "dir_size d \<le> nbuf" "nbuf \<le> length b" "take (dir_size d) b = dir_wire d"
    "case strs of None \<Rightarrow> True | Some ob \<Rightarrow> nbuf \<le> length ob"
  shows "\<exists>e strs'. convM2D b nbuf e0 strs = Inr (of_nat (dir_size d), e, strs') \<and>
    tl (dir_head 0 e) = tl (dir_head 0 d) \<and>
    dir_strs e = (if strs = None then replicate 4 [] else dir_strs d)"
proof -
  have b: "b = dir_wire d @ drop (dir_size d) b"
    using assms(4) by (metis append_take_drop_id)
  let ?m = "of_nat (dir_size d - 2) :: u16"
  have hd: "take 41 b = wire (dir_head ?m d)"
    using arg_cong [OF b, of "take 41"] by (simp add: dir_wire_def)
  have "drop 41 b = wire (map WStr (dir_strs d)) @ drop (dir_size d) b"
    using arg_cong [OF b, of "drop 41"] by (simp add: dir_wire_def)
  moreover have "length (dir_strs d) = 4" "41 + length (wire (map WStr (dir_strs d))) = dir_size d"
    by (simp_all add: dir_strs_def dir_sv_def dir_size_eq)
  ultimately have w: "walk b nbuf 4 41 = Some (dir_size d)" "strings_at b 4 41 = dir_strs d"
    using walk_wire [of 41 b "dir_strs d" _ nbuf] dir_fits_lengths [OF assms(1)] assms(2) by auto
  have "49 \<le> nbuf" using dir_size_ge [of d] assms(2) by simp
  from convM2D_result [OF assms(3) this assms(5), of e0] w obtain e strs' m where
    e: "convM2D b nbuf e0 strs = Inr (of_nat (dir_size d), e, strs')"
    "take 41 b = wire (dir_head m e)"
    "dir_strs e = (if strs = None then replicate 4 [] else map c_string (dir_strs d))" by auto
  have "tl (dir_head 0 e) = tl (dir_head 0 d)"
    using dir_head_inj e(2) hd by (simp add: dir_head_def)
  moreover have "map c_string (dir_strs d) = dir_strs d"
    using c_string_idem [of "[]"]
    by (auto simp: dir_strs_def str_of_def c_string_nul_free [of "[]"] split: option.splits)
  ultimately show ?thesis using e by auto
qed

section \<open>Properties\<close>

text \<open>
  C17. Directory entries survive the wire: an entry whose size fits its 16-bit count is written by
  \<open>convD2M\<close> at the front of a large enough buffer, with its size returned, and \<open>convM2D\<close> on the
  result consumes exactly these bytes and yields the same strings, with a string buffer of
  the size of the input, and the same numbers in what the wire carries: all of the path and type
  of the qid, \<open>type\<close>, \<open>dev\<close> and \<open>length\<close>, and the low 32 bits of the 64-bit fields \<open>vers\<close>,
  \<open>mode\<close>, \<open>atime\<close> and \<open>mtime\<close>, whose high halves are not transmitted.
\<close>

theorem convM2D_convD2M:
  assumes "dir_fits d" "dir_size d \<le> nbuf" "nbuf \<le> length ap" "nbuf \<le> length ob"
  shows "\<exists>out e ob'. convD2M d ap nbuf = Inr (of_nat (dir_size d), out) \<and>
    drop (dir_size d) out = drop (dir_size d) ap \<and>
    convM2D out nbuf e0 (Some ob) = Inr (of_nat (dir_size d), e, ob') \<and>
    tl (dir_head 0 e) = tl (dir_head 0 d) \<and> dir_strs e = dir_strs d"
proof -
  let ?out = "dir_wire d @ drop (dir_size d) ap"
  have "nbuf \<le> length ?out" "take (dir_size d) ?out = dir_wire d"
    using assms(2,3) by (simp_all add: length_dir_wire)
  from convM2D_of_wire [OF assms(1,2) this, of "Some ob" e0] assms(4)
  show ?thesis using convD2M_writes [OF assms(1-3)] by (auto simp: length_dir_wire)
qed

definition nil_dir :: Dir where
  "nil_dir = \<lparr>d_type = 0, d_dev = 0, d_qid = \<lparr>q_path = 0, q_vers = 0, q_type = 0\<rparr>, d_mode = 0,
     d_atime = 0, d_mtime = 0, d_length = 0, d_name = Some [97], d_uid = None, d_gid = None,
     d_muid = None\<rparr>"

lemma nil_dir_size: "dir_size nil_dir = 50"
  by (simp add: dir_size_eq nil_dir_def str_of_def c_string_def)

theorem convM2D_convD2M_witness:
  "\<exists>out e ob'. convD2M nil_dir (replicate 64 0) 64 = Inr (50, out) \<and>
    convM2D out 64 nil_dir (Some (replicate 64 0)) = Inr (50, e, ob') \<and>
    dir_strs e = dir_strs nil_dir"
  using convM2D_convD2M [of nil_dir 64 "replicate 64 0" "replicate 64 0" nil_dir]
  by (auto simp: nil_dir_size dir_fits_def)

text \<open>
  C18. \<open>statcheck\<close> is exactly the test that protects \<open>convM2D\<close>: on any input \<open>convM2D\<close> with a string
  buffer as large as the input stays within its objects, and \<open>statcheck\<close> accepts iff the size
  field agrees with the length of the input and \<open>convM2D\<close> consumes the input entirely.
\<close>

theorem statcheck_convM2D:
  assumes "nbuf \<le> length b" "nbuf < 2 ^ 32"
    "case strs of None \<Rightarrow> True | Some ob \<Rightarrow> nbuf \<le> length ob"
  shows "\<exists>n d' strs'. convM2D b nbuf d strs = Inr (n, d', strs') \<and>
    (statcheck b nbuf = Inr 0 \<longleftrightarrow> STATFIXLEN \<le> nbuf \<and> le16 b 0 + 2 = nbuf \<and> unat n = nbuf)"
proof (cases "49 \<le> nbuf")
  case True
  obtain n d' strs' where r: "convM2D b nbuf d strs = Inr (n, d', strs')"
    "case walk b nbuf 4 41 of None \<Rightarrow> n = 0 | Some q \<Rightarrow> n = of_nat q"
    using convM2D_result [OF assms(1) True assms(3), of d] by (auto split: option.splits)
  have "walk b nbuf 4 41 = Some nbuf \<longleftrightarrow> unat n = nbuf"
  proof (cases "walk b nbuf 4 41")
    case None
    then show ?thesis using r(2) True by auto
  next
    case (Some q)
    then have "q < 2 ^ 32" using walk_bound [OF Some] assms(2) by simp
    then have "unat n = q" using r(2) Some by (simp add: unsigned_of_nat take_bit_nat_eq_self_iff)
    then show ?thesis using Some by simp
  qed
  then show ?thesis using r(1) True by (simp add: statcheck_walk [OF assms(1) True])
next
  case False
  then show ?thesis by (simp add: convM2D_def statcheck_def)
qed

theorem statcheck_convM2D_witness:
  "\<exists>n d' strs'. convM2D ([47, 0] @ replicate 47 0) 49 nil_dir None = Inr (n, d', strs') \<and>
    (statcheck ([47, 0] @ replicate 47 0) 49 = Inr 0 \<longleftrightarrow> unat n = 49)"
  using statcheck_convM2D [of 49 "[47, 0] @ replicate 47 0" None nil_dir]
  by (simp add: le16_def GBIT16_def)

end
