(* ===== verification/DisString.thy ===== *)
theory DisString
  imports Utf "HOL-Library.Signed_Division"
begin

text \<open>
  The strings of the Dis virtual machine, \<^verbatim>\<open>libinterp/string.c\<close>.  A string is a heap object
  with a reference count; its length is negative when it is held as runes, and its data area
  is one piece of memory seen as bytes or as runes.  Objects live in a store indexed by
  address, so that sharing, copy on write and aliased operands are those of the code; every
  access to the data area is checked against its size.

  The allocator \<open>nheap\<close> is a parameter: for an address and a size in bytes it gives the bytes
  of a new data area, or \<open>None\<close> when the heap is exhausted (which raises \<open>exHeap\<close>).  An
  exception ends a procedure early with its name in \<open>vm_err\<close>.

  Lengths and sizes are \<open>int\<close> in the code, 32 bits: \<open>cint\<close> truncates where a sum, a negation or
  an \<open>ulong\<close> is stored in an \<open>int\<close> or passed as one, \<open>nheap(int)\<close> included, and \<open>ulong_of\<close> is
  the conversion to \<open>ulong\<close>.
\<close>

section \<open>Data: String of include/interp.h\<close>

datatype sdata = Sascii "byte list" | Srune "rune list"

record sobj =
  so_ref :: nat
  so_len :: int
  so_max :: int
  so_tmp :: "byte list option"
  so_data :: sdata

type_synonym sptr = "nat option"

record vm =
  vm_obj :: "nat \<Rightarrow> sobj option"
  vm_next :: nat
  vm_cell :: "nat \<Rightarrow> sptr"
  vm_err :: string
  vm_gchalt :: int

type_synonym 'a sop = "(vm, 'a) proc"
type_synonym heap_alloc = "nat \<Rightarrow> int \<Rightarrow> byte list option"

definition cint :: "int \<Rightarrow> int" where
  "cint x = sint (word_of_int x :: 32 word)"

text \<open>A \<open>WORD\<close> or an \<open>int\<close> converted to \<open>ulong\<close>.\<close>

definition ulong_of :: "int \<Rightarrow> int" where
  "ulong_of v = v mod 2 ^ 64"

definition exNilref :: string where "exNilref = ''dereference of nil''"
definition exBounds :: string where "exBounds = ''array bounds error''"
definition exHeap :: string where "exHeap = ''out of memory: heap''"
definition exNomem :: string where "exNomem = ''out of memory: main''"

definition error :: "string \<Rightarrow> 'a sop" where
  "error e s = Inr (None, s\<lparr>vm_err := e\<rparr>)"

text \<open>The two views of the data area: four bytes, little-endian, make a rune.\<close>

definition rune_bytes :: "rune \<Rightarrow> byte list" where
  "rune_bytes r = [ucast r, ucast (drop_bit 8 r), ucast (drop_bit 16 r), ucast (drop_bit 24 r)]"

fun group4 :: "byte list \<Rightarrow> rune list" where
  "group4 (a # b # c # d # bs) =
     (ucast a OR push_bit 8 (ucast b) OR push_bit 16 (ucast c) OR push_bit 24 (ucast d)) # group4 bs"
| "group4 _ = []"

definition ascii_view :: "sdata \<Rightarrow> byte list" where
  "ascii_view d = (case d of Sascii bs \<Rightarrow> bs | Srune rs \<Rightarrow> concat (map rune_bytes rs))"

definition rune_view :: "sdata \<Rightarrow> rune list" where
  "rune_view d = (case d of Sascii bs \<Rightarrow> group4 bs | Srune rs \<Rightarrow> rs)"

section \<open>The store\<close>

definition deref :: "nat \<Rightarrow> sobj sop" where
  "deref p s = (case vm_obj s p of None \<Rightarrow> Inl OutOfBounds | Some ob \<Rightarrow> Inr (Some ob, s))"

definition setobj :: "nat \<Rightarrow> sobj \<Rightarrow> unit sop" where
  "setobj p ob s = Inr (Some (), s\<lparr>vm_obj := (vm_obj s)(p \<mapsto> ob)\<rparr>)"

definition modify :: "nat \<Rightarrow> (sobj \<Rightarrow> sobj) \<Rightarrow> unit sop" where
  "modify p f = bnd (deref p) (\<lambda>ob. setobj p (f ob))"

definition check :: "access_fault + 'a \<Rightarrow> 'a sop" where
  "check r s = rbind r (\<lambda>v. Inr (Some v, s))"

definition rd_runes :: "nat \<Rightarrow> nat \<Rightarrow> nat \<Rightarrow> rune list sop" where
  "rd_runes p i n = bnd (deref p) (\<lambda>ob. check (rdblock OutOfBounds (rune_view (so_data ob)) i n))"

definition rd_ascii :: "nat \<Rightarrow> nat \<Rightarrow> nat \<Rightarrow> byte list sop" where
  "rd_ascii p i n = bnd (deref p) (\<lambda>ob. check (rdblock OutOfBounds (ascii_view (so_data ob)) i n))"

definition wr_runes :: "nat \<Rightarrow> nat \<Rightarrow> rune list \<Rightarrow> unit sop" where
  "wr_runes p i rs = bnd (deref p) (\<lambda>ob.
     bnd (check (wrblock OutOfBounds (rune_view (so_data ob)) i rs)) (\<lambda>d.
     setobj p (ob\<lparr>so_data := Srune d\<rparr>)))"

definition wr_ascii :: "nat \<Rightarrow> nat \<Rightarrow> byte list \<Rightarrow> unit sop" where
  "wr_ascii p i bs = bnd (deref p) (\<lambda>ob.
     bnd (check (wrblock OutOfBounds (ascii_view (so_data ob)) i bs)) (\<lambda>d.
     setobj p (ob\<lparr>so_data := Sascii d\<rparr>)))"

text \<open>
  \<open>destroy\<close> of \<open>heap.c\<close> on a string: \<open>Tstring\<close> holds no pointers.  While \<open>gchalt\<close> is above 64
  (a deep cascade on the C stack) nothing is freed.
\<close>

definition destroy :: "sptr \<Rightarrow> unit sop" where
  "destroy q = (case q of None \<Rightarrow> ret ()
     | Some p \<Rightarrow> bnd (deref p) (\<lambda>ob s.
         if so_ref ob > 1 \<or> vm_gchalt s > 64 then setobj p (ob\<lparr>so_ref := so_ref ob - 1\<rparr>) s
         else Inr (Some (), s\<lparr>vm_obj := (vm_obj s)(p := None)\<rparr>)))"

definition get_cell :: "nat \<Rightarrow> sptr sop" where
  "get_cell c s = Inr (Some (vm_cell s c), s)"

definition set_cell :: "nat \<Rightarrow> sptr \<Rightarrow> unit sop" where
  "set_cell c q s = Inr (Some (), s\<lparr>vm_cell := (vm_cell s)(c := q)\<rparr>)"

section \<open>Allocation: newstring, newrunes, stringdup\<close>

text \<open>
  \<open>sizeof(String)\<close> is 24: the data area starts at 16 and counts 8 bytes of it (a \<open>char[4]\<close> and
  its padding), which is why the area is 8 bytes longer than \<open>max\<close> says: the room the code
  relies on for a terminator.  The allocator is given the size of the object that is passed to
  \<open>nheap\<close>, without the heap header, and gives its data area.
\<close>

definition sizeof_String :: int where "sizeof_String = 24"
definition extra :: int where "extra = 8"

definition new_obj :: "sobj \<Rightarrow> nat sop" where
  "new_obj ob s = Inr (Some (vm_next s),
     s\<lparr>vm_obj := (vm_obj s)(vm_next s \<mapsto> ob), vm_next := vm_next s + 1\<rparr>)"

definition newstring :: "heap_alloc \<Rightarrow> int \<Rightarrow> nat sop" where
  "newstring al nb s = (case al (vm_next s) (cint (sizeof_String + nb)) of
       None \<Rightarrow> error exHeap s
     | Some bs \<Rightarrow> new_obj \<lparr>so_ref = 1, so_len = nb, so_max = cint (int (length bs) - extra),
         so_tmp = None, so_data = Sascii bs\<rparr> s)"

definition newrunes :: "heap_alloc \<Rightarrow> int \<Rightarrow> nat sop" where
  "newrunes al nr s =
     (if nr = 0 then newstring al nr s
      else let nr = (if nr < 0 then cint (- nr) else nr) in
        (case al (vm_next s) (cint (sizeof_String + nr * 4)) of
           None \<Rightarrow> error exHeap s
         | Some bs \<Rightarrow> new_obj \<lparr>so_ref = 1, so_len = cint (- nr),
             so_max = cint (ulong_of (int (length bs) - extra) div 4), so_tmp = None,
             so_data = Srune (group4 bs)\<rparr> s))"

definition stringdup :: "heap_alloc \<Rightarrow> sptr \<Rightarrow> sptr sop" where
  "stringdup al q = (case q of None \<Rightarrow> ret None
     | Some p \<Rightarrow> bnd (deref p) (\<lambda>ob.
         if so_len ob \<ge> 0 then
           bnd (newstring al (so_len ob)) (\<lambda>ns.
           bnd (rd_ascii p 0 (nat (so_len ob))) (\<lambda>bs.
           bnd (wr_ascii ns 0 bs) (\<lambda>_. ret (Some ns))))
         else
           bnd (newrunes al (cint (- so_len ob))) (\<lambda>ns.
           bnd (rd_runes p 0 (nat (- so_len ob))) (\<lambda>rs.
           bnd (wr_runes ns 0 rs) (\<lambda>_. ret (Some ns))))))"

text \<open>\<open>cvtup(r, s)\<close> with \<open>r\<close> at index \<open>i\<close> of the object \<open>n\<close>: bytes widened to runes.\<close>

definition cvtup :: "nat \<Rightarrow> nat \<Rightarrow> nat \<Rightarrow> unit sop" where
  "cvtup n i p = bnd (deref p) (\<lambda>ob.
     bnd (rd_ascii p 0 (nat (so_len ob))) (\<lambda>bs. wr_runes n i (map ucast bs)))"

section \<open>Operations\<close>

definition indc :: "nat \<Rightarrow> int \<Rightarrow> int sop" where
  "indc c w = bnd (get_cell c) (\<lambda>q. case q of None \<Rightarrow> error exNilref
     | Some p \<Rightarrow> bnd (deref p) (\<lambda>ob. let l = so_len ob; v = ulong_of w in
         if l < 0 then
           (if v \<ge> - l then error exBounds
            else bnd (check (fetch OutOfBounds (rune_view (so_data ob)) (nat v))) (\<lambda>r. ret (sint r)))
         else
           (if v \<ge> l then error exBounds
            else bnd (check (fetch OutOfBounds (ascii_view (so_data ob)) (nat v)))
              (\<lambda>b. ret (sint b)))))"

definition splitc :: "heap_alloc \<Rightarrow> nat \<Rightarrow> bool \<Rightarrow> nat sop" where
  "splitc al c expand = bnd (get_cell c) (\<lambda>q. case q of None \<Rightarrow> (\<lambda>s. Inl OutOfBounds)
     | Some p \<Rightarrow> bnd (deref p) (\<lambda>ob.
         bnd (if expand \<and> so_len ob > 0 then
                bnd (newrunes al (so_len ob)) (\<lambda>ns. bnd (cvtup ns 0 p) (\<lambda>_. ret (Some ns)))
              else stringdup al (Some p)) (\<lambda>nq. case nq of None \<Rightarrow> (\<lambda>s. Inl OutOfBounds)
           | Some ns \<Rightarrow> bnd (destroy (Some p)) (\<lambda>_. bnd (set_cell c (Some ns)) (\<lambda>_. ret ns)))))"

text \<open>The end of \<open>insc\<close>: the string \<open>ss\<close> becomes the destination if it is not yet.\<close>

definition insc_end :: "nat \<Rightarrow> nat \<Rightarrow> unit sop" where
  "insc_end d ss = bnd (get_cell d) (\<lambda>q.
     if q \<noteq> Some ss then bnd (destroy q) (\<lambda>_. set_cell d (Some ss)) else ret ())"

text \<open>The label \<open>r:\<close> of \<open>insc\<close>, the string being held as runes, with the length \<open>l\<close>.\<close>

definition insc_rune :: "heap_alloc \<Rightarrow> nat \<Rightarrow> nat \<Rightarrow> int \<Rightarrow> int \<Rightarrow> rune \<Rightarrow> unit sop" where
  "insc_rune al d ss l v r = bnd (deref ss) (\<lambda>ob.
     if v < ulong_of l then bnd (wr_runes ss (nat v) [r]) (\<lambda>_. insc_end d ss)
     else if v = ulong_of l \<and> v < ulong_of (so_max ob) then
       bnd (modify ss (\<lambda>ob. ob\<lparr>so_len := cint (- (v + 1))\<rparr>)) (\<lambda>_.
       bnd (wr_runes ss (nat v) [r]) (\<lambda>_. insc_end d ss))
     else if v \<noteq> ulong_of l then error exBounds
     else
       bnd (newstring al (cint ((v + 1 + v div 4) * 4))) (\<lambda>ns.
       bnd (rd_runes ss 0 (nat (- so_len ob))) (\<lambda>rs.
       bnd (wr_runes ns 0 rs) (\<lambda>_.
       bnd (wr_runes ns (nat v) [r]) (\<lambda>_.
       bnd (modify ns (\<lambda>ob. ob\<lparr>so_len := cint (- (v + 1)), so_max := cint (ulong_of (so_max ob) div 4)\<rparr>)) (\<lambda>_.
       insc_end d ns))))))"

definition insc_ascii :: "heap_alloc \<Rightarrow> nat \<Rightarrow> nat \<Rightarrow> int \<Rightarrow> int \<Rightarrow> byte \<Rightarrow> unit sop" where
  "insc_ascii al d ss l v b = bnd (deref ss) (\<lambda>ob.
     if v < ulong_of l then bnd (wr_ascii ss (nat v) [b]) (\<lambda>_. insc_end d ss)
     else if v = ulong_of l \<and> v < ulong_of (so_max ob) then
       bnd (modify ss (\<lambda>ob. ob\<lparr>so_len := cint (v + 1)\<rparr>)) (\<lambda>_.
       bnd (wr_ascii ss (nat v) [b]) (\<lambda>_. insc_end d ss))
     else if v \<noteq> ulong_of l then error exBounds
     else
       bnd (newstring al (cint (v + 1 + v div 4))) (\<lambda>ns.
       bnd (rd_ascii ss 0 (nat l)) (\<lambda>bs.
       bnd (wr_ascii ns 0 bs) (\<lambda>_.
       bnd (wr_ascii ns (nat v) [b]) (\<lambda>_.
       bnd (modify ns (\<lambda>ob. ob\<lparr>so_len := cint (v + 1)\<rparr>)) (\<lambda>_.
       insc_end d ns))))))"

definition insc_tail :: "heap_alloc \<Rightarrow> nat \<Rightarrow> nat \<Rightarrow> bool \<Rightarrow> int \<Rightarrow> int \<Rightarrow> unit sop" where
  "insc_tail al d ss expand v r = bnd (deref ss) (\<lambda>ob. let l = so_len ob in
     if l < 0 \<or> expand then insc_rune al d ss (cint (- l)) v (word_of_int r)
     else insc_ascii al d ss l v (word_of_int r))"

definition insc :: "heap_alloc \<Rightarrow> int \<Rightarrow> int \<Rightarrow> nat \<Rightarrow> unit sop" where
  "insc al w0 w d = (let r = cint w0; v = ulong_of w; expand = (r \<ge> 0x80) in
     bnd (get_cell d) (\<lambda>q. case q of
       None \<Rightarrow> bnd (newstring al 0) (\<lambda>ss.
         if expand then
           bnd (modify ss (\<lambda>ob. ob\<lparr>so_max := cint (ulong_of (so_max ob) div 4)\<rparr>)) (\<lambda>_.
           insc_rune al d ss 0 v (word_of_int r))
         else insc_tail al d ss expand v r)
     | Some ss \<Rightarrow> bnd (deref ss) (\<lambda>ob.
         if so_ref ob > 1 \<or> (expand \<and> so_len ob > 0) then
           bnd (splitc al d expand) (\<lambda>ns. insc_tail al d ns expand v r)
         else insc_tail al d ss expand v r)))"

definition slicer :: "heap_alloc \<Rightarrow> int \<Rightarrow> int \<Rightarrow> sptr \<Rightarrow> sptr sop" where
  "slicer al start v q = (case q of
       None \<Rightarrow> if start = 0 \<and> v = 0 then ret None else error exBounds
     | Some p \<Rightarrow> bnd (deref p) (\<lambda>ob. let nc = cint (v - start) in
         if so_len ob < 0 then
           (if v < start \<or> v > - so_len ob then error exBounds
            else if nc = 0 then ret None
            else bnd (newrunes al nc) (\<lambda>ns.
              bnd (rd_runes p (nat start) (nat nc)) (\<lambda>rs.
              bnd (wr_runes ns 0 rs) (\<lambda>_. ret (Some ns)))))
         else
           (if v < start \<or> v > so_len ob then error exBounds
            else if nc = 0 then ret None
            else bnd (newstring al nc) (\<lambda>ns.
              bnd (rd_ascii p (nat start) (nat nc)) (\<lambda>bs.
              bnd (wr_ascii ns 0 bs) (\<lambda>_. ret (Some ns)))))))"

definition slicec :: "heap_alloc \<Rightarrow> int \<Rightarrow> int \<Rightarrow> nat \<Rightarrow> unit sop" where
  "slicec al start v d = bnd (get_cell d) (\<lambda>q.
     bnd (slicer al (ulong_of start) (ulong_of v) q) (\<lambda>ns.
     bnd (destroy q) (\<lambda>_. set_cell d ns)))"

text \<open>
  \<open>addstring\<close>.  The two operands may be the same object; \<open>s2->len\<close> is read again after
  \<open>ns->len\<close> has been stored, as in the code.
\<close>

definition grown :: "bool \<Rightarrow> int \<Rightarrow> int" where
  "grown app l = (if app then cint (l + l sdiv 4) else l)"

definition set_len :: "nat \<Rightarrow> int \<Rightarrow> unit sop" where
  "set_len p l = modify p (\<lambda>ob. ob\<lparr>so_len := l\<rparr>)"

definition add_runes :: "heap_alloc \<Rightarrow> nat \<Rightarrow> nat \<Rightarrow> bool \<Rightarrow> sptr sop" where
  "add_runes al p1 p2 app = bnd (deref p1) (\<lambda>o1. bnd (deref p2) (\<lambda>o2.
     let l1 = cint (- so_len o1);
         l = cint (if so_len o2 < 0 then l1 - so_len o2 else l1 + so_len o2) in
     bnd (if app \<and> l \<le> so_max o1 then ret p1
          else bnd (newrunes al (grown app l)) (\<lambda>ns.
            bnd (rd_runes p1 0 (nat l1)) (\<lambda>rs. bnd (wr_runes ns 0 rs) (\<lambda>_. ret ns)))) (\<lambda>ns.
     bnd (set_len ns (cint (- l))) (\<lambda>_.
     bnd (deref p2) (\<lambda>o2.
     bnd (if so_len o2 < 0 then
            bnd (rd_runes p2 0 (nat (- so_len o2))) (\<lambda>rs. wr_runes ns (nat l1) rs)
          else cvtup ns (nat l1) p2) (\<lambda>_. ret (Some ns)))))))"

definition add_mixed :: "heap_alloc \<Rightarrow> nat \<Rightarrow> nat \<Rightarrow> bool \<Rightarrow> sptr sop" where
  "add_mixed al p1 p2 app = bnd (deref p1) (\<lambda>o1. bnd (deref p2) (\<lambda>o2.
     let l2 = cint (- so_len o2); l = cint (so_len o1 + l2) in
     bnd (newrunes al (grown app l)) (\<lambda>ns.
     bnd (set_len ns (cint (- l))) (\<lambda>_.
     bnd (cvtup ns 0 p1) (\<lambda>_.
     bnd (rd_runes p2 0 (nat l2)) (\<lambda>rs.
     bnd (wr_runes ns (nat (so_len o1)) rs) (\<lambda>_. ret (Some ns))))))))"

definition add_ascii :: "heap_alloc \<Rightarrow> nat \<Rightarrow> nat \<Rightarrow> bool \<Rightarrow> sptr sop" where
  "add_ascii al p1 p2 app = bnd (deref p1) (\<lambda>o1. bnd (deref p2) (\<lambda>o2.
     let l1 = so_len o1; l = cint (l1 + so_len o2) in
     bnd (if app \<and> l \<le> so_max o1 then ret p1
          else bnd (newstring al (grown app l)) (\<lambda>ns.
            bnd (rd_ascii p1 0 (nat l1)) (\<lambda>bs. bnd (wr_ascii ns 0 bs) (\<lambda>_. ret ns)))) (\<lambda>ns.
     bnd (set_len ns l) (\<lambda>_.
     bnd (deref p2) (\<lambda>o2.
     bnd (rd_ascii p2 0 (nat (so_len o2))) (\<lambda>bs.
     bnd (wr_ascii ns (nat l1) bs) (\<lambda>_. ret (Some ns))))))))"

definition addstring :: "heap_alloc \<Rightarrow> sptr \<Rightarrow> sptr \<Rightarrow> bool \<Rightarrow> sptr sop" where
  "addstring al q1 q2 app = (case q1 of
       None \<Rightarrow> (case q2 of None \<Rightarrow> ret None | Some _ \<Rightarrow> stringdup al q2)
     | Some p1 \<Rightarrow> bnd (deref p1) (\<lambda>o1. let app = (app \<and> \<not> so_ref o1 > 1) in
         (case q2 of
            None \<Rightarrow> (if app then ret q1 else stringdup al q1)
          | Some p2 \<Rightarrow> bnd (deref p2) (\<lambda>o2.
              if so_len o1 < 0 then add_runes al p1 p2 app
              else if so_len o2 < 0 then add_mixed al p1 p2 app
              else add_ascii al p1 p2 app))))"

definition addc :: "heap_alloc \<Rightarrow> nat \<Rightarrow> nat \<Rightarrow> nat \<Rightarrow> unit sop" where
  "addc al m c d = bnd (get_cell m) (\<lambda>q1. bnd (get_cell c) (\<lambda>q2.
     bnd (addstring al q1 q2 (m = d)) (\<lambda>ns. bnd (get_cell d) (\<lambda>q.
     if ns \<noteq> q then bnd (destroy q) (\<lambda>_. set_cell d ns) else ret ()))))"

definition lenc :: "nat \<Rightarrow> int sop" where
  "lenc c = bnd (get_cell c) (\<lambda>q. case q of None \<Rightarrow> ret 0
     | Some p \<Rightarrow> bnd (deref p) (\<lambda>ob. ret (if so_len ob < 0 then - so_len ob else so_len ob)))"

section \<open>Conversions to and from UTF-8\<close>

text \<open>
  \<open>cvtca\<close>: the bytes of a string as an array.  \<open>fresh\<close> gives the contents of a new array.
\<close>

definition put_chars :: "byte list \<Rightarrow> byte list \<Rightarrow> access_fault + byte list" where
  "put_chars a bs = wrblock OutOfBounds a 0 bs"

definition cvtca :: "(nat \<Rightarrow> byte list) \<Rightarrow> nat \<Rightarrow> byte list sop" where
  "cvtca fresh c = bnd (get_cell c) (\<lambda>q. case q of None \<Rightarrow> ret []
     | Some p \<Rightarrow> bnd (deref p) (\<lambda>ob.
         if so_len ob < 0 then
           bnd (rd_runes p 0 (nat (- so_len ob))) (\<lambda>rs.
             check (put_chars (fresh (runenlen rs)) (concat (map runetochar rs))))
         else rd_ascii p 0 (nat (so_len ob))))"

text \<open>
  \<open>string2c\<close>: the C string of a string, its bytes before the terminator it stores; runes are
  written to \<open>tmp\<close> (through an \<open>int\<close>, so the comparison is signed), which is allocated when it is nil or too small (\<open>mal\<close> is \<open>malloc\<close>).
\<close>

definition rune_chars :: "rune \<Rightarrow> byte list" where
  "rune_chars r = (if sint r < sint Runeself then [ucast r] else runetochar r)"

definition string2c :: "(nat \<Rightarrow> byte list option) \<Rightarrow> sptr \<Rightarrow> byte list sop" where
  "string2c mal q = (case q of None \<Rightarrow> ret []
     | Some p \<Rightarrow> bnd (deref p) (\<lambda>ob.
         if so_len ob \<ge> 0 then
           bnd (wr_ascii p (nat (so_len ob)) [0]) (\<lambda>_. rd_ascii p 0 (nat (so_len ob)))
         else let nc = nat (- so_len ob); l = nc * UTFmax + UTFmax in
           bnd (case so_tmp ob of Some t \<Rightarrow> if length t < l then ret None else ret (Some t)
                | None \<Rightarrow> ret None) (\<lambda>t.
           bnd (case t of Some t \<Rightarrow> ret t
                | None \<Rightarrow> bnd (modify p (\<lambda>ob. ob\<lparr>so_tmp := mal l\<rparr>)) (\<lambda>_.
                    case mal l of None \<Rightarrow> error exNomem | Some t \<Rightarrow> ret t)) (\<lambda>t.
           bnd (rd_runes p 0 nc) (\<lambda>rs. let bs = concat (map rune_chars rs) in
           bnd (check (wrblock OutOfBounds t 0 (bs @ [0]))) (\<lambda>t.
           bnd (modify p (\<lambda>ob. ob\<lparr>so_tmp := Some t\<rparr>)) (\<lambda>_. ret bs)))))))"

text \<open>
  \<open>c2string\<close>: the scan for a byte that is not ASCII, the count of the runes, and the decoding
  of that many runes from the start.  (\<open>chartorune\<close> never consumes 0 bytes; the test in
  \<open>count_runes\<close> makes its termination evident.)
\<close>

fun ascii_prefix :: "byte list \<Rightarrow> nat" where
  "ascii_prefix [] = 0"
| "ascii_prefix (b # bs) = (if ucast b \<ge> Runeself then 0 else 1 + ascii_prefix bs)"

function count_runes :: "byte list \<Rightarrow> access_fault + nat" where
  "count_runes [] = Inr 0"
| "count_runes (b # bs) = (let p = b # bs in
     if ucast b < Runeself then rbind (count_runes bs) (\<lambda>n. Inr (n + 1))
     else rbind (if UTFmax \<le> length p then Inr True else fullrune p (int (length p))) (\<lambda>full.
       if full then
         rbind (chartorune p) (\<lambda>(_, k).
           if k = 0 then Inl OutOfBounds
           else rbind (count_runes (drop k p)) (\<lambda>n. Inr (n + 1)))
       else Inr 0))"
  by pat_completeness auto
termination
  by (relation "measure length") auto

primrec decode_runes :: "nat \<Rightarrow> byte list \<Rightarrow> access_fault + rune list" where
  "decode_runes 0 cs = Inr []"
| "decode_runes (Suc n) cs = rbind (chartorune cs) (\<lambda>(r, k).
     rbind (decode_runes n (drop k cs)) (\<lambda>rs. Inr (r # rs)))"

definition c2string :: "heap_alloc \<Rightarrow> byte list \<Rightarrow> nat sop" where
  "c2string al cs = (let k = ascii_prefix cs in
     if k = length cs then
       bnd (newstring al (cint (int (length cs)))) (\<lambda>p. bnd (wr_ascii p 0 cs) (\<lambda>_. ret p))
     else bnd (check (count_runes (drop k cs))) (\<lambda>n. let nc = k + n in
       bnd (newrunes al (cint (int nc))) (\<lambda>p.
       bnd (check (decode_runes nc cs)) (\<lambda>rs.
       if rs = [] then ret p else bnd (wr_runes p 0 rs) (\<lambda>_. ret p)))))"

definition cvtac :: "heap_alloc \<Rightarrow> byte list option \<Rightarrow> nat \<Rightarrow> unit sop" where
  "cvtac al a d = bnd (case a of None \<Rightarrow> ret None
       | Some bs \<Rightarrow> bnd (c2string al bs) (\<lambda>p. ret (Some p))) (\<lambda>ds.
     bnd (get_cell d) (\<lambda>q. bnd (destroy q) (\<lambda>_. set_cell d ds)))"

section \<open>Comparison\<close>

text \<open>The library's \<open>memcmp\<close> on blocks of one length: the difference of the first bytes that differ.\<close>

fun memcmp :: "byte list \<Rightarrow> byte list \<Rightarrow> int" where
  "memcmp (a # as) (b # bs) = (if a = b then memcmp as bs else uint a - uint b)"
| "memcmp _ _ = 0"

fun cmp_loop :: "int list \<Rightarrow> int list \<Rightarrow> int \<Rightarrow> int" where
  "cmp_loop (a # as) (b # bs) d = (if a \<noteq> b then (if a < b then - 1 else 1) else cmp_loop as bs d)"
| "cmp_loop _ _ d = d"

text \<open>The elements compared: \<open>char\<close> is signed, and a rune goes through an \<open>int\<close>.\<close>

definition first_ints :: "nat \<Rightarrow> sobj \<Rightarrow> access_fault + int list" where
  "first_ints n ob =
     (if so_len ob < 0 then
        rbind (rdblock OutOfBounds (rune_view (so_data ob)) 0 n) (\<lambda>rs. Inr (map sint rs))
      else rbind (rdblock OutOfBounds (ascii_view (so_data ob)) 0 n) (\<lambda>bs. Inr (map sint bs)))"

definition nil_str :: sobj where
  "nil_str = \<lparr>so_ref = 0, so_len = 0, so_max = 0, so_tmp = None, so_data = Sascii []\<rparr>"

definition deref_nil :: "sptr \<Rightarrow> sobj sop" where
  "deref_nil q = (case q of None \<Rightarrow> ret nil_str | Some p \<Rightarrow> deref p)"

definition stringcmp :: "sptr \<Rightarrow> sptr \<Rightarrow> int sop" where
  "stringcmp q1 q2 =
     (if q1 = q2 then ret 0
      else bnd (deref_nil q1) (\<lambda>o1. bnd (deref_nil q2) (\<lambda>o2.
        let n1 = \<bar>so_len o1\<bar>; n2 = \<bar>so_len o2\<bar>; n = nat (min n1 n2) in
        if so_len o1 \<ge> 0 \<and> so_len o2 \<ge> 0 then
          bnd (check (rdblock OutOfBounds (ascii_view (so_data o1)) 0 n)) (\<lambda>a.
          bnd (check (rdblock OutOfBounds (ascii_view (so_data o2)) 0 n)) (\<lambda>b.
          let c = memcmp a b in ret (if c = 0 then n1 - n2 else c)))
        else
          bnd (check (first_ints n o1)) (\<lambda>a. bnd (check (first_ints n o2)) (\<lambda>b.
          ret (cmp_loop a b (n1 - n2)))))))"

end
