(* ===== verification/DisStringProofs.thy ===== *)
theory DisStringProofs
  imports DisString
begin

text \<open>
  Correctness of the string operations: what an object denotes, when it is well formed, and
  for each operation a rule that it neither faults nor breaks well-formedness and that the
  texts of its operands determine the text of its result.
\<close>

section \<open>Well-formed strings and what they denote\<close>

text \<open>
  An object is well formed when its length and \<open>max\<close> agree with its representation and its
  data area, \<open>max\<close> being counted in elements, a byte string holds ASCII only, and the size of
  the object is an \<open>int\<close>.
\<close>

definition wf_obj :: "sobj \<Rightarrow> bool" where
  "wf_obj ob \<longleftrightarrow> 1 \<le> so_ref ob \<and> (case so_data ob of
     Sascii bs \<Rightarrow> 0 \<le> so_len ob \<and> so_len ob \<le> so_max ob \<and> so_max ob + 8 \<le> int (length bs) \<and>
       (\<forall>b \<in> set (take (nat (so_len ob)) bs). b < 0x80) \<and> int (length bs) + 16 < 2147483648
   | Srune rs \<Rightarrow> so_len ob < 0 \<and> - so_len ob \<le> so_max ob \<and> so_max ob + 2 \<le> int (length rs) \<and>
       4 * int (length rs) + 16 < 2147483648)"

definition text_of :: "sobj \<Rightarrow> rune list" where
  "text_of ob = (if so_len ob < 0 then take (nat (- so_len ob)) (rune_view (so_data ob))
     else map ucast (take (nat (so_len ob)) (ascii_view (so_data ob))))"

definition wf_vm :: "vm \<Rightarrow> bool" where
  "wf_vm s \<longleftrightarrow> vm_gchalt s \<le> 64 \<and> (\<forall>p ob. vm_obj s p = Some ob \<longrightarrow> wf_obj ob \<and> p < vm_next s)"

text \<open>
  The allocator's promise: a block of at least the size asked for, whose own size is an \<open>int\<close> as
  \<open>hmsize\<close> takes it to be (the heap pool is limited to 32 megabytes by default).  Nothing is
  promised for a negative size.
\<close>

definition alloc_ok :: "heap_alloc \<Rightarrow> bool" where
  "alloc_ok al \<longleftrightarrow> (\<forall>p n bs. al p n = Some bs \<longrightarrow> 0 \<le> n \<longrightarrow>
     n \<le> int (length bs) + 16 \<and> int (length bs) + 16 < 2147483648)"

lemma cint_id [simp]: "- 2147483648 \<le> x \<Longrightarrow> x < 2147483648 \<Longrightarrow> cint x = x"
  unfolding cint_def by (simp add: int_word_sint)

lemma ulong_id [simp]: "0 \<le> x \<Longrightarrow> x < 18446744073709551616 \<Longrightarrow> ulong_of x = x"
  by (simp add: ulong_of_def)

text \<open>\<open>n\<close> runes, grown by a quarter and with the header of the object, are an \<open>int\<close>.\<close>

definition fits :: "int \<Rightarrow> bool" where
  "fits n \<longleftrightarrow> 5 * n + 24 < 2 ^ 31"

lemma views [simp]:
  "ascii_view (Sascii bs) = bs" "rune_view (Srune rs) = rs" "rune_view (Sascii bs) = group4 bs"
  by (simp_all add: ascii_view_def rune_view_def)

lemma length_group4 [simp]: "length (group4 bs) = length bs div 4"
proof -
  have "Suc (Suc (Suc (Suc n))) div 4 = Suc (n div 4)" for n :: nat by presburger
  then show ?thesis by (induction bs rule: group4.induct) simp_all
qed

lemma extra_value [simp]: "extra = 8" "sizeof_String = 24"
  by (simp_all add: extra_def sizeof_String_def)

named_theorems heap_wp \<open>weakest preconditions of the store operations\<close>

lemma wp_deref [heap_wp]: "vm_obj s p = Some ob \<Longrightarrow> wp (deref p) Q E s \<longleftrightarrow> Q ob s"
  by (simp add: wp_def deref_def)

lemma wp_setobj [heap_wp]: "wp (setobj p ob) Q E s \<longleftrightarrow> Q () (s\<lparr>vm_obj := (vm_obj s)(p \<mapsto> ob)\<rparr>)"
  by (simp add: wp_def setobj_def)

lemma wp_check [heap_wp]: "wp (check r) Q E s \<longleftrightarrow> (\<exists>v. r = Inr v \<and> Q v s)"
  by (cases r) (auto simp: wp_def check_def)

lemma wp_error [heap_wp]: "wp (error e) Q E s \<longleftrightarrow> E (s\<lparr>vm_err := e\<rparr>)"
  by (simp add: wp_def error_def)

lemma wp_modify [heap_wp]:
  "vm_obj s p = Some ob \<Longrightarrow>
    wp (modify p f) Q E s \<longleftrightarrow> Q () (s\<lparr>vm_obj := (vm_obj s)(p \<mapsto> f ob)\<rparr>)"
  by (simp add: modify_def wp_bnd wp_deref wp_setobj)

lemma wp_get_cell [heap_wp]: "wp (get_cell c) Q E s \<longleftrightarrow> Q (vm_cell s c) s"
  by (simp add: wp_def get_cell_def)

lemma wp_set_cell [heap_wp]:
  "wp (set_cell c q) Q E s \<longleftrightarrow> Q () (s\<lparr>vm_cell := (vm_cell s)(c := q)\<rparr>)"
  by (simp add: wp_def set_cell_def)

lemma wp_rd [heap_wp]:
  assumes "vm_obj s p = Some ob"
  shows "i + n \<le> length (rune_view (so_data ob)) \<Longrightarrow>
      wp (rd_runes p i n) Q E s \<longleftrightarrow> Q (take n (drop i (rune_view (so_data ob)))) s"
    "i + n \<le> length (ascii_view (so_data ob)) \<Longrightarrow>
      wp (rd_ascii p i n) R E s \<longleftrightarrow> R (take n (drop i (ascii_view (so_data ob)))) s"
  using assms by (simp_all add: rd_runes_def rd_ascii_def wp_bnd wp_deref wp_check rdblock_def)

definition over :: "nat \<Rightarrow> 'a list \<Rightarrow> 'a list \<Rightarrow> 'a list" where
  "over i xs ys = take i ys @ xs @ drop (i + length xs) ys"

lemma length_over [simp]: "i + length xs \<le> length ys \<Longrightarrow> length (over i xs ys) = length ys"
  by (simp add: over_def)

lemma wp_wr [heap_wp]:
  assumes "vm_obj s p = Some ob"
  shows "i + length rs \<le> length (rune_view (so_data ob)) \<Longrightarrow>
      wp (wr_runes p i rs) Q E s \<longleftrightarrow>
      Q () (s\<lparr>vm_obj := (vm_obj s)(p \<mapsto> ob\<lparr>so_data := Srune (over i rs (rune_view (so_data ob)))\<rparr>)\<rparr>)"
    "i + length bs \<le> length (ascii_view (so_data ob)) \<Longrightarrow>
      wp (wr_ascii p i bs) Q E s \<longleftrightarrow>
      Q () (s\<lparr>vm_obj := (vm_obj s)(p \<mapsto> ob\<lparr>so_data := Sascii (over i bs (ascii_view (so_data ob)))\<rparr>)\<rparr>)"
  using assms
  by (simp_all add: wr_runes_def wr_ascii_def wp_bnd wp_deref wp_check wrblock_def wp_setobj over_def)

lemma wp_cvtup [heap_wp]:
  assumes "vm_obj s p = Some ob" "vm_obj s n = Some oc" "nat (so_len ob) \<le> length (ascii_view (so_data ob))"
    "i + nat (so_len ob) \<le> length (rune_view (so_data oc))"
  shows "wp (cvtup n i p) Q E s \<longleftrightarrow>
    Q () (s\<lparr>vm_obj := (vm_obj s)(n \<mapsto> oc\<lparr>so_data := Srune (over i
      (map ucast (take (nat (so_len ob)) (ascii_view (so_data ob)))) (rune_view (so_data oc)))\<rparr>)\<rparr>)"
  using assms by (simp add: cvtup_def wp_bnd heap_wp)

text \<open>A failed allocation leaves the store as it was.\<close>

definition out_of_heap :: "vm \<Rightarrow> vm \<Rightarrow> bool" where
  "out_of_heap s t \<longleftrightarrow> vm_err t = exHeap \<and> vm_obj t = vm_obj s \<and> vm_cell t = vm_cell s"

lemma newstring_wp:
  assumes "alloc_ok al" "\<And>t. out_of_heap s t \<Longrightarrow> E t" "0 \<le> nb" "nb + 24 < 2147483648"
    "\<And>bs. nb + 8 \<le> int (length bs) \<Longrightarrow> nat nb + 8 \<le> length bs \<Longrightarrow> int (length bs) + 16 < 2147483648 \<Longrightarrow>
        Q (vm_next s) (s\<lparr>vm_obj := (vm_obj s)(vm_next s \<mapsto>
        \<lparr>so_ref = 1, so_len = nb, so_max = int (length bs) - 8, so_tmp = None, so_data = Sascii bs\<rparr>),
        vm_next := vm_next s + 1\<rparr>)"
  shows "wp (newstring al nb) Q E s"
proof (cases "al (vm_next s) (24 + nb)")
  case None
  then show ?thesis using assms(2-4) by (simp add: newstring_def wp_def error_def out_of_heap_def)
next
  case (Some bs)
  then have "24 + nb \<le> int (length bs) + 16" "int (length bs) + 16 < 2147483648"
    using assms(1,3) unfolding alloc_ok_def by (metis add_nonneg_nonneg zero_le_numeral)+
  moreover from this have "nat nb + 8 \<le> length bs" using assms(3) by linarith
  ultimately show ?thesis using Some assms(3-5) by (simp add: newstring_def wp_def new_obj_def)
qed

lemma newrunes_wp:
  assumes "alloc_ok al" "\<And>t. out_of_heap s t \<Longrightarrow> E t" "0 < nr" "4 * nr + 24 < 2147483648"
    "\<And>rs. nr + 2 \<le> int (length rs) \<Longrightarrow> nat nr + 2 \<le> length rs \<Longrightarrow> 4 * int (length rs) + 16 < 2147483648 \<Longrightarrow>
        Q (vm_next s) (s\<lparr>vm_obj := (vm_obj s)(vm_next s \<mapsto>
        \<lparr>so_ref = 1, so_len = - nr, so_max = int (length rs) - 2, so_tmp = None, so_data = Srune rs\<rparr>),
        vm_next := vm_next s + 1\<rparr>)"
  shows "wp (newrunes al nr) Q E s"
proof (cases "al (vm_next s) (24 + nr * 4)")
  case None
  then show ?thesis using assms(2-4) by (simp add: newrunes_def wp_def error_def out_of_heap_def)
next
  case (Some bs)
  have "0 \<le> 24 + nr * 4" using assms(3) by simp
  with Some have bs: "24 + nr * 4 \<le> int (length bs) + 16" "int (length bs) + 16 < 2147483648"
    using assms(1) unfolding alloc_ok_def by blast+
  let ?g = "group4 bs"
  have g: "nr + 2 \<le> int (length ?g)" "4 * int (length ?g) + 16 < 2147483648" using bs by simp_all
  then have "nat nr + 2 \<le> length ?g" using assms(3) nat_le_iff [of nr "length ?g - 2"] by simp
  note q = assms(5) [OF g(1) this g(2)]
  have "0 \<le> int (length bs) - 8" using bs assms(3) by simp
  then have "cint (ulong_of (int (length bs) - 8) div 4) = int (length ?g) - 2" using bs by simp
  then show ?thesis using Some assms(3,4) q by (simp add: newrunes_def wp_def new_obj_def)
qed

text \<open>
  The result of an operation that yields a string: the object at the address returned is well
  formed and holds the text \<open>rs\<close>, and every other object is as before.
\<close>

definition yields :: "vm \<Rightarrow> rune list \<Rightarrow> nat \<Rightarrow> vm \<Rightarrow> bool" where
  "yields s rs p t \<longleftrightarrow> (\<exists>ob. vm_obj t p = Some ob \<and> wf_obj ob \<and> so_ref ob = 1 \<and> text_of ob = rs) \<and>
     (\<forall>x. x \<noteq> p \<longrightarrow> vm_obj t x = vm_obj s x) \<and> vm_cell t = vm_cell s \<and> p < vm_next t \<and> vm_next s \<le> vm_next t \<and>
     vm_gchalt t = vm_gchalt s"

lemma wf_lens:
  assumes "wf_obj ob"
  shows "0 \<le> so_len ob \<Longrightarrow> \<exists>bs. so_data ob = Sascii bs \<and> so_len ob \<le> so_max ob \<and> so_max ob + 8 \<le> int (length bs) \<and>
       (\<forall>b \<in> set (take (nat (so_len ob)) bs). b < 0x80)"
    "so_len ob < 0 \<Longrightarrow> \<exists>rs. so_data ob = Srune rs \<and> - so_len ob \<le> so_max ob \<and> so_max ob + 2 \<le> int (length rs)"
  using assms by (auto simp: wf_obj_def split: sdata.splits)

lemma wf_size:
  "wf_obj ob \<Longrightarrow> so_data ob = Sascii bs \<Longrightarrow> int (length bs) + 16 < 2147483648"
  "wf_obj ob \<Longrightarrow> so_data ob = Srune rs \<Longrightarrow> 4 * int (length rs) + 16 < 2147483648"
  by (simp_all add: wf_obj_def)

lemma wf_fits:
  assumes "wf_obj ob"
  shows "0 \<le> so_len ob \<Longrightarrow> so_len ob + 24 < 2147483648" "so_len ob < 0 \<Longrightarrow> 4 * (- so_len ob) + 24 < 2147483648"
    "so_max ob < 2147483648" "0 \<le> so_max ob" "\<bar>so_len ob\<bar> < 2147483648"
  using assms by (auto simp: wf_obj_def split: sdata.splits)

lemma take_over_0 [simp]: "length xs \<le> length ys \<Longrightarrow> n = length xs \<Longrightarrow> take n (over 0 xs ys) = xs"
  by (simp add: over_def)

lemma over_over [simp]:
  "k = length xs \<Longrightarrow> length xs + length zs \<le> length ys \<Longrightarrow> n = length xs + length zs \<Longrightarrow>
    take n (over k zs (over 0 xs ys)) = xs @ zs"
  by (simp add: over_def)

lemma take_over_end:
  "k \<le> length ys \<Longrightarrow> k + length zs \<le> length ys \<Longrightarrow> n = k + length zs \<Longrightarrow>
    take n (over k zs ys) = take k ys @ zs"
  by (cases zs) (simp_all add: over_def min_def)

lemma stringdup_wp:
  assumes "alloc_ok al" "\<And>t. out_of_heap s t \<Longrightarrow> E t" "wf_vm s" "vm_obj s p = Some ob"
    "\<And>n t nob. yields s (text_of ob) n t \<Longrightarrow> n = vm_next s \<Longrightarrow> vm_next t = Suc n \<Longrightarrow>
       vm_obj t n = Some nob \<Longrightarrow> so_len nob = so_len ob \<Longrightarrow> Q (Some n) t"
  shows "wp (stringdup al (Some p)) Q E s"
proof -
  have ob: "wf_obj ob" "p < vm_next s" using assms(3,4) by (auto simp: wf_vm_def)
  show ?thesis
  proof (cases "0 \<le> so_len ob")
    case True
    then obtain bs where bs: "so_data ob = Sascii bs" "so_len ob \<le> so_max ob"
      "so_max ob + 8 \<le> int (length bs)" "\<forall>b \<in> set (take (nat (so_len ob)) bs). b < 0x80"
      using wf_lens(1) [OF ob(1)] by blast
    have len: "nat (so_len ob) \<le> length bs" using bs by linarith
    have fresh: "Q (Some (vm_next s)) (s\<lparr>vm_next := vm_next s + 1, vm_obj := (vm_obj s)(vm_next s \<mapsto>
        \<lparr>so_ref = 1, so_len = so_len ob, so_max = int (length cs) - 8, so_tmp = None,
          so_data = Sascii (over 0 (take (nat (so_len ob)) bs) cs)\<rparr>)\<rparr>)" (is "Q _ ?t")
      if "so_len ob + 8 \<le> int (length cs)" "nat (so_len ob) + 8 \<le> length cs" "int (length cs) + 16 < 2147483648" for cs
    proof (rule assms(5))
      show "vm_obj ?t (vm_next s) = Some \<lparr>so_ref = 1, so_len = so_len ob, so_max = int (length cs) - 8,
          so_tmp = None, so_data = Sascii (over 0 (take (nat (so_len ob)) bs) cs)\<rparr>" by simp
      show "yields s (text_of ob) (vm_next s) ?t"
        using True that bs len by (simp add: yields_def wf_obj_def text_of_def)
    qed simp_all
    show ?thesis unfolding stringdup_def option.case wp_bnd wp_deref [OF assms(4)]
      using True ob bs(1) len wf_fits(1) [OF ob(1)]
      apply (simp add: wp_bnd)
      apply (rule newstring_wp [OF assms(1,2)])
        apply assumption
       apply simp
      apply simp
      apply (drule (2) fresh)
      apply (simp add: wp_bnd heap_wp assms(4) wp_ret)
      done
  next
    case False
    then obtain rs where rs: "so_data ob = Srune rs" "- so_len ob \<le> so_max ob"
      "so_max ob + 2 \<le> int (length rs)"
      using wf_lens(2) [OF ob(1)] by auto
    have len: "nat (- so_len ob) \<le> length rs" using rs by linarith
    have fresh: "Q (Some (vm_next s)) (s\<lparr>vm_next := vm_next s + 1, vm_obj := (vm_obj s)(vm_next s \<mapsto>
        \<lparr>so_ref = 1, so_len = so_len ob, so_max = int (length cs) - 2, so_tmp = None,
          so_data = Srune (over 0 (take (nat (- so_len ob)) rs) cs)\<rparr>)\<rparr>)" (is "Q _ ?t")
      if "- so_len ob + 2 \<le> int (length cs)" "nat (- so_len ob) + 2 \<le> length cs" "4 * int (length cs) + 16 < 2147483648" for cs
    proof (rule assms(5))
      show "vm_obj ?t (vm_next s) = Some \<lparr>so_ref = 1, so_len = so_len ob, so_max = int (length cs) - 2,
          so_tmp = None, so_data = Srune (over 0 (take (nat (- so_len ob)) rs) cs)\<rparr>" by simp
      show "yields s (text_of ob) (vm_next s) ?t"
        using False that rs len by (simp add: yields_def wf_obj_def text_of_def)
    qed simp_all
    show ?thesis unfolding stringdup_def option.case wp_bnd wp_deref [OF assms(4)]
      using False ob rs(1) len wf_fits(2) [OF ob(1)]
      apply (simp add: wp_bnd)
      apply (rule newrunes_wp [OF assms(1,2)])
        apply assumption
       apply simp
      apply simp
      apply (drule (2) fresh)
      apply (simp add: wp_bnd heap_wp assms(4) wp_ret)
      done
  qed
qed

lemma grown_ge:
  assumes "0 \<le> l" "fits l"
  shows "l \<le> grown app l" "0 \<le> grown app l" "4 * grown app l + 24 < 2147483648"
proof -
  have "l sdiv 4 = l div 4" using assms(1) by (cases "l = 0") (simp_all add: signed_divide_int_def)
  moreover have "0 \<le> l div 4" "4 * (l div 4) \<le> l" using assms(1) by simp_all
  ultimately show "l \<le> grown app l" "0 \<le> grown app l" "4 * grown app l + 24 < 2147483648"
    using assms by (auto simp: grown_def fits_def)
qed

lemma add_ascii_wp:
  assumes "alloc_ok al" "\<And>t. out_of_heap s t \<Longrightarrow> E t" "wf_vm s" "vm_obj s p1 = Some o1"
    "vm_obj s p2 = Some o2" "0 \<le> so_len o1" "0 \<le> so_len o2" "app \<Longrightarrow> so_ref o1 = 1"
    "p1 = p2 \<Longrightarrow> app \<Longrightarrow> so_len o1 + so_len o1 > so_max o1"
    and fit: "fits (so_len o1 + so_len o2)" and fin:
    "\<And>n t. yields s (text_of o1 @ text_of o2) n t \<Longrightarrow> n = vm_next s \<or> n = p1 \<and> app \<Longrightarrow> Q (Some n) t"
  shows "wp (add_ascii al p1 p2 app) Q E s"
proof -
  have ob: "wf_obj o1" "p1 < vm_next s" "wf_obj o2" "p2 < vm_next s"
    using assms(3,4,5) by (auto simp: wf_vm_def)
  obtain b1 where b1: "so_data o1 = Sascii b1" "so_len o1 \<le> so_max o1"
      "so_max o1 + 8 \<le> int (length b1)" "\<forall>b \<in> set (take (nat (so_len o1)) b1). b < 0x80"
    using wf_lens(1) [OF ob(1) assms(6)] by blast
  obtain b2 where b2: "so_data o2 = Sascii b2" "so_len o2 \<le> so_max o2"
      "so_max o2 + 8 \<le> int (length b2)" "\<forall>b \<in> set (take (nat (so_len o2)) b2). b < 0x80"
    using wf_lens(1) [OF ob(3) assms(7)] by blast
  have ci: "cint (so_len o1 + so_len o2) = so_len o1 + so_len o2"
    using fit assms(6,7) by (simp add: fits_def)
  have sz: "length b1 < 2147483632" using wf_size(1) [OF ob(1) b1(1)] by simp
  have l: "nat (so_len o1 + so_len o2) = nat (so_len o1) + nat (so_len o2)"
    using assms(6,7) by simp
  show ?thesis
  proof (cases "app \<and> so_len o1 + so_len o2 \<le> so_max o1")
    case True
    then have "p1 \<noteq> p2" using assms(5,9) assms(4) by auto
    have "nat (so_len o2) \<le> length b2" "nat (so_len o1) + nat (so_len o2) \<le> length b1"
      using b1 b2 assms(6,7) True by auto
    with True \<open>p1 \<noteq> p2\<close> show ?thesis using b1 b2 ob assms(4-8) l sz
      apply (simp add: add_ascii_def wp_bnd heap_wp wp_ret set_len_def Let_def ci)
      apply (rule fin)
      apply (simp add: yields_def wf_obj_def text_of_def take_over_end ball_Un)
      apply simp
      done
  next
    case False
    have g: "so_len o1 + so_len o2 \<le> grown app (so_len o1 + so_len o2)" "0 \<le> grown app (so_len o1 + so_len o2)"
      "grown app (so_len o1 + so_len o2) + 24 < 2147483648"
      using grown_ge [OF _ fit, of app] assms(6,7) by auto
    show ?thesis unfolding add_ascii_def wp_bnd wp_deref [OF assms(4)] wp_deref [OF assms(5)] Let_def ci
      if_not_P [OF False]
      apply (rule newstring_wp [OF assms(1,2)])
      apply assumption
      apply (rule g)
      apply (rule g)
      using b1 b2 ob assms(4-8) l g
      apply (simp add: wp_bnd heap_wp wp_ret set_len_def)
      apply (rule fin)
      apply (simp add: yields_def wf_obj_def text_of_def ball_Un)
      apply simp
      done
  qed
qed

lemma add_mixed_wp:
  assumes "alloc_ok al" "\<And>t. out_of_heap s t \<Longrightarrow> E t" "wf_vm s" "vm_obj s p1 = Some o1"
    "vm_obj s p2 = Some o2" "0 \<le> so_len o1" "so_len o2 < 0"
    and fit: "fits (so_len o1 - so_len o2)" and fin:
    "\<And>n t. yields s (text_of o1 @ text_of o2) n t \<Longrightarrow> n = vm_next s \<Longrightarrow> Q (Some n) t"
  shows "wp (add_mixed al p1 p2 app) Q E s"
proof -
  have ob: "wf_obj o1" "p1 < vm_next s" "wf_obj o2" "p2 < vm_next s"
    using assms(3,4,5) by (auto simp: wf_vm_def)
  obtain b1 where b1: "so_data o1 = Sascii b1" "so_len o1 \<le> so_max o1"
      "so_max o1 + 8 \<le> int (length b1)" "\<forall>b \<in> set (take (nat (so_len o1)) b1). b < 0x80"
    using wf_lens(1) [OF ob(1) assms(6)] by blast
  obtain r2 where r2: "so_data o2 = Srune r2" "- so_len o2 \<le> so_max o2" "so_max o2 + 2 \<le> int (length r2)"
    using wf_lens(2) [OF ob(3) assms(7)] by blast
  have l: "nat (so_len o1 - so_len o2) = nat (so_len o1) + nat (- so_len o2)"
    "nat (so_len o1) \<le> length b1" "nat (- so_len o2) \<le> length r2"
    using assms(6,7) b1 r2 by auto
  have g: "so_len o1 - so_len o2 \<le> grown app (so_len o1 - so_len o2)" "0 < grown app (so_len o1 - so_len o2)"
    "4 * grown app (so_len o1 - so_len o2) + 24 < 2147483648"
    using grown_ge [OF _ fit, of app] assms(6,7) by auto
  have ci: "cint (- so_len o2) = - so_len o2" "cint (so_len o1 + - so_len o2) = so_len o1 - so_len o2"
    "cint (- (so_len o1 - so_len o2)) = so_len o2 - so_len o1"
    using fit assms(6,7) by (simp_all add: fits_def)
  show ?thesis unfolding add_mixed_def wp_bnd wp_deref [OF assms(4)] wp_deref [OF assms(5)] Let_def ci
    apply (rule newrunes_wp [OF assms(1,2)])
    apply assumption
    apply (rule g)
    apply (rule g)
    using b1 r2 ob assms(4-7) l g
    apply (simp add: wp_bnd heap_wp wp_ret set_len_def)
    apply (rule fin)
    apply (simp add: yields_def wf_obj_def text_of_def)
    apply simp
    done
qed

lemma add_runes_wp:
  assumes "alloc_ok al" "\<And>t. out_of_heap s t \<Longrightarrow> E t" "wf_vm s" "vm_obj s p1 = Some o1"
    "vm_obj s p2 = Some o2" "so_len o1 < 0" "app \<Longrightarrow> so_ref o1 = 1"
    "p1 = p2 \<Longrightarrow> app \<Longrightarrow> - so_len o1 - so_len o1 > so_max o1"
    and fit: "fits (\<bar>so_len o1\<bar> + \<bar>so_len o2\<bar>)" and fin:
    "\<And>n t. yields s (text_of o1 @ text_of o2) n t \<Longrightarrow> n = vm_next s \<or> n = p1 \<and> app \<Longrightarrow> Q (Some n) t"
  shows "wp (add_runes al p1 p2 app) Q E s"
proof -
  have ob: "wf_obj o1" "p1 < vm_next s" "wf_obj o2" "p2 < vm_next s"
    using assms(3,4,5) by (auto simp: wf_vm_def)
  obtain r1 where r1: "so_data o1 = Srune r1" "- so_len o1 \<le> so_max o1" "so_max o1 + 2 \<le> int (length r1)"
    using wf_lens(2) [OF ob(1) assms(6)] by blast
  have l1: "nat (- so_len o1) \<le> length r1" using r1 by auto
  let ?l2 = "\<bar>so_len o2\<bar>"
  let ?l = "- so_len o1 + ?l2"
  have l1c: "cint (- so_len o1) = - so_len o1" using wf_fits(2) [OF ob(1) assms(6)] assms(6) by simp
  have fl: "fits ?l" using fit assms(6) by simp
  have l: "cint (if so_len o2 < 0 then - so_len o1 - so_len o2 else - so_len o1 + so_len o2) = ?l"
    "cint (- ?l) = - ?l" using fl assms(6) by (simp_all add: fits_def)
  have sz: "length r1 < 536870908" using wf_size(2) [OF ob(1) r1(1)] by simp
  have n: "nat ?l = nat (- so_len o1) + nat ?l2" "0 < ?l" using assms(6) by auto
  have t2: "length (text_of o2) = nat ?l2"
  proof (cases "so_len o2 < 0")
    case True
    then show ?thesis using wf_lens(2) [OF ob(3)] by (auto simp: text_of_def min_def)
  next
    case False
    then show ?thesis using wf_lens(1) [OF ob(3)] by (auto simp: text_of_def min_def)
  qed
  have copy: "wp (if so_len o2 < 0 then
            bnd (rd_runes p2 0 (nat (- so_len o2))) (\<lambda>rs. wr_runes n (nat (- so_len o1)) rs)
          else cvtup n (nat (- so_len o1)) p2) Q' E t \<longleftrightarrow>
      Q' () (t\<lparr>vm_obj := (vm_obj t)(n \<mapsto> oc\<lparr>so_data := Srune (over (nat (- so_len o1)) (text_of o2) rs)\<rparr>)\<rparr>)"
    if "vm_obj t p2 = Some o2" "vm_obj t n = Some oc" "so_data oc = Srune rs" "nat ?l \<le> length rs" for n t oc rs Q'
  proof (cases "so_len o2 < 0")
    case True
    then obtain r2 where r2: "so_data o2 = Srune r2" "- so_len o2 \<le> so_max o2" "so_max o2 + 2 \<le> int (length r2)"
      using wf_lens(2) [OF ob(3)] by blast
    then show ?thesis using True that n by (simp add: wp_bnd heap_wp text_of_def)
  next
    case False
    then obtain b2 where b2: "so_data o2 = Sascii b2" "so_len o2 \<le> so_max o2" "so_max o2 + 8 \<le> int (length b2)"
      using wf_lens(1) [OF ob(3)] by (meson linorder_not_less)
    then show ?thesis using False that n by (simp add: wp_bnd heap_wp text_of_def)
  qed
  show ?thesis
  proof (cases "app \<and> ?l \<le> so_max o1")
    case True
    then have ne: "p1 \<noteq> p2" using assms(8) assms(4-6) by (cases "p1 = p2") auto
    let ?t = "s\<lparr>vm_obj := (vm_obj s)(p1 \<mapsto> o1\<lparr>so_len := - ?l\<rparr>)\<rparr>"
    have c: "vm_obj ?t p2 = Some o2" "vm_obj ?t p1 = Some (o1\<lparr>so_len := - ?l\<rparr>)" 
      "so_data (o1\<lparr>so_len := - ?l\<rparr>) = Srune r1" "nat ?l \<le> length r1"
      using ne assms(5) r1 True by auto
    have le: "nat (- so_len o1) + length (text_of o2) \<le> length r1" using c(4) n t2 by simp
    show ?thesis unfolding add_runes_def wp_bnd wp_deref [OF assms(4)] wp_deref [OF assms(5)] Let_def l1c l
        if_P [OF True] wp_ret set_len_def wp_modify [OF assms(4)] wp_deref [OF c(1)] copy [OF c]
      apply (rule fin)
      using True assms(7) n r1 le t2 l1 sz
       apply (simp add: yields_def wf_obj_def text_of_def [of "_\<lparr>so_data := _\<rparr>"] text_of_def [of o1]
          assms(6) take_over_end ob(2))
      using True by simp
  next
    case False
    have g: "?l \<le> grown app ?l" "0 < grown app ?l" "4 * grown app ?l + 24 < 2147483648"
      using grown_ge [OF _ fl, of app] n(2) by auto
    show ?thesis unfolding add_runes_def wp_bnd wp_deref [OF assms(4)] wp_deref [OF assms(5)] Let_def l1c l
        if_not_P [OF False]
    proof (rule newrunes_wp [OF assms(1,2)], assumption, rule g, rule g)
      fix rs :: "rune list"
      assume rs: "grown app ?l + 2 \<le> int (length rs)" "4 * int (length rs) + 16 < 2147483648"
      let ?n = "vm_next s"
      let ?o = "\<lparr>so_ref = 1, so_len = - grown app ?l, so_max = int (length rs) - 2, so_tmp = None, so_data = Srune rs\<rparr>"
      let ?t = "s\<lparr>vm_obj := (vm_obj s)(?n \<mapsto> ?o), vm_next := ?n + 1\<rparr>"
      let ?rs = "over 0 (take (nat (- so_len o1)) r1) rs"
      let ?o2 = "?o\<lparr>so_data := Srune ?rs, so_len := - ?l\<rparr>"
      let ?t2 = "?t\<lparr>vm_obj := (vm_obj s)(?n \<mapsto> ?o2)\<rparr>"
      have "nat ?l \<le> length rs" using rs(1) g by linarith
      then have le: "nat (- so_len o1) + length (text_of o2) \<le> length rs" "nat ?l \<le> length rs"
        using n(1) t2 by simp_all
      have c: "vm_obj ?t2 p2 = Some o2" "vm_obj ?t2 ?n = Some ?o2" "so_data ?o2 = Srune ?rs" "nat ?l \<le> length ?rs"
        using assms(5) ob(4) le(2) l1 n by auto
      have "Q (Some ?n) (?t2\<lparr>vm_obj := (vm_obj ?t2)(?n \<mapsto> ?o2\<lparr>so_data :=
          Srune (over (nat (- so_len o1)) (text_of o2) ?rs)\<rparr>)\<rparr>)"
        apply (rule fin)
        using le l1 n t2 rs g
         apply (simp add: yields_def wf_obj_def text_of_def [of "\<lparr>so_ref = _, so_len = _, so_max = _, so_tmp = _, so_data = _\<rparr>"] text_of_def [of o1]
            assms(6) r1 ob(2))
        by simp
      then show "wp (rd_runes p1 0 (nat (- so_len o1))) (\<lambda>v. wp (wr_runes ?n 0 v)
         (\<lambda>v. wp (ret ?n) (\<lambda>v. wp (set_len v (- ?l))
         (\<lambda>va. wp (deref p2) (\<lambda>va. wp (if so_len va < 0
             then bnd (rd_runes p2 0 (nat (- so_len va))) (wr_runes v (nat (- so_len o1)))
             else cvtup v (nat (- so_len o1)) p2)
           (\<lambda>va. wp (ret (Some v)) Q E) E) E) E) E) E) E ?t"
        using assms(4) ob(2) r1 l1 le c copy [OF c]
        by (simp add: heap_wp wp_ret set_len_def)
    qed
  qed
qed

lemma addstring_wp:
  assumes "alloc_ok al" "\<And>t. out_of_heap s t \<Longrightarrow> E t" "wf_vm s" "vm_obj s p1 = Some o1"
    "vm_obj s p2 = Some o2"
    "p1 = p2 \<and> app \<and> so_ref o1 = 1 \<Longrightarrow> 2 * \<bar>so_len o1\<bar> > so_max o1"
    "fits (\<bar>so_len o1\<bar> + \<bar>so_len o2\<bar>)"
    "\<And>n t. yields s (text_of o1 @ text_of o2) n t \<Longrightarrow>
       n = vm_next s \<or> n = p1 \<and> app \<and> so_ref o1 = 1 \<Longrightarrow> Q (Some n) t"
  shows "wp (addstring al (Some p1) (Some p2) app) Q E s"
proof -
  have r: "1 \<le> so_ref o1" using assms(3,4) by (auto simp: wf_vm_def wf_obj_def)
  let ?app = "app \<and> \<not> so_ref o1 > 1"
  have fin: "yields s (text_of o1 @ text_of o2) n t \<Longrightarrow> n = vm_next s \<or> n = p1 \<and> ?app \<Longrightarrow> Q (Some n) t" for n t
    using assms(8) r by auto
  consider "so_len o1 < 0" | "0 \<le> so_len o1" "so_len o2 < 0" | "0 \<le> so_len o1" "0 \<le> so_len o2" by linarith
  then show ?thesis
    unfolding addstring_def option.case wp_bnd wp_deref [OF assms(4)] wp_deref [OF assms(5)] Let_def
  proof cases
    case 1
    have "wp (add_runes al p1 p2 ?app) Q E s"
      by (rule add_runes_wp [OF assms(1-5) 1]) (use assms(6,7) r 1 in \<open>auto intro: fin\<close>)
    then show "wp (if so_len o1 < 0 then add_runes al p1 p2 ?app
      else if so_len o2 < 0 then add_mixed al p1 p2 ?app else add_ascii al p1 p2 ?app) Q E s"
      using 1 by simp
  next
    case 2
    have "wp (add_mixed al p1 p2 ?app) Q E s"
      by (rule add_mixed_wp [OF assms(1-5) 2]) (use assms(7) 2 in \<open>auto intro: fin\<close>)
    then show "wp (if so_len o1 < 0 then add_runes al p1 p2 ?app
      else if so_len o2 < 0 then add_mixed al p1 p2 ?app else add_ascii al p1 p2 ?app) Q E s"
      using 2 by simp
  next
    case 3
    have "wp (add_ascii al p1 p2 ?app) Q E s"
      by (rule add_ascii_wp [OF assms(1-5) 3]) (use assms(6,7) r 3 in \<open>auto intro: fin\<close>)
    then show "wp (if so_len o1 < 0 then add_runes al p1 p2 ?app
      else if so_len o2 < 0 then add_mixed al p1 p2 ?app else add_ascii al p1 p2 ?app) Q E s"
      using 3 by simp
  qed
qed

lemma slicer_wp:
  assumes "alloc_ok al" "\<And>t. out_of_heap s t \<Longrightarrow> E t" "wf_vm s" "vm_obj s p = Some ob" "0 \<le> i"
    "\<not> (i \<le> j \<and> j \<le> int (length (text_of ob))) \<Longrightarrow> E (s\<lparr>vm_err := exBounds\<rparr>)"
    "i = j \<Longrightarrow> j \<le> int (length (text_of ob)) \<Longrightarrow> Q None s"
    "\<And>n t. i < j \<Longrightarrow> j \<le> int (length (text_of ob)) \<Longrightarrow>
       yields s (take (nat (j - i)) (drop (nat i) (text_of ob))) n t \<Longrightarrow> n = vm_next s \<Longrightarrow> Q (Some n) t"
  shows "wp (slicer al i j (Some p)) Q E s"
proof -
  have ob: "wf_obj ob" "p < vm_next s" using assms(3,4) by (auto simp: wf_vm_def)
  show ?thesis
  proof (cases "so_len ob < 0")
    case True
    then obtain rs where rs: "so_data ob = Srune rs" "- so_len ob \<le> so_max ob" "so_max ob + 2 \<le> int (length rs)"
      using wf_lens(2) [OF ob(1)] by blast
    then have l: "int (length (text_of ob)) = - so_len ob" using True by (simp add: text_of_def)
    consider "\<not> (i \<le> j \<and> j \<le> - so_len ob)" | "i = j" "j \<le> - so_len ob" | "i < j" "j \<le> - so_len ob"
      by linarith
    then show ?thesis
    proof cases
      case 1
      then show ?thesis using assms(6) True l
        by (auto simp: slicer_def wp_bnd wp_deref [OF assms(4)] heap_wp Let_def)
    next
      case 2
      then show ?thesis using assms(7) True l
        by (simp add: slicer_def wp_bnd wp_deref [OF assms(4)] heap_wp Let_def wp_ret)
    next
      case 3
      have le: "nat i + nat (j - i) \<le> length rs" "nat i + nat (j - i) \<le> nat (- so_len ob)"
        "nat (j - i) \<le> length rs - nat i" "nat (j - i) \<le> nat (- so_len ob) - nat i" using 3 rs assms(5) by auto
      have nc: "cint (j - i) = j - i" "4 * (j - i) + 24 < 2147483648"
        using wf_fits(2) [OF ob(1) True] 3 assms(5) by simp_all
      let ?x = "take (nat (j - i)) (drop (nat i) rs)"
      have x: "length ?x = nat (j - i)" using le(3) by simp
      have eq: "take (nat (j - i)) (drop (nat i) (text_of ob)) = ?x"
        using True le(4) by (simp add: text_of_def rs(1) drop_take min_absorb1)
      have jl: "j \<le> int (length (text_of ob))" using 3(2) l by simp
      note fin = assms(8) [OF 3(1) jl, unfolded eq]
      have fresh: "yields s ?x (vm_next s)
          (s\<lparr>vm_next := vm_next s + 1, vm_obj := (vm_obj s)(vm_next s \<mapsto> \<lparr>so_ref = 1, so_len = - (j - i),
            so_max = int (length cs) - 2, so_tmp = None, so_data = Srune (over 0 ?x cs)\<rparr>)\<rparr>)"
        if "j - i + 2 \<le> int (length cs)" "nat (j - i) + 2 \<le> length cs" "4 * int (length cs) + 16 < 2147483648" for cs
      proof -
        have "length (over 0 ?x cs) = length cs" "take (nat (j - i)) (over 0 ?x cs) = ?x"
          using that(2) x by simp_all
        then show ?thesis using that(1,3) 3(1) by (simp add: yields_def wf_obj_def text_of_def)
      qed
      show ?thesis unfolding slicer_def option.case wp_bnd wp_deref [OF assms(4)] Let_def
        using True 3 nc
        apply (simp add: wp_bnd)
        apply (rule newrunes_wp [OF assms(1,2)])
          apply assumption
         apply simp
        apply (simp add: nc)
        apply (drule (2) fresh)
        apply (drule fin, rule refl)
        using rs(1) ob assms(4) le(1,3) x
        apply (simp add: wp_bnd heap_wp wp_ret)
        done
    qed
  next
    case False
    then have nn: "0 \<le> so_len ob" by simp
    then obtain bs where bs: "so_data ob = Sascii bs" "so_len ob \<le> so_max ob" "so_max ob + 8 \<le> int (length bs)"
      "\<forall>b \<in> set (take (nat (so_len ob)) bs). b < 0x80"
      using wf_lens(1) [OF ob(1)] by blast
    then have l: "int (length (text_of ob)) = so_len ob" using nn by (simp add: text_of_def)
    consider "\<not> (i \<le> j \<and> j \<le> so_len ob)" | "i = j" "j \<le> so_len ob" | "i < j" "j \<le> so_len ob"
      by linarith
    then show ?thesis
    proof cases
      case 1
      then show ?thesis using assms(6) nn l
        by (auto simp: slicer_def wp_bnd wp_deref [OF assms(4)] heap_wp Let_def)
    next
      case 2
      then show ?thesis using assms(7) nn l
        by (simp add: slicer_def wp_bnd wp_deref [OF assms(4)] heap_wp Let_def wp_ret)
    next
      case 3
      have nc: "cint (j - i) = j - i" "j - i + 24 < 2147483648"
        using wf_fits(1) [OF ob(1) nn] 3 assms(5) by simp_all
      have le: "nat i + nat (j - i) \<le> length bs" "nat i + nat (j - i) \<le> nat (so_len ob)"
        "nat (j - i) \<le> length bs - nat i" "nat (j - i) \<le> nat (so_len ob) - nat i" using 3 bs assms(5) by auto
      have sub: "\<forall>b \<in> set (take (nat (j - i)) (drop (nat i) bs)). b < 0x80"
      proof
        fix b assume "b \<in> set (take (nat (j - i)) (drop (nat i) bs))"
        moreover have "take (nat (j - i)) (drop (nat i) bs) = drop (nat i) (take (nat i + nat (j - i)) bs)"
          by (simp add: drop_take)
        moreover have "set (take (nat i + nat (j - i)) bs) \<subseteq> set (take (nat (so_len ob)) bs)"
          by (rule set_take_subset_set_take [OF le(2)])
        ultimately show "b < 0x80" using bs(4) by (auto dest: in_set_dropD)
      qed
      have eq: "take (nat (j - i)) (drop (nat i) (text_of ob)) = map ucast (take (nat (j - i)) (drop (nat i) bs))"
        using nn le(4) by (simp add: text_of_def bs(1) drop_take drop_map take_map min_absorb1)
      have jl: "j \<le> int (length (text_of ob))" using 3(2) l by simp
      note fin = assms(8) [OF 3(1) jl, unfolded eq]
      let ?x = "take (nat (j - i)) (drop (nat i) bs)"
      have "nat (so_len ob) \<le> length bs" using bs(2,3) by linarith
      then have x: "length ?x = nat (j - i)" "nat (so_len ob) \<le> length bs" using le(3) by simp_all
      have fresh: "yields s (map ucast ?x) (vm_next s)
          (s\<lparr>vm_next := vm_next s + 1, vm_obj := (vm_obj s)(vm_next s \<mapsto> \<lparr>so_ref = 1, so_len = j - i,
            so_max = int (length cs) - 8, so_tmp = None, so_data = Sascii (over 0 ?x cs)\<rparr>)\<rparr>)"
        if "j - i + 8 \<le> int (length cs)" "nat (j - i) + 8 \<le> length cs" "int (length cs) + 16 < 2147483648" for cs
      proof -
        have "length (over 0 ?x cs) = length cs" "take (nat (j - i)) (over 0 ?x cs) = ?x"
          using that(2) x(1) by simp_all
        then show ?thesis using that(1,3) sub 3(1) by (simp add: yields_def wf_obj_def text_of_def)
      qed
      show ?thesis unfolding slicer_def option.case wp_bnd wp_deref [OF assms(4)] Let_def
        using nn 3 nc
        apply (simp add: wp_bnd)
        apply (rule newstring_wp [OF assms(1,2)])
          apply assumption
         apply simp
        apply (simp add: nc)
        apply (drule (2) fresh)
        apply (drule fin, rule refl)
        using bs(1) ob assms(4) le(1,3) x
        apply (simp add: wp_bnd heap_wp wp_ret)
        done
    qed
  qed
qed

section \<open>Assignment to one character\<close>

text \<open>The cell \<open>d\<close> holds a well-formed string \<open>rs\<close> of its own; old objects outside \<open>old\<close> are as before.\<close>

definition assigned :: "nat \<Rightarrow> rune list \<Rightarrow> nat set \<Rightarrow> vm \<Rightarrow> vm \<Rightarrow> bool" where
  "assigned d rs old s t \<longleftrightarrow>
     (\<exists>n ob. vm_cell t d = Some n \<and> vm_obj t n = Some ob \<and> wf_obj ob \<and> so_ref ob = 1 \<and> text_of ob = rs \<and>
       n < vm_next t) \<and>
     (\<forall>x < vm_next s. x \<notin> old \<longrightarrow> vm_obj t x = vm_obj s x) \<and>
     (\<forall>c. c \<noteq> d \<longrightarrow> vm_cell t c = vm_cell s c)"

definition upd_text :: "rune list \<Rightarrow> int \<Rightarrow> rune \<Rightarrow> rune list" where
  "upd_text rs v r = (if nat v < length rs then rs[nat v := r] else rs @ [r])"

definition rune_ready :: "sobj \<Rightarrow> bool" where
  "rune_ready ob \<longleftrightarrow> so_len ob \<le> 0 \<and> - so_len ob \<le> so_max ob \<and>
     so_max ob + 2 \<le> int (length (rune_view (so_data ob))) \<and> so_ref ob = 1 \<and>
     4 * int (length (rune_view (so_data ob))) + 16 < 2147483648"

lemma over_one [simp]: "i < length ys \<Longrightarrow> over i [x] ys = ys[i := x]"
  by (simp add: over_def upd_conv_take_nth_drop)

lemma insc_end_same [heap_wp]:
  "vm_cell s d = Some ss \<Longrightarrow> wp (insc_end d ss) Q E s \<longleftrightarrow> Q () s"
  by (simp add: insc_end_def wp_bnd heap_wp wp_ret)

lemma insc_end_nil [heap_wp]:
  "vm_cell s d = None \<Longrightarrow>
    wp (insc_end d ss) Q E s \<longleftrightarrow> Q () (s\<lparr>vm_cell := (vm_cell s)(d := Some ss)\<rparr>)"
  by (simp add: insc_end_def wp_bnd heap_wp destroy_def wp_ret)

lemma wp_destroy_last [heap_wp]:
  "vm_obj s p = Some ob \<Longrightarrow> so_ref ob = 1 \<Longrightarrow> vm_gchalt s \<le> 64 \<Longrightarrow>
    wp (destroy (Some p)) Q E s \<longleftrightarrow> Q () (s\<lparr>vm_obj := (vm_obj s)(p := None)\<rparr>)"
  by (simp add: wp_def destroy_def bnd_def deref_def)

lemma insc_end_new [heap_wp]:
  "vm_cell s d = Some p \<Longrightarrow> p \<noteq> ss \<Longrightarrow> vm_obj s p = Some ob \<Longrightarrow> so_ref ob = 1 \<Longrightarrow> vm_gchalt s \<le> 64 \<Longrightarrow>
    wp (insc_end d ss) Q E s \<longleftrightarrow>
    Q () (s\<lparr>vm_obj := (vm_obj s)(p := None), vm_cell := (vm_cell s)(d := Some ss)\<rparr>)"
  by (simp add: insc_end_def wp_bnd heap_wp wp_destroy_last)

lemma insc_rune_wp:
  assumes al: "alloc_ok al" "\<And>t. out_of_heap s t \<Longrightarrow> E t"
    and o: "vm_obj s ss = Some ob" "rune_ready ob" "ss < vm_next s"
    and c: "vm_cell s d = Some ss \<or> vm_cell s d = None" and v: "0 \<le> v" "l = - so_len ob"
    and gc: "vm_gchalt s \<le> 64" and fit: "5 * l + 28 < 2147483648"
    and bad: "v > l \<Longrightarrow> E (s\<lparr>vm_err := exBounds\<rparr>)"
    and ok: "\<And>t. v \<le> l \<Longrightarrow> assigned d (upd_text (take (nat l) (rune_view (so_data ob))) v r) {ss} s t \<Longrightarrow> Q () t"
  shows "wp (insc_rune al d ss l v r) Q E s"
proof -
  let ?rs = "rune_view (so_data ob)"
  have r: "so_len ob \<le> 0" "- so_len ob \<le> so_max ob" "so_max ob + 2 \<le> int (length ?rs)" "so_ref ob = 1"
      "length ?rs < 536870908"
    using o(2) by (auto simp: rune_ready_def)
  have u: "ulong_of l = l" "ulong_of (so_max ob) = so_max ob" using r v fit by simp_all
  have one: "cint (- (v + 1)) = - (v + 1)" if "v = l" using v fit that r by simp
  have "wp (if v < l then bnd (wr_runes ss (nat v) [r]) (\<lambda>_. insc_end d ss)
     else if v = l \<and> v < so_max ob then
       bnd (modify ss (\<lambda>ob. ob\<lparr>so_len := cint (- (v + 1))\<rparr>)) (\<lambda>_.
       bnd (wr_runes ss (nat v) [r]) (\<lambda>_. insc_end d ss))
     else if v \<noteq> l then error exBounds
     else
       bnd (newstring al (cint ((v + 1 + v div 4) * 4))) (\<lambda>ns.
       bnd (rd_runes ss 0 (nat (- so_len ob))) (\<lambda>rs.
       bnd (wr_runes ns 0 rs) (\<lambda>_.
       bnd (wr_runes ns (nat v) [r]) (\<lambda>_.
       bnd (modify ns (\<lambda>ob. ob\<lparr>so_len := cint (- (v + 1)), so_max := cint (ulong_of (so_max ob) div 4)\<rparr>)) (\<lambda>_.
       insc_end d ns)))))) Q E s" (is ?goal)
  proof -
    have ?goal if "v > l"
      using bad that v by (simp add: heap_wp)
    moreover have ?goal if 2: "v < l"
    proof -
    have lt: "nat v < length ?rs" "nat v < nat l" "nat l \<le> length ?rs" using 2 r v by auto
    let ?t = "s\<lparr>vm_obj := (vm_obj s)(ss \<mapsto> ob\<lparr>so_data := Srune (?rs[nat v := r])\<rparr>)\<rparr>"
    have "assigned d (upd_text (take (nat l) ?rs) v r) {ss} s (?t\<lparr>vm_cell := (vm_cell s)(d := Some ss)\<rparr>)"
      using 2 lt r v o(3) by (simp add: assigned_def upd_text_def wf_obj_def text_of_def take_update_swap)
    moreover have "vm_cell s d = Some ss \<Longrightarrow> ?t\<lparr>vm_cell := (vm_cell s)(d := Some ss)\<rparr> = ?t"
      by (simp add: fun_upd_idem)
    ultimately have "Q () (?t\<lparr>vm_cell := (vm_cell s)(d := Some ss)\<rparr>)" "vm_cell s d = Some ss \<Longrightarrow> Q () ?t"
      using ok 2 by auto
    then show ?goal using 2 lt o c by (auto simp: wp_bnd heap_wp)
    qed
    moreover have ?goal if 3: "v = l" "v < so_max ob"
    proof -
    have lt: "nat v < length ?rs" "nat l < length ?rs" "nat (1 + l) = Suc (nat l)" using 3 r v by auto
    let ?t = "s\<lparr>vm_obj := (vm_obj s)(ss \<mapsto> ob\<lparr>so_len := - (v + 1), so_data := Srune (?rs[nat v := r])\<rparr>)\<rparr>"
    have "assigned d (upd_text (take (nat l) ?rs) v r) {ss} s (?t\<lparr>vm_cell := (vm_cell s)(d := Some ss)\<rparr>)"
      using 3 lt r v o(3)
      by (simp add: assigned_def upd_text_def wf_obj_def text_of_def take_Suc_conv_app_nth)
    moreover have "vm_cell s d = Some ss \<Longrightarrow> ?t\<lparr>vm_cell := (vm_cell s)(d := Some ss)\<rparr> = ?t"
      by (simp add: fun_upd_idem)
    ultimately have "Q () (?t\<lparr>vm_cell := (vm_cell s)(d := Some ss)\<rparr>)" "vm_cell s d = Some ss \<Longrightarrow> Q () ?t"
      using ok 3 by auto
    then show ?goal using 3 lt o c one by (auto simp: wp_bnd heap_wp)
    qed
    moreover have ?goal if 4: "v = l" "\<not> v < so_max ob"
    proof -
    let ?ns = "vm_next s"
    have d4: "0 \<le> v div 4" "4 * (v div 4) \<le> v" using v by simp_all
    then have sz: "cint ((v + 1 + v div 4) * 4) = (v + 1 + v div 4) * 4"
      "(v + 1 + v div 4) * 4 + 24 < 2147483648" "0 \<le> (v + 1 + v div 4) * 4"
      using v fit 4 by simp_all
    note one = one [OF 4(1)]
    have lrs: "nat l \<le> length ?rs" using r v by linarith
    have s1: "nat (1 - so_len ob) = Suc (nat (- so_len ob))" using r(1) by simp
    have "wp (newstring al (cint ((v + 1 + v div 4) * 4))) (\<lambda>ns. wp (bnd (rd_runes ss 0 (nat (- so_len ob))) (\<lambda>rs.
       bnd (wr_runes ns 0 rs) (\<lambda>_.
       bnd (wr_runes ns (nat v) [r]) (\<lambda>_.
       bnd (modify ns (\<lambda>ob. ob\<lparr>so_len := cint (- (v + 1)), so_max := cint (ulong_of (so_max ob) div 4)\<rparr>)) (\<lambda>_.
       insc_end d ns))))) Q E) E s"
      unfolding sz(1) one
    proof (rule newstring_wp [OF al sz(3,2)], assumption)
      fix bs :: "byte list"
      assume bs: "(v + 1 + v div 4) * 4 + 8 \<le> int (length bs)" "int (length bs) + 16 < 2147483648"
      let ?g = "group4 bs"
      have g: "v + 3 \<le> int (length ?g)" "nat v + 3 \<le> length ?g"
      proof -
        have "0 \<le> v div 4" using v by (simp add: pos_imp_zdiv_nonneg_iff)
        then have "(v + 1) * 4 + 8 \<le> int (length bs)" using bs by simp
        then show "v + 3 \<le> int (length ?g)" by simp
        then show "nat v + 3 \<le> length ?g" using v by linarith
      qed
      have m: "(int (length bs) - 8) div 4 = int (length ?g) - 2" "4 * int (length ?g) + 16 < 2147483648"
        using bs by simp_all
      have mx: "cint (ulong_of (int (length bs) - 8) div 4) = (int (length bs) - 8) div 4"
        using bs d4 v by simp
      let ?d = "(over 0 (take (nat l) ?rs) ?g)[nat v := r]"
      let ?o = "\<lparr>so_ref = 1, so_len = - (v + 1), so_max = (int (length bs) - 8) div 4, so_tmp = None, so_data = Srune ?d\<rparr>"
      have l: "length ?d = length ?g" "take (Suc (nat v)) ?d = take (nat l) ?rs @ [r]"
      proof -
        show "length ?d = length ?g" using g 4 lrs by simp
        have "length (over 0 (take (nat l) ?rs) ?g) = length ?g" using g 4 lrs by simp
        then show "take (Suc (nat v)) ?d = take (nat l) ?rs @ [r]"
          using g 4 lrs by (simp add: take_Suc_conv_app_nth)
      qed
      have w: "wf_obj ?o" "text_of ?o = upd_text (take (nat l) ?rs) v r"
        using l g m 4 v lrs s1 by (simp_all add: wf_obj_def text_of_def upd_text_def)
      let ?t = "\<lambda>f. s\<lparr>vm_next := Suc ?ns, vm_obj := f ((vm_obj s)(?ns \<mapsto> ?o)), vm_cell := (vm_cell s)(d := Some ?ns)\<rparr>"
      have "assigned d (upd_text (take (nat l) ?rs) v r) {ss} s (?t (\<lambda>h. h))"
        "assigned d (upd_text (take (nat l) ?rs) v r) {ss} s (?t (\<lambda>h. h(ss := None)))"
        using w o(3) by (auto simp: assigned_def)
      then have q: "Q () (?t (\<lambda>h. h))" "Q () (?t (\<lambda>h. h(ss := None)))" using ok 4 by auto
      show "wp (bnd (rd_runes ss 0 (nat (- so_len ob))) (\<lambda>rs.
       bnd (wr_runes ?ns 0 rs) (\<lambda>_.
       bnd (wr_runes ?ns (nat v) [r]) (\<lambda>_.
       bnd (modify ?ns (\<lambda>ob. ob\<lparr>so_len := - (v + 1), so_max := cint (ulong_of (so_max ob) div 4)\<rparr>)) (\<lambda>_.
       insc_end d ?ns))))) Q E
        (s\<lparr>vm_obj := (vm_obj s)(vm_next s \<mapsto>
        \<lparr>so_ref = 1, so_len = (v + 1 + v div 4) * 4, so_max = int (length bs) - 8, so_tmp = None, so_data = Sascii bs\<rparr>),
        vm_next := vm_next s + 1\<rparr>)"
        using c
      proof
        assume "vm_cell s d = Some ss"
        then show ?thesis using q(2) o(1,3) r(4) 4 v g lrs gc mx by (simp add: wp_bnd heap_wp)
      next
        assume "vm_cell s d = None"
        then show ?thesis using q(1) o(1,3) 4 v g lrs mx by (simp add: wp_bnd heap_wp)
      qed
    qed
    then show ?goal using 4 by (simp add: wp_bnd)
    qed
    ultimately show ?goal by linarith
  qed
  then show ?thesis unfolding insc_rune_def wp_bnd wp_deref [OF o(1)] u .
qed

lemma insc_ascii_wp:
  assumes al: "alloc_ok al" "\<And>t. out_of_heap s t \<Longrightarrow> E t"
    and o: "vm_obj s ss = Some ob" "wf_obj ob" "0 \<le> so_len ob" "so_ref ob = 1" "ss < vm_next s"
    and c: "vm_cell s d = Some ss \<or> vm_cell s d = None" and v: "0 \<le> v" "l = so_len ob" "b < 0x80"
    and gc: "vm_gchalt s \<le> 64" and fit: "5 * l + 28 < 2147483648"
    and bad: "v > l \<Longrightarrow> E (s\<lparr>vm_err := exBounds\<rparr>)"
    and ok: "\<And>t. v \<le> l \<Longrightarrow> assigned d (upd_text (text_of ob) v (ucast b)) {ss} s t \<Longrightarrow> Q () t"
  shows "wp (insc_ascii al d ss l v b) Q E s"
proof -
  obtain bs where r: "so_data ob = Sascii bs" "so_len ob \<le> so_max ob" "so_max ob + 8 \<le> int (length bs)"
    "\<forall>b \<in> set (take (nat (so_len ob)) bs). b < 0x80"
    using wf_lens(1) [OF o(2,3)] by blast
  have lbs: "nat l \<le> length bs" using r v by linarith
  have sz: "length bs < 2147483632" using wf_size(1) [OF o(2) r(1)] by simp
  have u: "ulong_of l = l" "ulong_of (so_max ob) = so_max ob" using r v fit o(3) sz by simp_all
  have one: "cint (v + 1) = v + 1" if "v = l" using v fit that o(3) by simp
  have tx: "text_of ob = map ucast (take (nat l) bs)" using o(3) v(2) by (simp add: text_of_def r(1))
  have s1: "nat (1 + so_len ob) = Suc (nat (so_len ob))" using o(3) by simp
  have "wp (if v < l then bnd (wr_ascii ss (nat v) [b]) (\<lambda>_. insc_end d ss)
     else if v = l \<and> v < so_max ob then
       bnd (modify ss (\<lambda>ob. ob\<lparr>so_len := cint (v + 1)\<rparr>)) (\<lambda>_.
       bnd (wr_ascii ss (nat v) [b]) (\<lambda>_. insc_end d ss))
     else if v \<noteq> l then error exBounds
     else
       bnd (newstring al (cint (v + 1 + v div 4))) (\<lambda>ns.
       bnd (rd_ascii ss 0 (nat l)) (\<lambda>bs.
       bnd (wr_ascii ns 0 bs) (\<lambda>_.
       bnd (wr_ascii ns (nat v) [b]) (\<lambda>_.
       bnd (modify ns (\<lambda>ob. ob\<lparr>so_len := cint (v + 1)\<rparr>)) (\<lambda>_.
       insc_end d ns)))))) Q E s" (is ?goal)
  proof -
    have ?goal if "v > l"
      using bad that v by (simp add: heap_wp)
    moreover have ?goal if 2: "v < l"
    proof -
      have lt: "nat v < length bs" "nat v < nat l" using 2 lbs v by auto
      let ?t = "s\<lparr>vm_obj := (vm_obj s)(ss \<mapsto> ob\<lparr>so_data := Sascii (bs[nat v := b])\<rparr>)\<rparr>"
      have "\<forall>x \<in> set (take (nat l) (bs[nat v := b])). x < 0x80"
        using r(4) v(2,3) by (simp add: take_update_swap) (metis insertE set_update_subset_insert subsetD)
      moreover have "1 \<le> so_ref ob" using o(4) by simp
      ultimately have "assigned d (upd_text (text_of ob) v (ucast b)) {ss} s (?t\<lparr>vm_cell := (vm_cell s)(d := Some ss)\<rparr>)"
        using 2 lt r lbs v o(3-5) sz
        by (simp add: assigned_def upd_text_def tx wf_obj_def text_of_def take_update_swap map_update)
      moreover have "vm_cell s d = Some ss \<Longrightarrow> ?t\<lparr>vm_cell := (vm_cell s)(d := Some ss)\<rparr> = ?t"
        by (simp add: fun_upd_idem)
      ultimately have "Q () (?t\<lparr>vm_cell := (vm_cell s)(d := Some ss)\<rparr>)" "vm_cell s d = Some ss \<Longrightarrow> Q () ?t"
        using ok 2 by auto
      then show ?goal using 2 lt o(1) c r(1) by (auto simp: wp_bnd heap_wp)
    qed
    moreover have ?goal if 3: "v = l" "v < so_max ob"
    proof -
      have lt: "nat v < length bs" using 3 r v by linarith
      let ?t = "s\<lparr>vm_obj := (vm_obj s)(ss \<mapsto> ob\<lparr>so_len := v + 1, so_data := Sascii (bs[nat v := b])\<rparr>)\<rparr>"
      have tk: "take (Suc (nat v)) (bs[nat v := b]) = take (nat l) bs @ [b]"
        using lt 3 by (simp add: take_Suc_conv_app_nth)
      then have "\<forall>x \<in> set (take (nat (v + 1)) (bs[nat v := b])). x < 0x80"
        using r(4) v s1 3 by (simp add: add.commute)
      then have "assigned d (upd_text (text_of ob) v (ucast b)) {ss} s (?t\<lparr>vm_cell := (vm_cell s)(d := Some ss)\<rparr>)"
        using 3 lt r v o(3-5) tk s1 lbs sz
        by (simp add: assigned_def upd_text_def tx wf_obj_def text_of_def add.commute)
      moreover have "vm_cell s d = Some ss \<Longrightarrow> ?t\<lparr>vm_cell := (vm_cell s)(d := Some ss)\<rparr> = ?t"
        by (simp add: fun_upd_idem)
      ultimately have "Q () (?t\<lparr>vm_cell := (vm_cell s)(d := Some ss)\<rparr>)" "vm_cell s d = Some ss \<Longrightarrow> Q () ?t"
        using ok 3 by auto
      then show ?goal using 3 lt o(1) c r(1) one by (auto simp: wp_bnd heap_wp)
    qed
    moreover have ?goal if 4: "v = l" "\<not> v < so_max ob"
    proof -
      let ?ns = "vm_next s"
      have "0 \<le> v div 4" "4 * (v div 4) \<le> v" using v by simp_all
      then have rq: "cint (v + 1 + v div 4) = v + 1 + v div 4" "v + 1 + v div 4 + 24 < 2147483648" "0 \<le> v + 1 + v div 4"
        using v fit 4 by simp_all
      note one = one [OF 4(1)]
      have "wp (newstring al (cint (v + 1 + v div 4))) (\<lambda>ns. wp (bnd (rd_ascii ss 0 (nat l)) (\<lambda>bs.
       bnd (wr_ascii ns 0 bs) (\<lambda>_.
       bnd (wr_ascii ns (nat v) [b]) (\<lambda>_.
       bnd (modify ns (\<lambda>ob. ob\<lparr>so_len := cint (v + 1)\<rparr>)) (\<lambda>_.
       insc_end d ns))))) Q E) E s"
        unfolding rq(1) one
      proof (rule newstring_wp [OF al rq(3,2)], assumption)
        fix cs :: "byte list"
        assume cs: "v + 1 + v div 4 + 8 \<le> int (length cs)" "int (length cs) + 16 < 2147483648"
        have "0 \<le> v div 4" using v by (simp add: pos_imp_zdiv_nonneg_iff)
        then have g: "v + 9 \<le> int (length cs)" using cs(1) by simp
        then have g2: "nat v < length cs" "nat l \<le> length cs" using 4 v by linarith+
        let ?d = "(over 0 (take (nat l) bs) cs)[nat v := b]"
        let ?o = "\<lparr>so_ref = 1, so_len = v + 1, so_max = int (length cs) - 8, so_tmp = None, so_data = Sascii ?d\<rparr>"
        have l0: "length (over 0 (take (nat l) bs) cs) = length cs" using g2 lbs by simp
        have l: "length ?d = length cs" "take (Suc (nat v)) ?d = take (nat l) bs @ [b]"
          using l0 g2 4 lbs by (simp_all add: take_Suc_conv_app_nth)
        have "\<forall>x \<in> set (take (nat (v + 1)) ?d). x < 0x80"
          using l(2) r(4) v s1 4 by (simp add: add.commute)
        then have w: "wf_obj ?o" "text_of ?o = upd_text (text_of ob) v (ucast b)"
          using l g 4 v lbs s1 o(3) cs(2) by (simp_all add: wf_obj_def text_of_def r(1) upd_text_def add.commute)
        let ?t = "\<lambda>f. s\<lparr>vm_next := Suc ?ns, vm_obj := f ((vm_obj s)(?ns \<mapsto> ?o)), vm_cell := (vm_cell s)(d := Some ?ns)\<rparr>"
        have "assigned d (upd_text (text_of ob) v (ucast b)) {ss} s (?t (\<lambda>h. h))"
          "assigned d (upd_text (text_of ob) v (ucast b)) {ss} s (?t (\<lambda>h. h(ss := None)))"
          using w o(5) by (auto simp: assigned_def)
        then have q: "Q () (?t (\<lambda>h. h))" "Q () (?t (\<lambda>h. h(ss := None)))" using ok 4 by auto
        show "wp (bnd (rd_ascii ss 0 (nat l)) (\<lambda>bs.
       bnd (wr_ascii ?ns 0 bs) (\<lambda>_.
       bnd (wr_ascii ?ns (nat v) [b]) (\<lambda>_.
       bnd (modify ?ns (\<lambda>ob. ob\<lparr>so_len := v + 1\<rparr>)) (\<lambda>_.
       insc_end d ?ns))))) Q E
        (s\<lparr>vm_obj := (vm_obj s)(vm_next s \<mapsto>
        \<lparr>so_ref = 1, so_len = v + 1 + v div 4, so_max = int (length cs) - 8, so_tmp = None, so_data = Sascii cs\<rparr>),
        vm_next := vm_next s + 1\<rparr>)"
          using c
        proof
          assume "vm_cell s d = Some ss"
          then show ?thesis using q(2) o(1,4,5) 4 g2 lbs r(1) l0 gc by (simp add: wp_bnd heap_wp)
        next
          assume "vm_cell s d = None"
          then show ?thesis using q(1) o(1,5) 4 g2 lbs r(1) l0 by (simp add: wp_bnd heap_wp)
        qed
      qed
      then show ?goal using 4 by (simp add: wp_bnd)
    qed
    ultimately show ?goal by linarith
  qed
  then show ?thesis unfolding insc_ascii_def wp_bnd wp_deref [OF o(1)] u .
qed

lemma wp_destroy [heap_wp]:
  "vm_obj s p = Some ob \<Longrightarrow> vm_gchalt s \<le> 64 \<Longrightarrow> wp (destroy (Some p)) Q E s \<longleftrightarrow>
    Q () (s\<lparr>vm_obj := (vm_obj s)(p := if so_ref ob > 1 then Some (ob\<lparr>so_ref := so_ref ob - 1\<rparr>) else None)\<rparr>)"
  by (simp add: wp_def destroy_def bnd_def deref_def setobj_def)

text \<open>The cell \<open>c\<close> after \<open>splitc\<close>: a new object with the same text; the old one has lost a reference.\<close>

definition split_off :: "nat \<Rightarrow> bool \<Rightarrow> sobj \<Rightarrow> nat \<Rightarrow> vm \<Rightarrow> nat \<Rightarrow> sobj \<Rightarrow> vm \<Rightarrow> bool" where
  "split_off c expand ob p s n nob t \<longleftrightarrow> n = vm_next s \<and> vm_next t = Suc n \<and>
     vm_cell t = (vm_cell s)(c := Some n) \<and> vm_obj t n = Some nob \<and> wf_obj nob \<and> so_ref nob = 1 \<and>
     text_of nob = text_of ob \<and> (so_len ob \<le> 0 \<longrightarrow> so_len nob = so_len ob) \<and>
     (expand \<and> so_len ob \<noteq> 0 \<longrightarrow> so_len nob < 0) \<and> (\<not> expand \<longrightarrow> so_len nob = so_len ob) \<and>
     (\<forall>x < vm_next s. x \<noteq> p \<longrightarrow> vm_obj t x = vm_obj s x) \<and>
     vm_obj t p = (if so_ref ob > 1 then Some (ob\<lparr>so_ref := so_ref ob - 1\<rparr>) else None) \<and>
     vm_gchalt t = vm_gchalt s"

lemma splitc_wp:
  assumes "alloc_ok al" "\<And>t. out_of_heap s t \<Longrightarrow> E t" "wf_vm s" "vm_cell s c = Some p" "vm_obj s p = Some ob"
    and fit: "5 * \<bar>so_len ob\<bar> + 28 < 2147483648" and fin: "\<And>n nob t. split_off c expand ob p s n nob t \<Longrightarrow> Q n t"
  shows "wp (splitc al c expand) Q E s"
proof -
  have ob: "wf_obj ob" "p < vm_next s" "vm_gchalt s \<le> 64" using assms(3,5) by (auto simp: wf_vm_def)
  let ?k = "\<lambda>ns. bnd (destroy (Some p)) (\<lambda>_. bnd (set_cell c (Some ns)) (\<lambda>_. ret ns))"
  have "wp (if expand \<and> so_len ob > 0 then
                bnd (newrunes al (so_len ob)) (\<lambda>ns. bnd (cvtup ns 0 p) (\<lambda>_. ret (Some ns)))
              else stringdup al (Some p)) (\<lambda>q. wp (case q of None \<Rightarrow> (\<lambda>s. Inl OutOfBounds) | Some ns \<Rightarrow> ?k ns) Q E) E s"
  proof (cases "expand \<and> so_len ob > 0")
    case True
    then obtain bs where bs: "so_data ob = Sascii bs" "so_len ob \<le> so_max ob" "so_max ob + 8 \<le> int (length bs)"
      using wf_lens(1) [OF ob(1)] by auto
    have lbs: "nat (so_len ob) \<le> length bs" using bs by linarith
    have "wp (newrunes al (so_len ob)) (\<lambda>ns. wp (bnd (cvtup ns 0 p) (\<lambda>_. ret (Some ns)))
      (\<lambda>q. wp (case q of None \<Rightarrow> (\<lambda>s. Inl OutOfBounds) | Some ns \<Rightarrow> ?k ns) Q E) E) E s"
    proof (rule newrunes_wp [OF assms(1,2)], assumption)
      show "0 < so_len ob" "4 * so_len ob + 24 < 2147483648" using True fit by simp_all
      fix rs :: "rune list"
      assume rs: "so_len ob + 2 \<le> int (length rs)" "nat (so_len ob) + 2 \<le> length rs" "4 * int (length rs) + 16 < 2147483648"
      let ?n = "vm_next s"
      let ?x = "map ucast (take (nat (so_len ob)) bs)"
      let ?o = "\<lparr>so_ref = 1, so_len = - so_len ob, so_max = int (length rs) - 2, so_tmp = None, so_data = Srune (over 0 ?x rs)\<rparr>"
      have "length (over 0 ?x rs) = length rs" "take (nat (so_len ob)) (over 0 ?x rs) = ?x"
        using rs(2) lbs by simp_all
      then have w: "wf_obj ?o" "text_of ?o = text_of ob"
        using rs(1,3) True bs(1) by (simp_all add: wf_obj_def text_of_def)
      let ?t = "s\<lparr>vm_next := Suc ?n, vm_obj := (vm_obj s)(?n \<mapsto> ?o, p := if so_ref ob > 1 then Some (ob\<lparr>so_ref := so_ref ob - 1\<rparr>) else None),
        vm_cell := (vm_cell s)(c := Some ?n)\<rparr>"
      have "split_off c expand ob p s ?n ?o ?t" using w True ob(2) by (simp add: split_off_def)
      then have "Q ?n ?t" by (rule fin)
      then show "wp (bnd (cvtup ?n 0 p) (\<lambda>_. ret (Some ?n)))
        (\<lambda>q. wp (case q of None \<Rightarrow> (\<lambda>s. Inl OutOfBounds) | Some ns \<Rightarrow> ?k ns) Q E) E
        (s\<lparr>vm_obj := (vm_obj s)(vm_next s \<mapsto> \<lparr>so_ref = 1, so_len = - so_len ob, so_max = int (length rs) - 2,
          so_tmp = None, so_data = Srune rs\<rparr>), vm_next := vm_next s + 1\<rparr>)"
        using ob(2,3) assms(5) bs(1) lbs rs(2) by (simp add: wp_bnd heap_wp wp_ret)
    qed
    then show ?thesis using True by (simp add: wp_bnd)
  next
    case False
    have "wp (stringdup al (Some p)) (\<lambda>q. wp (case q of None \<Rightarrow> (\<lambda>s. Inl OutOfBounds) | Some ns \<Rightarrow> ?k ns) Q E) E s"
    proof (rule stringdup_wp [OF assms(1,2,3,5)], assumption)
      fix n t nob
      assume t: "yields s (text_of ob) n t" "n = vm_next s" "vm_next t = Suc n" "vm_obj t n = Some nob"
        "so_len nob = so_len ob"
      let ?t = "t\<lparr>vm_obj := (vm_obj t)(p := if so_ref ob > 1 then Some (ob\<lparr>so_ref := so_ref ob - 1\<rparr>) else None),
        vm_cell := (vm_cell t)(c := Some n)\<rparr>"
      have p: "vm_obj t p = Some ob" "vm_gchalt t \<le> 64" using t ob(2,3) assms(5) by (auto simp: yields_def)
      have "split_off c expand ob p s n nob ?t"
        using t ob(2) False by (auto simp: split_off_def yields_def)
      then have "Q n ?t" by (rule fin)
      then show "wp (case Some n of None \<Rightarrow> (\<lambda>s. Inl OutOfBounds) | Some ns \<Rightarrow> ?k ns) Q E t"
        using p by (simp add: wp_bnd heap_wp wp_ret)
    qed
    then show ?thesis unfolding if_not_P [OF False] .
  qed
  then show ?thesis unfolding splitc_def wp_bnd wp_get_cell assms(4) option.case wp_deref [OF assms(5)] .
qed

definition holds :: "nat \<Rightarrow> rune list \<Rightarrow> vm \<Rightarrow> bool" where
  "holds d rs t \<longleftrightarrow> (\<exists>n ob. vm_cell t d = Some n \<and> vm_obj t n = Some ob \<and> wf_obj ob \<and> text_of ob = rs)"

lemma length_text: "wf_obj ob \<Longrightarrow> int (length (text_of ob)) = \<bar>so_len ob\<bar>"
  using wf_lens [of ob] by (cases "so_len ob < 0") (auto simp: text_of_def)

lemma insc_tail_wp:
  assumes al: "alloc_ok al"
    and o: "vm_obj s ss = Some ob" "wf_obj ob" "so_ref ob = 1" "ss < vm_next s" "vm_cell s d = Some ss"
    and gc: "vm_gchalt s \<le> 64" and fit: "5 * \<bar>so_len ob\<bar> + 28 < 2147483648"
    and v: "0 \<le> v" "0 \<le> r" "r < 2 ^ 31" "expand \<longleftrightarrow> r \<ge> 0x80" "expand \<Longrightarrow> so_len ob < 0"
    and bad: "\<And>t. vm_err t = exHeap \<or> vm_err t = exBounds \<and> v > int (length (text_of ob)) \<Longrightarrow>
       vm_obj t = vm_obj s \<Longrightarrow> vm_cell t = vm_cell s \<Longrightarrow> E t"
    and ok: "\<And>t. v \<le> int (length (text_of ob)) \<Longrightarrow>
       assigned d (upd_text (text_of ob) v (word_of_int r)) {ss} s t \<Longrightarrow> Q () t"
  shows "wp (insc_tail al d ss expand v r) Q E s"
proof -
  have oom: "out_of_heap s t \<Longrightarrow> E t" for t by (rule bad) (auto simp: out_of_heap_def)
  note len = length_text [OF o(2)]
  show ?thesis
  proof (cases "so_len ob < 0")
    case True
    obtain rs where rs: "so_data ob = Srune rs" "- so_len ob \<le> so_max ob" "so_max ob + 2 \<le> int (length rs)"
      using wf_lens(2) [OF o(2) True] by blast
    have "wp (insc_rune al d ss (- so_len ob) v (word_of_int r)) Q E s"
    proof (rule insc_rune_wp [OF al oom o(1)])
      show "rune_ready ob" using True rs o(3) wf_size(2) [OF o(2) rs(1)] by (simp add: rune_ready_def)
      show "vm_cell s d = Some ss \<or> vm_cell s d = None" using o(5) by simp
      show "E (s\<lparr>vm_err := exBounds\<rparr>)" if "v > - so_len ob" by (rule bad) (use that True len in auto)
      show "Q () t" if "v \<le> - so_len ob" "assigned d (upd_text (take (nat (- so_len ob)) (rune_view (so_data ob))) v (word_of_int r)) {ss} s t" for t
        using ok [of t] that True len by (simp add: text_of_def)
    qed (use o v gc fit True in simp_all)
    then show ?thesis unfolding insc_tail_def wp_bnd wp_deref [OF o(1)] Let_def using True fit by simp
  next
    case False
    then have ne: "\<not> expand" "r < 0x80" using v by auto
    have b: "(word_of_int r :: byte) < 0x80" "ucast (word_of_int r :: byte) = (word_of_int r :: rune)"
      using ne(2) v(2) by (simp_all add: word_less_def word_uint_eq_iff uint_word_of_int unsigned_ucast_eq take_bit_eq_mod)
    have "wp (insc_ascii al d ss (so_len ob) v (word_of_int r)) Q E s"
    proof (rule insc_ascii_wp [OF al oom o(1,2) _ o(3,4)])
      show "vm_cell s d = Some ss \<or> vm_cell s d = None" using o(5) by simp
      show "E (s\<lparr>vm_err := exBounds\<rparr>)" if "v > so_len ob" by (rule bad) (use that False len in auto)
      show "Q () t" if "v \<le> so_len ob" "assigned d (upd_text (text_of ob) v (ucast (word_of_int r :: byte))) {ss} s t" for t
        using ok [of t] that False len b by simp
    qed (use False v b gc fit in simp_all)
    then show ?thesis unfolding insc_tail_def wp_bnd wp_deref [OF o(1)] Let_def using False ne by simp
  qed
qed

lemma insc_some_wp:
  assumes al: "alloc_ok al" and s: "wf_vm s" "vm_cell s d = Some p" "vm_obj s p = Some ob"
    and r: "0 \<le> r" "r < 2 ^ 31" "r \<ge> 0x80 \<Longrightarrow> so_len ob \<noteq> 0"
    and fit: "fits (int (length (text_of ob)) + 1)"
    and bad: "\<And>t. vm_err t = exHeap \<or> vm_err t = exBounds \<and> ulong_of w > int (length (text_of ob)) \<Longrightarrow>
       holds d (text_of ob) t \<Longrightarrow> E t"
    and ok: "\<And>t. ulong_of w \<le> int (length (text_of ob)) \<Longrightarrow>
       assigned d (upd_text (text_of ob) (ulong_of w) (word_of_int r)) {p} s t \<Longrightarrow>
       so_ref ob > 1 \<longrightarrow> vm_obj t p = Some (ob\<lparr>so_ref := so_ref ob - 1\<rparr>) \<Longrightarrow> Q () t"
  shows "wp (insc al r w d) Q E s"
proof -
  let ?v = "ulong_of w"
  have ob: "wf_obj ob" "p < vm_next s" "1 \<le> so_ref ob" and gc: "vm_gchalt s \<le> 64"
    using s(1,3) by (auto simp: wf_vm_def wf_obj_def)
  have fl: "5 * \<bar>so_len ob\<bar> + 28 < 2147483648" using fit length_text [OF ob(1)] by (simp add: fits_def)
  have cr: "cint r = r" using r(1,2) by simp
  have v: "0 \<le> ?v" by (simp add: ulong_of_def)
  have "wp (if so_ref ob > 1 \<or> (r \<ge> 0x80 \<and> so_len ob > 0) then
           bnd (splitc al d (r \<ge> 0x80)) (\<lambda>ns. insc_tail al d ns (r \<ge> 0x80) ?v r)
         else insc_tail al d p (r \<ge> 0x80) ?v r) Q E s"
  proof (cases "so_ref ob > 1 \<or> (r \<ge> 0x80 \<and> so_len ob > 0)")
    case True
    have oom: "out_of_heap s t \<Longrightarrow> E t" for t
      by (rule bad) (use s(2,3) ob(1) in \<open>auto simp: out_of_heap_def holds_def\<close>)
    have "wp (splitc al d (r \<ge> 0x80)) (\<lambda>ns. wp (insc_tail al d ns (r \<ge> 0x80) ?v r) Q E) E s"
    proof (rule splitc_wp [OF al oom s fl], assumption)
      fix n nob t
      assume t: "split_off d (r \<ge> 0x80) ob p s n nob t"
      then have n: "n = vm_next s" "vm_next t = Suc n" "vm_cell t = (vm_cell s)(d := Some n)" "vm_obj t n = Some nob"
        "wf_obj nob" "so_ref nob = 1" "text_of nob = text_of ob" "r \<ge> 0x80 \<Longrightarrow> so_len nob < 0" "vm_gchalt t \<le> 64"
        and old: "\<And>x. x < vm_next s \<Longrightarrow> x \<noteq> p \<Longrightarrow> vm_obj t x = vm_obj s x"
        "vm_obj t p = (if so_ref ob > 1 then Some (ob\<lparr>so_ref := so_ref ob - 1\<rparr>) else None)"
        using r(3) gc by (auto simp: split_off_def)
      have fl2: "5 * \<bar>so_len nob\<bar> + 28 < 2147483648"
        using fl length_text [OF ob(1)] length_text [OF n(5)] n(7) by simp
      show "wp (insc_tail al d n (r \<ge> 0x80) ?v r) Q E t"
      proof (rule insc_tail_wp [OF al n(4,5,6) _ _ n(9) fl2 v r(1,2) refl n(8)])
        fix u :: vm assume "vm_err u = exHeap \<or> vm_err u = exBounds \<and> ?v > int (length (text_of nob))"
          "vm_obj u = vm_obj t" "vm_cell u = vm_cell t"
        then show "E u" using n by (intro bad) (auto simp: holds_def)
      next
        fix u :: vm assume u: "?v \<le> int (length (text_of nob))"
          "assigned d (upd_text (text_of nob) ?v (word_of_int r)) {n} t u"
        have "assigned d (upd_text (text_of ob) ?v (word_of_int r)) {p} s u"
          using u(2) old(1) n(1-3,7) by (auto simp: assigned_def)
        moreover have "vm_obj u p = vm_obj t p" using u(2) ob(2) n(1,2) by (auto simp: assigned_def)
        ultimately show "Q () u" using ok u(1) n(7) old(2) by simp
      qed (use n in simp_all)
    qed
    then show ?thesis unfolding if_P [OF True] wp_bnd .
  next
    case False
    have one: "so_ref ob = 1" "r \<ge> 0x80 \<Longrightarrow> so_len ob < 0" using False ob(3) r(3) by auto
    have "wp (insc_tail al d p (r \<ge> 0x80) ?v r) Q E s"
    proof (rule insc_tail_wp [OF al s(3) ob(1) one(1) ob(2) s(2) gc fl v r(1,2) refl one(2)])
      fix u :: vm assume "vm_err u = exHeap \<or> vm_err u = exBounds \<and> ?v > int (length (text_of ob))"
        "vm_obj u = vm_obj s" "vm_cell u = vm_cell s"
      then show "E u" using s ob(1) by (intro bad) (auto simp: holds_def)
    next
      fix u :: vm assume "?v \<le> int (length (text_of ob))"
        "assigned d (upd_text (text_of ob) ?v (word_of_int r)) {p} s u"
      then show "Q () u" using ok one(1) by simp
    qed
    then show ?thesis unfolding if_not_P [OF False] .
  qed
  then show ?thesis
    unfolding insc_def Let_def wp_bnd wp_get_cell s(2) option.case wp_deref [OF s(3)] cr .
qed

lemma insc_nil_wp:
  assumes al: "alloc_ok al" and s: "wf_vm s" "vm_cell s d = None"
    and r: "0 \<le> r" "r < 2 ^ 31"
    and bad: "\<And>t. vm_err t = exHeap \<or> vm_err t = exBounds \<and> ulong_of w > 0 \<Longrightarrow> vm_cell t d = None \<Longrightarrow> E t"
    and ok: "\<And>t. ulong_of w = 0 \<Longrightarrow> assigned d [word_of_int r] {} s t \<Longrightarrow> Q () t"
  shows "wp (insc al r w d) Q E s"
proof -
  let ?v = "ulong_of w"
  have v: "0 \<le> ?v" by (simp add: ulong_of_def)
  have gc: "vm_gchalt s \<le> 64" using s(1) by (simp add: wf_vm_def)
  have cr: "cint r = r" using r by simp
  have oom: "vm_cell s = vm_cell u \<Longrightarrow> out_of_heap u t \<Longrightarrow> E t" for t and u :: vm
    by (rule bad) (use s(2) in \<open>auto simp: out_of_heap_def\<close>)
  have oom0: "out_of_heap s t \<Longrightarrow> E t" for t by (rule oom) simp_all
  have "wp (newstring al 0) (\<lambda>ss. wp (if r \<ge> 0x80 then
           bnd (modify ss (\<lambda>ob. ob\<lparr>so_max := cint (ulong_of (so_max ob) div 4)\<rparr>)) (\<lambda>_.
           insc_rune al d ss 0 ?v (word_of_int r))
         else insc_tail al d ss (r \<ge> 0x80) ?v r) Q E) E s"
  proof (rule newstring_wp [OF al oom0], assumption)
    fix bs :: "byte list" assume bs: "0 + 8 \<le> int (length bs)" "int (length bs) + 16 < 2147483648"
    then have mx: "cint (ulong_of (int (length bs) - 8) div 4) = (int (length bs) - 8) div 4" by simp
    let ?n = "vm_next s"
    let ?o = "\<lparr>so_ref = 1, so_len = 0, so_max = int (length bs) - 8, so_tmp = None, so_data = Sascii bs\<rparr>"
    let ?t = "s\<lparr>vm_obj := (vm_obj s)(?n \<mapsto> ?o), vm_next := ?n + 1\<rparr>"
    show "wp (if r \<ge> 0x80 then
           bnd (modify ?n (\<lambda>ob. ob\<lparr>so_max := cint (ulong_of (so_max ob) div 4)\<rparr>)) (\<lambda>_.
           insc_rune al d ?n 0 ?v (word_of_int r))
         else insc_tail al d ?n (r \<ge> 0x80) ?v r) Q E ?t"
    proof (cases "r \<ge> 0x80")
      case True
      let ?o2 = "?o\<lparr>so_max := (int (length bs) - 8) div 4\<rparr>"
      let ?u = "?t\<lparr>vm_obj := (vm_obj ?t)(?n \<mapsto> ?o2)\<rparr>"
      have "wp (insc_rune al d ?n 0 ?v (word_of_int r)) Q E ?u"
      proof (rule insc_rune_wp [OF al])
        show "vm_obj ?u ?n = Some ?o2" by simp
        show "rune_ready ?o2" proof -
          have "(int (length bs) - 8) div 4 = int (length bs div 4) - 2" "0 \<le> (int (length bs) - 8) div 4"
            "4 * int (length bs div 4) + 16 < 2147483648"
            using bs by (simp_all add: pos_imp_zdiv_nonneg_iff)
          then show ?thesis by (simp add: rune_ready_def)
        qed
        show "out_of_heap ?u t \<Longrightarrow> E t" for t by (rule oom [of ?u]) simp_all
        show "E (?u\<lparr>vm_err := exBounds\<rparr>)" if "0 < ?v" by (rule bad) (use that s in simp_all)
        fix t assume t: "?v \<le> 0"
          "assigned d (upd_text (take (nat 0) (rune_view (so_data ?o2))) ?v (word_of_int r)) {?n} ?u t"
        have "assigned d [word_of_int r] {} s t" using t(2) v by (auto simp: assigned_def upd_text_def)
        then show "Q () t" using ok t(1) v by simp
      qed (use s v gc in simp_all)
      then show ?thesis using True mx by (simp add: wp_bnd heap_wp)
    next
      case False
      have b: "(word_of_int r :: byte) < 0x80" "ucast (word_of_int r :: byte) = (word_of_int r :: rune)"
        using False r by (simp_all add: word_less_def word_uint_eq_iff uint_word_of_int unsigned_ucast_eq take_bit_eq_mod)
      have "wp (insc_ascii al d ?n 0 ?v (word_of_int r)) Q E ?t"
      proof (rule insc_ascii_wp [OF al])
        show "vm_obj ?t ?n = Some ?o" by simp
        show "wf_obj ?o" using bs by (simp add: wf_obj_def)
        show "out_of_heap ?t t \<Longrightarrow> E t" for t by (rule oom [of ?t]) simp_all
        show "E (?t\<lparr>vm_err := exBounds\<rparr>)" if "0 < ?v" by (rule bad) (use that s in simp_all)
        fix t assume t: "?v \<le> 0"
          "assigned d (upd_text (text_of ?o) ?v (ucast (word_of_int r :: byte))) {?n} ?t t"
        have "assigned d [word_of_int r] {} s t" using t(2) v b by (auto simp: assigned_def upd_text_def text_of_def)
        then show "Q () t" using ok t(1) v by simp
      qed (use s v b gc in simp_all)
      then show ?thesis using False by (simp add: insc_tail_def wp_bnd heap_wp)
    qed
  qed simp_all
  then show ?thesis
    unfolding insc_def Let_def wp_bnd wp_get_cell s(2) option.case cr .
qed

lemma sint_ascii:
  assumes "(b :: byte) < 0x80"
  shows "sint (ucast b :: rune) = uint b" "sint b = uint b"
proof -
  have b: "uint b < 128" "0 \<le> uint b" using assms by (simp_all add: word_less_def)
  have "signed_take_bit 31 (uint b) = uint b"
    by (rule signed_take_bit_int_eq_self [OF order_trans [OF _ b(2)] order_less_le_trans [OF b(1)]]) simp_all
  moreover have "take_bit 32 (uint b) = uint b"
    by (rule take_bit_int_eq_self [OF b(2) order_less_le_trans [OF b(1)]]) simp
  ultimately show "sint (ucast b :: rune) = uint b" by (simp add: sint_uint unsigned_ucast_eq)
  have "signed_take_bit 7 (uint b) = uint b"
    by (rule signed_take_bit_int_eq_self [OF order_trans [OF _ b(2)] order_less_le_trans [OF b(1)]]) simp_all
  then show "sint b = uint b" by (simp add: sint_uint)
qed

lemma indc_wp:
  assumes "vm_cell s c = Some p" "vm_obj s p = Some ob" "wf_obj ob" "0 \<le> w" "w < 2 ^ 63"
    "w \<ge> int (length (text_of ob)) \<Longrightarrow> E (s\<lparr>vm_err := exBounds\<rparr>)"
    "w < int (length (text_of ob)) \<Longrightarrow> Q (sint (text_of ob ! nat w)) s"
  shows "wp (indc c w) Q E s"
proof -
  have v: "ulong_of w = w" using assms(4,5) by (simp add: ulong_of_def)
  note len = length_text [OF assms(3)]
  show ?thesis
  proof (cases "so_len ob < 0")
    case True
    then obtain rs where rs: "so_data ob = Srune rs" "- so_len ob \<le> so_max ob" "so_max ob + 2 \<le> int (length rs)"
      using wf_lens(2) [OF assms(3)] by blast
    have "text_of ob = take (nat (- so_len ob)) rs" using True by (simp add: text_of_def rs(1))
    then show ?thesis using True rs assms len
      by (auto simp: indc_def wp_bnd wp_get_cell wp_deref [OF assms(2)] Let_def v wp_error wp_check wp_ret)
  next
    case False
    then obtain bs where bs: "so_data ob = Sascii bs" "so_len ob \<le> so_max ob" "so_max ob + 8 \<le> int (length bs)"
        "\<forall>b \<in> set (take (nat (so_len ob)) bs). b < 0x80"
      using wf_lens(1) [OF assms(3)] by (meson linorder_not_less)
    have tx: "text_of ob = map ucast (take (nat (so_len ob)) bs)" using False by (simp add: text_of_def bs(1))
    have "sint (bs ! nat w) = sint (text_of ob ! nat w)" if "w < so_len ob"
    proof -
      have i: "nat w < nat (so_len ob)" "nat w < length bs" using that assms(4) bs by linarith+
      then have "take (nat (so_len ob)) bs ! nat w \<in> set (take (nat (so_len ob)) bs)" by (intro nth_mem) simp
      then have "bs ! nat w < 0x80" using bs(4) i by simp
      then show ?thesis using sint_ascii i by (simp add: tx)
    qed
    then show ?thesis using False bs assms len
      by (auto simp: indc_def wp_bnd wp_get_cell wp_deref [OF assms(2)] Let_def v wp_error wp_check wp_ret)
  qed
qed

end
