(* ===== verification/DisStringSpec.thy ===== *)
theory DisStringSpec
  imports DisStringProofs
begin

text \<open>
  What the string operations promise: a string denotes a sequence of runes (\<open>str_at\<close>), and
  concatenation, slicing, indexing, assignment to a character, comparison and the conversions
  to and from UTF-8 are the operations of that name on sequences, without a fault.
\<close>

section \<open>Comparison\<close>

definition ints_of :: "sobj \<Rightarrow> int list" where
  "ints_of ob = map sint (text_of ob)"

lemma memcmp_lex:
  "let c = memcmp as bs; d = int (length as) - int (length bs); c = (if c = 0 then d else c) in
     (c < 0 \<longleftrightarrow> ord_class.lexordp (map uint as) (map uint bs)) \<and> (c = 0 \<longleftrightarrow> as = bs)"
proof (induction as bs rule: memcmp.induct, goal_cases)
  case (1 a as b bs)
  show ?case
  proof (cases "a = b")
    case True
    then show ?thesis using 1 by (simp add: Let_def)
  next
    case False
    then have "uint a \<noteq> uint b" by (simp add: word_uint_eq_iff)
    then show ?thesis using False by (auto simp: Let_def)
  qed
next
  case (2 vb)
  then show ?case by (cases vb) (auto simp: Let_def)
next
  case (3 vb)
  then show ?case by (cases vb) (auto simp: Let_def)
qed

lemma cmp_loop_lex:
  "let d = int (length as) - int (length bs); c = cmp_loop as bs d in
     (c < 0 \<longleftrightarrow> ord_class.lexordp as bs) \<and> (c = 0 \<longleftrightarrow> as = bs)"
proof -
  have "d = int (length as) - int (length bs) \<Longrightarrow>
    (cmp_loop as bs d < 0 \<longleftrightarrow> ord_class.lexordp as bs) \<and> (cmp_loop as bs d = 0 \<longleftrightarrow> as = bs)" for d
  proof (induction as bs d rule: cmp_loop.induct, goal_cases)
    case (1 a as b bs d)
    then show ?case by (cases a b rule: linorder_cases) auto
  next
    case (2 uv d)
    then show ?case by (cases uv) auto
  next
    case (3 uu d)
    then show ?case by (cases uu) auto
  qed
  then show ?thesis by (simp add: Let_def)
qed

lemma cmp_loop_take: "n = min (length as) (length bs) \<Longrightarrow> cmp_loop (take n as) (take n bs) d = cmp_loop as bs d"
  by (induction as bs d arbitrary: n rule: cmp_loop.induct) auto

lemma memcmp_take: "n = min (length as) (length bs) \<Longrightarrow> memcmp (take n as) (take n bs) = memcmp as bs"
  by (induction as bs arbitrary: n rule: memcmp.induct) auto

text \<open>A string operand: a well-formed object, or \<open>snil\<close> for \<open>H\<close>.\<close>

definition operand :: "sobj \<Rightarrow> bool" where
  "operand ob \<longleftrightarrow> wf_obj ob \<or> ob = nil_str"

lemma operand_len: "operand ob \<Longrightarrow> int (length (text_of ob)) = \<bar>so_len ob\<bar>"
  using length_text [of ob] by (auto simp: operand_def) (simp_all add: nil_str_def text_of_def)

lemma ascii_operand:
  assumes "operand ob" "0 \<le> so_len ob"
  obtains bs where "ascii_view (so_data ob) = bs" "nat (so_len ob) \<le> length bs"
    "text_of ob = map ucast (take (nat (so_len ob)) bs)" "map sint (text_of ob) = map uint (take (nat (so_len ob)) bs)"
    "map sint (take (nat (so_len ob)) bs) = map sint (text_of ob)"
proof (cases "ob = nil_str")
  case True
  then show ?thesis by (intro that [of "[]"]) (simp_all add: nil_str_def text_of_def)
next
  case False
  then obtain bs where bs: "so_data ob = Sascii bs" "so_len ob \<le> so_max ob" "so_max ob + 8 \<le> int (length bs)"
        "\<forall>b \<in> set (take (nat (so_len ob)) bs). b < 0x80"
    using wf_lens(1) [of ob] assms by (auto simp: operand_def)
  show ?thesis
  proof (rule that [of bs])
    show "text_of ob = map ucast (take (nat (so_len ob)) bs)" using assms(2) bs by (simp add: text_of_def)
    then show "map sint (text_of ob) = map uint (take (nat (so_len ob)) bs)"
      "map sint (take (nat (so_len ob)) bs) = map sint (text_of ob)"
      using bs(4) by (simp_all add: sint_ascii)
  qed (use bs in simp_all)
qed

lemma first_ints_ok:
  assumes "operand ob" "n \<le> length (text_of ob)"
  shows "first_ints n ob = Inr (take n (ints_of ob))"
proof (cases "so_len ob < 0")
  case True
  then have "wf_obj ob" using assms(1) by (auto simp: operand_def nil_str_def)
  then obtain rs where rs: "so_data ob = Srune rs" "- so_len ob \<le> so_max ob" "so_max ob + 2 \<le> int (length rs)"
    using wf_lens(2) [OF _ True] by blast
  have tx: "text_of ob = take (nat (- so_len ob)) rs" using True by (simp add: text_of_def rs(1))
  have "n \<le> nat (- so_len ob)" "n \<le> length rs" using assms(2) unfolding tx by simp_all
  then show ?thesis using True by (simp add: first_ints_def rs(1) rdblock_def ints_of_def tx take_map min_absorb1)
next
  case False
  then have "0 \<le> so_len ob" by simp
  from ascii_operand [OF assms(1) this] obtain bs where bs:
    "ascii_view (so_data ob) = bs" "nat (so_len ob) \<le> length bs"
    "text_of ob = map ucast (take (nat (so_len ob)) bs)"
    "map sint (take (nat (so_len ob)) bs) = map sint (text_of ob)" .
  have n: "n \<le> nat (so_len ob)" "n \<le> length bs" using assms(2) unfolding bs(3) using bs(2) by simp_all
  have "map sint (take n bs) = take n (map sint (take (nat (so_len ob)) bs))"
    using n by (simp add: take_map min_absorb1)
  then show ?thesis using False n bs(1) unfolding bs(4) by (simp add: first_ints_def rdblock_def ints_of_def)
qed

lemma inj_sint_list: "map sint (xs :: rune list) = map sint ys \<longleftrightarrow> xs = ys"
proof -
  have "inj (sint :: rune \<Rightarrow> int)" by (rule injI) (drule arg_cong [of _ _ "word_of_int :: int \<Rightarrow> rune"], simp)
  then show ?thesis by (rule inj_map_eq_map)
qed

lemma inj_uint_list: "map uint (xs :: byte list) = map uint ys \<longleftrightarrow> xs = ys"
proof -
  have "inj (uint :: byte \<Rightarrow> int)" by (rule injI) (simp add: word_uint_eq_iff)
  then show ?thesis by (rule inj_map_eq_map)
qed

lemma stringcmp_objs:
  assumes "operand o1" "operand o2"
  defines "n \<equiv> nat (min \<bar>so_len o1\<bar> \<bar>so_len o2\<bar>)"
  shows "\<exists>c. (if so_len o1 \<ge> 0 \<and> so_len o2 \<ge> 0 then
          bnd (check (rdblock OutOfBounds (ascii_view (so_data o1)) 0 n)) (\<lambda>a.
          bnd (check (rdblock OutOfBounds (ascii_view (so_data o2)) 0 n)) (\<lambda>b.
          let c = memcmp a b in ret (if c = 0 then \<bar>so_len o1\<bar> - \<bar>so_len o2\<bar> else c)))
        else
          bnd (check (first_ints n o1)) (\<lambda>a. bnd (check (first_ints n o2)) (\<lambda>b.
          ret (cmp_loop a b (\<bar>so_len o1\<bar> - \<bar>so_len o2\<bar>))))) s = Inr (Some c, s) \<and>
     (c < 0 \<longleftrightarrow> ord_class.lexordp (ints_of o1) (ints_of o2)) \<and> (c = 0 \<longleftrightarrow> text_of o1 = text_of o2)"
proof -
  note len = operand_len [OF assms(1)] operand_len [OF assms(2)]
  have n: "n = min (length (text_of o1)) (length (text_of o2))" unfolding n_def len [symmetric] by simp
  show ?thesis
  proof (cases "so_len o1 \<ge> 0 \<and> so_len o2 \<ge> 0")
    case True
    obtain b1 where b1: "ascii_view (so_data o1) = b1" "nat (so_len o1) \<le> length b1"
      "text_of o1 = map ucast (take (nat (so_len o1)) b1)" "map sint (text_of o1) = map uint (take (nat (so_len o1)) b1)"
      using ascii_operand [OF assms(1)] True by blast
    obtain b2 where b2: "ascii_view (so_data o2) = b2" "nat (so_len o2) \<le> length b2"
      "text_of o2 = map ucast (take (nat (so_len o2)) b2)" "map sint (text_of o2) = map uint (take (nat (so_len o2)) b2)"
      using ascii_operand [OF assms(2)] True by blast
    let ?a = "take (nat (so_len o1)) b1" and ?b = "take (nat (so_len o2)) b2"
    have l: "length ?a = length (text_of o1)" "length ?b = length (text_of o2)" unfolding b1(3) b2(3) by simp_all
    have nn: "n \<le> nat (so_len o1)" "n \<le> nat (so_len o2)" unfolding n_def using True by simp_all
    then have tk: "take n b1 = take n ?a" "take n b2 = take n ?b" "n \<le> length b1" "n \<le> length b2"
      using b1(2) b2(2) by (simp_all add: min_absorb1)
    have "memcmp (take n b1) (take n b2) = memcmp ?a ?b"
      unfolding tk(1,2) by (rule memcmp_take) (simp only: n l)
    moreover have "text_of o1 = text_of o2 \<longleftrightarrow> ?a = ?b"
      using b1(4) b2(4) inj_sint_list [of "text_of o1" "text_of o2"] inj_uint_list [of ?a ?b] by simp
    moreover note memcmp_lex [of ?a ?b, unfolded l len Let_def]
    ultimately show ?thesis using tk(3,4) b1(1) b2(1) unfolding if_P [OF True] ints_of_def b1(4) b2(4)
      by (cases "memcmp ?a ?b = 0") (simp_all add: bnd_def check_def rdblock_def ret_def Let_def)
  next
    case False
    have "n \<le> length (text_of o1)" "n \<le> length (text_of o2)" unfolding n by simp_all
    note f = first_ints_ok [OF assms(1) this(1)] first_ints_ok [OF assms(2) this(2)]
    have il: "length (ints_of o1) = length (text_of o1)" "length (ints_of o2) = length (text_of o2)"
      by (simp_all add: ints_of_def)
    have "cmp_loop (take n (ints_of o1)) (take n (ints_of o2)) d = cmp_loop (ints_of o1) (ints_of o2) d" for d
      by (rule cmp_loop_take) (simp only: n il)
    then show ?thesis using cmp_loop_lex [of "ints_of o1" "ints_of o2"] inj_sint_list
      unfolding if_not_P [OF False] f len [symmetric] il
      by (simp add: bnd_def check_def ret_def Let_def ints_of_def)
  qed
qed


lemma stringcmp_ok:
  assumes "q1 = None \<and> o1 = nil_str \<or> (\<exists>p. q1 = Some p \<and> vm_obj s p = Some o1 \<and> wf_obj o1)"
    "q2 = None \<and> o2 = nil_str \<or> (\<exists>p. q2 = Some p \<and> vm_obj s p = Some o2 \<and> wf_obj o2)"
  shows "\<exists>c. stringcmp q1 q2 s = Inr (Some c, s) \<and>
     (c < 0 \<longleftrightarrow> ord_class.lexordp (ints_of o1) (ints_of o2)) \<and> (c = 0 \<longleftrightarrow> text_of o1 = text_of o2)"
proof (cases "q1 = q2")
  case True
  have "o1 = o2" using assms True by auto
  then show ?thesis using True by (auto simp: stringcmp_def ret_def lexordp_irreflexive')
next
  case False
  have op: "operand o1" "operand o2" using assms by (auto simp: operand_def)
  have d: "deref_nil q1 s = Inr (Some o1, s)" "deref_nil q2 s = Inr (Some o2, s)"
    using assms by (auto simp: deref_nil_def ret_def deref_def)
  show ?thesis using stringcmp_objs [OF op, of s] False
    by (simp add: stringcmp_def bnd_def [of "deref_nil _"] d Let_def)
qed

section \<open>Conversion from and to UTF-8\<close>

lemma runetochar_ascii: "c \<le> 0x7F \<Longrightarrow> runetochar c = [ucast c]"
  by (simp add: runetochar_cases)

lemma rune_chars_eq:
  assumes "c < 0x80000000"
  shows "rune_chars c = runetochar c"
proof -
  have u: "uint c < 2147483648" "0 \<le> uint c" using assms by (simp_all add: word_less_def)
  have "sint c = uint c"
    using signed_take_bit_int_eq_self [OF order_trans [OF _ u(2)] order_less_le_trans [OF u(1)], of 31]
    by (simp add: sint_uint)
  then have "sint c < 128 \<longleftrightarrow> c \<le> 0x7F" by (simp add: word_le_def) linarith
  moreover have "sint (0x80 :: rune) = 128" by simp
  ultimately show ?thesis by (simp add: rune_chars_def runetochar_ascii)
qed

definition encode :: "rune list \<Rightarrow> byte list" where
  "encode rs = concat (map runetochar rs)"

lemma decode_encode:
  "decode_runes (length rs) (encode rs @ rest) = Inr (map sanitize rs)"
  by (induction rs) (simp_all add: encode_def chartorune_runetochar)

lemma lead_byte:
  assumes nle: "\<not> c \<le> 0x7F"
  shows "\<exists>b bs. runetochar c = b # bs \<and> (0xC0::u32) \<le> ucast b \<and>
    (if ucast b < (0xE0::u32) then length bs = 1 else if ucast b < (0xF0::u32) then length bs = 2 else length bs = 3)"
proof -
  have assms: "0x7F < c" using nle by (simp add: not_le)
  consider "c \<le> 0x7FF" | "0x7FF < c" "sanitize c \<le> 0xFFFF" | "0x7FF < c" "0xFFFF < sanitize c"
    by (meson not_le)
  then show ?thesis
  proof cases
    case 1
    have "0xC0 \<le> 0xC0 OR drop_bit 6 c" by (rule le_word_or2)
    then show ?thesis using lead2 [OF 1] assms 1
      by (simp add: runetochar_enc2 enc2_def word_order)
  next
    case 2
    have "0xE0 \<le> 0xE0 OR drop_bit 12 (sanitize c)" by (rule le_word_or2)
    then show ?thesis using lead3 [OF 2(2)] 2
      by (simp add: runetochar_cases enc3_def word_order)
  next
    case 3
    have "0xF0 \<le> 0xF0 OR drop_bit 18 (sanitize c)" by (rule le_word_or2)
    then show ?thesis using lead4 [OF sanitize_le [of c]] 3
      by (simp add: runetochar_cases enc4_def word_order)
  qed
qed

lemma ascii_rune_byte: "c \<le> 0x7F \<Longrightarrow> (ucast (ucast c :: byte) :: rune) = c" for c :: rune
proof -
  assume "c \<le> 0x7F"
  then have "unat c < 2 ^ 7" by (simp add: word_le_nat_alt)
  note b = word_bit_bound [OF this]
  show ?thesis by (rule u32_eqI) (simp add: bit_simps b)
qed

lemma count_encode: "count_runes (encode rs) = Inr (length rs)"
proof (induction rs)
  case Nil
  show ?case by (simp add: encode_def)
next
  case (Cons c rs)
  show ?case
  proof (cases "c \<le> 0x7F")
    case True
    have "ucast (ucast c :: byte) < (0x80::u32)" using True by (simp add: ascii_rune_byte word_order)
    then show ?thesis using Cons True by (simp add: encode_def runetochar_ascii)
  next
    case False
    then obtain b bs where b: "runetochar c = b # bs" "(0xC0::u32) \<le> ucast b"
       "if ucast b < (0xE0::u32) then length bs = 1 else if ucast b < (0xF0::u32) then length bs = 2 else length bs = 3"
      using lead_byte [of c] by auto
    let ?p = "b # bs @ encode rs"
    have "fullrune ?p (int (length ?p)) = Inr True" using b(2,3)
      by (auto simp: fullrune_def fullrune_loop_3 word_order split: if_splits)
    moreover have "chartorune ?p = Inr (sanitize c, Suc (length bs))"
      using chartorune_runetochar [of c "encode rs"] b(1) by simp
    moreover have "\<not> ucast b < (0x80::u32)" using b(2) by (simp add: word_order)
    ultimately show ?thesis using Cons b(1) by (simp add: encode_def Let_def)
  qed
qed

lemma ascii_prefix_encode:
  "ascii_prefix (encode rs) = length (takeWhile (\<lambda>c. c \<le> 0x7F) rs)"
  "drop (ascii_prefix (encode rs)) (encode rs) = encode (dropWhile (\<lambda>c. c \<le> 0x7F) rs)"
proof (induction rs)
  case (Cons c rs)
  case 1
  show ?case
  proof (cases "c \<le> 0x7F")
    case True
    then show ?thesis using Cons by (simp add: encode_def runetochar_ascii ascii_rune_byte not_le)
      (use True in \<open>simp add: word_order\<close>)
  next
    case False
    then obtain b bs where b: "runetochar c = b # bs" "(0xC0::u32) \<le> ucast b"
      using lead_byte [of c] by auto
    then have "\<not> ucast b < (0x80::u32)" by (simp add: word_order)
    then show ?thesis using b False by (simp add: encode_def not_less)
  qed
  case 2
  show ?case
  proof (cases "c \<le> 0x7F")
    case True
    then show ?thesis using Cons by (simp add: encode_def runetochar_ascii ascii_rune_byte not_le)
      (use True in \<open>simp add: word_order\<close>)
  next
    case False
    then obtain b bs where b: "runetochar c = b # bs" "(0xC0::u32) \<le> ucast b"
      using lead_byte [of c] by auto
    then have "\<not> ucast b < (0x80::u32)" by (simp add: word_order)
    then show ?thesis using b False by (simp add: encode_def not_less)
  qed
qed (simp_all add: encode_def)

lemma encode_ascii: "\<forall>c \<in> set rs. c \<le> 0x7F \<Longrightarrow> encode rs = map ucast rs"
  by (induction rs) (simp_all add: encode_def runetochar_ascii)

lemma c2string_wp:
  assumes "alloc_ok al" "\<And>t. out_of_heap s t \<Longrightarrow> E t"
    "\<And>p t. yields s (map sanitize rs) p t \<Longrightarrow> p = vm_next s \<Longrightarrow> Q p t"
    and fit: "int (length rs) + 24 < 2147483648" "\<not> (\<forall>c \<in> set rs. c \<le> 0x7F) \<Longrightarrow> 4 * int (length rs) + 24 < 2147483648"
  shows "wp (c2string al (encode rs)) Q E s"
proof (cases "\<forall>c \<in> set rs. c \<le> 0x7F")
  case True
  note e = encode_ascii [OF True]
  have tw: "takeWhile (\<lambda>c. c \<le> 0x7F) rs = rs" using True by simp
  have id: "map (\<lambda>c. ucast (ucast c :: byte)) rs = rs" "map sanitize rs = rs"
    using True by (auto intro!: map_idI ascii_rune_byte sanitize_small simp: word_order)
  have small: "(ucast c :: byte) < 0x80" if "c \<in> set rs" for c
  proof -
    have "c \<le> 0x7F" using True that by blast
    then have "unat (ucast (ucast c :: byte) :: rune) \<le> 127" by (simp add: ascii_rune_byte word_order)
    then show ?thesis by (simp add: unat_ucast_le word_order)
  qed
  have ci: "cint (int (length (encode rs))) = int (length (encode rs))" using fit(1) by (simp add: e)
  have "wp (newstring al (int (length (encode rs)))) (\<lambda>p. wp (bnd (wr_ascii p 0 (encode rs)) (\<lambda>_. ret p)) Q E) E s"
  proof (rule newstring_wp [OF assms(1,2)], assumption)
    fix bs :: "byte list"
    assume bs: "int (length (encode rs)) + 8 \<le> int (length bs)" "int (length bs) + 16 < 2147483648"
    let ?t = "s\<lparr>vm_next := vm_next s + 1, vm_obj := (vm_obj s)(vm_next s \<mapsto> \<lparr>so_ref = 1, so_len = int (length rs),
       so_max = int (length bs) - 8, so_tmp = None, so_data = Sascii (over 0 (map ucast rs) bs)\<rparr>)\<rparr>"
    have "yields s (map sanitize rs) (vm_next s) ?t"
      using bs small id by (simp add: yields_def wf_obj_def text_of_def e comp_def)
    then have "Q (vm_next s) ?t" by (rule assms(3)) simp
    then show "wp (bnd (wr_ascii (vm_next s) 0 (encode rs)) (\<lambda>_. ret (vm_next s))) Q E
      (s\<lparr>vm_obj := (vm_obj s)(vm_next s \<mapsto> \<lparr>so_ref = 1, so_len = int (length (encode rs)),
         so_max = int (length bs) - 8, so_tmp = None, so_data = Sascii bs\<rparr>), vm_next := vm_next s + 1\<rparr>)"
      using bs by (simp add: wp_bnd heap_wp wp_ret e)
  qed (use fit(1) in \<open>simp_all add: e\<close>)
  then show ?thesis unfolding c2string_def Let_def ascii_prefix_encode tw ci by (simp add: e wp_bnd)
next
  case False
  let ?k = "length (takeWhile (\<lambda>c. c \<le> 0x7F) rs)"
  have "dropWhile (\<lambda>c. c \<le> 0x7F) rs \<noteq> []" using False by (simp add: dropWhile_eq_Nil_conv)
  then obtain c cs where d: "dropWhile (\<lambda>c. c \<le> 0x7F) rs = c # cs" by (cases "dropWhile (\<lambda>c. c \<le> 0x7F) rs") auto
  then have "\<not> c \<le> 0x7F" using hd_dropWhile [of "\<lambda>c. c \<le> 0x7F" rs] by simp
  then have ne: "encode (dropWhile (\<lambda>c. c \<le> 0x7F) rs) \<noteq> []" using lead_byte [of c] by (auto simp: d encode_def)
  have k: "?k \<noteq> length (encode rs)"
  proof
    assume "?k = length (encode rs)"
    then show False using ne ascii_prefix_encode [of rs] by simp
  qed
  have l: "?k + length (dropWhile (\<lambda>c. c \<le> 0x7F) rs) = length rs"
    by (metis length_append takeWhile_dropWhile_id)
  have pos: "0 < length rs" using d by (cases rs) simp_all
  have dec: "decode_runes (length rs) (encode rs) = Inr (map sanitize rs)"
    using decode_encode [of rs "[]"] by simp
  have "wp (newrunes al (int (length rs))) (\<lambda>p. wp (bnd (check (decode_runes (length rs) (encode rs))) (\<lambda>rs.
       if rs = [] then ret p else bnd (wr_runes p 0 rs) (\<lambda>_. ret p))) Q E) E s"
  proof (rule newrunes_wp [OF assms(1,2)], assumption)
    show "0 < int (length rs)" "4 * int (length rs) + 24 < 2147483648" using pos fit(2) False by simp_all
    fix vs :: "rune list"
    assume vs: "int (length rs) + 2 \<le> int (length vs)" "4 * int (length vs) + 16 < 2147483648"
    let ?t = "s\<lparr>vm_next := vm_next s + 1, vm_obj := (vm_obj s)(vm_next s \<mapsto> \<lparr>so_ref = 1, so_len = - int (length rs),
       so_max = int (length vs) - 2, so_tmp = None, so_data = Srune (over 0 (map sanitize rs) vs)\<rparr>)\<rparr>"
    have "yields s (map sanitize rs) (vm_next s) ?t"
      using vs pos by (simp add: yields_def wf_obj_def text_of_def)
    then have "Q (vm_next s) ?t" by (rule assms(3)) simp
    then show "wp (bnd (check (decode_runes (length rs) (encode rs))) (\<lambda>rs.
       if rs = [] then ret (vm_next s) else bnd (wr_runes (vm_next s) 0 rs) (\<lambda>_. ret (vm_next s)))) Q E
      (s\<lparr>vm_obj := (vm_obj s)(vm_next s \<mapsto> \<lparr>so_ref = 1, so_len = - int (length rs),
         so_max = int (length vs) - 2, so_tmp = None, so_data = Srune vs\<rparr>), vm_next := vm_next s + 1\<rparr>)"
      using vs pos dec by (simp add: wp_bnd heap_wp wp_ret)
  qed
  moreover have "count_runes (drop ?k (encode rs)) = Inr (length (dropWhile (\<lambda>c. c \<le> 0x7F) rs))"
    using ascii_prefix_encode [of rs] by (simp add: count_encode)
  then have "wp (check (count_runes (drop ?k (encode rs)))) R E s \<longleftrightarrow> R (length (dropWhile (\<lambda>c. c \<le> 0x7F) rs)) s" for R
    by (simp add: wp_check)
  moreover have "cint (int (length rs)) = int (length rs)" using fit(1) by simp
  ultimately show ?thesis
    unfolding c2string_def Let_def ascii_prefix_encode(1) if_not_P [OF k] wp_bnd [of "check (count_runes _)"] l
    by (simp only: wp_bnd l)
qed

text \<open>The bytes of a string, for runes that an \<open>int\<close> holds.\<close>

lemma string2c_wp:
  assumes "vm_obj s p = Some ob" "wf_obj ob" "\<forall>c \<in> set (text_of ob). c < 0x80000000"
    "\<And>n bs. mal n = Some bs \<Longrightarrow> n \<le> length bs" "\<And>t. vm_err t = exNomem \<Longrightarrow> E t"
    "\<And>t nob. vm_obj t = (vm_obj s)(p \<mapsto> nob) \<Longrightarrow> vm_next t = vm_next s \<Longrightarrow> vm_gchalt t = vm_gchalt s \<Longrightarrow> wf_obj nob \<Longrightarrow>
      text_of nob = text_of ob \<Longrightarrow> Q (encode (text_of ob)) t"
  shows "wp (string2c mal (Some p)) Q E s"
proof (cases "so_len ob < 0")
  case False
  then have nn: "0 \<le> so_len ob" by simp
  obtain bs where bs: "so_data ob = Sascii bs" "so_len ob \<le> so_max ob" "so_max ob + 8 \<le> int (length bs)"
      "\<forall>b \<in> set (take (nat (so_len ob)) bs). b < 0x80"
    using wf_lens(1) [OF assms(2) nn] by blast
  have l: "nat (so_len ob) < length bs" using bs nn by linarith
  have tx: "text_of ob = map ucast (take (nat (so_len ob)) bs)" using False by (simp add: text_of_def bs(1))
  have "c \<le> 0x7F" if c: "c \<in> set (text_of ob)" for c
  proof -
    obtain b :: byte where "b < 0x80" "c = ucast b" using bs(4) c by (auto simp: tx)
    then show ?thesis by (simp add: word_order unat_ucast_le)
  qed
  then have enc: "encode (text_of ob) = take (nat (so_len ob)) bs"
    by (subst encode_ascii) (simp_all add: tx comp_def)
  let ?ob = "ob\<lparr>so_data := Sascii (bs[nat (so_len ob) := 0])\<rparr>"
  have "wf_obj ?ob" "text_of ?ob = text_of ob"
    using assms(2) bs l nn by (simp_all add: wf_obj_def text_of_def)
  then have "Q (encode (text_of ob)) (s\<lparr>vm_obj := (vm_obj s)(p \<mapsto> ?ob)\<rparr>)"
    by (intro assms(6) [where nob = ?ob]) simp_all
  then show ?thesis using nn bs(1) l assms(1) by (simp add: string2c_def wp_bnd heap_wp enc)
next
  case True
  obtain rs where rs: "so_data ob = Srune rs" "- so_len ob \<le> so_max ob" "so_max ob + 2 \<le> int (length rs)"
    using wf_lens(2) [OF assms(2) True] by blast
  let ?n = "nat (- so_len ob)" and ?l = "nat (- so_len ob) * UTFmax + UTFmax"
  have tx: "text_of ob = take ?n rs" using True by (simp add: text_of_def rs(1))
  have len: "?n \<le> length rs" using rs by linarith
  have chars: "concat (map rune_chars (take ?n rs)) = encode (text_of ob)"
    using assms(3) by (simp add: encode_def tx rune_chars_eq cong: map_cong)
  have bytes: "length (encode cs) \<le> 4 * length cs" for cs
  proof (induction cs)
    case (Cons c cs)
    have "length (runetochar c) \<le> 4" by (simp add: runetochar_cases)
    then show ?case using Cons by (simp add: encode_def)
  qed (simp add: encode_def)
  have fit: "Suc (length (encode (text_of ob))) \<le> ?l" using bytes [of "text_of ob"] len by (simp add: tx)
  have fin: "wp (bnd (check (wrblock OutOfBounds t 0 (encode (text_of ob) @ [0]))) (\<lambda>t.
           bnd (modify p (\<lambda>ob. ob\<lparr>so_tmp := Some t\<rparr>)) (\<lambda>_. ret (encode (text_of ob))))) Q E u"
    if th: "?l \<le> length t" "vm_obj u = (vm_obj s)(p \<mapsto> ob\<lparr>so_tmp := x\<rparr>)" "vm_next u = vm_next s" "vm_gchalt u = vm_gchalt s" for t u x
  proof -
    let ?t = "wrblock OutOfBounds t 0 (encode (text_of ob) @ [0])"
    obtain t' where t': "?t = Inr t'" using fit th(1) by (simp add: wrblock_def)
    have "wf_obj (ob\<lparr>so_tmp := Some t'\<rparr>)" "text_of (ob\<lparr>so_tmp := Some t'\<rparr>) = text_of ob"
      using assms(2) by (simp_all add: wf_obj_def text_of_def rs(1))
    then have "Q (encode (text_of ob)) (u\<lparr>vm_obj := (vm_obj s)(p \<mapsto> ob\<lparr>so_tmp := Some t'\<rparr>)\<rparr>)"
      by (intro assms(6) [where nob = "ob\<lparr>so_tmp := Some t'\<rparr>"]) (simp_all add: th(3,4))
    then show ?thesis using th(2) by (simp add: wp_bnd heap_wp wp_ret t')
  qed
  let ?rest = "\<lambda>t. bnd (rd_runes p 0 ?n) (\<lambda>rs. let bs = concat (map rune_chars rs) in
           bnd (check (wrblock OutOfBounds t 0 (bs @ [0]))) (\<lambda>t.
           bnd (modify p (\<lambda>ob. ob\<lparr>so_tmp := Some t\<rparr>)) (\<lambda>_. ret bs)))"
  have rest: "wp (?rest t) Q E u" if "?l \<le> length t" "vm_obj u = (vm_obj s)(p \<mapsto> ob\<lparr>so_tmp := x\<rparr>)" "vm_next u = vm_next s" "vm_gchalt u = vm_gchalt s" for t u x
    using fin [OF that] that(2) len by (simp add: wp_bnd heap_wp rs(1) Let_def chars)
  have new: "wp (bnd (modify p (\<lambda>ob. ob\<lparr>so_tmp := mal ?l\<rparr>)) (\<lambda>_.
       case mal ?l of None \<Rightarrow> error exNomem | Some t \<Rightarrow> ret t)) (\<lambda>t. wp (?rest t) Q E) E s"
  proof (cases "mal ?l")
    case None
    then show ?thesis using assms(1,5) by (simp add: wp_bnd heap_wp)
  next
    case (Some t)
    then show ?thesis using assms(1,4) rest [of t _ "Some t"] by (simp add: wp_bnd heap_wp wp_ret)
  qed
  have same: "ob\<lparr>so_tmp := so_tmp ob\<rparr> = ob" by simp
  show ?thesis
  proof (cases "\<exists>t. so_tmp ob = Some t \<and> ?l \<le> length t")
    case ex: True
    then obtain t where t: "so_tmp ob = Some t" "?l \<le> length t" by blast
    have "wp (?rest t) Q E s" using assms(1) same by (intro rest [OF t(2), of s "so_tmp ob"]) (simp_all add: fun_upd_idem)
    then show ?thesis using t True
      by (simp add: string2c_def wp_bnd wp_deref [OF assms(1)] Let_def wp_ret not_less)
  next
    case False
    have "(case so_tmp ob of Some t \<Rightarrow> if length t < ?l then ret None else ret (Some t) | None \<Rightarrow> ret None) =
        (ret None :: byte list option sop)"
      using False by (auto split: option.splits)
    then show ?thesis using True new
      by (simp add: string2c_def wp_bnd wp_deref [OF assms(1)] Let_def wp_ret del: utf_consts)
  qed
qed

section \<open>The strings of a store\<close>

text \<open>In the state \<open>s\<close>, the reference \<open>q\<close> is a well-formed string with the text \<open>rs\<close>.\<close>

definition str_at :: "vm \<Rightarrow> sptr \<Rightarrow> rune list \<Rightarrow> bool" where
  "str_at s q rs \<longleftrightarrow> (case q of None \<Rightarrow> rs = []
     | Some p \<Rightarrow> (\<exists>ob. vm_obj s p = Some ob \<and> wf_obj ob \<and> text_of ob = rs))"

definition refs :: "vm \<Rightarrow> sptr \<Rightarrow> nat" where
  "refs s q = (case q of None \<Rightarrow> 0 | Some p \<Rightarrow> (case vm_obj s p of None \<Rightarrow> 0 | Some ob \<Rightarrow> so_ref ob))"

lemma str_at_cases:
  assumes "str_at s q rs"
  obtains "q = None" "rs = []" | p ob where "q = Some p" "vm_obj s p = Some ob" "wf_obj ob" "text_of ob = rs"
  using assms by (cases q) (auto simp: str_at_def)

lemma yields_str_at: "yields s rs n t \<Longrightarrow> str_at t (Some n) rs"
  by (auto simp: yields_def str_at_def)

lemma yields_wf_vm: "yields s rs n t \<Longrightarrow> wf_vm s \<Longrightarrow> wf_vm t"
  by (clarsimp simp: yields_def wf_vm_def) (metis option.inject order_less_le_trans)

text \<open>What an operation that returns a string leaves: the result, and all else as before.\<close>

definition makes :: "vm \<Rightarrow> rune list \<Rightarrow> nat set \<Rightarrow> sptr \<Rightarrow> vm \<Rightarrow> bool" where
  "makes s rs old q t \<longleftrightarrow> str_at t q rs \<and> wf_vm t \<and> vm_cell t = vm_cell s \<and>
     (\<forall>x < vm_next s. x \<notin> old \<longrightarrow> vm_obj t x = vm_obj s x)"

lemma yields_makes:
  "yields s rs n t \<Longrightarrow> wf_vm s \<Longrightarrow> n = vm_next s \<or> n \<in> old \<Longrightarrow> makes s rs old (Some n) t"
  by (auto simp: makes_def yields_str_at yields_wf_vm) (auto simp: yields_def)

lemma makes_self: "wf_vm s \<Longrightarrow> str_at s q rs \<Longrightarrow> makes s rs old q s"
  by (simp add: makes_def)

section \<open>Properties\<close>

text \<open>
  C9. \<open>addstring\<close> yields the concatenation of the texts of its operands, nil, ASCII or
  runes, and touches no other string: only an unshared left operand of an in-place append may
  be reused.  Its only failure is \<open>exHeap\<close>, with the store as it was.  Two conditions: the runes
  of both, grown by a quarter, fit a 32-bit size (\<open>fits\<close>, up to 429,496,724 runes; beyond, the
  sizes of the code wrap), and the operands of an in-place append are not one object that could
  be grown in place (then the code overruns).
\<close>

theorem addstring_spec:
  assumes "alloc_ok al" "wf_vm s" "str_at s q1 rs1" "str_at s q2 rs2"
    and fit: "fits (int (length rs1) + int (length rs2))"
    and self: "\<And>p ob. q1 = Some p \<Longrightarrow> q2 = Some p \<Longrightarrow> app \<Longrightarrow> vm_obj s p = Some ob \<Longrightarrow> so_ref ob = 1 \<Longrightarrow>
      2 * \<bar>so_len ob\<bar> > so_max ob"
  shows "wp (addstring al q1 q2 app)
    (\<lambda>q t. makes s (rs1 @ rs2) {x. app \<and> q1 = Some x \<and> refs s q1 = 1} q t)
    (out_of_heap s) s"
proof (rule str_at_cases [OF assms(3)]; rule str_at_cases [OF assms(4)])
  assume "q1 = None" "rs1 = []" "q2 = None" "rs2 = []"
  then show ?thesis using makes_self [OF assms(2,4)] by (simp add: addstring_def wp_ret)
next
  fix p ob assume q: "q1 = None" "rs1 = []" "q2 = Some p" "vm_obj s p = Some ob" "wf_obj ob" "text_of ob = rs2"
  have "wp (stringdup al (Some p)) (\<lambda>q t. makes s (rs1 @ rs2) {x. app \<and> q1 = Some x \<and> refs s q1 = 1} q t)
    (out_of_heap s) s"
    by (rule stringdup_wp [OF assms(1) _ assms(2) q(4)]) (use q assms(2) in \<open>auto intro: yields_makes\<close>)
  then show ?thesis using q by (simp add: addstring_def)
next
  fix p ob assume q: "q1 = Some p" "vm_obj s p = Some ob" "wf_obj ob" "text_of ob = rs1" "q2 = None" "rs2 = []"
  have "wp (stringdup al (Some p)) (\<lambda>q t. makes s (rs1 @ rs2) {x. app \<and> q1 = Some x \<and> refs s q1 = 1} q t)
    (out_of_heap s) s"
    by (rule stringdup_wp [OF assms(1) _ assms(2) q(2)]) (use q assms(2) in \<open>auto intro: yields_makes\<close>)
  then show ?thesis using q makes_self [OF assms(2,3)]
    by (simp add: addstring_def wp_bnd wp_deref [OF q(2)] wp_ret)
next
  fix p1 o1 p2 o2
  assume q: "q1 = Some p1" "vm_obj s p1 = Some o1" "wf_obj o1" "text_of o1 = rs1"
    "q2 = Some p2" "vm_obj s p2 = Some o2" "wf_obj o2" "text_of o2 = rs2"
  have "fits (\<bar>so_len o1\<bar> + \<bar>so_len o2\<bar>)"
    using fit length_text [OF q(3)] length_text [OF q(7)] q(4,8) by simp
  then show ?thesis unfolding q(1,5)
    by (intro addstring_wp [OF assms(1) _ assms(2) q(2) q(6)])
      (use q assms(2) self in \<open>auto intro!: yields_makes simp: refs_def\<close>)
qed

text \<open>
  C33. \<open>slicer\<close> yields the slice of the text between the two indices, in a string of its own,
  when they are in order and within the text, and fails with \<open>exBounds\<close> exactly otherwise.
\<close>

theorem slicer_spec:
  assumes "alloc_ok al" "wf_vm s" "str_at s q rs" "0 \<le> i"
  shows "wp (slicer al i j q)
    (\<lambda>q' t. i \<le> j \<and> j \<le> int (length rs) \<and> makes s (take (nat (j - i)) (drop (nat i) rs)) {} q' t)
    (\<lambda>t. out_of_heap s t \<or> \<not> (i \<le> j \<and> j \<le> int (length rs)) \<and> t = s\<lparr>vm_err := exBounds\<rparr>) s"
proof (rule str_at_cases [OF assms(3)])
  assume "q = None" "rs = []"
  then show ?thesis using makes_self [OF assms(2), of None "[]"] assms(4)
    by (auto simp: slicer_def wp_ret wp_error str_at_def)
next
  fix p ob assume q: "q = Some p" "vm_obj s p = Some ob" "wf_obj ob" "text_of ob = rs"
  have nil: "makes s [] {} None s" by (rule makes_self [OF assms(2)]) (simp add: str_at_def)
  show ?thesis unfolding q(1)
    by (rule slicer_wp [OF assms(1) _ assms(2) q(2) assms(4)])
      (use q assms(2) nil in \<open>auto intro!: yields_makes\<close>)
qed


text \<open>Assignment: the cell gets a string of its own; whoever else refers to the old one keeps it.\<close>

definition cell_set :: "vm \<Rightarrow> nat \<Rightarrow> rune list \<Rightarrow> vm \<Rightarrow> bool" where
  "cell_set s d rs t \<longleftrightarrow> str_at t (vm_cell t d) rs \<and> refs t (vm_cell t d) = 1 \<and>
     (\<forall>c. c \<noteq> d \<longrightarrow> vm_cell t c = vm_cell s c) \<and>
     (\<forall>q rs'. str_at s q rs' \<and> (q \<noteq> vm_cell s d \<or> refs s q > 1) \<longrightarrow> str_at t q rs')"

lemma assigned_cell_set:
  assumes "assigned d rs old s t" "wf_vm s" "old = (case vm_cell s d of None \<Rightarrow> {} | Some p \<Rightarrow> {p})"
    "\<And>p ob. vm_cell s d = Some p \<Longrightarrow> vm_obj s p = Some ob \<Longrightarrow> so_ref ob > 1 \<Longrightarrow>
      vm_obj t p = Some (ob\<lparr>so_ref := so_ref ob - 1\<rparr>)"
  shows "cell_set s d rs t"
proof -
  have "str_at t q rs'" if q: "str_at s q rs'" "q \<noteq> vm_cell s d \<or> refs s q > 1" for q rs'
  proof (rule str_at_cases [OF q(1)])
    fix p ob assume p: "q = Some p" "vm_obj s p = Some ob" "wf_obj ob" "text_of ob = rs'"
    have lt: "p < vm_next s" using p(2) assms(2) by (auto simp: wf_vm_def)
    show ?thesis
    proof (cases "vm_cell s d = Some p")
      case True
      then have "so_ref ob > 1" using q(2) p by (simp add: refs_def)
      then have "vm_obj t p = Some (ob\<lparr>so_ref := so_ref ob - 1\<rparr>)" using assms(4) True p by simp
      moreover have "wf_obj (ob\<lparr>so_ref := so_ref ob - 1\<rparr>)" "text_of (ob\<lparr>so_ref := so_ref ob - 1\<rparr>) = rs'"
        using p \<open>so_ref ob > 1\<close> by (auto simp: wf_obj_def text_of_def split: sdata.splits)
      ultimately show ?thesis by (simp add: str_at_def p(1))
    next
      case False
      then have "p \<notin> old" using assms(3) by (auto split: option.splits)
      then have "vm_obj t p = vm_obj s p" using assms(1) lt by (auto simp: assigned_def)
      then show ?thesis using p by (simp add: str_at_def)
    qed
  qed (simp add: str_at_def)
  then show ?thesis using assms(1) by (auto simp: cell_set_def assigned_def str_at_def refs_def)
qed

text \<open>
  C27. \<open>insc\<close> assigns or appends one character: the destination cell ends with an unshared
  string whose text is updated, every other cell is as before, and every other reference, also
  one that shared the old string, still sees the text it saw (copy on write).  It fails with
  \<open>exHeap\<close>, or with \<open>exBounds\<close> exactly when the index is beyond the end, and then the cell still
  holds its old text.  Excluded are a text whose growth does not fit a 32-bit size (\<open>fits\<close>, up to
  429,496,723 runes) and a rune beyond ASCII into an empty string that is not nil.
\<close>

theorem insc_spec:
  assumes "alloc_ok al" "wf_vm s" "str_at s (vm_cell s d) rs" "0 \<le> r" "r < 2 ^ 31"
    and fit: "fits (int (length rs) + 1)"
    and ne: "r < 0x80 \<or> vm_cell s d = None \<or> rs \<noteq> []"
  shows "wp (insc al r w d)
    (\<lambda>_ t. ulong_of w \<le> int (length rs) \<and> cell_set s d (upd_text rs (ulong_of w) (word_of_int r)) t)
    (\<lambda>t. (vm_err t = exHeap \<or> vm_err t = exBounds \<and> ulong_of w > int (length rs)) \<and> str_at t (vm_cell t d) rs) s"
proof (rule str_at_cases [OF assms(3)])
  assume q: "vm_cell s d = None" "rs = []"
  have v: "0 \<le> ulong_of w" by (simp add: ulong_of_def)
  show ?thesis
  proof (rule insc_nil_wp [OF assms(1,2) q(1) assms(4,5)])
    fix t assume t: "ulong_of w = 0" "assigned d [word_of_int r] {} s t"
    have "cell_set s d [word_of_int r] t" by (rule assigned_cell_set [OF t(2) assms(2)]) (simp_all add: q)
    then show "ulong_of w \<le> int (length rs) \<and> cell_set s d (upd_text rs (ulong_of w) (word_of_int r)) t"
      using t q by (simp add: upd_text_def)
  qed (use q in \<open>auto simp: str_at_def\<close>)
next
  fix p ob assume q: "vm_cell s d = Some p" "vm_obj s p = Some ob" "wf_obj ob" "text_of ob = rs"
  have "so_len ob \<noteq> 0" if "r \<ge> 0x80" using ne that q length_text [OF q(3)] by auto
  then show ?thesis
  proof (rule insc_some_wp [OF assms(1,2) q(1,2) assms(4,5) _ fit [folded q(4)]])
    fix t
    assume t: "(vm_err t = exHeap \<or> vm_err t = exBounds \<and> ulong_of w > int (length (text_of ob)))"
      "holds d (text_of ob) t"
    then show "(vm_err t = exHeap \<or> vm_err t = exBounds \<and> ulong_of w > int (length rs)) \<and> str_at t (vm_cell t d) rs"
      using q by (auto simp: holds_def str_at_def)
  next
    fix t
    assume t: "ulong_of w \<le> int (length (text_of ob))"
      "assigned d (upd_text (text_of ob) (ulong_of w) (word_of_int r)) {p} s t"
      "so_ref ob > 1 \<longrightarrow> vm_obj t p = Some (ob\<lparr>so_ref := so_ref ob - 1\<rparr>)"
    have "cell_set s d (upd_text rs (ulong_of w) (word_of_int r)) t"
      by (rule assigned_cell_set [OF t(2) [unfolded q(4)] assms(2)]) (use q t(3) in auto)
    then show "ulong_of w \<le> int (length rs) \<and> cell_set s d (upd_text rs (ulong_of w) (word_of_int r)) t"
      using t q by simp
  qed
qed


text \<open>
  C34. \<open>indc\<close> yields the character at an index within the text and raises \<open>exBounds\<close> for every
  other index, negative ones included, changing nothing.
\<close>

theorem indc_spec:
  assumes "str_at s (vm_cell s c) rs" "vm_cell s c \<noteq> None" "length rs < 2 ^ 31" "- (2 ^ 63) \<le> w" "w < 2 ^ 63"
  shows "indc c w s = (if 0 \<le> w \<and> w < int (length rs) then Inr (Some (sint (rs ! nat w)), s)
    else Inr (None, s\<lparr>vm_err := exBounds\<rparr>))"
proof (rule str_at_cases [OF assms(1)])
  fix p ob assume q: "vm_cell s c = Some p" "vm_obj s p = Some ob" "wf_obj ob" "text_of ob = rs"
  note len = length_text [OF q(3), unfolded q(4)]
  show ?thesis
  proof (cases "0 \<le> w")
    case True
    have "wp (indc c w) (\<lambda>v t. w < int (length rs) \<and> v = sint (rs ! nat w) \<and> t = s)
      (\<lambda>t. w \<ge> int (length rs) \<and> t = s\<lparr>vm_err := exBounds\<rparr>) s"
      by (rule indc_wp [OF q(1-3) True assms(5)]) (use q in simp_all)
    then show ?thesis using True by (auto simp: wp_def split: sum.splits option.splits)
  next
    case False
    then have "ulong_of w = w + 2 ^ 64"
    proof -
      have "(w + 2 ^ 64) mod 2 ^ 64 = w + 2 ^ 64"
        by (rule mod_pos_pos_trivial) (use False assms(4) in simp_all)
      then show ?thesis by (simp add: ulong_of_def)
    qed
    moreover have "int (length rs) < 2147483648" using assms(3) by simp
    ultimately have "ulong_of w \<ge> \<bar>so_len ob\<bar>" using assms(4) len by simp
    then show ?thesis using False q(1,2)
      by (auto simp: indc_def bnd_def get_cell_def deref_def Let_def error_def)
  qed
qed (use assms(2) in simp)

text \<open>
  C32. \<open>stringcmp\<close> changes nothing and its result has the sign of the lexicographic order of
  the two texts, whatever the representations: 0 exactly for equal texts, negative exactly when
  the first is smaller.
\<close>

theorem stringcmp_spec:
  assumes "str_at s q1 rs1" "str_at s q2 rs2"
  shows "\<exists>c. stringcmp q1 q2 s = Inr (Some c, s) \<and>
     (c < 0 \<longleftrightarrow> ord_class.lexordp (map sint rs1) (map sint rs2)) \<and> (c = 0 \<longleftrightarrow> rs1 = rs2)"
proof -
  have nil: "text_of nil_str = []" by (simp add: nil_str_def text_of_def)
  have "\<exists>o1. (q1 = None \<and> o1 = nil_str \<or> (\<exists>p. q1 = Some p \<and> vm_obj s p = Some o1 \<and> wf_obj o1)) \<and> text_of o1 = rs1"
    "\<exists>o2. (q2 = None \<and> o2 = nil_str \<or> (\<exists>p. q2 = Some p \<and> vm_obj s p = Some o2 \<and> wf_obj o2)) \<and> text_of o2 = rs2"
    using assms nil by (auto simp: str_at_def split: option.splits)
  then obtain o1 o2 where
    "q1 = None \<and> o1 = nil_str \<or> (\<exists>p. q1 = Some p \<and> vm_obj s p = Some o1 \<and> wf_obj o1)" "text_of o1 = rs1"
    "q2 = None \<and> o2 = nil_str \<or> (\<exists>p. q2 = Some p \<and> vm_obj s p = Some o2 \<and> wf_obj o2)" "text_of o2 = rs2"
    by auto
  then show ?thesis using stringcmp_ok [of q1 o1 s q2 o2] by (simp add: ints_of_def)
qed

lemma c2string_spec:
  assumes "alloc_ok al" "wf_vm s" "int (length rs) + 24 < 2147483648"
    "\<not> (\<forall>c \<in> set rs. c \<le> 0x7F) \<Longrightarrow> 4 * int (length rs) + 24 < 2147483648"
  shows "wp (c2string al (encode rs)) (\<lambda>p t. makes s (map sanitize rs) {} (Some p) t) (out_of_heap s) s"
  by (rule c2string_wp [OF assms(1) _ _ assms(3)]) (use assms(2,4) in \<open>auto intro: yields_makes\<close>)

text \<open>A string of the store was small enough for the representation its text needs.\<close>

lemma str_at_size:
  assumes "str_at s q rs"
  shows "int (length rs) + 24 < 2147483648 \<and> (\<not> (\<forall>c \<in> set rs. c \<le> 0x7F) \<longrightarrow> 4 * int (length rs) + 24 < 2147483648)"
proof (rule str_at_cases [OF assms])
  fix p ob assume q: "q = Some p" "vm_obj s p = Some ob" "wf_obj ob" "text_of ob = rs"
  note len = length_text [OF q(3), unfolded q(4)]
  show ?thesis
  proof (cases "so_len ob < 0")
    case True
    then show ?thesis using wf_fits(2) [OF q(3)] len by simp
  next
    case False
    then have nn: "0 \<le> so_len ob" by simp
    then obtain bs where bs: "so_data ob = Sascii bs" "\<forall>b \<in> set (take (nat (so_len ob)) bs). b < 0x80"
      using wf_lens(1) [OF q(3)] by blast
    have "c \<le> 0x7F" if "c \<in> set rs" for c
    proof -
      have "rs = map ucast (take (nat (so_len ob)) bs)" using q(4) False by (simp add: text_of_def bs(1))
      then obtain b :: byte where "b < 0x80" "c = ucast b" using bs(2) \<open>c \<in> set rs\<close> by auto
      then show ?thesis by (simp add: word_order unat_ucast_le)
    qed
    then show ?thesis using wf_fits(1) [OF q(3) nn] len nn by simp
  qed
qed simp

text \<open>
  C31. The C string \<open>string2c\<close> makes of a string of valid runes, given to \<open>c2string\<close>, makes a
  string with the same text; nothing can fail but the two allocators.
\<close>

theorem string_roundtrip:
  assumes "alloc_ok al" "wf_vm s" "str_at s q rs" "\<forall>c \<in> set rs. valid_rune c"
    "\<And>n bs. mal n = Some bs \<Longrightarrow> n \<le> length bs"
  shows "wp (bnd (string2c mal q) (c2string al)) (\<lambda>p t. str_at t (Some p) rs)
    (\<lambda>t. vm_err t = exHeap \<or> vm_err t = exNomem) s"
proof -
  have san: "map sanitize rs = rs" using assms(4) by (auto intro: map_idI sanitize_valid)
  have small: "int (length rs) + 24 < 2147483648 \<and> (\<not> (\<forall>c \<in> set rs. c \<le> 0x7F) \<longrightarrow> 4 * int (length rs) + 24 < 2147483648)"
    using assms(3) by (rule str_at_size)
  have conv: "wp (c2string al (encode rs)) (\<lambda>p t. str_at t (Some p) rs)
    (\<lambda>t. vm_err t = exHeap \<or> vm_err t = exNomem) t" if "wf_vm t" for t :: vm
    by (rule wp_mono [OF c2string_spec [OF assms(1) that]]) (use small in \<open>simp_all add: makes_def san out_of_heap_def\<close>)
  show ?thesis
  proof (rule str_at_cases [OF assms(3)])
    assume "q = None" "rs = []"
    then show ?thesis using conv [OF assms(2)] by (simp add: string2c_def wp_bnd wp_ret encode_def)
  next
    fix p ob assume q: "q = Some p" "vm_obj s p = Some ob" "wf_obj ob" "text_of ob = rs"
    have big: "c < 0x80000000" if "valid_rune c" for c using that by (auto simp: valid_rune_def word_order)
    have "wp (string2c mal (Some p)) (\<lambda>bs. wp (c2string al bs) (\<lambda>p t. str_at t (Some p) rs)
      (\<lambda>t. vm_err t = exHeap \<or> vm_err t = exNomem)) (\<lambda>t. vm_err t = exHeap \<or> vm_err t = exNomem) s"
    proof (rule string2c_wp [OF q(2,3)])
      fix t :: vm and nob assume "vm_obj t = (vm_obj s)(p \<mapsto> nob)" "vm_next t = vm_next s" "vm_gchalt t = vm_gchalt s" "wf_obj nob"
      then have "wf_vm t" using assms(2) q(2) by (auto simp: wf_vm_def)
      then show "wp (c2string al (encode (text_of ob))) (\<lambda>p t. str_at t (Some p) rs)
        (\<lambda>t. vm_err t = exHeap \<or> vm_err t = exNomem) t" using conv q(4) by simp
    qed (use assms(4,5) q big in auto)
    then show ?thesis by (simp add: q(1) wp_bnd)
  qed
qed

section \<open>An append that overruns, and the theorems at concrete inputs\<close>

definition al0 :: heap_alloc where
  "al0 p n = (if n < 1000 then Some (replicate (nat n) 0) else None)"

definition s0 :: vm where
  "s0 = \<lparr>vm_obj = [0 \<mapsto> \<lparr>so_ref = 1, so_len = 2, so_max = 3, so_tmp = None,
             so_data = Sascii [0x61, 0x62, 0, 0, 0, 0, 0, 0, 0, 0, 0]\<rparr>,
           1 \<mapsto> \<lparr>so_ref = 2, so_len = - 1, so_max = 1, so_tmp = None, so_data = Srune [0x20AC, 0, 0]\<rparr>],
     vm_next = 2, vm_cell = (\<lambda>c. if c < 2 then Some c else None), vm_err = [], vm_gchalt = 0\<rparr>"

lemma s0_facts:
  "alloc_ok al0" "wf_vm s0" "str_at s0 (Some 0) [0x61, 0x62]" "str_at s0 (Some 1) [0x20AC]"
  "vm_cell s0 0 = Some 0" "vm_cell s0 1 = Some 1"
  by (auto simp: alloc_ok_def al0_def s0_def wf_vm_def wf_obj_def str_at_def text_of_def)

theorem addstring_spec_witness:
  "wp (addstring al0 (Some 0) (Some 1) True)
    (\<lambda>q t. makes s0 [0x61, 0x62, 0x20AC] {x. Some 0 = Some x \<and> refs s0 (Some 0) = 1} q t)
    (out_of_heap s0) s0"
  using addstring_spec [OF s0_facts(1-4), of True] by (simp add: fits_def)

theorem slicer_spec_witness:
  "wp (slicer al0 1 2 (Some 0)) (\<lambda>q t. makes s0 [0x62] {} q t) (out_of_heap s0) s0"
  by (rule wp_mono [OF slicer_spec [OF s0_facts(1-3), of 1 2]]) simp_all

theorem insc_spec_witness:
  "wp (insc al0 0x20AC 1 0) (\<lambda>_ t. cell_set s0 0 [0x61, 0x20AC] t) (\<lambda>t. vm_err t = exHeap) s0"
proof -
  have s: "str_at s0 (vm_cell s0 0) [0x61, 0x62]" using s0_facts by simp
  show ?thesis
    by (rule wp_mono [OF insc_spec [OF s0_facts(1,2) s, of "0x20AC" 1]])
      (simp_all add: fits_def upd_text_def ulong_of_def)
qed

theorem indc_spec_witness:
  "indc 0 1 s0 = Inr (Some 0x62, s0) \<and> indc 0 (- 1) s0 = Inr (None, s0\<lparr>vm_err := exBounds\<rparr>)"
proof -
  have s: "str_at s0 (vm_cell s0 0) [0x61, 0x62]" "vm_cell s0 0 \<noteq> None" using s0_facts by simp_all
  show ?thesis using indc_spec [OF s, of 1] indc_spec [OF s, of "- 1"] by simp
qed

theorem stringcmp_spec_witness:
  "\<exists>c. stringcmp (Some 0) (Some 1) s0 = Inr (Some c, s0) \<and> c < 0"
  using stringcmp_spec [OF s0_facts(3,4)] by auto

theorem string_roundtrip_witness:
  "wp (bnd (string2c (\<lambda>n. Some (replicate n 0)) (Some 1)) (c2string al0)) (\<lambda>p t. str_at t (Some p) [0x20AC])
    (\<lambda>t. vm_err t = exHeap \<or> vm_err t = exNomem) s0"
  by (rule string_roundtrip [OF s0_facts(1,2,4)]) (auto simp: valid_rune_def)

text \<open>
  Appending a string to itself in place overruns the object: \<open>s2->len\<close> is read after \<open>ns->len\<close>
  has been stored, so that twice the length is copied to the end of the first copy.
\<close>

theorem addstring_overrun:
  "let s = \<lparr>vm_obj = [0 \<mapsto> \<lparr>so_ref = 1, so_len = 12, so_max = 24, so_tmp = None,
        so_data = Sascii (replicate 32 0x61)\<rparr>], vm_next = 1, vm_cell = (\<lambda>_. None), vm_err = [], vm_gchalt = 0\<rparr>
   in wf_vm s \<and> str_at s (Some 0) (replicate 12 0x61) \<and> addstring al (Some 0) (Some 0) True s = Inl OutOfBounds"
  by (simp add: Let_def wf_vm_def wf_obj_def str_at_def text_of_def addstring_def add_ascii_def bnd_def
      deref_def ret_def set_len_def modify_def setobj_def rd_ascii_def wr_ascii_def check_def
      rdblock_def wrblock_def ascii_view_def)

end
