(* ===== verification/Vlrt.thy ===== *)
theory Vlrt
  imports Prelude "HOL-Library.Signed_Division"
begin

text \<open>
  The 64-bit arithmetic that the 32-bit targets call, \<^verbatim>\<open>libkern/vlrt-arm.c\<close> (the files of the
  other targets are the same up to names): a \<open>Vlong\<close> is a pair of 32-bit words, and each
  routine works on the two halves.  The specification is the arithmetic of \<open>64 word\<close>,
  through \<open>val\<close>.  A division by zero, and the quotient that does not fit the machine's signed
  division, are explicit failures.  Arguments that are pointers to distinct objects are values
  and results; the conversions that compute with \<open>double\<close> values are not modelled, but \<open>_d2v\<close>,
  which works on the representation of its argument, is.
\<close>

section \<open>Data\<close>

record vlong =
  v_lo :: u32
  v_hi :: u32

datatype arith_fault = ZeroDivide | DivideOverflow | HugeDouble

definition vl :: "u32 \<Rightarrow> u32 \<Rightarrow> vlong" where
  "vl hi lo = \<lparr>v_lo = lo, v_hi = hi\<rparr>"

definition sra :: "u32 \<Rightarrow> nat \<Rightarrow> u32" where
  "sra t n = signed_drop_bit n t"

section \<open>Addition, subtraction, negation\<close>

definition addv :: "vlong \<Rightarrow> vlong \<Rightarrow> vlong" where
  "addv a b = (let lo = v_lo a + v_lo b; hi = v_hi a + v_hi b in
     vl (if lo < v_lo a then hi + 1 else hi) lo)"

definition subv :: "vlong \<Rightarrow> vlong \<Rightarrow> vlong" where
  "subv a b = (let lo = v_lo a - v_lo b; hi = v_hi a - v_hi b in
     vl (if lo > v_lo a then hi - 1 else hi) lo)"

definition vneg :: "vlong \<Rightarrow> vlong" where
  "vneg v = (if v_lo v = 0 then vl (- v_hi v) 0 else vl (NOT (v_hi v)) (- v_lo v))"

text \<open>The increments: the new value of \<open>*l\<close> and of \<open>*r\<close>.\<close>

definition vinc :: "vlong \<Rightarrow> vlong" where
  "vinc r = (let lo = v_lo r + 1 in vl (if lo = 0 then v_hi r + 1 else v_hi r) lo)"

definition vdec :: "vlong \<Rightarrow> vlong" where
  "vdec r = vl (if v_lo r = 0 then v_hi r - 1 else v_hi r) (v_lo r - 1)"

definition vpp :: "vlong \<Rightarrow> vlong \<times> vlong" where
  "vpp r = (vl (v_hi r) (v_lo r), vinc r)"

definition vmm :: "vlong \<Rightarrow> vlong \<times> vlong" where
  "vmm r = (vl (v_hi r) (v_lo r), vdec r)"

definition ppv :: "vlong \<Rightarrow> vlong \<times> vlong" where
  "ppv r = (let r = vinc r in (vl (v_hi r) (v_lo r), r))"

definition mmv :: "vlong \<Rightarrow> vlong \<times> vlong" where
  "mmv r = (let r = vdec r in (vl (v_hi r) (v_lo r), r))"

section \<open>Division\<close>

definition below :: "u32 \<Rightarrow> u32 \<Rightarrow> u32 \<Rightarrow> u32 \<Rightarrow> bool" where
  "below ahi alo bhi blo \<longleftrightarrow> ahi < bhi \<or> ahi = bhi \<and> alo < blo"

definition shl1 :: "u32 \<Rightarrow> u32 \<Rightarrow> u32 \<times> u32" where
  "shl1 hi lo = (push_bit 1 hi OR drop_bit 31 lo, push_bit 1 lo)"

definition shr1 :: "u32 \<Rightarrow> u32 \<Rightarrow> u32 \<times> u32" where
  "shr1 hi lo = (drop_bit 1 hi, drop_bit 1 lo OR push_bit 31 hi)"

text \<open>
  The first loop of \<open>dodiv\<close> doubles the divisor until it reaches \<open>quo\<close>; 64 rounds are enough
  for a divisor that is not zero (lemma \<open>scale_enough\<close>), so the loop is written with that fuel.
\<close>

fun scale :: "nat \<Rightarrow> u32 \<Rightarrow> u32 \<Rightarrow> u32 \<Rightarrow> u32 \<Rightarrow> nat \<Rightarrow> (u32 \<times> u32 \<times> nat) option" where
  "scale fuel quohi quolo denhi denlo i =
     (if below denhi denlo quohi quolo then
        (case fuel of 0 \<Rightarrow> None
         | Suc f \<Rightarrow> (case shl1 denhi denlo of (dh, dl) \<Rightarrow> scale f quohi quolo dh dl (i + 1)))
      else Some (denhi, denlo, i))"

text \<open>The second loop, \<open>n\<close> rounds: the state is numerator, divisor and quotient.\<close>

fun quotient_loop :: "nat \<Rightarrow> u32 \<times> u32 \<Rightarrow> u32 \<times> u32 \<Rightarrow> u32 \<times> u32 \<Rightarrow> (u32 \<times> u32) \<times> (u32 \<times> u32)" where
  "quotient_loop 0 (numhi, numlo) den quo = (quo, (numhi, numlo))"
| "quotient_loop (Suc n) (numhi, numlo) (denhi, denlo) (quohi, quolo) =
     (let (quohi, quolo) = shl1 quohi quolo;
          (numhi, numlo, quolo) =
            (if numhi > denhi \<or> numhi = denhi \<and> numlo \<ge> denlo then
               let t = numlo; numlo = numlo - denlo;
                   numhi = (if numlo > t then numhi - 1 else numhi);
                   numhi = numhi - denhi
               in (numhi, numlo, quolo OR 1)
             else (numhi, numlo, quolo))
      in quotient_loop n (numhi, numlo) (shr1 denhi denlo) (quohi, quolo))"

definition dodiv :: "vlong \<Rightarrow> vlong \<Rightarrow> arith_fault + vlong \<times> vlong" where
  "dodiv num den =
     (if v_lo den = 0 \<and> v_hi den = 0 then Inl ZeroDivide
      else let (quohi, quolo) = (if v_hi num \<ge> 0x80000000 then (0x80000000, 0) else (v_hi num, v_lo num)) in
        (case scale 64 quohi quolo (v_hi den) (v_lo den) 0 of None \<Rightarrow> Inl ZeroDivide
         | Some (denhi, denlo, i) \<Rightarrow>
             (case quotient_loop (i + 1) (v_hi num, v_lo num) (denhi, denlo) (0, 0) of
                ((qh, ql), (rh, rl)) \<Rightarrow> Inr (vl qh ql, vl rh rl))))"

definition divvu :: "vlong \<Rightarrow> vlong \<Rightarrow> arith_fault + vlong" where
  "divvu n d =
     (if v_hi n = 0 \<and> v_hi d = 0 then
        (if v_lo d = 0 then Inl ZeroDivide else Inr (vl 0 (v_lo n div v_lo d)))
      else rbind (dodiv n d) (\<lambda>(q, r). Inr q))"

definition modvu :: "vlong \<Rightarrow> vlong \<Rightarrow> arith_fault + vlong" where
  "modvu n d =
     (if v_hi n = 0 \<and> v_hi d = 0 then
        (if v_lo d = 0 then Inl ZeroDivide else Inr (vl 0 (v_lo n mod v_lo d)))
      else rbind (dodiv n d) (\<lambda>(q, r). Inr r))"

text \<open>The machine's signed division of two \<open>long\<close>s, undefined for \<open>LONG_MIN / -1\<close>.\<close>

definition sdiv32 :: "u32 \<Rightarrow> u32 \<Rightarrow> arith_fault + u32" where
  "sdiv32 a b = (if b = 0 then Inl ZeroDivide
     else if a = 0x80000000 \<and> b = 0xFFFFFFFF then Inl DivideOverflow
     else Inr (word_of_int (sint a sdiv sint b)))"

definition smod32 :: "u32 \<Rightarrow> u32 \<Rightarrow> arith_fault + u32" where
  "smod32 a b = (if b = 0 then Inl ZeroDivide
     else if a = 0x80000000 \<and> b = 0xFFFFFFFF then Inl DivideOverflow
     else Inr (word_of_int (sint a smod sint b)))"

definition divv :: "vlong \<Rightarrow> vlong \<Rightarrow> arith_fault + vlong" where
  "divv n d =
     (if v_hi n = sra (v_lo n) 31 \<and> v_hi d = sra (v_lo d) 31 then
        rbind (sdiv32 (v_lo n) (v_lo d)) (\<lambda>q. Inr (vl (sra q 31) q))
      else let nneg = drop_bit 31 (v_hi n); n = (if nneg \<noteq> 0 then vneg n else n);
               dneg = drop_bit 31 (v_hi d); d = (if dneg \<noteq> 0 then vneg d else d) in
        rbind (dodiv n d) (\<lambda>(q, r). Inr (if nneg \<noteq> dneg then vneg q else q)))"

definition modv :: "vlong \<Rightarrow> vlong \<Rightarrow> arith_fault + vlong" where
  "modv n d =
     (if v_hi n = sra (v_lo n) 31 \<and> v_hi d = sra (v_lo d) 31 then
        rbind (smod32 (v_lo n) (v_lo d)) (\<lambda>r. Inr (vl (sra r 31) r))
      else let nneg = drop_bit 31 (v_hi n); n = (if nneg \<noteq> 0 then vneg n else n);
               dneg = drop_bit 31 (v_hi d); d = (if dneg \<noteq> 0 then vneg d else d) in
        rbind (dodiv n d) (\<lambda>(q, r). Inr (if nneg \<noteq> 0 then vneg r else r)))"

section \<open>Shifts and bitwise operations\<close>

definition rshav :: "vlong \<Rightarrow> int \<Rightarrow> vlong" where
  "rshav a b = (let t = v_hi a in
     if b \<ge> 32 then (if b \<ge> 64 then vl (sra t 31) (sra t 31) else vl (sra t 31) (sra t (nat (b - 32))))
     else if b \<le> 0 then vl t (v_lo a)
     else vl (sra t (nat b)) (push_bit (nat (32 - b)) t OR drop_bit (nat b) (v_lo a)))"

definition rshlv :: "vlong \<Rightarrow> int \<Rightarrow> vlong" where
  "rshlv a b = (let t = v_hi a in
     if b \<ge> 32 then (if b \<ge> 64 then vl 0 0 else vl 0 (drop_bit (nat (b - 32)) t))
     else if b \<le> 0 then vl t (v_lo a)
     else vl (drop_bit (nat b) t) (push_bit (nat (32 - b)) t OR drop_bit (nat b) (v_lo a)))"

definition lshv :: "vlong \<Rightarrow> int \<Rightarrow> vlong" where
  "lshv a b = (let t = v_lo a in
     if b \<ge> 32 then (if b \<ge> 64 then vl 0 0 else vl (push_bit (nat (b - 32)) t) 0)
     else if b \<le> 0 then vl (v_hi a) t
     else vl (drop_bit (nat (32 - b)) t OR push_bit (nat b) (v_hi a)) (push_bit (nat b) t))"

definition andv :: "vlong \<Rightarrow> vlong \<Rightarrow> vlong" where
  "andv a b = vl (v_hi a AND v_hi b) (v_lo a AND v_lo b)"

definition orv :: "vlong \<Rightarrow> vlong \<Rightarrow> vlong" where
  "orv a b = vl (v_hi a OR v_hi b) (v_lo a OR v_lo b)"

definition xorv :: "vlong \<Rightarrow> vlong \<Rightarrow> vlong" where
  "xorv a b = vl (v_hi a XOR v_hi b) (v_lo a XOR v_lo b)"

section \<open>Conversions\<close>

text \<open>\<open>_d2v\<close> on the two words of the double; a value the shift cannot hold is \<open>HugeDouble\<close>.\<close>

definition d2v_shift :: "u32 \<Rightarrow> u32 \<Rightarrow> int \<Rightarrow> arith_fault + u32 \<times> u32" where
  "d2v_shift xhi xlo sh =
     (if sh \<ge> 0 then
        (if sh < 32 then
           (if sh = 0 then Inr (xhi, xlo)
            else Inr (drop_bit (nat sh) xhi, drop_bit (nat sh) xlo OR push_bit (nat (32 - sh)) xhi))
         else if sh = 32 then Inr (0, xhi)
         else if sh < 64 then Inr (0, drop_bit (nat (sh - 32)) xhi)
         else Inr (0, 0))
      else let sh = - sh in
        if sh \<le> 10 then
          Inr (push_bit (nat sh) xhi OR drop_bit (nat (32 - sh)) xlo, push_bit (nat sh) xlo)
        else Inl HugeDouble)"

definition d2v :: "u32 \<Rightarrow> u32 \<Rightarrow> arith_fault + vlong" where
  "d2v dhi dlo =
     (let xhi = (dhi AND 0xfffff) OR 0x100000;
          sh = 1075 - uint (drop_bit 20 dhi AND 0x7ff) in
      rbind (d2v_shift xhi dlo sh) (\<lambda>(yhi, ylo).
      if dhi AND 0x80000000 \<noteq> 0 then
        (if ylo \<noteq> 0 then Inr (vl (NOT yhi) (- ylo)) else Inr (vl (- yhi) ylo))
      else Inr (vl yhi ylo)))"

definition p2v :: "u32 \<Rightarrow> vlong" where "p2v p = vl 0 p"
definition sl2v :: "u32 \<Rightarrow> vlong" where "sl2v t = vl (sra t 31) t"
definition ul2v :: "u32 \<Rightarrow> vlong" where "ul2v t = vl 0 t"
definition si2v :: "u32 \<Rightarrow> vlong" where "si2v t = vl (sra t 31) t"
definition ui2v :: "u32 \<Rightarrow> vlong" where "ui2v t = vl 0 t"

definition sh2v :: "u32 \<Rightarrow> vlong" where
  "sh2v sh = (let t = sra (push_bit 16 sh) 16 in vl (sra t 31) t)"

definition uh2v :: "u32 \<Rightarrow> vlong" where "uh2v ul = (let t = ul AND 0xffff in vl 0 t)"

definition sc2v :: "u32 \<Rightarrow> vlong" where
  "sc2v uc = (let t = sra (push_bit 24 uc) 24 in vl (sra t 31) t)"

definition uc2v :: "u32 \<Rightarrow> vlong" where "uc2v ul = (let t = ul AND 0xff in vl 0 t)"

definition v2sc :: "vlong \<Rightarrow> u32" where
  "v2sc rv = (let t = v_lo rv AND 0xff in sra (push_bit 24 t) 24)"

definition v2uc :: "vlong \<Rightarrow> u32" where "v2uc rv = v_lo rv AND 0xff"

definition v2sh :: "vlong \<Rightarrow> u32" where
  "v2sh rv = (let t = v_lo rv AND 0xffff in sra (push_bit 16 t) 16)"

definition v2uh :: "vlong \<Rightarrow> u32" where "v2uh rv = v_lo rv AND 0xffff"
definition v2sl :: "vlong \<Rightarrow> u32" where "v2sl rv = v_lo rv"
definition v2ul :: "vlong \<Rightarrow> u32" where "v2ul rv = v_lo rv"
definition v2si :: "vlong \<Rightarrow> u32" where "v2si rv = v_lo rv"
definition v2ui :: "vlong \<Rightarrow> u32" where "v2ui rv = v_lo rv"

section \<open>Comparisons\<close>

definition testv :: "vlong \<Rightarrow> bool" where "testv rv \<longleftrightarrow> v_lo rv \<noteq> 0 \<or> v_hi rv \<noteq> 0"
definition eqv :: "vlong \<Rightarrow> vlong \<Rightarrow> bool" where "eqv l r \<longleftrightarrow> v_lo l = v_lo r \<and> v_hi l = v_hi r"
definition nev :: "vlong \<Rightarrow> vlong \<Rightarrow> bool" where "nev l r \<longleftrightarrow> v_lo l \<noteq> v_lo r \<or> v_hi l \<noteq> v_hi r"

definition ltv :: "vlong \<Rightarrow> vlong \<Rightarrow> bool" where
  "ltv l r \<longleftrightarrow> sint (v_hi l) < sint (v_hi r) \<or> v_hi l = v_hi r \<and> v_lo l < v_lo r"
definition lev :: "vlong \<Rightarrow> vlong \<Rightarrow> bool" where
  "lev l r \<longleftrightarrow> sint (v_hi l) < sint (v_hi r) \<or> v_hi l = v_hi r \<and> v_lo l \<le> v_lo r"
definition gtv :: "vlong \<Rightarrow> vlong \<Rightarrow> bool" where
  "gtv l r \<longleftrightarrow> sint (v_hi l) > sint (v_hi r) \<or> v_hi l = v_hi r \<and> v_lo l > v_lo r"
definition gev :: "vlong \<Rightarrow> vlong \<Rightarrow> bool" where
  "gev l r \<longleftrightarrow> sint (v_hi l) > sint (v_hi r) \<or> v_hi l = v_hi r \<and> v_lo l \<ge> v_lo r"
definition lov :: "vlong \<Rightarrow> vlong \<Rightarrow> bool" where
  "lov l r \<longleftrightarrow> v_hi l < v_hi r \<or> v_hi l = v_hi r \<and> v_lo l < v_lo r"
definition lsv :: "vlong \<Rightarrow> vlong \<Rightarrow> bool" where
  "lsv l r \<longleftrightarrow> v_hi l < v_hi r \<or> v_hi l = v_hi r \<and> v_lo l \<le> v_lo r"
definition hiv :: "vlong \<Rightarrow> vlong \<Rightarrow> bool" where
  "hiv l r \<longleftrightarrow> v_hi l > v_hi r \<or> v_hi l = v_hi r \<and> v_lo l > v_lo r"
definition hsv :: "vlong \<Rightarrow> vlong \<Rightarrow> bool" where
  "hsv l r \<longleftrightarrow> v_hi l > v_hi r \<or> v_hi l = v_hi r \<and> v_lo l \<ge> v_lo r"

section \<open>Assignment operators on narrow objects\<close>

text \<open>
  \<open>_vasop\<close>: the object \<open>*lv\<close> is given by its type and its bits; the results are the new value
  of \<open>*ret\<close> and the bits stored, \<open>None\<close> for the \<open>abort\<close>.  \<open>t.lo\<close> is unsigned, so \<open>t.lo >> 31\<close>
  is the sign bit alone.
\<close>

datatype ctype = Tschar | Tuchar | Tshort | Tushort | Tlong | Tulong | Tvlong | Tuvlong | Tint | Tuint

definition ctype_of :: "int \<Rightarrow> ctype option" where
  "ctype_of n = (if n = 1 then Some Tschar else if n = 2 then Some Tuchar else if n = 3 then Some Tshort
     else if n = 4 then Some Tushort else if n = 5 then Some Tlong else if n = 6 then Some Tulong
     else if n = 7 then Some Tvlong else if n = 8 then Some Tuvlong else if n = 9 then Some Tint
     else if n = 10 then Some Tuint else None)"

definition load_narrow :: "ctype \<Rightarrow> u64 \<Rightarrow> vlong" where
  "load_narrow ty lv = (case ty of
       Tschar \<Rightarrow> let lo = scast (ucast lv :: byte) in vl (drop_bit 31 lo) lo
     | Tuchar \<Rightarrow> vl 0 (ucast (ucast lv :: byte))
     | Tshort \<Rightarrow> let lo = scast (ucast lv :: u16) in vl (drop_bit 31 lo) lo
     | Tushort \<Rightarrow> vl 0 (ucast (ucast lv :: u16))
     | Tint \<Rightarrow> let lo = ucast lv in vl (drop_bit 31 lo) lo
     | Tuint \<Rightarrow> vl 0 (ucast lv)
     | Tlong \<Rightarrow> let lo = ucast lv in vl (drop_bit 31 lo) lo
     | Tulong \<Rightarrow> vl 0 (ucast lv)
     | _ \<Rightarrow> vl (ucast (drop_bit 32 lv)) (ucast lv))"

definition store_narrow :: "ctype \<Rightarrow> vlong \<Rightarrow> u64" where
  "store_narrow ty u = (case ty of
       Tschar \<Rightarrow> ucast (ucast (v_lo u) :: byte)
     | Tuchar \<Rightarrow> ucast (ucast (v_lo u) :: byte)
     | Tshort \<Rightarrow> ucast (ucast (v_lo u) :: u16)
     | Tushort \<Rightarrow> ucast (ucast (v_lo u) :: u16)
     | Tint \<Rightarrow> ucast (v_lo u)
     | Tuint \<Rightarrow> ucast (v_lo u)
     | Tlong \<Rightarrow> ucast (v_lo u)
     | Tulong \<Rightarrow> ucast (v_lo u)
     | _ \<Rightarrow> push_bit 32 (ucast (v_hi u)) OR ucast (v_lo u))"

definition vasop :: "(vlong \<Rightarrow> vlong \<Rightarrow> arith_fault + vlong) \<Rightarrow> int \<Rightarrow> u64 \<Rightarrow> vlong \<Rightarrow>
    (arith_fault + vlong \<times> u64) option" where
  "vasop f type lv rv = (case ctype_of type of None \<Rightarrow> None
     | Some ty \<Rightarrow> Some (rbind (f (load_narrow ty lv) rv) (\<lambda>u. Inr (u, store_narrow ty u))))"

end
