(* ===== verification/VlrtSpec.thy ===== *)
theory VlrtSpec
  imports Vlrt
begin

text \<open>
  The 64-bit runtime against the arithmetic of \<open>64 word\<close>: \<open>val\<close> reads a \<open>Vlong\<close> as one word,
  and every routine commutes with it.  The two loops of the division are total.
\<close>

section \<open>The 64-bit word of two halves\<close>

definition V :: "u32 \<Rightarrow> u32 \<Rightarrow> u64" where
  "V hi lo = push_bit 32 (ucast hi) OR ucast lo"

definition val :: "vlong \<Rightarrow> u64" where
  "val v = V (v_hi v) (v_lo v)"

lemma vl_sel [simp]: "v_hi (vl h l) = h" "v_lo (vl h l) = l"
  by (simp_all add: vl_def)

lemma val_vl [simp]: "val (vl h l) = V h l"
  by (simp add: val_def)

lemma bit_V [simp]: "bit (V h l) n \<longleftrightarrow> (if n < 32 then bit l n else bit h (n - 32))"
  using high_bit(3) [of "n - 32" h] by (cases "n < 64") (auto simp: V_def bit_simps)

lemma u32_lt: "unat (x :: u32) < 4294967296"
  using unsigned_less [of x, where 'a = nat] by simp

lemma V_plus: "V h l = push_bit 32 (ucast h) + ucast l"
  unfolding V_def by (rule disjunctive_add [symmetric]) (auto simp: bit_simps)

lemma unat_V: "unat (V h l) = unat h * 4294967296 + unat l"
proof -
  have "unat (push_bit 32 (ucast h :: u64)) = unat h * 4294967296"
    using u32_lt [of h] by (simp add: push_bit_eq_mult unat_word_ariths unat_ucast_le)
  then show ?thesis
    using u32_lt [of h] u32_lt [of l] by (simp add: V_plus unat_word_ariths unat_ucast_le)
qed

lemma V_eq_iff: "V a b = V c d \<longleftrightarrow> a = c \<and> b = d"
proof
  assume eq: "V a b = V c d"
  have "bit b n = bit d n" if "n < 32" for n using arg_cong [OF eq, of "\<lambda>w. bit w n"] that by simp
  moreover have "bit a n = bit c n" if "n < 32" for n
    using arg_cong [OF eq, of "\<lambda>w. bit w (n + 32)"] that by simp
  ultimately show "a = c \<and> b = d" by (auto intro!: bit_word_eqI)
qed simp

lemma V_split: "V (ucast (drop_bit 32 w)) (ucast w) = w"
  by (rule bit_word_eqI) (auto simp: bit_simps)

lemma V_zero: "V 0 l = ucast l"
  by (rule bit_word_eqI) (auto simp: bit_simps)

lemma V_less: "V a b < V c d \<longleftrightarrow> a < c \<or> a = c \<and> b < d"
proof -
  note l = u32_lt [of b] u32_lt [of d]
  have "unat a * 4294967296 + unat b < unat c * 4294967296 + unat d \<longleftrightarrow>
    unat a < unat c \<or> unat a = unat c \<and> unat b < unat d"
    using l by (cases "unat a" "unat c" rule: linorder_cases) auto
  then show ?thesis by (simp add: word_less_nat_alt unat_V word_unat_eq_iff)
qed

lemma V_le: "V a b \<le> V c d \<longleftrightarrow> a < c \<or> a = c \<and> b \<le> d"
  using V_less [of c d a b] by (auto simp: not_less [symmetric])

lemma ucast_add: "(ucast (a + c :: u32) :: u64) = take_bit 32 (ucast a + ucast c)"
  by (simp add: word_uint_eq_iff unsigned_take_bit_eq uint_word_ariths unsigned_ucast_eq take_bit_eq_mod [where 'a = int] mod_mod_cancel mod_simps)

lemma ucast_sub: "(ucast (a - c :: u32) :: u64) = take_bit 32 (ucast a - ucast c)"
  by (simp add: word_uint_eq_iff unsigned_take_bit_eq uint_word_ariths unsigned_ucast_eq take_bit_eq_mod [where 'a = int] mod_mod_cancel mod_simps)

text \<open>The high half, as an operation on 64 bits, is additive.\<close>

lemma high_take: "push_bit 32 (take_bit 32 w) = push_bit 32 (w :: u64)"
  by (rule bit_word_eqI) (auto simp: bit_simps)

lemma high_add: "push_bit 32 (ucast (a + c :: u32) :: u64) = push_bit 32 (ucast a) + push_bit 32 (ucast c)"
  by (simp add: ucast_add high_take) (simp add: push_bit_eq_mult algebra_simps)

lemma high_sub: "push_bit 32 (ucast (a - c :: u32) :: u64) = push_bit 32 (ucast a) - push_bit 32 (ucast c)"
  by (simp add: ucast_sub high_take) (simp add: push_bit_eq_mult algebra_simps)

lemma high_one: "push_bit 32 (ucast (1 :: u32) :: u64) = 4294967296"
  by simp

lemma low_add: "(ucast b :: u64) + ucast d = ucast (b + d :: u32) + (if b + d < b then 4294967296 else 0)"
  using u32_lt [of b] u32_lt [of d]
  by (auto simp: word_unat_eq_iff word_less_nat_alt unat_word_ariths unat_ucast_le mod_if)

lemma borrow: "b < b - d \<longleftrightarrow> b < (d :: u32)"
  using u32_lt [of b] u32_lt [of d] by (auto simp: word_less_nat_alt unat_sub_if')

lemma low_sub: "(ucast b :: u64) - ucast d = ucast (b - d :: u32) - (if b < d then 4294967296 else 0)"
proof -
  have "ucast (b - d :: u32) + ucast d = (ucast b :: u64) + (if b < b - d then 4294967296 else 0)"
    using low_add [of "b - d" d] by (simp only: diff_add_cancel)
  then have "(ucast b :: u64) = ucast (b - d :: u32) + ucast d - (if b < b - d then 4294967296 else 0)"
    by (simp only: add_diff_cancel_right')
  then show ?thesis by (simp only: borrow) (simp add: algebra_simps)
qed

lemma V_add: "V a b + V c d = V (if b + d < b then a + c + 1 else a + c) (b + d)"
  using low_add [of b d] by (simp add: V_plus high_add high_one algebra_simps)

lemma V_sub: "V a b - V c d = V (if b < d then a - c - 1 else a - c) (b - d)"
proof -
  have "V a b - V c d = push_bit 32 (ucast a) - push_bit 32 (ucast c) + (ucast b - ucast d)"
    by (simp add: V_plus)
  also have "\<dots> = push_bit 32 (ucast (a - c)) - (if b < d then 4294967296 else 0) + ucast (b - d)"
    unfolding low_sub by (simp add: high_sub)
  also have "push_bit 32 (ucast (a - c)) - (if b < d then 4294967296 else 0) =
      push_bit 32 (ucast (if b < d then a - c - 1 else a - c :: u32) :: u64)"
    using high_sub [of "a - c" 1] high_one by simp
  finally show ?thesis by (simp add: V_plus)
qed

lemma V_uminus: "- V a b = V (if b = 0 then - a else NOT a) (- b)"
  using V_sub [of 0 0 a b] by (auto simp: V_zero not_eq_complement word_neq_0_conv)

lemma addv_val: "val (addv a b) = val a + val b"
  by (simp add: addv_def Let_def val_def V_add)

lemma subv_val: "val (subv a b) = val a - val b"
  by (simp add: subv_def Let_def val_def V_sub borrow)

lemma vneg_val: "val (vneg v) = - val v"
  by (simp add: vneg_def val_def V_uminus)

lemma V_one: "V 0 1 = 1" by (simp add: V_zero)

lemma vinc_val: "val (vinc v) = val v + 1"
proof -
  have "v_lo v + 1 < v_lo v \<longleftrightarrow> v_lo v + 1 = 0"
    using u32_lt [of "v_lo v"] by (auto simp: word_less_nat_alt unat_word_ariths mod_if word_unat_eq_iff)
  then show ?thesis using V_add [of "v_hi v" "v_lo v" 0 1]
    by (simp add: vinc_def val_def Let_def V_one)
qed

lemma vdec_val: "val (vdec v) = val v - 1"
  using V_sub [of "v_hi v" "v_lo v" 0 1] by (simp add: vdec_def val_def V_one)


section \<open>Division\<close>

lemma below_V: "below a b c d \<longleftrightarrow> V a b < V c d"
  by (simp add: below_def V_less)

lemma V_push: "k \<le> 32 \<Longrightarrow> V (push_bit k h OR drop_bit (32 - k) l) (push_bit k l) = push_bit k (V h l)"
  by (rule bit_word_eqI) (auto simp: bit_simps not_less intro: arg_cong [of _ _ "bit _"] elim!: back_subst [of "bit _"])

lemma V_drop: "k \<le> 32 \<Longrightarrow> V (drop_bit k h) (push_bit (32 - k) h OR drop_bit k l) = drop_bit k (V h l)"
  by (rule bit_word_eqI) (auto simp: bit_simps not_less elim!: back_subst [of "bit _"])

lemma shl1_V: "shl1 h l = (h', l') \<Longrightarrow> V h' l' = 2 * V h l"
  using V_push [of 1 h l] by (simp add: shl1_def push_bit_eq_mult)

lemma shr1_V: "shr1 h l = (h', l') \<Longrightarrow> V h' l' = drop_bit 1 (V h l)"
  using V_drop [of 1 h l] by (simp add: shr1_def or.commute)

lemma unat_double: "unat (w :: u64) < 2 ^ 63 \<Longrightarrow> unat (2 * w) = 2 * unat w \<and> unat (2 * w + 1) = 2 * unat w + 1"
  by (simp add: unat_word_ariths)

lemma V_or_one: "shl1 h l = (h', l') \<Longrightarrow> V h' (l' OR 1) = 2 * V h l + 1"
proof -
  assume s: "shl1 h l = (h', l')"
  have "V h' (l' OR 1) = V h' l' OR 1"
    by (rule bit_word_eqI) (auto simp: bit_simps)
  also have "\<dots> = V h' l' + 1"
  proof (rule disjunctive_add [symmetric])
    show "\<not> bit (V h' l') n \<or> \<not> bit (1 :: u64) n" for n
      using s by (auto simp: bit_1_iff shl1_def bit_push_bit_iff simp del: push_bit_Suc)
  qed
  finally show ?thesis using shl1_V [OF s] by simp
qed

lemma scale_enough:
  assumes "unat (V qh ql) \<le> 2 ^ 63" "unat (V qh ql) \<le> unat (V dh dl) * 2 ^ fuel"
  shows "\<exists>k dh' dl'. scale fuel qh ql dh dl i = Some (dh', dl', i + k) \<and>
    unat (V dh' dl') = unat (V dh dl) * 2 ^ k \<and> unat (V qh ql) \<le> unat (V dh' dl')"
  using assms
proof (induction fuel arbitrary: dh dl i)
  case 0
  then show ?case by (auto simp: below_V word_less_nat_alt intro!: exI [of _ 0])
next
  case (Suc fuel)
  show ?case
  proof (cases "below dh dl qh ql")
    case True
    obtain h l where s: "shl1 dh dl = (h, l)" by force
    have "unat (V dh dl) < 2 ^ 63" using True Suc.prems(1) by (simp add: below_V word_less_nat_alt)
    then have u: "unat (V h l) = 2 * unat (V dh dl)" by (simp add: shl1_V [OF s] unat_double)
    then obtain k h' l' where "scale fuel qh ql h l (i + 1) = Some (h', l', i + 1 + k)"
      "unat (V h' l') = unat (V h l) * 2 ^ k" "unat (V qh ql) \<le> unat (V h' l')"
      using Suc.IH [of h l "i + 1"] Suc.prems by auto
    then show ?thesis using True s u by (intro exI [of _ "Suc k"]) simp
  next
    case False
    then show ?thesis by (auto simp: below_V word_less_nat_alt intro!: exI [of _ 0])
  qed
qed

lemma quotient_step:
  assumes "V ah al \<ge> V bh bl"
  shows "V ((if al - bl > al then ah - 1 else ah) - bh) (al - bl) = V ah al - V bh bl"
  by (simp add: V_sub borrow algebra_simps)

lemma quotient_loop_correct:
  assumes "n > 0 \<Longrightarrow> unat (V dh dl) = d * 2 ^ (n - 1)" "unat (V nh nl) < d * 2 ^ n" "n \<le> 64"
    "unat (V qh ql) < 2 ^ (64 - n)" "quotient_loop n (nh, nl) (dh, dl) (qh, ql) = ((qh', ql'), (rh, rl))"
  shows "unat (V qh' ql') = unat (V qh ql) * 2 ^ n + unat (V nh nl) div d \<and> unat (V rh rl) = unat (V nh nl) mod d"
  using assms
proof (induction n arbitrary: nh nl dh dl qh ql)
  case 0
  then show ?case by simp
next
  case (Suc m)
  have D: "unat (V dh dl) = d * 2 ^ m" using Suc.prems(1) by simp
  obtain q1h q1l where q1: "shl1 qh ql = (q1h, q1l)" by force
  obtain d1h d1l where d1: "shr1 dh dl = (d1h, d1l)" by force
  have pw: "(2::nat) ^ (64 - m) = 2 * 2 ^ (63 - m)"
    using Suc.prems(3) by (simp flip: power_Suc add: Suc_diff_le)
  have "unat (V qh ql) < 2 ^ (63 - m)" using Suc.prems(4) by simp
  moreover have "(2::nat) ^ (63 - m) \<le> 2 ^ 63" by (rule power_increasing) simp_all
  ultimately have q: "unat (V qh ql) < 2 ^ 63" "unat (V qh ql) < 2 ^ (63 - m)" by linarith+
  have d1v: "m > 0 \<Longrightarrow> unat (V d1h d1l) = d * 2 ^ (m - 1)"
    using D by (cases m) (simp_all add: shr1_V [OF d1] drop_bit_eq_div unat_div_distrib)
  show ?case
  proof (cases "nh > dh \<or> nh = dh \<and> nl \<ge> dl")
    case True
    then have ge: "V dh dl \<le> V nh nl" by (auto simp: V_le)
    let ?n = "V ((if nl - dl > nl then nh - 1 else nh) - dh) (nl - dl)"
    have nv: "unat ?n = unat (V nh nl) - d * 2 ^ m" and dn: "d * 2 ^ m \<le> unat (V nh nl)"
      using ge D by (simp_all add: quotient_step unat_sub word_le_nat_alt)
    have qv: "unat (V q1h (q1l OR 1)) = 2 * unat (V qh ql) + 1"
      using unat_double [OF q(1)] by (simp add: V_or_one [OF q1])
    have "unat (V qh' ql') = unat (V q1h (q1l OR 1)) * 2 ^ m + unat ?n div d \<and> unat (V rh rl) = unat ?n mod d"
    proof (rule Suc.IH)
      show "unat ?n < d * 2 ^ m" using nv Suc.prems(2) by simp
      show "unat (V q1h (q1l OR 1)) < 2 ^ (64 - m)" using qv q(2) pw by simp
      show "quotient_loop m ((if nl - dl > nl then nh - 1 else nh) - dh, nl - dl) (d1h, d1l) (q1h, q1l OR 1) =
          ((qh', ql'), rh, rl)" using Suc.prems(5) True q1 d1 by (simp add: Let_def)
    qed (use Suc.prems(3) d1v in simp_all)
    moreover have "unat (V nh nl) = unat ?n + d * 2 ^ m" using nv dn by simp
    moreover have "0 < d" using Suc.prems(2) by (cases d) simp_all
    ultimately show ?thesis using qv by (simp add: algebra_simps)
  next
    case False
    then have "V nh nl < V dh dl" by (auto simp: V_less)
    then have lt: "unat (V nh nl) < d * 2 ^ m" using D by (simp add: word_less_nat_alt)
    have qv: "unat (V q1h q1l) = 2 * unat (V qh ql)" using unat_double [OF q(1)] by (simp add: shl1_V [OF q1])
    have "unat (V qh' ql') = unat (V q1h q1l) * 2 ^ m + unat (V nh nl) div d \<and> unat (V rh rl) = unat (V nh nl) mod d"
    proof (rule Suc.IH)
      show "unat (V q1h q1l) < 2 ^ (64 - m)" using qv q(2) pw by simp
      show "quotient_loop m (nh, nl) (d1h, d1l) (q1h, q1l) = ((qh', ql'), rh, rl)"
        using Suc.prems(5) False q1 d1 by (simp add: Let_def)
    qed (use Suc.prems(3) d1v lt in simp_all)
    then show ?thesis using qv by (simp add: algebra_simps)
  qed
qed

lemma dodiv_correct:
  assumes "val d \<noteq> 0"
  shows "\<exists>q r. dodiv n d = Inr (q, r) \<and> val q = val n div val d \<and> val r = val n mod val d"
proof -
  let ?Q = "if v_hi n \<ge> 0x80000000 then (0x80000000, 0) else (v_hi n, v_lo n)"
  obtain qh ql where Q: "?Q = (qh, ql)" by force
  have nz: "\<not> (v_lo d = 0 \<and> v_hi d = 0)" using assms by (auto simp: val_def V_zero)
  have pos: "0 < unat (val d)" using assms by (simp add: word_neq_0_conv word_less_nat_alt)
  have lt64: "unat w < 2 ^ 64" for w :: u64 using unsigned_less [of w, where 'a = nat] by simp
  have Qle: "unat (V qh ql) \<le> 2 ^ 63" and Qn: "unat (val n) < 2 * unat (V qh ql) \<or> unat (val n) = unat (V qh ql)"
  proof -
    have "unat (V qh ql) \<le> 2 ^ 63 \<and> (unat (val n) < 2 * unat (V qh ql) \<or> unat (val n) = unat (V qh ql))"
    proof (cases "v_hi n \<ge> 0x80000000")
      case True
      then show ?thesis using Q lt64 [of "val n"] by (auto simp: unat_V)
    next
      case False
      then show ?thesis using Q u32_lt [of "v_lo n"] by (auto simp: unat_V val_def word_le_nat_alt)
    qed
    then show "unat (V qh ql) \<le> 2 ^ 63" "unat (val n) < 2 * unat (V qh ql) \<or> unat (val n) = unat (V qh ql)"
      by simp_all
  qed
  have "unat (V qh ql) \<le> unat (V (v_hi d) (v_lo d)) * 2 ^ 64"
  proof -
    have "1 * 2 ^ 64 \<le> unat (V (v_hi d) (v_lo d)) * 2 ^ 64" using pos by (intro mult_right_mono) (simp_all add: val_def)
    then show ?thesis using lt64 [of "V qh ql"] by linarith
  qed
  from scale_enough [OF Qle this, of 0] obtain k dh dl where
    s: "scale 64 qh ql (v_hi d) (v_lo d) 0 = Some (dh, dl, k)" "unat (V dh dl) = unat (val d) * 2 ^ k"
    "unat (V qh ql) \<le> unat (V dh dl)" by (auto simp: val_def)
  have "(2::nat) ^ k \<le> unat (val d) * 2 ^ k" using pos by simp
  then have "(2::nat) ^ k < 2 ^ 64" using lt64 [of "V dh dl"] s(2) by linarith
  then have k: "k < 64" by (rule power_less_imp_less_exp [rotated]) simp
  have num: "unat (V (v_hi n) (v_lo n)) < unat (val d) * 2 ^ (k + 1)"
  proof -
    have "unat (val n) < 2 * unat (V dh dl)"
      using Qn s(3) pos s(2) lt64 [of "V dh dl"] by (cases "unat (val n) = 0") (auto simp: zero_less_mult_iff)
    then show ?thesis by (simp add: s(2) val_def algebra_simps)
  qed
  obtain qh' ql' rh rl where loop: "quotient_loop (k + 1) (v_hi n, v_lo n) (dh, dl) (0, 0) = ((qh', ql'), (rh, rl))"
    by (metis surj_pair)
  have "unat (V qh' ql') = unat (V 0 0) * 2 ^ (k + 1) + unat (V (v_hi n) (v_lo n)) div unat (val d) \<and>
    unat (V rh rl) = unat (V (v_hi n) (v_lo n)) mod unat (val d)"
    by (rule quotient_loop_correct [OF _ num _ _ loop]) (use s(2) k in \<open>simp_all add: V_zero\<close>)
  then have "V qh' ql' = val n div val d" "V rh rl = val n mod val d"
    by (simp_all add: word_unat_eq_iff unat_div_distrib unat_mod_distrib val_def V_zero)
  then show ?thesis using nz Q s(1) loop by (auto simp: dodiv_def Let_def)
qed


lemma val_zero: "val v = 0 \<longleftrightarrow> v_lo v = 0 \<and> v_hi v = 0"
  using V_eq_iff [of "v_hi v" "v_lo v" 0 0] by (auto simp: val_def V_zero)

lemma ucast_div: "(ucast (a div b :: u32) :: u64) = ucast a div ucast b"
  "(ucast (a mod b :: u32) :: u64) = ucast a mod ucast b"
  by (simp_all add: word_unat_eq_iff unat_ucast_le unat_div_distrib unat_mod_distrib)

text \<open>Signs: the top bit, and the values a \<open>long\<close> holds.\<close>

lemma bit_sra: "bit (sra t n) i \<longleftrightarrow> i < 32 \<and> bit t (min 31 (i + n))"
proof -
  consider "i \<ge> 32" | "i < 32" "32 - n \<le> i" | "i < 32 - n" by linarith
  then show ?thesis
  proof cases
    case 2
    then have "min 31 (i + n) = 31" by simp
    then show ?thesis using 2 by (simp add: sra_def bit_signed_drop_bit_iff)
  next
    case 3
    then have "min 31 (i + n) = n + i" "i < 32" "\<not> 32 - n \<le> i" by simp_all
    then show ?thesis by (simp add: sra_def bit_signed_drop_bit_iff add.commute)
  qed (simp add: sra_def)
qed

definition ext :: "u32 \<Rightarrow> u64" where
  "ext t = V (sra t 31) t"

lemma ext_scast: "ext t = scast t"
proof (rule bit_word_eqI)
  fix n assume n: "n < LENGTH(64)"
  show "bit (ext t) n = bit (scast t :: u64) n"
    using n by (cases "n < 31"; cases "n = 31") (auto simp: ext_def bit_sra bit_simps min_def)
qed

lemma sint_ext: "sint (ext t) = sint t"
  by (simp add: ext_scast sint_up_scast is_up)

lemma top_bit: "drop_bit 31 (h :: u32) \<noteq> 0 \<longleftrightarrow> bit h 31"
proof
  assume "bit h 31"
  then have "bit (drop_bit 31 h) 0" by (simp add: bit_simps)
  then show "drop_bit 31 h \<noteq> 0" by auto
next
  assume "drop_bit 31 h \<noteq> 0"
  then obtain n where "bit (drop_bit 31 h) n" using bit_word_eqI [of "drop_bit 31 h" 0] by auto
  then have "bit h (31 + n)" by (simp add: bit_simps)
  then show "bit h 31" using high_bit(3) [of "31 + n" h] by (cases n) auto
qed

lemma top_bit_eq: "drop_bit 31 (h :: u32) = (if bit h 31 then 1 else 0)"
proof (rule bit_word_eqI)
  fix n assume "n < LENGTH(32)"
  show "bit (drop_bit 31 h) n = bit (if bit h 31 then 1 else 0 :: u32) n"
    using high_bit(3) [of "31 + n" h] by (cases n) (auto simp: bit_simps)
qed

lemma val_sign: "bit (v_hi v) 31 \<longleftrightarrow> sint (val v) < 0"
  using bit_last_iff [of "val v"] by (simp add: val_def)



lemma sint_range64: "- (2 ^ 63) \<le> sint (w :: u64)" "sint w < 2 ^ 63"
  using sint_ge [of w] sint_lt [of w] by simp_all

lemma sint_range32: "- (2 ^ 31) \<le> sint (w :: u32)" "sint w < 2 ^ 31"
  using sint_ge [of w] sint_lt [of w] by simp_all

lemma uint_small: "0 \<le> k \<Longrightarrow> k < 2 ^ 64 \<Longrightarrow> uint (word_of_int k :: u64) = k"
  by (simp add: uint_word_of_int)

lemma word_abs: "(if sint w < 0 then - w else w) = word_of_int \<bar>sint w\<bar>" for w :: u64
proof -
  have "word_of_int (sint w) = w" by simp
  moreover have "word_of_int (- sint w) = - w" by simp
  ultimately show ?thesis by auto
qed

lemma uint_abs: "uint (if sint w < 0 then - w else w) = \<bar>sint w\<bar>" for w :: u64
  unfolding word_abs by (rule uint_small) (use sint_range64 [of w] in simp_all)

lemma uint_div: "uint (a div b) = uint a div uint b" "uint (a mod b) = uint a mod uint b" for a b :: "'a::len word"
  by (simp_all add: uint_div_distrib uint_mod_distrib)

lemma sgn_quotient:
  "word_of_int (x sdiv y) = (if (x < 0) = (y < 0) then word_of_int (\<bar>x\<bar> div \<bar>y\<bar>) else - word_of_int (\<bar>x\<bar> div \<bar>y\<bar>))"
  if "y \<noteq> 0"
  using that by (cases "x = 0") (auto simp: signed_divide_int_def sgn_if)

lemma sgn_remainder:
  "word_of_int (x smod y) = (if x < 0 then - word_of_int (\<bar>x\<bar> mod \<bar>y\<bar>) else word_of_int (\<bar>x\<bar> mod \<bar>y\<bar>))"
  by (cases "x = 0") (auto simp: signed_modulo_int_def sgn_if)

lemma magnitude:
  "val (if drop_bit 31 (v_hi n) \<noteq> 0 then vneg n else n) = word_of_int \<bar>sint (val n)\<bar>"
  by (simp add: top_bit val_sign vneg_val flip: word_abs)

lemma uint_magnitude: "uint (word_of_int \<bar>sint w\<bar> :: u64) = \<bar>sint w\<bar>" for w :: u64
  using uint_abs [of w] by (simp only: word_abs)

lemma val_ext: "v_hi n = sra (v_lo n) 31 \<Longrightarrow> val n = ext (v_lo n)"
  by (simp add: val_def ext_def)

lemma ext_of_int: "- (2 ^ 31) \<le> k \<Longrightarrow> k < 2 ^ 31 \<Longrightarrow> ext (word_of_int k) = word_of_int k"
proof -
  assume k: "- (2 ^ 31) \<le> k" "k < 2 ^ 31"
  have "sint (word_of_int k :: u32) = k"
    using k by (simp add: sint_sbintrunc' signed_take_bit_int_eq_self)
  then have "sint (ext (word_of_int k)) = k" by (simp add: sint_ext)
  then show ?thesis by (metis of_int_sint scast_id)
qed

lemma sint_zero: "sint w = 0 \<longleftrightarrow> w = 0" for w :: "'a::len word"
  by (metis of_int_0 of_int_sint scast_id signed_0)

lemma long_quotient:
  fixes a b :: u32
  assumes "b \<noteq> 0" "\<not> (sint a = - (2 ^ 31) \<and> sint b = - 1)"
  shows "- (2 ^ 31) \<le> sint a sdiv sint b \<and> sint a sdiv sint b < 2 ^ 31"
proof (cases "\<bar>sint b\<bar> = 1")
  case True
  then have "sint b = 1 \<or> sint b = - 1" by linarith
  then show ?thesis using sint_range32 [of a] assms(2) by auto
next
  case False
  then have two: "2 \<le> \<bar>sint b\<bar>" using assms(1) sint_zero [of b] by linarith
  then have "\<bar>sint a\<bar> div \<bar>sint b\<bar> \<le> \<bar>sint a\<bar> div 2" by (intro zdiv_mono2) simp_all
  then have q: "\<bar>sint a\<bar> div \<bar>sint b\<bar> \<le> 2 ^ 30" "0 \<le> \<bar>sint a\<bar> div \<bar>sint b\<bar>"
    using sint_range32 [of a] two by (simp_all add: pos_imp_zdiv_nonneg_iff)
  have "\<bar>sint a sdiv sint b\<bar> \<le> \<bar>sint a\<bar> div \<bar>sint b\<bar>"
    using q(2) by (auto simp: signed_divide_int_def abs_mult abs_sgn_eq)
  then show ?thesis using q by (intro conjI; simp; linarith)
qed

lemma long_remainder:
  fixes a b :: u32
  assumes "b \<noteq> 0"
  shows "- (2 ^ 31) \<le> sint a smod sint b \<and> sint a smod sint b < 2 ^ 31"
proof -
  have pos: "0 < \<bar>sint b\<bar>" using assms by (simp add: sint_zero)
  have "\<bar>sint a\<bar> mod \<bar>sint b\<bar> < \<bar>sint b\<bar>" "0 \<le> \<bar>sint a\<bar> mod \<bar>sint b\<bar>" using pos by simp_all
  moreover have "\<bar>sint b\<bar> \<le> 2 ^ 31" using sint_range32 [of b] by simp
  moreover have "\<bar>sint a smod sint b\<bar> \<le> \<bar>sint a\<bar> mod \<bar>sint b\<bar>"
    using pos by (auto simp: signed_modulo_int_def abs_mult abs_sgn_eq)
  ultimately show ?thesis by linarith
qed

section \<open>Properties\<close>

text \<open>
  C25. Unsigned division and remainder of two \<open>Vlong\<close>s are those of the 64-bit integers, and
  the only failure is the division by zero: the shift-and-subtract loops of \<open>dodiv\<close> end and
  are right for all operands.
\<close>

theorem divvu_modvu:
  "(val d = 0 \<longrightarrow> divvu n d = Inl ZeroDivide \<and> modvu n d = Inl ZeroDivide) \<and>
   (val d \<noteq> 0 \<longrightarrow> (\<exists>q r. divvu n d = Inr q \<and> val q = val n div val d \<and>
                       modvu n d = Inr r \<and> val r = val n mod val d))"
proof (cases "val d = 0")
  case True
  then show ?thesis by (auto simp: val_zero divvu_def modvu_def dodiv_def)
next
  case False
  show ?thesis
  proof (cases "v_hi n = 0 \<and> v_hi d = 0")
    case True
    then show ?thesis using False by (auto simp: divvu_def modvu_def val_zero) (simp_all add: val_def V_zero ucast_div)
  next
    case hi: False
    then show ?thesis using dodiv_correct [OF False, of n] False by (auto simp: divvu_def modvu_def)
  qed
qed

theorem divvu_modvu_witness:
  "\<exists>q r. divvu (vl 5 7) (vl 0 3) = Inr q \<and> val q = V 5 7 div 3 \<and> modvu (vl 5 7) (vl 0 3) = Inr r \<and> val r = V 5 7 mod 3"
  using divvu_modvu [of "vl 0 3" "vl 5 7"] by (simp add: V_zero)

text \<open>
  C35. Signed division and remainder of two \<open>Vlong\<close>s are those of C on 64 bits, truncated toward
  zero, for every divisor but 0, the quotient that needs 65 bits wrapping; excluded is
  \<open>- 2 ^ 31\<close> by \<open>- 1\<close>, which the fast path leaves to the 32-bit division.
\<close>

theorem divv_modv:
  assumes "val d \<noteq> 0" "\<not> (sint (val n) = - (2 ^ 31) \<and> sint (val d) = - 1)"
  shows "(\<exists>q. divv n d = Inr q \<and> val q = word_of_int (sint (val n) sdiv sint (val d))) \<and>
    (\<exists>r. modv n d = Inr r \<and> val r = word_of_int (sint (val n) smod sint (val d)))"
proof (cases "v_hi n = sra (v_lo n) 31 \<and> v_hi d = sra (v_lo d) 31")
  case True
  then have e: "val n = ext (v_lo n)" "val d = ext (v_lo d)" by (simp_all add: val_ext)
  have "v_lo d \<noteq> 0" using assms(1) True by (auto simp: val_zero sra_def)
  moreover have no: "\<not> (sint (v_lo n) = - (2 ^ 31) \<and> sint (v_lo d) = - 1)" using assms(2) unfolding e sint_ext .
  moreover have "\<not> (v_lo n = 0x80000000 \<and> v_lo d = 0xFFFFFFFF)"
  proof
    assume "v_lo n = 0x80000000 \<and> v_lo d = 0xFFFFFFFF"
    then have "sint (v_lo n) = - (2 ^ 31)" "sint (v_lo d) = - 1" by simp_all
    then show False using no by blast
  qed
  ultimately show ?thesis using True long_quotient [of "v_lo d" "v_lo n"] long_remainder [of "v_lo d" "v_lo n"]
    by (simp add: divv_def modv_def sdiv32_def smod32_def e sint_ext ext_of_int flip: ext_def)
next
  case False
  let ?n = "if drop_bit 31 (v_hi n) \<noteq> 0 then vneg n else n"
  let ?d = "if drop_bit 31 (v_hi d) \<noteq> 0 then vneg d else d"
  have nz: "sint (val d) \<noteq> 0" using assms(1) by (simp add: sint_zero)
  have "val ?d \<noteq> 0" unfolding magnitude using uint_magnitude [of "val d"] nz by (metis abs_eq_0 uint_0_eq)
  then obtain q r where qr: "dodiv ?n ?d = Inr (q, r)" "val q = val ?n div val ?d" "val r = val ?n mod val ?d"
    using dodiv_correct by blast
  have u: "uint (val q) = \<bar>sint (val n)\<bar> div \<bar>sint (val d)\<bar>" "uint (val r) = \<bar>sint (val n)\<bar> mod \<bar>sint (val d)\<bar>"
    unfolding qr(2,3) uint_div magnitude uint_magnitude by (rule refl)+
  have v: "val q = word_of_int (\<bar>sint (val n)\<bar> div \<bar>sint (val d)\<bar>)" "val r = word_of_int (\<bar>sint (val n)\<bar> mod \<bar>sint (val d)\<bar>)"
    unfolding u [symmetric] by simp_all
  have sg: "drop_bit 31 (v_hi n) \<noteq> drop_bit 31 (v_hi d) \<longleftrightarrow> (sint (val n) < 0) \<noteq> (sint (val d) < 0)"
    by (simp add: top_bit_eq val_sign)
  have "divv n d = Inr (if drop_bit 31 (v_hi n) \<noteq> drop_bit 31 (v_hi d) then vneg q else q)"
    "modv n d = Inr (if drop_bit 31 (v_hi n) \<noteq> 0 then vneg r else r)"
    using False qr(1) by (auto simp: divv_def modv_def Let_def)
  then show ?thesis unfolding sg sgn_quotient [OF nz] sgn_remainder
    by (auto simp: vneg_val v top_bit val_sign)
qed

theorem divv_modv_witness:
  "\<exists>q. divv (vl 0xFFFFFFFF 0xFFFFFFF9) (vl 0 2) = Inr q \<and> val q = word_of_int (- 3)"
  using divv_modv [of "vl 0 2" "vl 0xFFFFFFFF 0xFFFFFFF9"] by (simp add: V_zero V_def)


lemma V_drop_high: "32 \<le> k \<Longrightarrow> V 0 (drop_bit (k - 32) h) = drop_bit k (V h l)"
  by (rule bit_word_eqI) (auto simp: bit_simps)

lemma V_push_high: "32 \<le> k \<Longrightarrow> V (push_bit (k - 32) l) 0 = push_bit k (V h l)"
proof (rule bit_word_eqI)
  fix n assume k: "32 \<le> k" and n: "n < LENGTH(64)"
  show "bit (V (push_bit (k - 32) l) 0) n = bit (push_bit k (V h l)) n"
  proof (cases "k \<le> n")
    case True
    then have "n - 32 - (k - 32) = n - k" "k - 32 \<le> n - 32" "\<not> n < 32" "n - k < 32" "n - 32 < 32" using k n by auto
    then show ?thesis using True n by (simp add: bit_simps)
  next
    case False
    then show ?thesis using k by (auto simp: bit_simps)
  qed
qed

lemma V_drop_all: "64 \<le> k \<Longrightarrow> drop_bit k (V h l) = 0"
  by (rule bit_word_eqI) (auto simp: bit_simps dest: bit_imp_le_length)

lemma V_push_all: "64 \<le> k \<Longrightarrow> push_bit k (V h l) = 0"
  by (rule bit_word_eqI) (auto simp: bit_simps)

lemma bit_sdrop: "n < 64 \<Longrightarrow> bit (signed_drop_bit k (V h l)) n \<longleftrightarrow>
    (if 64 \<le> k + n then bit h 31 else bit (V h l) (k + n))"
  by (simp add: bit_signed_drop_bit_iff)

lemma V_sdrop: "k < 32 \<Longrightarrow> V (sra h k) (push_bit (32 - k) h OR drop_bit k l) = signed_drop_bit k (V h l)"
proof (rule bit_word_eqI)
  fix n assume k: "k < 32" and n: "n < LENGTH(64)"
  consider "n < 32" | "32 \<le> n" "k + n < 64" | "64 \<le> k + n" by linarith
  then show "bit (V (sra h k) (push_bit (32 - k) h OR drop_bit k l)) n = bit (signed_drop_bit k (V h l)) n"
  proof cases
    case 1
    then have "\<not> 64 \<le> k + n" using k by simp
    then show ?thesis using 1 k n
      by (cases "n + k < 32") (auto simp: bit_sdrop bit_simps add.commute elim!: back_subst [of "bit _"])
  next
    case 2
    then have "min 31 (n - 32 + k) = k + n - 32" "n - 32 < 32" by simp_all
    then show ?thesis using 2 n by (simp add: bit_sdrop bit_sra)
  next
    case 3
    then have "min 31 (n - 32 + k) = 31" "\<not> n < 32" "n - 32 < 32" using k n by simp_all
    then show ?thesis using 3 n by (simp add: bit_sdrop bit_sra)
  qed
qed

lemma V_sdrop_high: "32 \<le> k \<Longrightarrow> k < 64 \<Longrightarrow> V (sra h 31) (sra h (k - 32)) = signed_drop_bit k (V h l)"
proof (rule bit_word_eqI)
  fix n assume k: "32 \<le> k" "k < 64" and n: "n < LENGTH(64)"
  show "bit (V (sra h 31) (sra h (k - 32))) n = bit (signed_drop_bit k (V h l)) n"
    using k n by (cases "64 \<le> k + n"; cases "n < 32") (auto simp: bit_sdrop bit_sra min_def elim!: back_subst [of "bit _"])
qed

lemma V_sdrop_all: "64 \<le> k \<Longrightarrow> V (sra h 31) (sra h 31) = signed_drop_bit k (V h l)"
  by (rule bit_word_eqI) (auto simp: bit_sdrop bit_sra min_def elim!: back_subst [of "bit _"])

text \<open>
  The three shifts are those of 64 bits for every count: counts below 1 leave the value,
  counts of 64 and more shift everything out (the arithmetic one leaves the sign).
\<close>

theorem shifts_val:
  "val (rshav a b) = signed_drop_bit (nat b) (val a) \<and> val (rshlv a b) = drop_bit (nat b) (val a) \<and>
   val (lshv a b) = push_bit (nat b) (val a)"
proof -
  consider "b \<le> 0" | "0 < b" "b < 32" | "32 \<le> b" "b < 64" | "64 \<le> b" by linarith
  then show ?thesis
  proof cases
    case 1
    then show ?thesis by (simp add: rshav_def rshlv_def lshv_def val_def Let_def)
  next
    case 2
    then have k: "nat (32 - b) = 32 - nat b" "nat b \<le> 32" "nat b < 32" by linarith+
    show ?thesis using 2 V_sdrop [OF k(3)] V_drop [OF k(2)] V_push [OF k(2)]
      by (simp add: rshav_def rshlv_def lshv_def val_def Let_def k(1) or.commute)
  next
    case 3
    then have k: "nat (b - 32) = nat b - 32" "32 \<le> nat b" "nat b < 64" by linarith+
    show ?thesis using 3 V_sdrop_high [OF k(2,3)] V_drop_high [OF k(2)] V_push_high [OF k(2)]
      by (simp add: rshav_def rshlv_def lshv_def val_def Let_def k(1))
  next
    case 4
    then have k: "64 \<le> nat b" by linarith
    show ?thesis using 4 V_sdrop_all [OF k] V_drop_all [OF k] V_push_all [OF k]
      by (simp add: rshav_def rshlv_def lshv_def val_def Let_def V_zero)
  qed
qed

text \<open>Signed order: the comparison of the high halves decides, then the unsigned low halves.\<close>

lemma centred: "0 \<le> u \<Longrightarrow> u < 2 * H \<Longrightarrow> (u + H) mod (2 * H) - H = (if u < H then u else u - 2 * H)" for u H :: int
proof -
  assume u: "0 \<le> u" "u < 2 * H"
  show ?thesis
  proof (cases "u < H")
    case True
    then show ?thesis using u by (simp add: mod_pos_pos_trivial)
  next
    case False
    have "(u + H) mod (2 * H) = (u - H + 2 * H) mod (2 * H)" by (rule arg_cong [of _ _ "\<lambda>x. x mod (2 * H)"]) simp
    also have "\<dots> = u - H" unfolding mod_add_self2 using u False by (intro mod_pos_pos_trivial) simp_all
    finally show ?thesis using False by simp
  qed
qed

lemma sint_of_uint:
  "sint (w :: u32) = (if uint w < 2147483648 then uint w else uint w - 4294967296)"
  "sint (v :: u64) = (if uint v < 9223372036854775808 then uint v else uint v - 18446744073709551616)"
  using int_word_sint [of "uint w", where 'a = 32] centred [of "uint w" 2147483648] uint_lt2p [of w]
    int_word_sint [of "uint v", where 'a = 64] centred [of "uint v" 9223372036854775808] uint_lt2p [of v]
  by simp_all

lemma sint_V: "sint (V h l) = sint h * 4294967296 + uint l"
proof -
  have "uint (V h l) = uint h * 4294967296 + uint l"
    using arg_cong [OF unat_V [of h l], of int] by simp
  moreover have "uint l < 4294967296" "0 \<le> uint l" using uint_lt2p [of l] by simp_all
  ultimately have u: "uint (V h l) = uint h * 4294967296 + uint l" "uint l < 4294967296" "0 \<le> uint l" by simp_all
  show ?thesis
  proof (cases "uint h < 2147483648")
    case True
    then have "uint (V h l) < 9223372036854775808" using u by linarith
    then show ?thesis using True u(1) by (simp add: sint_of_uint)
  next
    case False
    then have "\<not> uint (V h l) < 9223372036854775808" using u by linarith
    then show ?thesis using False u(1) by (simp add: sint_of_uint)
  qed
qed

lemma sint_V_less: "sint (V a b) < sint (V c d) \<longleftrightarrow> sint a < sint c \<or> a = c \<and> b < d"
proof -
  have l: "uint b < 4294967296" "0 \<le> uint b" "uint d < 4294967296" "0 \<le> uint d"
    using uint_lt2p [of b] uint_lt2p [of d] by simp_all
  have inj: "sint a = sint c \<longleftrightarrow> a = c" by (metis of_int_sint scast_id)
  consider "sint a + 1 \<le> sint c" | "sint a = sint c" | "sint c + 1 \<le> sint a" by linarith
  then show ?thesis
  proof cases
    case 1
    then have "sint a * 4294967296 + uint b < sint c * 4294967296 + uint d" using l by linarith
    then show ?thesis using 1 by (simp add: sint_V)
  next
    case 2
    then show ?thesis using inj by (simp add: sint_V word_less_def)
  next
    case 3
    then have "\<not> sint a * 4294967296 + uint b < sint c * 4294967296 + uint d" using l by linarith
    then show ?thesis using 3 inj by (auto simp: sint_V)
  qed
qed

lemma sint_V_le: "sint (V a b) \<le> sint (V c d) \<longleftrightarrow> sint a < sint c \<or> a = c \<and> b \<le> d"
  using sint_V_less [of c d a b] by (auto simp: not_less [symmetric])
     (metis linorder_neqE of_int_sint scast_id)+

text \<open>
  The comparisons are those of 64 bits, the first four signed and the other four unsigned,
  and \<open>_testv\<close>, \<open>_eqv\<close> and \<open>_nev\<close> are the tests against zero and for equality.
\<close>

theorem comparisons_val:
  "(ltv a b \<longleftrightarrow> sint (val a) < sint (val b)) \<and> (lev a b \<longleftrightarrow> sint (val a) \<le> sint (val b)) \<and>
   (gtv a b \<longleftrightarrow> sint (val a) > sint (val b)) \<and> (gev a b \<longleftrightarrow> sint (val a) \<ge> sint (val b)) \<and>
   (lov a b \<longleftrightarrow> val a < val b) \<and> (lsv a b \<longleftrightarrow> val a \<le> val b) \<and>
   (hiv a b \<longleftrightarrow> val a > val b) \<and> (hsv a b \<longleftrightarrow> val a \<ge> val b) \<and>
   (testv a \<longleftrightarrow> val a \<noteq> 0) \<and> (eqv a b \<longleftrightarrow> val a = val b) \<and> (nev a b \<longleftrightarrow> val a \<noteq> val b)"
proof -
  have eq: "val a = val b \<longleftrightarrow> v_hi a = v_hi b \<and> v_lo a = v_lo b" by (simp add: val_def V_eq_iff)
  show ?thesis
    unfolding ltv_def lev_def gtv_def gev_def lov_def lsv_def hiv_def hsv_def testv_def eqv_def nev_def eq val_zero
    unfolding val_def sint_V_less sint_V_le V_less V_le by auto
qed

text \<open>
  Addition, subtraction, negation, the four increment and decrement operators and the
  bitwise operations are those of 64-bit words.
\<close>

theorem arithmetic_val:
  "val (addv a b) = val a + val b \<and> val (subv a b) = val a - val b \<and> val (vneg a) = - val a \<and>
   (case vpp a of (l, r) \<Rightarrow> val l = val a \<and> val r = val a + 1) \<and>
   (case vmm a of (l, r) \<Rightarrow> val l = val a \<and> val r = val a - 1) \<and>
   (case ppv a of (l, r) \<Rightarrow> val l = val a + 1 \<and> val r = val a + 1) \<and>
   (case mmv a of (l, r) \<Rightarrow> val l = val a - 1 \<and> val r = val a - 1) \<and>
   val (andv a b) = (val a AND val b) \<and> val (orv a b) = (val a OR val b) \<and> val (xorv a b) = (val a XOR val b)"
proof -
  have bits: "V (a AND c) (b AND d) = (V a b AND V c d)" "V (a OR c) (b OR d) = (V a b OR V c d)"
    "V (a XOR c) (b XOR d) = (V a b XOR V c d)" for a b c d
    by (rule bit_word_eqI, simp add: bit_simps)+
  have copy: "V (v_hi v) (v_lo v) = val v" for v by (simp add: val_def)
  show ?thesis
    by (simp add: addv_val subv_val vneg_val vpp_def vmm_def ppv_def mmv_def vinc_val vdec_val copy
        andv_def orv_def xorv_def bits Let_def)
qed


lemma narrow16: "sra (push_bit 16 t) 16 = scast (ucast t :: u16)"
  by (rule bit_word_eqI) (auto simp: bit_sra bit_simps min_def)

lemma narrow8: "sra (push_bit 24 t) 24 = scast (ucast t :: byte)"
  by (rule bit_word_eqI) (auto simp: bit_sra bit_simps min_def)

lemma masks: "t AND 0xffff = ucast (ucast t :: u16)" "t AND 0xff = ucast (ucast t :: byte)" for t :: u32
  by (rule u32_eqI, simp add: bit_simps)+

lemma scast_scast:
  "scast (scast x :: u32) = (scast x :: u64)" "scast (scast y :: u32) = (scast y :: u64)" for x :: u16 and y :: byte
  by (rule bit_word_eqI, auto simp: bit_simps min_def)+

text \<open>
  The conversions: the signed sources are sign-extended from their width, the unsigned ones
  zero-extended, and the narrowing conversions keep the low bits of the value, extended again
  to a \<open>long\<close> by the sign of the target type.
\<close>

theorem conversions_val:
  "val (sl2v t) = scast t \<and> val (si2v t) = scast t \<and> val (ul2v t) = ucast t \<and> val (ui2v t) = ucast t \<and>
   val (p2v t) = ucast t \<and> val (sh2v t) = scast (ucast t :: u16) \<and> val (uh2v t) = ucast (ucast t :: u16) \<and>
   val (sc2v t) = scast (ucast t :: byte) \<and> val (uc2v t) = ucast (ucast t :: byte) \<and>
   v2sl v = ucast (val v) \<and> v2ul v = ucast (val v) \<and> v2si v = ucast (val v) \<and> v2ui v = ucast (val v) \<and>
   v2sh v = scast (ucast (val v) :: u16) \<and> v2uh v = ucast (ucast (val v) :: u16) \<and>
   v2sc v = scast (ucast (val v) :: byte) \<and> v2uc v = ucast (ucast (val v) :: byte)"
proof -
  have low: "ucast (V h l) = l" "(ucast (V h l) :: u16) = ucast l" "(ucast (V h l) :: byte) = ucast l" for h l
    by (rule bit_word_eqI, simp add: bit_simps)+
  have up: "(ucast (ucast x :: u32) :: u64) = ucast (x :: u16)" "(ucast (ucast y :: u32) :: u64) = ucast (y :: byte)" for x y
    by (rule bit_word_eqI, auto simp: bit_simps dest: bit_imp_le_length)+
  show ?thesis
    by (simp add: sl2v_def si2v_def ul2v_def ui2v_def p2v_def sh2v_def uh2v_def sc2v_def uc2v_def v2sl_def
        v2ul_def v2si_def v2ui_def v2sh_def v2uh_def v2sc_def v2uc_def Let_def narrow16 narrow8 masks V_zero up
        val_def low ext_scast scast_scast flip: ext_def)
qed

lemma d2v_shift_V:
  assumes "sh = 1075 - int e"
  shows "if e \<le> 1085 then \<exists>yhi ylo. d2v_shift xhi xlo sh = Inr (yhi, ylo) \<and>
      V yhi ylo = (if e \<le> 1075 then drop_bit (1075 - e) (V xhi xlo) else push_bit (e - 1075) (V xhi xlo))
    else d2v_shift xhi xlo sh = Inl HugeDouble"
proof -
  consider "e = 1075" | "e < 1075" "1075 - e < 32" | "1075 - e = 32" | "32 < 1075 - e" "1075 - e < 64"
    | "64 \<le> 1075 - e" | "1075 < e" "e \<le> 1085" | "1085 < e" by linarith
  then show ?thesis
  proof cases
    case 2
    then have k: "nat sh = 1075 - e" "nat (32 - sh) = 32 - (1075 - e)" "1075 - e \<le> 32" "0 < sh" "sh < 32"
      unfolding assms by linarith+
    show ?thesis using 2(1) k(4,5) V_drop [OF k(3), of xhi xlo]
      by (simp add: d2v_shift_def k(1,2) or.commute)
  next
    case 3
    then have "e = 1043" by linarith
    then show ?thesis using V_drop_high [of 32 xhi xlo] by (simp add: d2v_shift_def assms)
  next
    case 4
    then have k: "nat (sh - 32) = 1075 - e - 32" "32 \<le> 1075 - e" "32 < sh" "sh < 64" "e \<le> 1075"
      unfolding assms by linarith+
    show ?thesis using 4(1) k(3-5) V_drop_high [OF k(2), of xhi xlo]
      by (simp add: d2v_shift_def k(1))
  next
    case 5
    then have "64 \<le> sh" "e \<le> 1075" unfolding assms by linarith+
    then show ?thesis using 5 V_drop_all [OF 5, of xhi xlo] by (simp add: d2v_shift_def V_zero)
  next
    case 6
    then have k: "nat (- sh) = e - 1075" "nat (32 - - sh) = 32 - (e - 1075)" "e - 1075 \<le> 32" "sh < 0" "- sh \<le> 10"
      unfolding assms by linarith+
    show ?thesis using 6 k(4,5) V_push [OF k(3), of xhi xlo] unfolding d2v_shift_def Let_def k(1,2) by simp
  qed (simp_all add: d2v_shift_def assms)
qed

lemma sign_mask: "dhi AND 0x80000000 \<noteq> 0 \<longleftrightarrow> bit dhi 31" for dhi :: u32
proof
  assume "bit dhi 31"
  then have "bit (dhi AND 0x80000000) 31" by (simp add: bit_simps)
  then show "dhi AND 0x80000000 \<noteq> 0" by auto
next
  assume a: "dhi AND 0x80000000 \<noteq> 0"
  show "bit dhi 31"
  proof (rule ccontr)
    assume "\<not> bit dhi 31"
    then have "dhi AND 0x80000000 = 0" by (intro u32_eqI) (simp add: bit_simps)
    with a show False by simp
  qed
qed

text \<open>
  \<open>_d2v\<close> truncates toward zero: with the 53-bit significand \<open>m\<close> and the biased exponent \<open>e\<close>
  of the double, the magnitude of the result is \<open>m\<close> shifted by \<open>e - 1075\<close>, and its sign that of
  the double, whenever the value fits 63 bits (\<open>e \<le> 1085\<close>).
\<close>

theorem d2v_truncates:
  "let e = unat (drop_bit 20 dhi AND 0x7ff); m = V ((dhi AND 0xfffff) OR 0x100000) dlo;
       w = (if e \<le> 1075 then drop_bit (1075 - e) m else push_bit (e - 1075) m)
   in if e \<le> 1085 then \<exists>v. d2v dhi dlo = Inr v \<and> val v = (if bit dhi 31 then - w else w)
      else d2v dhi dlo = Inl HugeDouble"
proof -
  note shift = d2v_shift_V [of "1075 - uint (drop_bit 20 dhi AND 0x7ff)" "unat (drop_bit 20 dhi AND 0x7ff)"
      "(dhi AND 0xfffff) OR 0x100000" dlo]
  show ?thesis
  proof (cases "unat (drop_bit 20 dhi AND 0x7ff) \<le> 1085")
    case True
    then obtain yhi ylo where y: "d2v_shift ((dhi AND 0xfffff) OR 0x100000) dlo (1075 - uint (drop_bit 20 dhi AND 0x7ff)) = Inr (yhi, ylo)"
      "V yhi ylo = (let e = unat (drop_bit 20 dhi AND 0x7ff); m = V ((dhi AND 0xfffff) OR 0x100000) dlo in
         if e \<le> 1075 then drop_bit (1075 - e) m else push_bit (e - 1075) m)"
      using shift by (auto simp: Let_def)
    have "\<exists>v. d2v dhi dlo = Inr v \<and> val v = (if bit dhi 31 then - V yhi ylo else V yhi ylo)"
      by (simp add: d2v_def Let_def y(1) sign_mask V_uminus)
    then show ?thesis unfolding y(2) Let_def if_P [OF True] .
  next
    case False
    then show ?thesis using shift by (simp add: d2v_def Let_def)
  qed
qed


text \<open>The width and the sign of the object that \<open>_vasop\<close> works on.\<close>

definition widen :: "ctype \<Rightarrow> u64 \<Rightarrow> u64" where
  "widen ty lv = (case ty of
       Tschar \<Rightarrow> scast (ucast lv :: byte) | Tuchar \<Rightarrow> ucast (ucast lv :: byte)
     | Tshort \<Rightarrow> scast (ucast lv :: u16) | Tushort \<Rightarrow> ucast (ucast lv :: u16)
     | Tint \<Rightarrow> scast (ucast lv :: u32) | Tuint \<Rightarrow> ucast (ucast lv :: u32)
     | Tlong \<Rightarrow> scast (ucast lv :: u32) | Tulong \<Rightarrow> ucast (ucast lv :: u32)
     | Tvlong \<Rightarrow> lv | Tuvlong \<Rightarrow> lv)"

definition width :: "ctype \<Rightarrow> nat" where
  "width ty = (case ty of Tschar \<Rightarrow> 8 | Tuchar \<Rightarrow> 8 | Tshort \<Rightarrow> 16 | Tushort \<Rightarrow> 16
     | Tint \<Rightarrow> 32 | Tuint \<Rightarrow> 32 | Tlong \<Rightarrow> 32 | Tulong \<Rightarrow> 32 | Tvlong \<Rightarrow> 64 | Tuvlong \<Rightarrow> 64)"

definition signed_narrow :: "ctype \<Rightarrow> bool" where
  "signed_narrow ty \<longleftrightarrow> ty = Tschar \<or> ty = Tshort \<or> ty = Tint \<or> ty = Tlong"

lemma load_narrow_val: "\<not> signed_narrow ty \<Longrightarrow> val (load_narrow ty lv) = widen ty lv"
proof -
  have up: "(ucast (ucast x :: u32) :: u64) = ucast (x :: u16)" "(ucast (ucast y :: u32) :: u64) = ucast (y :: byte)" for x y
    by (rule bit_word_eqI, auto simp: bit_simps dest: bit_imp_le_length)+
  assume "\<not> signed_narrow ty"
  then show ?thesis
    by (cases ty) (simp_all add: load_narrow_def widen_def V_zero up V_split signed_narrow_def)
qed

lemma store_narrow_val: "store_narrow ty u = take_bit (width ty) (val u)"
proof -
  have b: "bit (x :: u32) n \<Longrightarrow> n < 32" for x n using bit_imp_le_length [of x n] by simp
  then show ?thesis
    by (cases ty) (auto simp: store_narrow_def width_def val_def V_def [symmetric] bit_simps intro!: bit_word_eqI intro: b)
qed

text \<open>
  \<open>_vasop\<close> on an object of an unsigned or a 64-bit type applies the operation to the value
  of the object and the operand, stores the low bits of the result and returns the result;
  an unknown type aborts.
\<close>

theorem vasop_unsigned:
  assumes "ctype_of type = Some ty" "\<not> signed_narrow ty"
    and "\<And>a. val a = widen ty lv \<Longrightarrow> \<exists>u. f a rv = Inr u \<and> val u = g (val a) (val rv)"
  shows "\<exists>u. vasop f type lv rv = Some (Inr (u, take_bit (width ty) (val u))) \<and> val u = g (widen ty lv) (val rv)"
  using assms(1) assms(3) [OF load_narrow_val [OF assms(2)]] load_narrow_val [OF assms(2), of lv]
  by (auto simp: vasop_def store_narrow_val)

theorem vasop_unsigned_witness:
  "\<exists>u. vasop (\<lambda>a b. Inr (addv a b)) 2 0xFF (vl 0 2) = Some (Inr (u, take_bit 8 (val u))) \<and> val u = 0xFF + 2"
  using vasop_unsigned [where type = "2" and ty = Tuchar and lv = "0xFF" and f = "\<lambda>a b. Inr (addv a b)"
    and rv = "vl 0 2" and g = "(+)"]
  by (simp add: ctype_of_def signed_narrow_def addv_val widen_def width_def V_zero)

text \<open>
  On the signed narrow types \<open>_vasop\<close> shifts an unsigned \<open>t.lo\<close> by 31 for the high half and
  so drops the sign: \<open>-1\<close> in a \<open>schar\<close>, divided by 2, gives \<open>-1\<close> and not 0.
\<close>

theorem vasop_loses_sign:
  "val (load_narrow Tschar 0xFF) \<noteq> widen Tschar 0xFF \<and>
   (\<exists>u. vasop divv 1 0xFF (vl 0 2) = Some (Inr (u, 0xFF)))"
proof -
  have l: "load_narrow Tschar 0xFF = vl 1 0xFFFFFFFF" by (simp add: load_narrow_def Let_def)
  have "val (vl 0 2) \<noteq> 0" by (simp add: V_zero)
  then obtain q r where q: "dodiv (vl 1 0xFFFFFFFF) (vl 0 2) = Inr (q, r)" "val q = V 1 0xFFFFFFFF div 2"
    using dodiv_correct [of "vl 0 2" "vl 1 0xFFFFFFFF"] by (auto simp: V_zero)
  have "\<not> bit (1 :: u32) 5" "bit (sra 0xFFFFFFFF 31) 5" by (simp_all add: bit_sra)
  then have "1 \<noteq> sra 0xFFFFFFFF 31" by metis
  then have "divv (vl 1 0xFFFFFFFF) (vl 0 2) = Inr q" using q(1) by (simp add: divv_def)
  then show ?thesis using q(2)
    by (auto simp: vasop_def ctype_of_def l store_narrow_val width_def V_def widen_def)
qed

end
