(* ===== verification/Strtol.thy ===== *)
theory Strtol
  imports Prelude "HOL-Library.Signed_Division"
begin

text \<open>
  Numbers from text: \<open>strtol\<close>, \<open>strtoul\<close>, \<open>strtoll\<close>, \<open>strtoull\<close> and \<open>atol\<close> of \<^verbatim>\<open>libkern\<close>.
  A C string is the list of its bytes before the terminator, a position in it the suffix that
  starts there; reading at the end of the suffix reads the terminator.  \<open>long\<close> and \<open>ulong\<close>
  have the width of the type parameter \<open>'a\<close>: 32 bits on most targets, 64 bits on the amd64 and
  aarch64 kernels, whose \<^verbatim>\<open>include/u.h\<close> leave them to the compiler; the constants of the files are
  the 32-bit ones in both.  Signed arithmetic wraps, and each function returns its value and
  \<open>*endptr\<close>.
\<close>

section \<open>Scanning\<close>

definition peek :: "byte list \<Rightarrow> byte" where
  "peek s = (case s of [] \<Rightarrow> 0 | c # _ \<Rightarrow> c)"

definition white :: "byte \<Rightarrow> bool" where
  "white c \<longleftrightarrow> c = 0x20 \<or> c = 0x09 \<or> c = 0x0A \<or> c = 0x0C \<or> c = 0x0D \<or> c = 0x0B"

fun skip_white :: "byte list \<Rightarrow> byte list" where
  "skip_white (c # s) = (if white c then skip_white s else c # s)"
| "skip_white [] = []"

text \<open>\<open>if(*p=='-' || *p=='+') if(*p++ == '-') neg = 1;\<close>\<close>

definition sign_of :: "byte list \<Rightarrow> bool \<times> byte list" where
  "sign_of p = (if peek p = 0x2D then (True, tl p) else if peek p = 0x2B then (False, tl p) else (False, p))"

definition is_x :: "byte \<Rightarrow> bool" where
  "is_x c \<longleftrightarrow> c = 0x78 \<or> c = 0x58"

text \<open>The value of a character as a digit; \<open>base\<close> when it is none.\<close>

definition digit_value :: "int \<Rightarrow> byte \<Rightarrow> int" where
  "digit_value base b = (let c = uint b in
     if 0x30 \<le> c \<and> c \<le> 0x39 then c - 0x30
     else if 0x61 \<le> c \<and> c \<le> 0x7A then c - 0x61 + 10
     else if 0x41 \<le> c \<and> c \<le> 0x5A then c - 0x41 + 10
     else base)"

text \<open>The loop over the digits: \<open>step v\<close> is what one round does with the digit \<open>v\<close>.\<close>

fun digits :: "(int \<Rightarrow> 'a \<Rightarrow> 'a) \<Rightarrow> int \<Rightarrow> byte list \<Rightarrow> nat \<Rightarrow> 'a \<Rightarrow> 'a \<times> byte list \<times> nat" where
  "digits step base (c # p) ndig acc =
     (let v = digit_value base c in
      if v \<ge> base then (acc, c # p, ndig) else digits step base p (ndig + 1) (step v acc))"
| "digits step base [] ndig acc = (acc, [], ndig)"

section \<open>strtol\<close>

definition LONG_MAX :: "'a::len word" where "LONG_MAX = 0x7FFFFFFF"
definition LONG_MIN :: "'a::len word" where "LONG_MIN = - 0x80000000"

definition strtol_base :: "int \<Rightarrow> byte list \<Rightarrow> (int \<times> byte list) option" where
  "strtol_base base p =
     (if base = 0 then
        (if peek p \<noteq> 0x30 then Some (10, p)
         else if is_x (peek (tl p)) then Some (16, tl (tl p)) else Some (8, p))
      else if base = 16 \<and> peek p = 0x30 then
        (if is_x (peek (tl p)) then Some (base, tl (tl p)) else Some (base, p))
      else if base < 0 \<or> 36 < base then None
      else Some (base, p))"

definition strtol_step :: "int \<Rightarrow> int \<Rightarrow> 'a::len word \<times> bool \<Rightarrow> 'a word \<times> bool" where
  "strtol_step base v = (\<lambda>(n, ovfl). let nn = n * word_of_int base + word_of_int v in
     (nn, if sint nn < sint n then True else ovfl))"

definition strtol :: "byte list \<Rightarrow> int \<Rightarrow> 'a::len word \<times> byte list" where
  "strtol nptr base =
     (let p = skip_white nptr; (neg, p) = sign_of p;
          ((n, ovfl), p, ndig) = (case strtol_base base p of None \<Rightarrow> ((0, False), p, 0)
             | Some (base, p) \<Rightarrow> digits (strtol_step base) base p 0 (0, False));
          p = (if ndig = 0 then nptr else p)
      in (if ovfl then (if neg then LONG_MIN else LONG_MAX) else if neg then - n else n, p))"

section \<open>strtoul\<close>

definition ULONG_MAX :: "'a::len word" where "ULONG_MAX = 0xFFFFFFFF"

definition hex_digit :: "byte \<Rightarrow> bool" where
  "hex_digit c \<longleftrightarrow> 0x30 \<le> c \<and> c \<le> 0x39 \<or> 0x61 \<le> c \<and> c \<le> 0x66 \<or> 0x41 \<le> c \<and> c \<le> 0x46"

definition strtoul_base :: "int \<Rightarrow> byte list \<Rightarrow> (int \<times> byte list) option" where
  "strtoul_base base p =
     (let base = (if base = 0 then
                    (if peek p \<noteq> 0x30 then 10 else if is_x (peek (tl p)) then 16 else 8)
                  else base) in
      if base < 2 \<or> 36 < base then None
      else if base = 16 \<and> peek p = 0x30 \<and> is_x (peek (tl p)) \<and> hex_digit (peek (tl (tl p)))
        then Some (base, tl (tl p))
      else Some (base, p))"

definition strtoul_step :: "int \<Rightarrow> int \<Rightarrow> 'a::len word \<times> bool \<Rightarrow> 'a word \<times> bool" where
  "strtoul_step base v = (\<lambda>(n, ovfl).
     let m = ULONG_MAX div word_of_int base;
         ovfl = (if n > m then True else ovfl);
         nn = n * word_of_int base + word_of_int v in
     (nn, if nn < n then True else ovfl))"

definition strtoul :: "byte list \<Rightarrow> int \<Rightarrow> 'a::len word \<times> byte list" where
  "strtoul nptr base =
     (let p = skip_white nptr; (neg, p) = sign_of p;
          ((n, ovfl), p, ndig) = (case strtoul_base base p of None \<Rightarrow> ((0, False), p, 0)
             | Some (base, p) \<Rightarrow> digits (strtoul_step base) base p 0 (0, False));
          p = (if ndig = 0 then nptr else p)
      in (if ovfl then ULONG_MAX else if neg then - n else n, p))"

section \<open>strtoll and strtoull\<close>

definition strtoll_base :: "int \<Rightarrow> byte list \<Rightarrow> (int \<times> byte list) option" where
  "strtoll_base base p =
     (if base = 0 then
        (if peek p \<noteq> 0x30 then Some (10, p)
         else if is_x (peek (tl p)) then Some (16, tl (tl p)) else Some (8, p))
      else if base = 16 \<and> peek p = 0x30 then
        (if is_x (peek (tl p)) then Some (base, tl (tl p)) else Some (base, p))
      else if base < 0 \<or> 36 < base then None
      else Some (base, p))"

definition strtoll_step :: "int \<Rightarrow> int \<Rightarrow> u64 \<Rightarrow> u64" where
  "strtoll_step base v n = n * word_of_int base + word_of_int v"

definition strtoll :: "byte list \<Rightarrow> int \<Rightarrow> u64 \<times> byte list" where
  "strtoll nptr base =
     (let p = skip_white nptr; (neg, p) = sign_of p;
          (n, p, ndig) = (case strtoll_base base p of None \<Rightarrow> (0, p, 0)
             | Some (base, p) \<Rightarrow> digits (strtoll_step base) base p 0 0);
          p = (if ndig = 0 then nptr else p)
      in (if neg then - n else n, p))"

text \<open>\<open>1LL<<63\<close> is a negative \<open>vlong\<close>; dividing it by the \<open>int\<close> base is a signed division.\<close>

definition UVLONG_MAX :: int where "UVLONG_MAX = - (2 ^ 63)"

definition strtoull_base :: "int \<Rightarrow> byte list \<Rightarrow> (int \<times> byte list) option" where
  "strtoull_base base p =
     (if base = 0 then
        (if peek p = 0x30 then
           (if is_x (peek (tl p)) then Some (16, tl (tl p)) else Some (8, p))
         else Some (10, p))
      else if base = 16 \<and> peek p = 0x30 then
        (if is_x (peek (tl p)) then Some (base, tl (tl p)) else Some (base, p))
      else if base < 0 \<or> 36 < base then None
      else Some (base, p))"

definition strtoull_step :: "int \<Rightarrow> int \<Rightarrow> u64 \<times> bool \<Rightarrow> u64 \<times> bool" where
  "strtoull_step base v = (\<lambda>(n, ovfl).
     let m = word_of_int (UVLONG_MAX sdiv base);
         ovfl = (if n > m then True else ovfl);
         nn = n * word_of_int base + word_of_int v in
     (nn, if nn < n then True else ovfl))"

definition strtoull :: "byte list \<Rightarrow> int \<Rightarrow> u64 \<times> byte list" where
  "strtoull nptr base =
     (let p = skip_white nptr; (neg, p) = sign_of p;
          ((n, ovfl), p, ndig) = (case strtoull_base base p of None \<Rightarrow> ((0, False), p, 0)
             | Some (base, p) \<Rightarrow> digits (strtoull_step base) base p 0 (0, False));
          p = (if ndig = 0 then nptr else p)
      in (if ovfl then word_of_int UVLONG_MAX else if neg then - n else n, p))"

section \<open>atol\<close>

fun skip_blank :: "byte list \<Rightarrow> byte list" where
  "skip_blank (c # s) = (if c = 0x20 \<or> c = 0x09 then skip_blank s else c # s)"
| "skip_blank [] = []"

text \<open>The three digit loops of \<open>atol\<close>; \<open>n*16 + *s++ - '0'\<close> adds and subtracts in that order.\<close>

fun atol_hex :: "byte list \<Rightarrow> 'a::len word \<Rightarrow> 'a word" where
  "atol_hex (c # s) n =
     (if 0x30 \<le> c \<and> c \<le> 0x39 then atol_hex s (n * 16 + ucast c - 0x30)
      else if 0x61 \<le> c \<and> c \<le> 0x66 then atol_hex s (n * 16 + ucast c - 0x61 + 10)
      else if 0x41 \<le> c \<and> c \<le> 0x46 then atol_hex s (n * 16 + ucast c - 0x41 + 10)
      else n)"
| "atol_hex [] n = n"

fun atol_oct :: "byte list \<Rightarrow> 'a::len word \<Rightarrow> 'a word" where
  "atol_oct (c # s) n = (if 0x30 \<le> c \<and> c \<le> 0x37 then atol_oct s (n * 8 + ucast c - 0x30) else n)"
| "atol_oct [] n = n"

fun atol_dec :: "byte list \<Rightarrow> 'a::len word \<Rightarrow> 'a word" where
  "atol_dec (c # s) n = (if 0x30 \<le> c \<and> c \<le> 0x39 then atol_dec s (n * 10 + ucast c - 0x30) else n)"
| "atol_dec [] n = n"

definition atol :: "byte list \<Rightarrow> 'a::len word" where
  "atol s0 =
     (let s = skip_blank s0;
          (f, s) = (if peek s = 0x2D then (True, skip_blank (tl s))
                    else if peek s = 0x2B then (False, skip_blank (tl s)) else (False, s));
          n = (if peek s = 0x30 \<and> peek (tl s) \<noteq> 0 then
                 (if is_x (peek (tl s)) then atol_hex (tl (tl s)) 0 else atol_oct s 0)
               else atol_dec s 0)
      in if f then - n else n)"

text \<open>An \<open>int\<close>: the low 32 bits of the \<open>long\<close>, the same whatever its width.\<close>

definition atoi :: "byte list \<Rightarrow> u32" where
  "atoi s = atol s"


section \<open>What a text denotes\<close>

definition digit_run :: "int \<Rightarrow> byte list \<Rightarrow> byte list" where
  "digit_run base p = takeWhile (\<lambda>c. digit_value base c < base) p"

definition number :: "int \<Rightarrow> int \<Rightarrow> byte list \<Rightarrow> int" where
  "number base n ds = foldl (\<lambda>n c. n * base + digit_value base c) n ds"

text \<open>The sign, the mathematical value of the digits and the rest of a text, for a reading \<open>bf\<close> of the base.\<close>

definition scan :: "(int \<Rightarrow> byte list \<Rightarrow> (int \<times> byte list) option) \<Rightarrow> byte list \<Rightarrow> int \<Rightarrow> bool \<times> int \<times> byte list" where
  "scan bf nptr base =
     (case sign_of (skip_white nptr) of (neg, p) \<Rightarrow>
        (case bf base p of None \<Rightarrow> (neg, 0, nptr)
         | Some (base, p) \<Rightarrow> let ds = digit_run base p in
             (neg, number base 0 ds, if ds = [] then nptr else drop (length ds) p)))"

lemma digit_value_nonneg: "0 \<le> base \<Longrightarrow> 0 \<le> digit_value base c"
  by (auto simp: digit_value_def Let_def)

lemma number_mono: "1 \<le> base \<Longrightarrow> 0 \<le> n \<Longrightarrow> n \<le> number base n ds"
proof (induction ds arbitrary: n)
  case (Cons c ds)
  have "n * 1 \<le> n * base" using Cons.prems by (intro mult_left_mono) simp_all
  moreover have "0 \<le> digit_value base c" using Cons.prems by (simp add: digit_value_nonneg)
  ultimately have "n \<le> n * base + digit_value base c" by simp
  also have "\<dots> \<le> number base (n * base + digit_value base c) ds"
    using Cons.prems calculation by (intro Cons.IH) simp_all
  finally show ?case by (simp add: number_def)
qed (simp add: number_def)

text \<open>
  The interface between the digit loop and the accumulators of the five functions: one round in
  a base keeps the relation \<open>rel\<close> between the base, the value read so far and the accumulator.
\<close>

locale accumulator =
  fixes step :: "int \<Rightarrow> int \<Rightarrow> 'a \<Rightarrow> 'a" and rel :: "int \<Rightarrow> int \<Rightarrow> 'a \<Rightarrow> bool" and least :: int
  assumes step_rel: "least \<le> base \<Longrightarrow> base \<le> 36 \<Longrightarrow> 0 \<le> n \<Longrightarrow> rel base n acc \<Longrightarrow> 0 \<le> v \<Longrightarrow> v < base \<Longrightarrow>
      rel base (n * base + v) (step base v acc)"
    and least_pos: "0 < least"
begin

lemma digits_rel:
  assumes "least \<le> base" "base \<le> 36" "0 \<le> n" "rel base n acc"
  shows "\<exists>acc'. digits (step base) base p k acc =
      (acc', drop (length (digit_run base p)) p, k + length (digit_run base p)) \<and>
    rel base (number base n (digit_run base p)) acc'"
  using assms(3,4)
proof (induction p arbitrary: n k acc)
  case Nil
  then show ?case by (simp add: digit_run_def number_def)
next
  case (Cons c p)
  show ?case
  proof (cases "digit_value base c < base")
    case True
    have v: "0 \<le> digit_value base c" using assms(1) least_pos by (simp add: digit_value_nonneg)
    have "rel base (n * base + digit_value base c) (step base (digit_value base c) acc)"
      using step_rel [OF assms(1,2) Cons.prems v True] .
    moreover have "0 \<le> n * base + digit_value base c" using Cons.prems v assms(1) least_pos by simp
    ultimately obtain acc' where "digits (step base) base p (k + 1) (step base (digit_value base c) acc) =
        (acc', drop (length (digit_run base p)) p, k + 1 + length (digit_run base p))"
      "rel base (number base (n * base + digit_value base c) (digit_run base p)) acc'"
      using Cons.IH by blast
    then show ?thesis using True by (simp add: digit_run_def number_def Let_def)
  next
    case False
    then show ?thesis using Cons.prems by (simp add: digit_run_def number_def Let_def)
  qed
qed

text \<open>The function built on the loop, up to what it does with the final accumulator.\<close>

lemma scan_rel:
  assumes "\<And>b. rel b 0 acc0" "\<forall>b q. bf base p = Some (b, q) \<longrightarrow> least \<le> b \<and> b \<le> 36"
    and "sign_of (skip_white nptr) = (neg, p)"
  shows "\<exists>acc b value rest. scan bf nptr base = (neg, value, rest) \<and> rel b value acc \<and>
    (case (case bf base p of None \<Rightarrow> (acc0, p, 0) | Some (base, p) \<Rightarrow> digits (step base) base p 0 acc0) of
       (acc', p, ndig) \<Rightarrow> (acc', if ndig = 0 then nptr else p)) = (acc, rest)"
proof (cases "bf base p")
  case None
  then show ?thesis using assms(1,3) by (simp add: scan_def)
next
  case (Some bq)
  obtain b q where bq: "bq = (b, q)" by force
  then have "least \<le> b" "b \<le> 36" using assms(2) Some by auto
  from digits_rel [OF this order_refl assms(1), of q 0] show ?thesis using Some bq assms(3)
    by (auto simp: scan_def Let_def digit_run_def)
qed

end

text \<open>Words that stand for a number modulo their width.\<close>

lemma word_step: "word_of_int n * word_of_int base + word_of_int v = (word_of_int (n * base + v) :: 'a::len word)"
  by simp

lemma uint_u32: "uint (word_of_int n :: u32) = n mod 4294967296"
  by (simp add: uint_word_of_int)

lemma uint_u64: "uint (word_of_int n :: u64) = n mod 18446744073709551616"
  by (simp add: uint_word_of_int)

lemma grows: "0 \<le> n \<Longrightarrow> 1 \<le> base \<Longrightarrow> 0 \<le> v \<Longrightarrow> n \<le> n * base + v" for n base v :: int
  using mult_left_mono [of 1 base n] by simp

text \<open>
  \<open>strtoul\<close>: the word is the value modulo its width.  With 32 bits the flag says exactly that
  the value has overflowed; with 64 bits, that the digits before the last are worth more than
  the quotient \<open>m\<close>.
\<close>

definition strtoul_rel :: "int \<Rightarrow> u32 \<times> bool \<Rightarrow> bool" where
  "strtoul_rel n acc \<longleftrightarrow> fst acc = word_of_int n \<and> (snd acc \<longleftrightarrow> n \<ge> 4294967296)"

definition strtoul64_rel :: "int \<Rightarrow> int \<Rightarrow> u64 \<times> bool \<Rightarrow> bool" where
  "strtoul64_rel base n acc \<longleftrightarrow> fst acc = word_of_int n \<and> (snd acc \<longleftrightarrow> n div base > 4294967295 div base)"

lemma strtoul_guard:
  fixes n v base :: int
  assumes "2 \<le> base" "base \<le> 36" "0 \<le> n" "n < 4294967296" "0 \<le> v" "v < base"
  shows "(n > 4294967295 div base \<or> (n * base + v) mod 4294967296 < n) \<longleftrightarrow> n * base + v \<ge> 4294967296"
proof -
  let ?m = "4294967295 div base"
  have m: "?m * base \<le> 4294967295" using assms(1) by (simp add: minus_mod_eq_div_mult [symmetric])
  have m2: "4294967295 < (?m + 1) * base"
  proof -
    have "base * ?m + 4294967295 mod base = 4294967295" by (rule mult_div_mod_eq)
    moreover have "4294967295 mod base < base" using assms(1) by (intro pos_mod_bound) simp
    moreover have "(?m + 1) * base = base * ?m + base" by (simp add: algebra_simps)
    ultimately show ?thesis by linarith
  qed
  show ?thesis
  proof (cases "n > ?m")
    case True
    then have "(?m + 1) * base \<le> n * base" using assms(1) by (intro mult_right_mono) simp_all
    then show ?thesis using True m2 assms(5) by linarith
  next
    case False
    then have nb: "n * base \<le> 4294967295" using mult_right_mono [of n ?m base] m assms(1) by linarith
    show ?thesis
    proof (cases "n * base + v \<ge> 4294967296")
      case True
      have "(n * base + v) mod 4294967296 = (n * base + v - 4294967296) mod 4294967296" by (simp add: mod_simps)
      also have "\<dots> = n * base + v - 4294967296" using True nb assms by (intro mod_pos_pos_trivial) linarith+
      finally have e: "(n * base + v) mod 4294967296 = n * base + v - 4294967296" .
      have "n * base \<le> n * 36" using assms(2,3) by (intro mult_left_mono) simp_all
      then have "n > 36" using True assms by linarith
      then show ?thesis using True e nb assms by linarith
    next
      case no: False
      then have "(n * base + v) mod 4294967296 = n * base + v"
        using assms by (intro mod_pos_pos_trivial) (simp_all add: mult_nonneg_nonneg)
      moreover have "n \<le> n * base + v" using grows assms by simp
      ultimately show ?thesis using False no by linarith
    qed
  qed
qed

interpretation strtoul: accumulator strtoul_step "\<lambda>_. strtoul_rel" 2
proof
  fix base n v :: int and acc :: "u32 \<times> bool"
  assume a: "2 \<le> base" "base \<le> 36" "0 \<le> n" "strtoul_rel n acc" "0 \<le> v" "v < base"
  obtain w ov where acc: "acc = (w, ov)" by force
  have w: "w = word_of_int n" "ov \<longleftrightarrow> n \<ge> 4294967296" using a(4) acc by (simp_all add: strtoul_rel_def)
  have b: "uint (word_of_int base :: u32) = base" using a(1,2) by (simp add: uint_u32)
  have m: "uint (ULONG_MAX div word_of_int base :: u32) = 4294967295 div base"
    by (simp add: uint_div_distrib b ULONG_MAX_def)
  have "snd (strtoul_step base v acc) \<longleftrightarrow> n * base + v \<ge> 4294967296"
  proof (cases "n \<ge> 4294967296")
    case True
    then show ?thesis using grows [of n base v] a w acc by (simp add: strtoul_step_def Let_def)
  next
    case False
    then have u: "uint w = n" using w a(3) by (simp add: uint_u32)
    have "snd (strtoul_step base v acc) \<longleftrightarrow> n > 4294967295 div base \<or> (n * base + v) mod 4294967296 < n"
      using w(2) False u m by (auto simp: strtoul_step_def Let_def acc word_less_def w(1) uint_u32 simp flip: of_int_mult of_int_add)
    then show ?thesis using strtoul_guard [OF a(1,2,3) _ a(5,6)] False by simp
  qed
  then show "strtoul_rel (n * base + v) (strtoul_step base v acc)"
    by (simp add: strtoul_rel_def strtoul_step_def acc w(1) Let_def)
qed simp


interpretation strtoul64: accumulator strtoul_step strtoul64_rel 2
proof
  fix base n v :: int and acc :: "u64 \<times> bool"
  assume a: "2 \<le> base" "base \<le> 36" "0 \<le> n" "strtoul64_rel base n acc" "0 \<le> v" "v < base"
  obtain w ov where acc: "acc = (w, ov)" by force
  have w: "w = word_of_int n" "ov \<longleftrightarrow> n div base > 4294967295 div base"
    using a(4) acc by (simp_all add: strtoul64_rel_def)
  have b: "uint (word_of_int base :: u64) = base" using a(1,2) by (simp add: uint_u64)
  have m: "uint (ULONG_MAX div word_of_int base :: u64) = 4294967295 div base"
    by (simp add: uint_div_distrib b ULONG_MAX_def)
  have d: "(n * base + v) div base = n" using a(1,5,6) by simp
  have "snd (strtoul_step base v acc) \<longleftrightarrow> n > 4294967295 div base"
  proof (cases "n < 18446744073709551616")
    case True
    then have u: "uint w = n" using a(3) w(1) by (simp add: uint_u64)
    have c: "w > ULONG_MAX div word_of_int base \<longleftrightarrow> n > 4294967295 div base"
      unfolding word_less_def m u ..
    have ov: "ov \<Longrightarrow> n > 4294967295 div base"
    proof -
      have "n div base \<le> n div 1" using a(1,3) by (intro zdiv_mono2) simp_all
      then show "ov \<Longrightarrow> n > 4294967295 div base" using w(2) by simp
    qed
    have "\<not> w * word_of_int base + word_of_int v < w" if le: "n \<le> 4294967295 div base"
    proof -
      have "4294967295 div base * base \<le> 4294967295" using a(1) by (simp add: minus_mod_eq_div_mult [symmetric])
      then have "n * base \<le> 4294967295" using mult_right_mono [of n "4294967295 div base" base] le a(1) by linarith
      then have "uint (word_of_int (n * base + v) :: u64) = n * base + v"
        unfolding uint_u64 using a grows [of n base v] by (intro mod_pos_pos_trivial) linarith+
      then show ?thesis
        unfolding w(1) word_step unfolding w(1) [symmetric] word_less_def u using grows [of n base v] a by simp
    qed
    then show ?thesis using c ov by (auto simp: strtoul_step_def acc Let_def)
  next
    case False
    have "4294967295 div base < n div base"
    proof -
      have "4294967295 div base \<le> 4294967295 div 2" using a(1) by (intro zdiv_mono2) simp_all
      moreover have "n div 36 \<le> n div base" using a(1-3) by (intro zdiv_mono2) simp_all
      ultimately show ?thesis using False by linarith
    qed
    moreover have "4294967295 div base \<le> 4294967295 div 2" using a(1) by (intro zdiv_mono2) simp_all
    ultimately show ?thesis using w(2) False by (simp add: strtoul_step_def acc Let_def)
  qed
  then show "strtoul64_rel base (n * base + v) (strtoul_step base v acc)"
    unfolding strtoul64_rel_def d by (simp add: strtoul_step_def acc w(1) Let_def)
qed simp

text \<open>\<open>strtol\<close>: exact up to \<open>2 ^ 32\<close>, where the flag is the overflow of the signed type.\<close>

definition strtol_rel :: "int \<Rightarrow> u32 \<times> bool \<Rightarrow> bool" where
  "strtol_rel n acc \<longleftrightarrow> fst acc = word_of_int n \<and> (n < 2147483648 \<longrightarrow> \<not> snd acc) \<and>
     (2147483648 \<le> n \<and> n < 4294967296 \<longrightarrow> snd acc)"

lemma sint_low: "0 \<le> n \<Longrightarrow> n < 2147483648 \<Longrightarrow> sint (word_of_int n :: u32) = n"
proof -
  assume n: "0 \<le> n" "n < 2147483648"
  then have "(n + 2147483648) mod 4294967296 = n + 2147483648" by (intro mod_pos_pos_trivial) simp_all
  then show ?thesis by (simp add: int_word_sint)
qed

lemma sint_high: "2147483648 \<le> n \<Longrightarrow> n < 4294967296 \<Longrightarrow> sint (word_of_int n :: u32) = n - 4294967296"
proof -
  assume n: "2147483648 \<le> n" "n < 4294967296"
  have "(n + 2147483648) mod 4294967296 = (n - 2147483648 + 4294967296) mod 4294967296"
    by (rule arg_cong [of _ _ "\<lambda>x. x mod 4294967296"]) simp
  also have "\<dots> = n - 2147483648" unfolding mod_add_self2 using n by (intro mod_pos_pos_trivial) simp_all
  finally show ?thesis by (simp add: int_word_sint)
qed

interpretation strtol: accumulator strtol_step "\<lambda>_. strtol_rel" 1
proof
  fix base n v :: int and acc :: "u32 \<times> bool"
  assume a: "1 \<le> base" "base \<le> 36" "0 \<le> n" "strtol_rel n acc" "0 \<le> v" "v < base"
  obtain w ov where acc: "acc = (w, ov)" by force
  have w: "w = word_of_int n" "n < 2147483648 \<Longrightarrow> \<not> ov" "2147483648 \<le> n \<Longrightarrow> n < 4294967296 \<Longrightarrow> ov"
    using a(4) acc by (simp_all add: strtol_rel_def)
  have g: "n \<le> n * base + v" using grows [of n base v] a by simp
  have s: "snd (strtol_step base v acc) \<longleftrightarrow> ov \<or> sint (word_of_int (n * base + v) :: u32) < sint (word_of_int n :: u32)"
    by (auto simp: strtol_step_def acc w(1) Let_def)
  have "\<not> snd (strtol_step base v acc)" if lt: "n * base + v < 2147483648"
  proof -
    have "sint (word_of_int (n * base + v) :: u32) = n * base + v" "sint (word_of_int n :: u32) = n"
      using lt g a(3) by (intro sint_low; linarith)+
    then show ?thesis using w(2) lt g unfolding s by linarith
  qed
  moreover have "snd (strtol_step base v acc)" if lt: "2147483648 \<le> n * base + v" "n * base + v < 4294967296"
  proof (cases "n < 2147483648")
    case True
    have "sint (word_of_int (n * base + v) :: u32) = n * base + v - 4294967296" using lt by (rule sint_high)
    moreover have "sint (word_of_int n :: u32) = n" using True a(3) by (intro sint_low)
    ultimately show ?thesis using lt a(3) unfolding s by linarith
  next
    case False
    then show ?thesis using w(3) lt g unfolding s by linarith
  qed
  ultimately show "strtol_rel (n * base + v) (strtol_step base v acc)"
    by (simp add: strtol_rel_def) (simp add: strtol_step_def acc w(1) Let_def)
qed simp

definition strtoll_rel :: "int \<Rightarrow> u64 \<Rightarrow> bool" where
  "strtoll_rel n acc \<longleftrightarrow> acc = word_of_int n"

interpretation strtoll: accumulator strtoll_step "\<lambda>_. strtoll_rel" 1
  by unfold_locales (simp_all add: strtoll_rel_def strtoll_step_def)

definition strtoull_rel :: "int \<Rightarrow> u64 \<times> bool \<Rightarrow> bool" where
  "strtoull_rel n acc \<longleftrightarrow> fst acc = word_of_int n \<and> (n < 18446744073709551616 \<longrightarrow> \<not> snd acc)"

lemma strtoull_limit:
  assumes "1 \<le> base" "base \<le> (36 :: int)"
  shows "uint (word_of_int (UVLONG_MAX sdiv base) :: u64) = 18446744073709551616 - 9223372036854775808 div base"
    "9223372036854775808 div base \<le> 9223372036854775808"
proof -
  let ?q = "9223372036854775808 div base"
  have "UVLONG_MAX sdiv base = - ?q" using assms by (simp add: UVLONG_MAX_def signed_divide_int_def)
  moreover have q: "9223372036854775808 div 36 \<le> ?q" "?q \<le> 9223372036854775808 div 1"
    using assms by (intro zdiv_mono2; simp)+
  moreover have "(- ?q) mod 18446744073709551616 = (18446744073709551616 - ?q) mod 18446744073709551616"
    using mod_add_self2 [of "- ?q" 18446744073709551616] by simp
  moreover have "\<dots> = 18446744073709551616 - ?q" using q by (intro mod_pos_pos_trivial) simp_all
  ultimately show "uint (word_of_int (UVLONG_MAX sdiv base) :: u64) = 18446744073709551616 - ?q"
    "?q \<le> 9223372036854775808" by (simp_all only: uint_u64 div_by_1)
qed

interpretation strtoull: accumulator strtoull_step "\<lambda>_. strtoull_rel" 2
proof
  fix base n v :: int and acc :: "u64 \<times> bool"
  assume a: "2 \<le> base" "base \<le> 36" "0 \<le> n" "strtoull_rel n acc" "0 \<le> v" "v < base"
  obtain w ov where acc: "acc = (w, ov)" by force
  have w: "w = word_of_int n" "n < 18446744073709551616 \<Longrightarrow> \<not> ov" using a(4) acc by (simp_all add: strtoull_rel_def)
  have g: "n \<le> n * base + v" using grows [of n base v] a by simp
  have "\<not> snd (strtoull_step base v acc)" if lt: "n * base + v < 18446744073709551616"
  proof -
    have n: "n < 18446744073709551616" using g lt by simp
    then have u: "uint w = n" using a(3) w(1) by (simp add: uint_u64)
    have u2: "uint (word_of_int (n * base + v) :: u64) = n * base + v"
      unfolding uint_u64 using a(3) g lt by (intro mod_pos_pos_trivial) linarith+
    have "n * 2 \<le> n * base" using a(1,3) by (intro mult_left_mono) simp_all
    then have "n < 9223372036854775808" using lt a(5) by linarith
    then have "n \<le> 18446744073709551616 - 9223372036854775808 div base"
      using strtoull_limit(2) [of base] a(1,2) by linarith
    then have "\<not> w > word_of_int (UVLONG_MAX sdiv base)"
      using u strtoull_limit(1) [of base] a(1,2) by (simp add: word_less_def)
    moreover have "\<not> w * word_of_int base + word_of_int v < w"
      unfolding w(1) word_step unfolding w(1) [symmetric] word_less_def u u2 using g by simp
    ultimately show ?thesis using w(2) [OF n] by (simp add: strtoull_step_def acc Let_def)
  qed
  then show "strtoull_rel (n * base + v) (strtoull_step base v acc)"
    by (simp add: strtoull_rel_def) (simp add: strtoull_step_def acc w(1) Let_def)
qed simp

text \<open>The loops of \<open>atol\<close> read the same digits.\<close>

lemma byte_range: "(a :: byte) \<le> c \<and> c \<le> b \<longleftrightarrow> uint a \<le> uint c \<and> uint c \<le> uint b"
  by (simp add: word_le_def)

lemma digit_run_Cons: "digit_run base (c # s) = (if digit_value base c < base then c # digit_run base s else [])"
  by (simp add: digit_run_def)

lemma number_Cons: "number base n (c # s) = number base (n * base + digit_value base c) s"
  by (simp add: number_def)

lemma number_Nil: "number base n [] = n"
  by (simp add: number_def)

lemma digit_cases:
  "0x30 \<le> c \<and> c \<le> 0x39 \<Longrightarrow> digit_value base c = uint c - 0x30 \<and> 0 \<le> uint c - 0x30 \<and> uint c - 0x30 \<le> 9"
  "0x61 \<le> c \<and> c \<le> 0x66 \<Longrightarrow> digit_value base c = uint c - 0x61 + 10 \<and> uint c - 0x61 + 10 \<le> 15"
  "0x41 \<le> c \<and> c \<le> 0x46 \<Longrightarrow> digit_value base c = uint c - 0x41 + 10 \<and> uint c - 0x41 + 10 \<le> 15"
  "\<not> (0x30 \<le> c \<and> c \<le> 0x39) \<Longrightarrow> \<not> (0x61 \<le> c \<and> c \<le> 0x66) \<Longrightarrow> \<not> (0x41 \<le> c \<and> c \<le> 0x46) \<Longrightarrow> 16 \<le> digit_value 16 c"
  "\<not> (0x30 \<le> c \<and> c \<le> 0x39) \<Longrightarrow> 10 \<le> digit_value 10 c"
  "\<not> (0x30 \<le> c \<and> c \<le> 0x37) \<Longrightarrow> 8 \<le> digit_value 8 c"
  by (auto simp: byte_range digit_value_def Let_def)

lemma atol_hex_number: "atol_hex s (word_of_int n :: 'a::len word) = word_of_int (number 16 n (digit_run 16 s))"
proof (induction s arbitrary: n)
  case (Cons c s)
  have eq: "(word_of_int n * 16 + ucast c - 0x30 :: 'a word) = word_of_int (n * 16 + (uint c - 0x30))"
    "(word_of_int n * 16 + ucast c - 0x61 + 10 :: 'a word) = word_of_int (n * 16 + (uint c - 0x61 + 10))"
    "(word_of_int n * 16 + ucast c - 0x41 + 10 :: 'a word) = word_of_int (n * 16 + (uint c - 0x41 + 10))"
    by simp_all
  consider (d) "0x30 \<le> c \<and> c \<le> 0x39" | (l) "\<not> (0x30 \<le> c \<and> c \<le> 0x39)" "0x61 \<le> c \<and> c \<le> 0x66"
    | (u) "\<not> (0x30 \<le> c \<and> c \<le> 0x39)" "\<not> (0x61 \<le> c \<and> c \<le> 0x66)" "0x41 \<le> c \<and> c \<le> 0x46"
    | (n) "\<not> (0x30 \<le> c \<and> c \<le> 0x39)" "\<not> (0x61 \<le> c \<and> c \<le> 0x66)" "\<not> (0x41 \<le> c \<and> c \<le> 0x46)" by blast
  then show ?case
  proof cases
    case d
    show ?thesis using digit_cases(1) [OF d, of 16] unfolding atol_hex.simps if_P [OF d] eq Cons.IH
      by (simp add: digit_run_Cons number_Cons)
  next
    case l
    show ?thesis using digit_cases(2) [OF l(2), of 16] unfolding atol_hex.simps if_not_P [OF l(1)] if_P [OF l(2)] eq Cons.IH
      by (simp add: digit_run_Cons number_Cons)
  next
    case u
    show ?thesis using digit_cases(3) [OF u(3), of 16]
      unfolding atol_hex.simps if_not_P [OF u(1)] if_not_P [OF u(2)] if_P [OF u(3)] eq Cons.IH
      by (simp add: digit_run_Cons number_Cons)
  next
    case n
    show ?thesis using digit_cases(4) [OF n]
      unfolding atol_hex.simps if_not_P [OF n(1)] if_not_P [OF n(2)] if_not_P [OF n(3)]
      by (simp add: digit_run_Cons number_Nil)
  qed
qed (simp add: digit_run_def number_def)

lemma atol_oct_number: "atol_oct s (word_of_int n :: 'a::len word) = word_of_int (number 8 n (digit_run 8 s))"
proof (induction s arbitrary: n)
  case (Cons c s)
  have eq: "(word_of_int n * 8 + ucast c - 0x30 :: 'a word) = word_of_int (n * 8 + (uint c - 0x30))"
    by simp
  show ?case
  proof (cases "0x30 \<le> c \<and> c \<le> 0x37")
    case True
    then have "digit_value 8 c = uint c - 0x30 \<and> uint c - 0x30 \<le> 7"
      by (auto simp: byte_range digit_value_def Let_def)
    then show ?thesis unfolding atol_oct.simps if_P [OF True] eq Cons.IH
      by (simp add: digit_run_Cons number_Cons)
  next
    case False
    show ?thesis using digit_cases(6) [OF False] unfolding atol_oct.simps if_not_P [OF False]
      by (simp add: digit_run_Cons number_Nil)
  qed
qed (simp add: digit_run_def number_def)

lemma atol_dec_number: "atol_dec s (word_of_int n :: 'a::len word) = word_of_int (number 10 n (digit_run 10 s))"
proof (induction s arbitrary: n)
  case (Cons c s)
  have eq: "(word_of_int n * 10 + ucast c - 0x30 :: 'a word) = word_of_int (n * 10 + (uint c - 0x30))"
    by simp
  show ?case
  proof (cases "0x30 \<le> c \<and> c \<le> 0x39")
    case True
    show ?thesis using digit_cases(1) [OF True, of 10] unfolding atol_dec.simps if_P [OF True] eq Cons.IH
      by (simp add: digit_run_Cons number_Cons)
  next
    case False
    show ?thesis using digit_cases(5) [OF False] unfolding atol_dec.simps if_not_P [OF False]
      by (simp add: digit_run_Cons number_Nil)
  qed
qed (simp add: digit_run_def number_def)

section \<open>Numerals\<close>

text \<open>
  What a numeral is, stated without the code: white space, a sign, a prefix and the longest
  non-empty run of digits in the radix, in the manner of the constants of C.
\<close>

definition digit_table :: "(byte \<times> nat) list" where
  "digit_table = zip (map of_char ''0123456789abcdefghijklmnopqrstuvwxyz'') [0..<36] @
     zip (map of_char ''ABCDEFGHIJKLMNOPQRSTUVWXYZ'') [10..<36]"

definition digit_char :: "byte \<Rightarrow> nat option" where
  "digit_char = map_of digit_table"

definition digit_in :: "int \<Rightarrow> byte \<Rightarrow> bool" where
  "digit_in radix c \<longleftrightarrow> (case digit_char c of None \<Rightarrow> False | Some d \<Rightarrow> int d < radix)"

definition spaces :: "byte set" where
  "spaces = {0x20, 0x09, 0x0A, 0x0B, 0x0C, 0x0D}"

text \<open>\<open>0x\<close> or \<open>0X\<close> counts as a prefix when a hexadecimal digit follows it.\<close>

definition hex_prefixed :: "byte list \<Rightarrow> bool" where
  "hex_prefixed t \<longleftrightarrow> (\<exists>x c u. t = 0x30 # x # c # u \<and> x \<in> {0x78, 0x58} \<and> digit_in 16 c)"

definition prefix_radix :: "int \<Rightarrow> byte list \<Rightarrow> byte list \<Rightarrow> int \<Rightarrow> bool" where
  "prefix_radix base px t radix \<longleftrightarrow>
     (if base \<in> {0, 16} \<and> hex_prefixed (px @ t) then px \<in> {[0x30, 0x78], [0x30, 0x58]} \<and> radix = 16
      else px = [] \<and> (if base = 0 then radix = (if take 1 t = [0x30] then 8 else 10)
                      else 2 \<le> base \<and> base \<le> 36 \<and> radix = base))"

definition numeral_text :: "int \<Rightarrow> byte list \<Rightarrow> bool \<Rightarrow> int \<Rightarrow> nat list \<Rightarrow> byte list \<Rightarrow> bool" where
  "numeral_text base s neg radix ds rest \<longleftrightarrow>
     (\<exists>ws sg px cs. s = ws @ sg @ px @ cs @ rest \<and> set ws \<subseteq> spaces \<and>
        sg \<in> (if neg then {[0x2D]} else {[], [0x2B]}) \<and> prefix_radix base px (cs @ rest) radix \<and>
        cs \<noteq> [] \<and> map digit_char cs = map Some ds \<and> (\<forall>c \<in> set cs. digit_in radix c) \<and>
        (rest \<noteq> [] \<longrightarrow> \<not> digit_in radix (hd rest)))"

definition value_of :: "int \<Rightarrow> nat list \<Rightarrow> int" where
  "value_of radix ds = horner_sum int radix (rev ds)"

text \<open>The code's readers agree with these.\<close>

definition in_digits :: "int \<Rightarrow> nat \<Rightarrow> bool" where
  "in_digits c d \<longleftrightarrow> 0x30 \<le> c \<and> c \<le> 0x39 \<and> int d = c - 0x30 \<or> 0x61 \<le> c \<and> c \<le> 0x7A \<and> int d = c - 0x61 + 10
     \<or> 0x41 \<le> c \<and> c \<le> 0x5A \<and> int d = c - 0x41 + 10"

lemma digit_table_eq: "digit_table =
  zip (map word_of_int (map int [0x30..<0x3A] @ map int [0x61..<0x7B])) [0..<36] @
  zip (map word_of_int (map int [0x41..<0x5B])) [10..<36]"
  unfolding digit_table_def by code_simp

lemma digit_table_sound: "list_all (\<lambda>(c, d). in_digits (uint c) d) digit_table"
  unfolding digit_table_eq by code_simp

lemma digit_table_complete: "list_all (\<lambda>i. map_of digit_table (word_of_int i) \<noteq> None)
  (map int [0x30..<0x3A] @ map int [0x61..<0x7B] @ map int [0x41..<0x5B])"
  unfolding digit_table_eq by code_simp

lemma upt_int: "int m \<le> i \<Longrightarrow> i < int n \<Longrightarrow> i \<in> set (map int [m..<n])"
proof -
  assume "int m \<le> i" "i < int n"
  then have "nat i \<in> set [m..<n]" "i = int (nat i)" by auto
  then show ?thesis by (metis image_eqI set_map)
qed

lemma digit_value_char: "digit_value base c = (case digit_char c of None \<Rightarrow> base | Some d \<Rightarrow> int d)"
proof (cases "digit_char c")
  case None
  then have "uint c \<notin> set (map int [0x30..<0x3A] @ map int [0x61..<0x7B] @ map int [0x41..<0x5B])"
    using digit_table_complete unfolding list_all_iff digit_char_def by (metis word_of_int_uint)
  then have "uint c \<notin> set (map int [0x30..<0x3A])" "uint c \<notin> set (map int [0x61..<0x7B])"
    "uint c \<notin> set (map int [0x41..<0x5B])" unfolding set_append by blast+
  then have "\<not> (0x30 \<le> uint c \<and> uint c \<le> 0x39)" "\<not> (0x61 \<le> uint c \<and> uint c \<le> 0x7A)" "\<not> (0x41 \<le> uint c \<and> uint c \<le> 0x5A)"
    using upt_int [of "0x30" "uint c" "0x3A"] upt_int [of "0x61" "uint c" "0x7B"] upt_int [of "0x41" "uint c" "0x5B"]
    by linarith+
  then show ?thesis unfolding digit_value_def Let_def None by (simp only: if_False option.case)
next
  case (Some d)
  then have "in_digits (uint c) d"
    using digit_table_sound unfolding digit_char_def list_all_iff by (auto dest: map_of_SomeD)
  then show ?thesis using Some by (auto simp: digit_value_def in_digits_def Let_def)
qed

lemma digit_value_in: "digit_value base c < base \<longleftrightarrow> digit_in base c"
  by (simp add: digit_value_char digit_in_def split: option.splits)

lemma white_spaces: "white c \<longleftrightarrow> c \<in> spaces"
  by (auto simp: white_def spaces_def)

lemma hex_digit_in: "hex_digit c \<longleftrightarrow> digit_in 16 c"
  unfolding digit_value_in [symmetric]
  by (auto simp: hex_digit_def digit_value_def Let_def word_le_def)

lemma number_value:
  "map digit_char cs = map Some ds \<Longrightarrow> number radix 0 cs = value_of radix ds"
proof (induction cs arbitrary: ds rule: rev_induct)
  case (snoc c cs)
  obtain d es where ds: "ds = es @ [d]" "map digit_char cs = map Some es" "digit_char c = Some d"
    using snoc.prems by (cases ds rule: rev_cases) auto
  then show ?case using snoc.IH by (simp add: number_def value_of_def digit_value_char)
qed (simp add: number_def value_of_def)

lemma skip_white_append: "set ws \<subseteq> spaces \<Longrightarrow> skip_white (ws @ s) = skip_white s"
  by (induction ws) (simp_all add: white_spaces)

lemma skip_white_split: "\<exists>ws. s = ws @ skip_white s \<and> set ws \<subseteq> spaces \<and> (skip_white s = [] \<or> hd (skip_white s) \<notin> spaces)"
proof (induction s)
  case (Cons c s)
  then obtain ws where "s = ws @ skip_white s" "set ws \<subseteq> spaces" "skip_white s = [] \<or> hd (skip_white s) \<notin> spaces" by blast
  then show ?case by (intro exI [of _ "if white c then c # ws else []"]) (auto simp: white_spaces)
qed simp

lemma digit_not_space: "digit_in radix c \<Longrightarrow> c \<notin> spaces \<and> c \<noteq> 0x2D \<and> c \<noteq> 0x2B"
proof -
  assume "digit_in radix c"
  then obtain d where "digit_char c = Some d" by (auto simp: digit_in_def split: option.splits)
  then have "in_digits (uint c) d"
    using digit_table_sound unfolding digit_char_def list_all_iff by (auto dest: map_of_SomeD)
  then show ?thesis by (auto simp: in_digits_def spaces_def)
qed

lemma hex_prefixed_code:
  "hex_prefixed p \<longleftrightarrow> peek p = 0x30 \<and> is_x (peek (tl p)) \<and> hex_digit (peek (tl (tl p)))"
proof -
  have z: "\<not> is_x 0" "\<not> hex_digit 0" by (simp_all add: is_x_def hex_digit_def)
  show ?thesis
  proof (cases p)
    case (Cons a q)
    show ?thesis
    proof (cases q)
      case (Cons b r)
      show ?thesis
        by (cases r) (auto simp: \<open>p = a # q\<close> \<open>q = b # r\<close> hex_prefixed_def peek_def z(2) z(2) [unfolded hex_digit_in] is_x_def hex_digit_in)
    qed (simp add: \<open>p = a # q\<close> hex_prefixed_def peek_def z)
  qed (simp add: hex_prefixed_def peek_def)
qed

lemma strtoul_base_spec:
  "strtoul_base base p =
     (if base \<in> {0, 16} \<and> hex_prefixed p then Some (16, drop 2 p)
      else if base = 0 then Some (if take 1 p = [0x30] then if is_x (peek (tl p)) then 16 else 8 else 10, p)
      else if 2 \<le> base \<and> base \<le> 36 then Some (base, p) else None)"
proof -
  have t: "take 1 p = [0x30] \<longleftrightarrow> peek p = 0x30" "drop 2 p = tl (tl p)"
    by (cases p; simp add: peek_def) (simp add: numeral_2_eq_2 drop_Suc)
  show ?thesis unfolding t hex_prefixed_code strtoul_base_def Let_def by auto
qed


text \<open>A numeral is what the scan of the code finds, and there is none where the code finds no digit.\<close>

lemma sign_of_append:
  assumes "sg \<in> (if neg then {[0x2D]} else {[], [0x2B]})" "p \<noteq> []" "hd p \<noteq> 0x2D" "hd p \<noteq> 0x2B"
  shows "sign_of (sg @ p) = (neg, p)"
  using assms by (cases p) (auto simp: sign_of_def peek_def split: if_splits)

lemma skip_white_stop: "p \<noteq> [] \<Longrightarrow> hd p \<notin> spaces \<Longrightarrow> skip_white p = p"
  by (cases p) (simp_all add: white_spaces)

lemma digit_run_split:
  assumes "\<forall>c \<in> set cs. digit_in r c" "rest \<noteq> [] \<longrightarrow> \<not> digit_in r (hd rest)"
  shows "digit_run r (cs @ rest) = cs"
  using assms unfolding digit_run_def digit_value_in by (cases rest) (simp_all add: takeWhile_append2)

text \<open>After a lone \<open>0\<close> of an octal constant an \<open>x\<close> ends the digits in radix 16 as in radix 8.\<close>

lemma zero_x:
  assumes "is_x (peek (tl t))" "take 1 t = [0x30]" "8 \<le> r" "r \<le> 16"
  shows "digit_run r t = [0x30]" "number r 0 [0x30] = 0"
proof -
  obtain x u where t: "t = 0x30 # x # u" "x = 0x78 \<or> x = 0x58"
    using assms(1,2) by (cases t; cases "tl t") (auto simp: is_x_def peek_def)
  show "digit_run r t = [0x30]" using t(2) assms(3,4) by (auto simp: t(1) digit_run_def digit_value_def)
  show "number r 0 [0x30] = 0" by (simp add: number_def digit_value_def)
qed

lemma numeral_run:
  assumes "numeral_text base s neg radix ds rest"
  obtains p r cs where "sign_of (skip_white s) = (neg, p)" "strtoul_base base p = Some (r, cs @ rest)"
    "digit_run r (cs @ rest) = cs" "cs \<noteq> []" "number r 0 cs = value_of radix ds"
    "r = radix \<or> radix = 8 \<and> value_of radix ds = 0"
proof -
  from assms obtain ws sg px cs where s: "s = ws @ sg @ px @ cs @ rest" "set ws \<subseteq> spaces"
      "sg \<in> (if neg then {[0x2D]} else {[], [0x2B]})" "prefix_radix base px (cs @ rest) radix"
      "cs \<noteq> []" "map digit_char cs = map Some ds" "\<forall>c \<in> set cs. digit_in radix c"
      "rest \<noteq> [] \<longrightarrow> \<not> digit_in radix (hd rest)"
    unfolding numeral_text_def by blast
  let ?p = "px @ cs @ rest"
  have p: "?p \<noteq> []" "hd ?p \<notin> spaces" "hd ?p \<noteq> 0x2D" "hd ?p \<noteq> 0x2B"
  proof -
    have "hd cs \<in> set cs" using s(5) by simp
    then have "digit_in radix (hd cs)" using s(7) by blast
    then have c: "hd cs \<notin> spaces \<and> hd cs \<noteq> 0x2D \<and> hd cs \<noteq> 0x2B" by (rule digit_not_space)
    have px: "px = [] \<or> px \<in> {[0x30, 0x78], [0x30, 0x58]}" using s(4) by (auto simp: prefix_radix_def split: if_splits)
    then show "hd ?p \<notin> spaces" "hd ?p \<noteq> 0x2D" "hd ?p \<noteq> 0x2B" using c s(5) by (auto simp: spaces_def)
    show "?p \<noteq> []" using s(5) by simp
  qed
  have sign: "sign_of (skip_white s) = (neg, ?p)"
  proof -
    have "sg @ ?p \<noteq> []" "hd (sg @ ?p) \<notin> spaces" using p s(3) by (auto simp: spaces_def split: if_splits)
    then have "skip_white s = sg @ ?p" unfolding s(1) skip_white_append [OF s(2)] by (rule skip_white_stop)
    then show ?thesis using sign_of_append [OF s(3) p(1,3,4)] by simp
  qed
  have run: "digit_run radix (cs @ rest) = cs" using s(7,8) by (rule digit_run_split)
  have num: "number r 0 cs = value_of r ds" for r using s(6) by (rule number_value)
  show thesis
  proof (cases "base \<in> {0, 16} \<and> hex_prefixed ?p")
    case True
    then have "px \<in> {[0x30, 0x78], [0x30, 0x58]}" "radix = 16" using s(4) by (simp_all add: prefix_radix_def)
    then have "strtoul_base base ?p = Some (radix, cs @ rest)" using True unfolding strtoul_base_spec by auto
    then show thesis using that [OF sign _ run s(5) num] by simp
  next
    case False
    then have px: "px = []" and r: "if base = 0 then radix = (if take 1 (cs @ rest) = [0x30] then 8 else 10)
        else 2 \<le> base \<and> base \<le> 36 \<and> radix = base"
      using s(4) unfolding prefix_radix_def if_not_P [OF False] by blast+
    have b: "strtoul_base base ?p = (if base = 0 then Some (if take 1 ?p = [0x30] then if is_x (peek (tl ?p)) then 16 else 8 else 10, ?p)
      else if 2 \<le> base \<and> base \<le> 36 then Some (base, ?p) else None)"
      using False unfolding strtoul_base_spec by (simp only: if_False)
    show thesis
    proof (cases "base = 0 \<and> take 1 (cs @ rest) = [0x30] \<and> is_x (peek (tl (cs @ rest)))")
      case True
      then have rx: "radix = 8" "strtoul_base base ?p = Some (16, cs @ rest)" using r b px by simp_all
      have "cs = [0x30]" using run True rx(1) zero_x(1) [of "cs @ rest" 8] by simp
      moreover have "digit_run 16 (cs @ rest) = [0x30]" using True zero_x(1) [of "cs @ rest" 16] by simp
      moreover have "number 8 0 [0x30] = 0" "number 16 0 [0x30] = 0"
        using True zero_x(2) [of "cs @ rest" 8] zero_x(2) [of "cs @ rest" 16] by simp_all
      ultimately show thesis using that [OF sign rx(2)] num [of 8] rx(1) by simp
    next
      case False
      then have "strtoul_base base ?p = Some (radix, cs @ rest)" using r b px by (auto split: if_splits)
      then show thesis using that [OF sign _ run s(5) num] by simp
    qed
  qed
qed

lemma run_numeral:
  assumes "sign_of (skip_white s) = (neg, p)" "strtoul_base base p = Some (r, q)" "digit_run r q \<noteq> []"
  shows "\<exists>radix ds rest. numeral_text base s neg radix ds rest"
proof -
  obtain ws where ws: "s = ws @ skip_white s" "set ws \<subseteq> spaces" using skip_white_split by blast
  obtain sg where sg: "skip_white s = sg @ p" "sg \<in> (if neg then {[0x2D]} else {[], [0x2B]})"
    using assms(1) by (cases "skip_white s") (auto simp: sign_of_def peek_def split: if_splits)
  obtain px radix where px: "p = px @ q" "prefix_radix base px q radix" "digit_run radix q \<noteq> []"
  proof (cases "base \<in> {0, 16} \<and> hex_prefixed p")
    case True
    then have r: "r = 16" "q = drop 2 p" using assms(2) unfolding strtoul_base_spec by simp_all
    have "p = take 2 p @ q" "take 2 p \<in> {[0x30, 0x78], [0x30, 0x58]}"
      using True r(2) by (auto simp: hex_prefixed_def)
    then show thesis using that [of "take 2 p" 16] True r(1) assms(3) by (auto simp: prefix_radix_def)
  next
    case False
    have b: "strtoul_base base p = (if base = 0 then Some (if take 1 p = [0x30] then if is_x (peek (tl p)) then 16 else 8 else 10, p)
      else if 2 \<le> base \<and> base \<le> 36 then Some (base, p) else None)"
      using False unfolding strtoul_base_spec by (simp only: if_False)
    then have q: "q = p" using assms(2) by (auto split: if_splits)
    let ?radix = "if base = 0 then (if take 1 p = [0x30] then 8 else 10) else base"
    have "prefix_radix base [] q ?radix" using False b assms(2) unfolding prefix_radix_def q by (auto split: if_splits)
    moreover have "digit_run ?radix q \<noteq> []"
      using b assms(2,3) zero_x(1) [of p 8] unfolding q by (auto split: if_splits)
    ultimately show thesis using that [of "[]" ?radix] q by simp
  qed
  let ?cs = "digit_run radix q" and ?rest = "dropWhile (\<lambda>c. digit_value radix c < radix) q"
  have q: "q = ?cs @ ?rest" by (simp add: digit_run_def)
  have "\<forall>c \<in> set ?cs. digit_in radix c" unfolding digit_run_def digit_value_in by (auto dest: set_takeWhileD)
  moreover have "?rest \<noteq> [] \<longrightarrow> \<not> digit_in radix (hd ?rest)" unfolding digit_value_in using hd_dropWhile by blast
  moreover have "\<exists>ds. map digit_char ?cs = map Some ds"
    using calculation(1) by (intro exI [of _ "map (the \<circ> digit_char) ?cs"]) (auto simp: digit_in_def split: option.splits)
  ultimately show ?thesis using ws sg px q unfolding numeral_text_def by (metis append.assoc)
qed

section \<open>Properties\<close>

lemma strtol_bases: "\<forall>b q. strtol_base base p = Some (b, q) \<longrightarrow> 1 \<le> b \<and> b \<le> 36"
  by (auto simp: strtol_base_def split: if_splits)

lemma strtoll_bases: "\<forall>b q. strtoll_base base p = Some (b, q) \<longrightarrow> 1 \<le> b \<and> b \<le> 36"
  by (auto simp: strtoll_base_def split: if_splits)

lemma strtoul_bases: "\<forall>b q. strtoul_base base p = Some (b, q) \<longrightarrow> 2 \<le> b \<and> b \<le> 36"
  by (auto simp: strtoul_base_def Let_def split: if_splits)

lemma strtoull_bases: "base \<noteq> 1 \<Longrightarrow> \<forall>b q. strtoull_base base p = Some (b, q) \<longrightarrow> 2 \<le> b \<and> b \<le> 36"
  by (auto simp: strtoull_base_def split: if_splits)

text \<open>
  C26. \<open>strtoul\<close> finds every numeral of its text and nothing else: when the text starts with white
  space, a sign, a prefix and digits of the radix (as \<open>numeral_text\<close> says without the code), it
  returns the value, negated modulo the width after a minus sign, and the rest of the text after
  the longest run of digits; when there is none, 0 and the start of the text.  With 32 bits it
  saturates exactly when the value does not fit.  With 64 bits the constant is still the 32-bit
  one: it answers \<open>2 ^ 32 - 1\<close> exactly when the digits before the last are worth more than that
  divided by the radix, so that values from \<open>2 ^ 32\<close> up to there are returned as they are.
\<close>

theorem strtoul_exact:
  "(numeral_text base s neg radix ds rest \<longrightarrow>
      (let value = value_of radix ds; result = (if neg then - value else value) in
       (strtoul s base :: u32 \<times> byte list) = (if value \<ge> 2 ^ 32 then 2 ^ 32 - 1 else word_of_int result, rest) \<and>
       (strtoul s base :: u64 \<times> byte list) =
         (if value div radix > (2 ^ 32 - 1) div radix then 2 ^ 32 - 1 else word_of_int result, rest))) \<and>
   ((\<nexists>neg radix ds rest. numeral_text base s neg radix ds rest) \<longrightarrow>
      (strtoul s base :: u32 \<times> byte list) = (0, s) \<and> (strtoul s base :: u64 \<times> byte list) = (0, s))"
proof (intro conjI impI)
  assume "numeral_text base s neg radix ds rest"
  then obtain p r cs where n: "sign_of (skip_white s) = (neg, p)" "strtoul_base base p = Some (r, cs @ rest)"
    "digit_run r (cs @ rest) = cs" "cs \<noteq> []" "number r 0 cs = value_of radix ds"
    "r = radix \<or> radix = 8 \<and> value_of radix ds = 0" by (rule numeral_run)
  have b: "2 \<le> r" "r \<le> 36" using strtoul_bases n(2) by blast+
  from strtoul.digits_rel [OF b order_refl, of "(0, False)" "cs @ rest" 0] n(3,5)
  have s32: "\<exists>acc'. digits (strtoul_step r) r (cs @ rest) 0 (0, False) = (acc', rest, length cs) \<and> strtoul_rel (value_of radix ds) acc'"
    by (simp add: strtoul_rel_def)
  from strtoul64.digits_rel [OF b order_refl, of "(0, False)" "cs @ rest" 0] n(3,5)
  have s64: "\<exists>acc'. digits (strtoul_step r) r (cs @ rest) 0 (0, False) = (acc', rest, length cs) \<and> strtoul64_rel r (value_of radix ds) acc'"
    using div_int_pos_iff [of 4294967295 r] b by (simp add: strtoul64_rel_def not_less)
  let ?v = "value_of radix ds"
  let ?result = "if neg then - ?v else ?v"
  have "(strtoul s base :: u32 \<times> byte list) = (if ?v \<ge> 2 ^ 32 then 2 ^ 32 - 1 else word_of_int ?result, rest)"
    using s32 n(4) by (auto simp: strtoul_def n(1,2) strtoul_rel_def ULONG_MAX_def)
  moreover have "(strtoul s base :: u64 \<times> byte list) =
      (if ?v div r > (2 ^ 32 - 1) div r then 2 ^ 32 - 1 else word_of_int ?result, rest)"
    using s64 n(4) by (auto simp: strtoul_def n(1,2) strtoul64_rel_def ULONG_MAX_def)
  moreover have "?v div r > (2 ^ 32 - 1) div r \<longleftrightarrow> ?v div radix > (2 ^ 32 - 1) div radix"
    using n(6) b div_int_pos_iff [of 4294967295 r] by auto
  ultimately show "let value = ?v; result = (if neg then - value else value) in
       (strtoul s base :: u32 \<times> byte list) = (if value \<ge> 2 ^ 32 then 2 ^ 32 - 1 else word_of_int result, rest) \<and>
       (strtoul s base :: u64 \<times> byte list) =
         (if value div radix > (2 ^ 32 - 1) div radix then 2 ^ 32 - 1 else word_of_int result, rest)"
    by (simp only: Let_def simp_thms)
next
  assume no: "\<nexists>neg radix ds rest. numeral_text base s neg radix ds rest"
  obtain neg p where sg: "sign_of (skip_white s) = (neg, p)" by force
  have none: "strtoul s base = (0 :: 'a::len word, s)"
  proof (cases "strtoul_base base p")
    case None
    then show ?thesis using sg by (simp add: strtoul_def)
  next
    case (Some rq)
    obtain r q where rq: "rq = (r, q)" by force
    have "digit_run r q = []" using no run_numeral [OF sg Some [unfolded rq]] by blast
    then have "digits (strtoul_step r) r q 0 (0 :: 'a word, False) = ((0, False), q, 0)"
      by (cases q) (auto simp: digit_run_def Let_def split: if_splits)
    then show ?thesis using sg Some rq by (simp add: strtoul_def)
  qed
  show "(strtoul s base :: u32 \<times> byte list) = (0, s)" by (rule none)
  show "(strtoul s base :: u64 \<times> byte list) = (0, s)" by (rule none)
qed

theorem strtoul_exact_witness:
  "(strtoul [0x20, 0x2D, 0x30, 0x78, 0x66, 0x46, 0x7A] 0 :: u32 \<times> byte list) = (word_of_int (- 255), [0x7A])"
proof -
  have d: "digit_char 0x66 = Some 15" "digit_char 0x46 = Some 15" "digit_char 0x7A = Some 35"
    unfolding digit_char_def digit_table_eq by code_simp+
  have "numeral_text 0 [0x20, 0x2D, 0x30, 0x78, 0x66, 0x46, 0x7A] True 16 [15, 15] [0x7A]"
    unfolding numeral_text_def
    by (intro exI [of _ "[0x20]"] exI [of _ "[0x2D]"] exI [of _ "[0x30, 0x78]"] exI [of _ "[0x66, 0x46]"])
      (simp add: d spaces_def prefix_radix_def hex_prefixed_def digit_in_def)
  then show ?thesis
    using strtoul_exact [of 0 "[0x20, 0x2D, 0x30, 0x78, 0x66, 0x46, 0x7A]" True 16 "[15, 15]" "[0x7A]"]
    by (simp add: value_of_def)
qed

text \<open>
  With a 64-bit \<open>ulong\<close> the constant that \<open>strtoul\<close> calls \<open>ULONG_MAX\<close> is no limit of the type:
  4294967296 comes back as it is, and 4294967300 as the smaller 4294967295.
\<close>

theorem strtoul_wide_limit:
  "(strtoul [0x34, 0x32, 0x39, 0x34, 0x39, 0x36, 0x37, 0x32, 0x39, 0x36] 10 :: u64 \<times> byte list) = (4294967296, []) \<and>
   (strtoul [0x34, 0x32, 0x39, 0x34, 0x39, 0x36, 0x37, 0x33, 0x30, 0x30] 10 :: u64 \<times> byte list) = (4294967295, [])"
  by code_simp

text \<open>
  With a 32-bit \<open>long\<close>, \<open>strtol\<close> is exact for every numeral whose digits are worth less than \<open>2 ^ 32\<close>: the signed
  value when it fits, \<open>LONG_MAX\<close> or \<open>LONG_MIN\<close> when it does not.
\<close>

theorem strtol_exact:
  assumes "scan strtol_base nptr base = (neg, num, rest)" "num < 2 ^ 32"
  shows "(strtol nptr base :: u32 \<times> byte list) =
    (if num < 2 ^ 31 then word_of_int (if neg then - num else num) else if neg then LONG_MIN else LONG_MAX, rest)"
proof -
  obtain ng p where s: "sign_of (skip_white nptr) = (ng, p)" by force
  have init: "strtol_rel 0 (0, False)" by (simp add: strtol_rel_def)
  let ?X = "case strtol_base base p of None \<Rightarrow> ((0 :: u32, False), p, 0)
        | Some (base, p) \<Rightarrow> digits (strtol_step base) base p 0 (0, False)"
  from strtol.scan_rel [where bf = strtol_base and base = base, OF init strtol_bases s] obtain acc num' rest' where
    r: "scan strtol_base nptr base = (ng, num', rest')" "strtol_rel num' acc"
    "(case ?X of
       (acc', p, ndig) \<Rightarrow> (acc', if ndig = 0 then nptr else p)) = (acc, rest')"
    by blast
  obtain n ov q k where x: "?X = ((n, ov), q, k)" by (rule prod.exhaust [of ?X], rule prod_cases3) auto
  then show ?thesis using r assms
    by (cases acc) (simp add: strtol_def s x, auto simp: strtol_rel_def)
qed

theorem strtol_exact_witness:
  "(strtol [0x20, 0x2D, 0x34, 0x32, 0x78] 10 :: u32 \<times> byte list) = (word_of_int (- 42), [0x78])"
  using strtol_exact [of "[0x20, 0x2D, 0x34, 0x32, 0x78]" 10 True 42 "[0x78]"]
  by (simp add: scan_def white_def sign_of_def peek_def strtol_base_def digit_run_def digit_value_def number_def Let_def)

text \<open>
  \<open>strtoll\<close> returns the value of the numeral modulo \<open>2 ^ 64\<close>, negated after a minus sign, and
  \<open>strtoull\<close> the exact value, negated, when the digits are worth less than \<open>2 ^ 64\<close> (in base 1,
  which it lets pass, nothing is claimed); both leave the rest of the text.
\<close>

theorem strtoll_exact:
  "(case scan strtoll_base nptr base of (neg, num, rest) \<Rightarrow>
      strtoll nptr base = (word_of_int (if neg then - num else num), rest)) \<and>
   (case scan strtoull_base nptr base of (neg, num, rest) \<Rightarrow>
      base \<noteq> 1 \<and> num < 2 ^ 64 \<longrightarrow> strtoull nptr base = (word_of_int (if neg then - num else num), rest))"
proof -
  obtain neg p where s: "sign_of (skip_white nptr) = (neg, p)" by force
  have init: "strtoll_rel 0 0" by (simp add: strtoll_rel_def)
  let ?X = "case strtoll_base base p of None \<Rightarrow> (0, p, 0)
        | Some (base, p) \<Rightarrow> digits (strtoll_step base) base p 0 0"
  from strtoll.scan_rel [where bf = strtoll_base and base = base, OF init strtoll_bases s] obtain acc num rest where
    r: "scan strtoll_base nptr base = (neg, num, rest)" "strtoll_rel num acc"
    "(case ?X of
       (acc', p, ndig) \<Rightarrow> (acc', if ndig = 0 then nptr else p)) = (acc, rest)"
    by blast
  obtain n q k where x: "?X = (n, q, k)" by (rule prod_cases3)
  then have ll: "case scan strtoll_base nptr base of (neg, num, rest) \<Rightarrow>
      strtoll nptr base = (word_of_int (if neg then - num else num), rest)" using r
    by (simp add: strtoll_def s x) (simp add: strtoll_rel_def)
  have ull: "strtoull nptr base = (word_of_int (if ng then - num else num), rest)"
    if a: "base \<noteq> 1" "num < 2 ^ 64" "scan strtoull_base nptr base = (ng, num, rest)" for ng num rest
  proof -
    have init: "strtoull_rel 0 (0, False)" by (simp add: strtoull_rel_def)
    let ?X = "case strtoull_base base p of None \<Rightarrow> ((0, False), p, 0)
          | Some (base, p) \<Rightarrow> digits (strtoull_step base) base p 0 (0, False)"
    from strtoull.scan_rel [where bf = strtoull_base and base = base, OF init strtoull_bases [OF a(1)] s] obtain acc num' rest' where
      r: "scan strtoull_base nptr base = (neg, num', rest')" "strtoull_rel num' acc"
      "(case ?X of
         (acc', p, ndig) \<Rightarrow> (acc', if ndig = 0 then nptr else p)) = (acc, rest')"
      by blast
    obtain n ov q k where x: "?X = ((n, ov), q, k)" by (rule prod.exhaust [of ?X], rule prod_cases3) auto
    then show ?thesis using r a
      by (cases acc) (simp add: strtoull_def s x, simp add: strtoull_rel_def)
  qed
  show ?thesis using ll ull by (auto split: prod.splits)
qed

theorem strtoll_exact_witness:
  "strtoull [0x30, 0x78, 0x66, 0x66] 0 = (0xFF, [])"
  using strtoll_exact [of "[0x30, 0x78, 0x66, 0x66]" 0]
  by (simp add: scan_def white_def sign_of_def peek_def strtoull_base_def digit_run_def digit_value_def number_def
      is_x_def Let_def)

text \<open>
  Overflow that the tests miss: \<open>strtol\<close> with a 32-bit \<open>long\<close> of ten billion, and \<open>strtoull\<close> of thirty times
  \<open>10 ^ 18\<close>, return the value reduced modulo the width as if it had been in range.
\<close>

theorem strtol_missed_overflow:
  "(strtol (0x31 # replicate 10 0x30) 10 :: u32 \<times> byte list) = (1410065408, []) \<and>
   strtoull (0x33 # replicate 19 0x30) 10 = (11553255926290448384, [])"
  by code_simp


text \<open>The text of a number for \<open>atol\<close>: sign, base and digits.\<close>

definition atol_scan :: "byte list \<Rightarrow> bool \<times> int \<times> byte list" where
  "atol_scan s0 =
     (let s = skip_blank s0; neg = (peek s = 0x2D);
          s = (if peek s = 0x2D \<or> peek s = 0x2B then skip_blank (tl s) else s)
      in if peek s = 0x30 \<and> is_x (peek (tl s)) then (neg, 16, tl (tl s))
         else if peek s = 0x30 \<and> peek (tl s) \<noteq> 0 then (neg, 8, s)
         else (neg, 10, s))"

text \<open>
  \<open>atol\<close> is the value of the digits in the base that their prefix selects, negated after a
  minus sign, modulo the range of a \<open>long\<close>; blanks may precede and follow the sign.
\<close>

theorem atol_value:
  "case atol_scan s of (neg, base, p) \<Rightarrow>
     atol s = word_of_int (let n = number base 0 (digit_run base p) in if neg then - n else n)"
proof -
  note n = atol_hex_number [where n = 0, simplified] atol_oct_number [where n = 0, simplified]
    atol_dec_number [where n = 0, simplified]
  have z: "\<not> is_x 0" by (simp add: is_x_def)
  show ?thesis
    by (cases "peek (skip_blank s) = 0x2D"; cases "peek (skip_blank s) = 0x2B") (auto simp: atol_def atol_scan_def Let_def n z)
qed

end
