(* ===== verification/Sched.thy ===== *)
theory Sched
  imports Prelude
begin

text \<open>
  The run queue of the Dis scheduler, \<^verbatim>\<open>emu/port/dis.c\<close>, and the state the virtual machine's
  processes and channels share.  A prog, a channel and an array of channels are objects the code
  reaches through pointers; here they live in total stores indexed by \<open>pid\<close>, \<open>cid\<close> and
  \<open>aid\<close>.  The run queue is the code's linked list: \<open>runhd\<close>, \<open>runtl\<close> and the \<open>link\<close> field of
  each prog, updated pointer by pointer, so that a prog queued twice corrupts it as it does in
  C.  The second half of the theory shows that on a well-formed queue the operations are those of
  a list, and, in the locale \<open>run_queue\<close>, that the scheduler's rotation is fair.

  The calls of \<open>Wakeup\<close>, which unblock a thread of the host, change nothing of this state.
\<close>

section \<open>Data: Prog, Channel, Progq, Alt of include/interp.h\<close>

type_synonym pid = nat
type_synonym cid = nat
type_synonym aid = nat
type_synonym addr = nat

datatype pstate = Palt | Psend | Precv | Pdebug | Pready | Prelease | Pexiting | Pbroken

text \<open>
  What an entry of an alt refers to: \<open>H\<close> (no object), a channel, or an array of channels.
  \<open>D2H(c)->t == &Tarray\<close> tells the last two apart.
\<close>

datatype altch = NilCh | Ch cid | ArrCh aid

record altc =
  ac_c :: altch
  ac_ptr :: addr

record alt =
  al_nsend :: nat
  al_nrecv :: nat
  al_ac :: "altc list"

text \<open>
  The callbacks the code stores in \<open>Prog.addrun\<close>: \<open>cwakeme\<close> (\<open>dis.c\<close>) and \<open>dbgaddrun\<close>
  (\<open>devprog.c\<close>).
\<close>

datatype callback = Cwakeme | Dbgaddrun

record prog =
  pr_state :: pstate
  pr_link :: "pid option"
  pr_chan :: "cid option"
  pr_ptr :: "addr option"
  pr_kill :: "byte list option"
  pr_addrun :: "callback option"
  pr_Rs :: alt
  pr_Rd :: addr

text \<open>
  A wait queue is a list of nodes; its pointer is nil when the list is empty, and a queue without
  waiters is one node whose \<open>prog\<close> is nil.
\<close>

type_synonym progq = "pid option list"

text \<open>
  The \<open>Type\<close> of a channel's values: the pointer map and its number of bytes, and the effect on
  one value of the reset \<open>freeptrs; initmem\<close> of its pointer slots.
\<close>

record dtype =
  ty_np :: nat
  ty_map :: "nat list"
  ty_reset :: "int \<Rightarrow> int"

datatype mover = Movb | Movw | Movl | Movf | Movp | Movm | Movtmp

text \<open>
  The union \<open>mid\<close>, as it was last written; \<open>Stale\<close> is memory nobody wrote.  \<open>front\<close> and \<open>size\<close> of
  a channel are never below 0: \<open>size\<close> is decremented only after a test that it is positive.
\<close>

datatype mid = Stale | MidW int | MidT dtype

record channel =
  ch_buf :: "int list option"
  ch_type :: dtype
  ch_send :: progq
  ch_recv :: progq
  ch_mover :: mover
  ch_mid :: mid
  ch_front :: nat
  ch_size :: nat

text \<open>
  \<open>runhd\<close> and \<open>runtl\<close> are those of \<open>isched\<close>; \<open>mem\<close> is the memory of the Dis programs, one cell
  for the datum a data mover moves; \<open>RIC\<close> and \<open>Rt\<close> are the registers an instruction sets to give
  up the processor; \<open>xrand\<close> is the static variable of \<open>xecalt\<close>.
\<close>

record dis =
  progs :: "pid \<Rightarrow> prog"
  runhd :: "pid option"
  runtl :: "pid option"
  chans :: "cid \<Rightarrow> channel"
  nchan :: cid
  arrays :: "aid \<Rightarrow> cid option list"
  mem :: "addr \<Rightarrow> int"
  RIC :: nat
  Rt :: nat
  xrand :: u64

text \<open>
  How an operation can fail: a Dis exception, with the state it leaves; a dereference of a nil C
  pointer; an access outside an array; a read of an object of one type as another; a loop that does
  not end; a panic.
\<close>

datatype fault = Raised string dis | NilDeref | BadIndex | WildType | Spin | Panic

type_synonym 'a outcome = "fault + 'a"

section \<open>Updates of one prog, one channel, one cell\<close>

definition upd_prog :: "pid \<Rightarrow> (prog \<Rightarrow> prog) \<Rightarrow> dis \<Rightarrow> dis" where
  "upd_prog p f s = s\<lparr>progs := (progs s)(p := f (progs s p))\<rparr>"

definition upd_chan :: "cid \<Rightarrow> (channel \<Rightarrow> channel) \<Rightarrow> dis \<Rightarrow> dis" where
  "upd_chan c f s = s\<lparr>chans := (chans s)(c := f (chans s c))\<rparr>"

definition put_mem :: "addr \<Rightarrow> int \<Rightarrow> dis \<Rightarrow> dis" where
  "put_mem a v s = s\<lparr>mem := (mem s)(a := v)\<rparr>"

definition set_state :: "pstate \<Rightarrow> pid \<Rightarrow> dis \<Rightarrow> dis" where
  "set_state st p = upd_prog p (\<lambda>r. r\<lparr>pr_state := st\<rparr>)"

definition set_link :: "pid option \<Rightarrow> pid \<Rightarrow> dis \<Rightarrow> dis" where
  "set_link l p = upd_prog p (\<lambda>r. r\<lparr>pr_link := l\<rparr>)"

definition set_ptr :: "addr option \<Rightarrow> pid \<Rightarrow> dis \<Rightarrow> dis" where
  "set_ptr a p = upd_prog p (\<lambda>r. r\<lparr>pr_ptr := a\<rparr>)"

section \<open>The run queue\<close>

definition addrun :: "pid \<Rightarrow> dis \<Rightarrow> dis outcome" where
  "addrun p s = (case pr_addrun (progs s p) of
       Some Cwakeme \<Rightarrow> Inr (upd_prog p (\<lambda>r. r\<lparr>pr_addrun := None\<rparr>) s)
     | Some Dbgaddrun \<Rightarrow> Inr (upd_prog p (\<lambda>r. r\<lparr>pr_state := Pdebug, pr_addrun := None\<rparr>) s)
     | None \<Rightarrow>
        (let s = set_link None p (set_state Pready p s)
         in case runhd s of
              None \<Rightarrow> Inr (s\<lparr>runhd := Some p, runtl := Some p\<rparr>)
            | Some _ \<Rightarrow>
               (case runtl s of
                  None \<Rightarrow> Inl NilDeref
                | Some t \<Rightarrow> Inr ((set_link (Some p) t s)\<lparr>runtl := Some p\<rparr>))))"

definition delrun :: "pstate \<Rightarrow> dis \<Rightarrow> (pid \<times> dis) outcome" where
  "delrun st s = (case runhd s of
       None \<Rightarrow> Inl NilDeref
     | Some p \<Rightarrow>
        (let s = set_state st p s;
             l = pr_link (progs s p);
             s = s\<lparr>runhd := l\<rparr>
         in Inr (p, if l = None then s\<lparr>runtl := None\<rparr> else s)))"

text \<open>
  The search loop of \<open>delrunq\<close>: the node before \<open>p\<close>, and whether \<open>p\<close> was found.  On a cycle that
  does not hold \<open>p\<close> the C loop does not end, and neither does this one (\<open>None\<close>).
\<close>

partial_function (option) find_prev ::
    "(pid \<Rightarrow> pid option) \<Rightarrow> pid \<Rightarrow> pid option \<Rightarrow> pid option \<Rightarrow> (pid option \<times> bool) option" where
  "find_prev lk p prev f =
     (if f = None then Some (prev, False)
      else if f = Some p then Some (prev, True)
      else find_prev lk p f (lk (the f)))"

definition delrunq :: "pid \<Rightarrow> dis \<Rightarrow> dis outcome" where
  "delrunq p s = (case find_prev (\<lambda>q. pr_link (progs s q)) p None (runhd s) of
       None \<Rightarrow> Inl Spin
     | Some (prev, False) \<Rightarrow> Inr s
     | Some (prev, True) \<Rightarrow>
        (let l = pr_link (progs s p);
             s = (case prev of None \<Rightarrow> s\<lparr>runhd := l\<rparr> | Some q \<Rightarrow> set_link l q s)
         in Inr (if runtl s = Some p then s\<lparr>runtl := prev\<rparr> else s)))"

definition delruntail :: "pstate \<Rightarrow> dis \<Rightarrow> (pid \<times> dis) outcome" where
  "delruntail st s = (case runtl s of
       None \<Rightarrow> Inl NilDeref
     | Some p \<Rightarrow> rbind (delrunq p s) (\<lambda>s. Inr (p, set_state st p s)))"

definition currun :: "dis \<Rightarrow> pid option" where
  "currun s = runhd s"

definition schedbusy :: "dis \<Rightarrow> bool" where
  "schedbusy s \<longleftrightarrow> runhd s \<noteq> None"

definition pushrun :: "pid \<Rightarrow> dis \<Rightarrow> dis outcome" where
  "pushrun p s =
     (if pr_addrun (progs s p) \<noteq> None then Inl Panic
      else let s = set_link (runhd s) p (set_state Pready p s);
               s = s\<lparr>runhd := Some p\<rparr>
           in Inr (if pr_link (progs s p) = None then s\<lparr>runtl := Some p\<rparr> else s))"

text \<open>
  What \<open>vmachine\<close> does when the quantum of \<open>r\<close> is over: if \<open>r\<close> is still at the head and not
  alone, it goes to the tail.
\<close>

definition rotate_run :: "pid \<Rightarrow> dis \<Rightarrow> dis outcome" where
  "rotate_run r s =
     (if runhd s \<noteq> None \<and> Some r = runhd s \<and> runhd s \<noteq> runtl s then
        (let s = s\<lparr>runhd := pr_link (progs s r)\<rparr>;
             s = set_link None r s
         in case runtl s of
              None \<Rightarrow> Inl NilDeref
            | Some t \<Rightarrow> Inr ((set_link (Some r) t s)\<lparr>runtl := Some r\<rparr>))
      else Inr s)"

section \<open>Lemmas on the updates\<close>

named_theorems dis_simps \<open>fields after an update of one object\<close>

lemma upd_prog_simps [simp, dis_simps]:
  "progs (upd_prog p f s) = (progs s)(p := f (progs s p))"
  "runhd (upd_prog p f s) = runhd s" "runtl (upd_prog p f s) = runtl s"
  "chans (upd_prog p f s) = chans s" "nchan (upd_prog p f s) = nchan s"
  "arrays (upd_prog p f s) = arrays s" "mem (upd_prog p f s) = mem s"
  "RIC (upd_prog p f s) = RIC s" "Rt (upd_prog p f s) = Rt s" "xrand (upd_prog p f s) = xrand s"
  by (simp_all add: upd_prog_def)

lemma upd_chan_simps [simp, dis_simps]:
  "chans (upd_chan c g s) = (chans s)(c := g (chans s c))"
  "runhd (upd_chan c g s) = runhd s" "runtl (upd_chan c g s) = runtl s"
  "progs (upd_chan c g s) = progs s" "nchan (upd_chan c g s) = nchan s"
  "arrays (upd_chan c g s) = arrays s" "mem (upd_chan c g s) = mem s"
  "RIC (upd_chan c g s) = RIC s" "Rt (upd_chan c g s) = Rt s" "xrand (upd_chan c g s) = xrand s"
  by (simp_all add: upd_chan_def)

lemma put_mem_simps [simp, dis_simps]:
  "mem (put_mem a v s) = (mem s)(a := v)"
  "progs (put_mem a v s) = progs s" "runhd (put_mem a v s) = runhd s"
  "runtl (put_mem a v s) = runtl s" "chans (put_mem a v s) = chans s"
  "nchan (put_mem a v s) = nchan s" "arrays (put_mem a v s) = arrays s"
  "RIC (put_mem a v s) = RIC s" "Rt (put_mem a v s) = Rt s" "xrand (put_mem a v s) = xrand s"
  by (simp_all add: put_mem_def)

section \<open>The list a run queue spells\<close>

text \<open>
  \<open>links lk x xs\<close>: from the pointer \<open>x\<close>, the field \<open>lk\<close> leads through the nodes \<open>xs\<close> to nil.
\<close>

fun links :: "(pid \<Rightarrow> pid option) \<Rightarrow> pid option \<Rightarrow> pid list \<Rightarrow> bool" where
  "links lk x [] \<longleftrightarrow> x = None"
| "links lk x (p # ps) \<longleftrightarrow> x = Some p \<and> links lk (lk p) ps"

abbreviation lnk :: "dis \<Rightarrow> pid \<Rightarrow> pid option" where
  "lnk s \<equiv> (\<lambda>p. pr_link (progs s p))"

definition runq :: "dis \<Rightarrow> pid list \<Rightarrow> bool" where
  "runq s xs \<longleftrightarrow> links (lnk s) (runhd s) xs \<and> distinct xs
     \<and> runtl s = (if xs = [] then None else Some (last xs))"

lemma links_upd [simp]: "p \<notin> set xs \<Longrightarrow> links (lk(p := y)) x xs = links lk x xs"
  by (induction xs arbitrary: x) auto

lemma links_cong: "(\<And>p. p \<in> set xs \<Longrightarrow> lk p = lk' p) \<Longrightarrow> links lk x xs = links lk' x xs"
  by (induction xs arbitrary: x) auto

lemma links_split:
  "links lk x (xs @ p # ys) \<Longrightarrow> links lk (lk p) ys"
  by (induction xs arbitrary: x) auto

lemma links_snoc:
  assumes "links lk x (xs @ [t])" "distinct (xs @ [t])" "p \<notin> set (xs @ [t])"
  shows "links (lk(p := None, t := Some p)) x (xs @ [t, p])"
  using assms by (induction xs arbitrary: x) auto

lemma links_remove:
  assumes "links lk x (xs @ q # p # ys)" "distinct (xs @ q # p # ys)"
  shows "links (lk(q := lk p)) x (xs @ q # ys)"
  using assms
proof (induction xs arbitrary: x)
  case Nil
  then show ?case using links_upd [of q ys lk "lk p"] by (auto simp: fun_upd_def)
next
  case (Cons z xs)
  then show ?case by (cases xs) auto
qed

lemma runq_empty [simp]: "runq s [] \<longleftrightarrow> runhd s = None \<and> runtl s = None"
  by (auto simp: runq_def)

lemma runq_head: "runq s xs \<Longrightarrow> runhd s = (if xs = [] then None else Some (hd xs))"
  by (cases xs) (auto simp: runq_def)

lemma runq_distinct: "runq s xs \<Longrightarrow> distinct xs"
  by (simp add: runq_def)

lemma links_unique: "links lk x xs \<Longrightarrow> links lk x ys \<Longrightarrow> xs = ys"
proof (induction xs arbitrary: x ys)
  case Nil
  then show ?case by (cases ys) auto
next
  case (Cons p xs)
  then show ?case by (cases ys) auto
qed

lemma runq_unique: "runq s xs \<Longrightarrow> runq s ys \<Longrightarrow> xs = ys"
  by (auto simp: runq_def intro: links_unique)

text \<open>Two states with the same links and ends have the same run queue.\<close>

lemma runq_cong:
  "lnk s = lnk s' \<Longrightarrow> runhd s = runhd s' \<Longrightarrow> runtl s = runtl s' \<Longrightarrow> runq s xs = runq s' xs"
  by (simp add: runq_def)

lemma find_prev_links:
  assumes "links lk x (xs @ p # ys)" "p \<notin> set xs"
  shows "find_prev lk p prev x = Some (if xs = [] then prev else Some (last xs), True)"
  using assms
proof (induction xs arbitrary: x prev)
  case Nil
  then show ?case by (simp add: find_prev.simps)
next
  case (Cons z xs)
  then have "find_prev lk p prev x = find_prev lk p (Some z) (lk z)"
    by (subst find_prev.simps) auto
  then show ?case using Cons by auto
qed

lemma find_prev_absent:
  "links lk x xs \<Longrightarrow> p \<notin> set xs \<Longrightarrow> \<exists>q. find_prev lk p prev x = Some (q, False)"
  by (induction xs arbitrary: x prev) (auto simp: find_prev.simps)

section \<open>The operations on a well-formed queue\<close>

text \<open>
  What a state holds besides the links and the ends of the run queue: the operations below
  change \<open>body\<close> in the state of one prog at most.
\<close>

definition body where
  "body s = (\<lambda>p. (progs s p)\<lparr>pr_link := None\<rparr>, chans s, nchan s, arrays s, mem s, RIC s, Rt s, xrand s)"

lemma bodyI:
  assumes "\<And>p. (progs s p)\<lparr>pr_link := None\<rparr> = (progs t p)\<lparr>pr_link := None\<rparr>"
    "chans s = chans t" "nchan s = nchan t" "arrays s = arrays t" "mem s = mem t"
    "RIC s = RIC t" "Rt s = Rt t" "xrand s = xrand t"
  shows "body s = body t"
  using assms by (auto simp: body_def)

lemma body_prog:
  "body s = body t \<Longrightarrow> (progs s p)\<lparr>pr_link := None\<rparr> = (progs t p)\<lparr>pr_link := None\<rparr>"
  by (auto simp: body_def fun_eq_iff)

lemma body_chans:
  "body s = body t \<Longrightarrow> chans s = chans t \<and> nchan s = nchan t \<and> arrays s = arrays t \<and> mem s = mem t
     \<and> RIC s = RIC t \<and> Rt s = Rt t \<and> xrand s = xrand t"
  by (auto simp: body_def)

lemma body_fields:
  assumes "body s = body t"
  shows "pr_state (progs s p) = pr_state (progs t p)" "pr_chan (progs s p) = pr_chan (progs t p)"
    "pr_ptr (progs s p) = pr_ptr (progs t p)" "pr_kill (progs s p) = pr_kill (progs t p)"
    "pr_addrun (progs s p) = pr_addrun (progs t p)" "pr_Rs (progs s p) = pr_Rs (progs t p)"
    "pr_Rd (progs s p) = pr_Rd (progs t p)"
  using body_prog [OF assms, of p] by (cases "progs s p"; cases "progs t p"; simp)+

lemma body_set_state:
  assumes "body s = body t"
  shows "body (set_state st p s) = body (set_state st p t)"
proof (rule bodyI)
  fix q
  have eq: "(progs (set_state st p u) q)\<lparr>pr_link := None\<rparr>
      = (if q = p then (\<lambda>r. r\<lparr>pr_state := st\<rparr>) else (\<lambda>r. r)) ((progs u q)\<lparr>pr_link := None\<rparr>)" for u
    by (simp add: set_state_def)
  show "(progs (set_state st p s) q)\<lparr>pr_link := None\<rparr> = (progs (set_state st p t) q)\<lparr>pr_link := None\<rparr>"
    unfolding eq body_prog [OF assms] ..
qed (use body_chans [OF assms] in \<open>simp_all add: set_state_def\<close>)

lemma addrun_runq:
  assumes "runq s xs" "p \<notin> set xs" "pr_addrun (progs s p) = None"
  obtains s' where "addrun p s = Inr s'" "runq s' (xs @ [p])" "body s' = body (set_state Pready p s)"
proof (cases xs rule: rev_cases)
  case Nil
  show thesis
    by (rule that [of "(set_link None p (set_state Pready p s))\<lparr>runhd := Some p, runtl := Some p\<rparr>"])
      (use assms Nil in \<open>auto simp: addrun_def runq_def set_link_def set_state_def Let_def
        intro!: bodyI\<close>)
next
  case (snoc zs t)
  let ?s1 = "set_link None p (set_state Pready p s)"
  let ?s' = "(set_link (Some p) t ?s1)\<lparr>runtl := Some p\<rparr>"
  have hd: "runhd s = Some (hd xs)" "runtl s = Some t"
    using runq_head [OF assms(1)] assms(1) snoc by (auto simp: runq_def)
  have eq: "addrun p s = Inr ?s'"
    using assms(3) hd by (simp add: addrun_def Let_def set_link_def set_state_def)
  have "lnk ?s' = (lnk s)(p := None, t := Some p)"
    using assms(2) snoc by (auto simp: set_link_def set_state_def fun_eq_iff)
  moreover have "runhd ?s' = runhd s" by (simp add: set_link_def set_state_def)
  moreover have "links ((lnk s)(p := None, t := Some p)) (runhd s) (zs @ [t, p])"
    by (rule links_snoc) (use assms snoc in \<open>auto simp: runq_def\<close>)
  ultimately have "runq ?s' (xs @ [p])"
    using assms snoc by (auto simp: runq_def)
  then show thesis
    by (rule that [OF eq]) (auto simp: set_link_def set_state_def intro!: bodyI)
qed

lemma delrun_runq:
  assumes "runq s (p # xs)"
  obtains s' where "delrun st s = Inr (p, s')" "runq s' xs" "body s' = body (set_state st p s)"
    "runhd s' = pr_link (progs s p)"
proof -
  have hd: "runhd s = Some p" and lk: "links (lnk s) (pr_link (progs s p)) xs"
    and p: "p \<notin> set xs" "distinct xs"
    using assms by (auto simp: runq_def)
  let ?s1 = "(set_state st p s)\<lparr>runhd := pr_link (progs s p)\<rparr>"
  let ?s' = "if pr_link (progs s p) = None then ?s1\<lparr>runtl := None\<rparr> else ?s1"
  have eq: "delrun st s = Inr (p, ?s')"
    by (simp add: delrun_def hd Let_def set_state_def)
  have l: "lnk ?s' = lnk s" by (auto simp: set_state_def fun_eq_iff)
  have h: "runhd ?s' = pr_link (progs s p)" by simp
  have e: "pr_link (progs s p) = None \<longleftrightarrow> xs = []"
    using lk by (cases xs) auto
  have t: "runtl ?s' = (if xs = [] then None else Some (last xs))"
    using assms e by (auto simp: runq_def set_state_def)
  have "runq ?s' xs"
    unfolding runq_def l h t using lk p by simp
  then show thesis
    by (rule that [OF eq]) (auto simp: set_state_def intro!: bodyI)
qed

lemma delrunq_runq:
  assumes "runq s xs"
  obtains s' where "delrunq p s = Inr s'" "runq s' (remove1 p xs)" "body s' = body s"
proof (cases "p \<in> set xs")
  case False
  then obtain q where "find_prev (lnk s) p None (runhd s) = Some (q, False)"
    using find_prev_absent [of "lnk s" "runhd s" xs p None] assms by (auto simp: runq_def)
  then have "delrunq p s = Inr s" by (simp add: delrunq_def)
  then show thesis by (rule that) (use assms False in \<open>simp_all add: remove1_idem\<close>)
next
  case True
  then obtain ys zs where xs: "xs = ys @ p # zs" "p \<notin> set ys"
    by (meson split_list_first)
  have d: "distinct (ys @ p # zs)" and lk: "links (lnk s) (runhd s) (ys @ p # zs)"
    and tl: "runtl s = Some (last (ys @ p # zs))"
    using assms xs by (auto simp: runq_def)
  have r: "remove1 p xs = ys @ zs" using xs by (simp add: remove1_append)
  let ?l = "pr_link (progs s p)"
  have rest: "links (lnk s) ?l zs" by (rule links_split [OF lk])
  have last_eq: "runtl s = Some p \<longleftrightarrow> zs = []"
    using tl d by (auto simp: last_append)
  note fp = find_prev_links [OF lk xs(2), of None]
  show thesis
  proof (cases ys rule: rev_cases)
    case Nil
    let ?s' = "if runtl s = Some p then s\<lparr>runhd := ?l, runtl := None\<rparr> else s\<lparr>runhd := ?l\<rparr>"
    have "delrunq p s = Inr ?s'"
      using fp Nil by (auto simp: delrunq_def Let_def)
    moreover have "runq ?s' (remove1 p xs)"
      using Nil rest d tl last_eq unfolding r by (auto simp: runq_def)
    moreover have "body ?s' = body s" by (auto intro!: bodyI)
    ultimately show thesis by (rule that)
  next
    case (snoc as q)
    let ?s1 = "set_link ?l q s"
    let ?s' = "if runtl s = Some p then ?s1\<lparr>runtl := Some q\<rparr> else ?s1"
    have eq: "delrunq p s = Inr ?s'"
      using fp snoc by (auto simp: delrunq_def Let_def set_link_def)
    have l: "lnk ?s' = (lnk s)(q := lnk s p)" by (auto simp: set_link_def fun_eq_iff)
    have "links (lnk ?s') (runhd s) (as @ q # zs)"
      unfolding l by (rule links_remove [of _ _ as q p zs]) (use lk d snoc in auto)
    moreover have "runhd ?s' = runhd s" by (simp add: set_link_def)
    moreover have "runtl ?s' = Some (last (ys @ zs))"
      using tl last_eq snoc by (auto simp: set_link_def)
    ultimately have "runq ?s' (remove1 p xs)"
      unfolding r using snoc d by (auto simp: runq_def)
    moreover have "body ?s' = body s" by (auto simp: set_link_def intro!: bodyI)
    ultimately show thesis by (rule that [OF eq])
  qed
qed

lemma delruntail_runq:
  assumes "runq s (xs @ [p])"
  obtains s' where "delruntail st s = Inr (p, s')" "runq s' xs" "body s' = body (set_state st p s)"
proof -
  have tl: "runtl s = Some p" using assms by (simp add: runq_def)
  obtain t where t: "delrunq p s = Inr t" "runq t (remove1 p (xs @ [p]))" "body t = body s"
    by (rule delrunq_runq [OF assms])
  have p: "p \<notin> set xs" using assms by (simp add: runq_def)
  have r: "runq t xs" using t(2) p by (simp add: remove1_append)
  have "delruntail st s = Inr (p, set_state st p t)"
    by (simp add: delruntail_def tl t(1))
  moreover have "runq (set_state st p t) xs"
    using r by (subst runq_cong [of _ t]) (auto simp: set_state_def fun_eq_iff)
  moreover have "body (set_state st p t) = body (set_state st p s)"
    using t(3) by (rule body_set_state)
  ultimately show thesis by (rule that)
qed

lemma pushrun_runq:
  assumes "runq s xs" "p \<notin> set xs" "pr_addrun (progs s p) = None"
  obtains s' where "pushrun p s = Inr s'" "runq s' (p # xs)" "body s' = body (set_state Pready p s)"
proof -
  let ?s1 = "(set_link (runhd s) p (set_state Pready p s))\<lparr>runhd := Some p\<rparr>"
  let ?s' = "if runhd s = None then ?s1\<lparr>runtl := Some p\<rparr> else ?s1"
  have h: "runhd (set_state Pready p s) = runhd s" by (simp add: set_state_def)
  have eq: "pushrun p s = Inr ?s'"
    using assms(3) by (simp add: pushrun_def Let_def set_link_def set_state_def)
  have l: "lnk ?s' = (lnk s)(p := runhd s)" by (auto simp: set_link_def set_state_def fun_eq_iff)
  have t: "runtl ?s' = Some (last (p # xs))"
    using assms(1) runq_head [OF assms(1)] by (auto simp: runq_def set_link_def set_state_def)
  have hd: "runhd ?s' = Some p" by simp
  have "runq ?s' (p # xs)"
    unfolding runq_def l t hd using assms by (auto simp: runq_def)
  then show thesis
    by (rule that [OF eq]) (auto simp: set_link_def set_state_def intro!: bodyI)
qed

lemma rotate_runq:
  assumes "runq s (r # xs)"
  obtains s' where "rotate_run r s = Inr s'" "runq s' (xs @ [r])" "body s' = body s"
proof (cases xs rule: rev_cases)
  case Nil
  then have "rotate_run r s = Inr s" using assms by (simp add: rotate_run_def runq_def)
  then show thesis by (rule that) (use assms Nil in auto)
next
  case (snoc zs t)
  have a: "runhd s = Some r" "runtl s = Some t" "r \<notin> set xs" "distinct xs" "r \<noteq> t"
    "links (lnk s) (lnk s r) xs"
    using assms snoc by (auto simp: runq_def)
  let ?s' = "(set_link (Some r) t (set_link None r (s\<lparr>runhd := lnk s r\<rparr>)))\<lparr>runtl := Some r\<rparr>"
  have eq: "rotate_run r s = Inr ?s'"
    using a by (simp add: rotate_run_def Let_def set_link_def)
  have l: "lnk ?s' = (lnk s)(r := None, t := Some r)"
    using a by (auto simp: set_link_def fun_eq_iff)
  have "links ((lnk s)(r := None, t := Some r)) (lnk s r) (zs @ [t, r])"
    by (rule links_snoc) (use a snoc in auto)
  then have "runq ?s' (xs @ [r])"
    unfolding runq_def l using a snoc by (auto simp: set_link_def)
  then show thesis
    by (rule that [OF eq]) (auto simp: set_link_def intro!: bodyI)
qed

lemma rotate_any:
  assumes "runq s xs"
  shows "\<exists>t. rotate_run r s = Inr t \<and> runq t (if xs \<noteq> [] \<and> hd xs = r then tl xs @ [r] else xs) \<and> body t = body s"
proof (cases "xs \<noteq> [] \<and> hd xs = r")
  case True
  then obtain ys where xs: "xs = r # ys" by (cases xs) auto
  obtain t where "rotate_run r s = Inr t" "runq t (ys @ [r])" "body t = body s"
    using rotate_runq assms unfolding xs by blast
  then show ?thesis using xs by auto
next
  case False
  then have "rotate_run r s = Inr s" using runq_head [OF assms] by (auto simp: rotate_run_def split: if_splits)
  then show ?thesis unfolding if_not_P [OF False] using assms by blast
qed

section \<open>Round robin\<close>

text \<open>
  \<open>turns head turn n\<close>: \<open>n\<close> rounds of a scheduler that gives the prog at the head its turn.  In
  \<open>vmachine\<close> a turn is the prog's quantum \<open>r->xec(r)\<close> and the rotation; the quantum is a parameter.
  \<open>quantum_ok\<close>: it may change the prog and its memory, block the prog or end it, and make other
  progs ready, which go to the end of the queue; the progs that wait keep their places.  (Progs
  enter in front, through \<open>pushrun\<close>, only when a host thread takes the machine between quanta.)
\<close>

primrec turns :: "('s \<Rightarrow> 'p option) \<Rightarrow> ('p \<Rightarrow> 's \<Rightarrow> 'e + 's) \<Rightarrow> nat \<Rightarrow> 's \<Rightarrow> 'e + 's" where
  "turns head turn 0 s = Inr s"
| "turns head turn (Suc n) s = (case head s of
       None \<Rightarrow> Inr s
     | Some p \<Rightarrow> rbind (turn p s) (turns head turn n))"

definition vm_turn :: "(pid \<Rightarrow> dis \<Rightarrow> dis outcome) \<Rightarrow> pid \<Rightarrow> dis \<Rightarrow> dis outcome" where
  "vm_turn xec r s = rbind (xec r s) (rotate_run r)"

definition quantum_ok :: "(pid \<Rightarrow> dis \<Rightarrow> dis outcome) \<Rightarrow> bool" where
  "quantum_ok xec \<longleftrightarrow> (\<forall>s r ys. runq s (r # ys) \<longrightarrow>
     (\<exists>t zs. xec r s = Inr t \<and> (runq t (r # ys @ zs) \<or> runq t (ys @ zs))))"

locale run_queue =
  fixes rep :: "'s \<Rightarrow> 'p list \<Rightarrow> bool"
    and head :: "'s \<Rightarrow> 'p option"
    and turn :: "'p \<Rightarrow> 's \<Rightarrow> 'e + 's"
  assumes head_law: "rep s xs \<Longrightarrow> head s = (if xs = [] then None else Some (hd xs))"
    and turn_law: "rep s (p # xs) \<Longrightarrow> \<exists>t zs. turn p s = Inr t \<and> rep t (xs @ zs)"
begin

lemma turns_rep: "rep s xs \<Longrightarrow> \<exists>t ys. turns head turn n s = Inr t \<and> rep t (drop n xs @ ys)"
proof (induction n arbitrary: s xs)
  case 0
  then show ?case by (intro exI [of _ s] exI [of _ "[]"]) simp
next
  case (Suc n)
  show ?case
  proof (cases xs)
    case Nil
    then show ?thesis using Suc.prems head_law [OF Suc.prems] by auto
  next
    case (Cons p ys)
    then obtain t zs where t: "turn p s = Inr t" "rep t (ys @ zs)"
      using turn_law Suc.prems by blast
    obtain u ws where u: "turns head turn n t = Inr u" "rep u (drop n (ys @ zs) @ ws)"
      using Suc.IH [OF t(2)] by blast
    have "rep u (drop (Suc n) xs @ (drop (n - length ys) zs @ ws))" using u(2) Cons by simp
    then show ?thesis using t(1) u(1) head_law [OF Suc.prems] Cons by auto
  qed
qed

lemma served:
  assumes "rep s xs" "i < length xs"
  shows "\<exists>t. turns head turn i s = Inr t \<and> head t = Some (xs ! i)"
proof -
  obtain t ys where t: "turns head turn i s = Inr t" "rep t (drop i xs @ ys)"
    using turns_rep [OF assms(1)] by blast
  have "drop i xs @ ys \<noteq> []" "hd (drop i xs @ ys) = xs ! i"
    using assms(2) by (simp_all add: hd_append hd_drop_conv_nth)
  then show ?thesis using t head_law [OF t(2)] by simp
qed

end

lemma vm_run_queue: "quantum_ok xec \<Longrightarrow> run_queue runq currun (vm_turn xec)"
proof
  show "currun s = (if xs = [] then None else Some (hd xs))" if "runq s xs" for s xs
    using runq_head [OF that] by (simp add: currun_def)
  fix s r ys
  assume q: "quantum_ok xec" and rq: "runq s (r # ys)"
  then obtain t zs where t: "xec r s = Inr t" "runq t (r # ys @ zs) \<or> runq t (ys @ zs)"
    unfolding quantum_ok_def by blast
  have r: "r \<notin> set ys" using rq by (simp add: runq_def)
  from t(2) show "\<exists>t zs. vm_turn xec r s = Inr t \<and> runq t (ys @ zs)"
  proof
    assume "runq t (r # ys @ zs)"
    then obtain u where "rotate_run r t = Inr u" "runq u (ys @ zs @ [r])" using rotate_any [of t _ r] by fastforce
    then show ?thesis using t(1) by (auto simp: vm_turn_def)
  next
    assume q: "runq t (ys @ zs)"
    obtain u where u: "rotate_run r t = Inr u"
      "runq u (if ys @ zs \<noteq> [] \<and> hd (ys @ zs) = r then tl (ys @ zs) @ [r] else ys @ zs)"
      using rotate_any [OF q] by blast
    have "ys = [] \<or> hd (ys @ zs) \<noteq> r" using r by (cases ys) auto
    then have "\<exists>ws. runq u (ys @ ws)" using u(2) by (auto split: if_splits)
    then show ?thesis using t(1) u(1) by (auto simp: vm_turn_def)
  qed
qed

lemma quantum_idle: "quantum_ok (\<lambda>r s. Inr s)"
  unfolding quantum_ok_def by (metis append_Nil2)

interpretation rq: run_queue runq currun "vm_turn (\<lambda>r s. Inr s)"
  by (rule vm_run_queue [OF quantum_idle])

section \<open>Properties\<close>

text \<open>A prog without a callback and a state to try the theorems on.\<close>

definition prog0 :: prog where
  "prog0 = \<lparr>pr_state = Pready, pr_link = None, pr_chan = None, pr_ptr = None, pr_kill = None,
     pr_addrun = None, pr_Rs = \<lparr>al_nsend = 0, al_nrecv = 0, al_ac = []\<rparr>, pr_Rd = 0\<rparr>"

definition word_type :: dtype where
  "word_type = \<lparr>ty_np = 0, ty_map = [], ty_reset = (\<lambda>v. v)\<rparr>"

definition chan0 :: channel where
  "chan0 = \<lparr>ch_buf = None, ch_type = word_type, ch_send = [None], ch_recv = [None],
     ch_mover = Movw, ch_mid = Stale, ch_front = 0, ch_size = 0\<rparr>"

definition dis0 :: dis where
  "dis0 = \<lparr>progs = (\<lambda>_. prog0), runhd = None, runtl = None, chans = (\<lambda>_. chan0), nchan = 0,
     arrays = (\<lambda>_. []), mem = (\<lambda>_. 0), RIC = 0, Rt = 0, xrand = 0x20342\<rparr>"

text \<open>Three progs on the run queue.\<close>

definition dis3 :: dis where
  "dis3 = dis0\<lparr>progs := (\<lambda>p. prog0\<lparr>pr_link := if p = 1 then Some 2 else if p = 2 then Some 3 else None\<rparr>),
     runhd := Some 1, runtl := Some 3\<rparr>"

lemma dis3_runq: "runq dis3 [1, 2, 3]"
  by (simp add: runq_def dis3_def dis0_def prog0_def)

text \<open>
  C10. On a run queue that spells the list \<open>xs\<close>, be it empty or not, every pointer operation of the
  scheduler is the operation on the list it is meant to be: \<open>addrun\<close> appends, \<open>pushrun\<close> prepends,
  \<open>delrunq\<close> takes out the given prog wherever it stands, the rotation of \<open>vmachine\<close> moves a prog
  that is the first to the end, and on a queue that is not empty \<open>delrun\<close> takes the first and
  \<open>delruntail\<close> the last.  None loops, none changes anything but the queue and the scheduling state
  of the one prog, and nil is dereferenced only by the last two on an empty queue.
\<close>

theorem run_queue_refines_list:
  assumes "runq s xs" "p \<notin> set xs" "pr_addrun (progs s p) = None"
  shows "(\<exists>t. addrun p s = Inr t \<and> runq t (xs @ [p]) \<and> body t = body (set_state Pready p s))
    \<and> (\<exists>t. pushrun p s = Inr t \<and> runq t (p # xs) \<and> body t = body (set_state Pready p s))
    \<and> (case xs of [] \<Rightarrow> delrun st s = Inl NilDeref \<and> delruntail st s = Inl NilDeref
       | r # ys \<Rightarrow> (\<exists>t. delrun st s = Inr (r, t) \<and> runq t ys \<and> body t = body (set_state st r s))
         \<and> (\<exists>t. delruntail st s = Inr (last xs, t) \<and> runq t (butlast xs) \<and> body t = body (set_state st (last xs) s)))
    \<and> (\<exists>t. delrunq q s = Inr t \<and> runq t (remove1 q xs) \<and> body t = body s)
    \<and> (\<exists>t. rotate_run r s = Inr t \<and> runq t (if xs \<noteq> [] \<and> hd xs = r then tl xs @ [r] else xs) \<and> body t = body s)"
proof (intro conjI)
  show "\<exists>t. addrun p s = Inr t \<and> runq t (xs @ [p]) \<and> body t = body (set_state Pready p s)"
    by (rule addrun_runq [OF assms]) auto
  show "\<exists>t. pushrun p s = Inr t \<and> runq t (p # xs) \<and> body t = body (set_state Pready p s)"
    by (rule pushrun_runq [OF assms]) auto
  show "\<exists>t. delrunq q s = Inr t \<and> runq t (remove1 q xs) \<and> body t = body s"
    by (rule delrunq_runq [OF assms(1), of q]) auto
  show "\<exists>t. rotate_run r s = Inr t \<and> runq t (if xs \<noteq> [] \<and> hd xs = r then tl xs @ [r] else xs) \<and> body t = body s"
    by (rule rotate_any [OF assms(1)])
  show "case xs of [] \<Rightarrow> delrun st s = Inl NilDeref \<and> delruntail st s = Inl NilDeref
       | r # ys \<Rightarrow> (\<exists>t. delrun st s = Inr (r, t) \<and> runq t ys \<and> body t = body (set_state st r s))
         \<and> (\<exists>t. delruntail st s = Inr (last xs, t) \<and> runq t (butlast xs) \<and> body t = body (set_state st (last xs) s))"
  proof (cases xs)
    case Nil
    then show ?thesis using assms(1) by (simp add: delrun_def delruntail_def)
  next
    case (Cons r ys)
    have "\<exists>t. delrun st s = Inr (r, t) \<and> runq t ys \<and> body t = body (set_state st r s)"
      by (rule delrun_runq [of s r ys st]) (use assms(1) Cons in auto)
    moreover have "\<exists>t. delruntail st s = Inr (last xs, t) \<and> runq t (butlast xs) \<and> body t = body (set_state st (last xs) s)"
      by (rule delruntail_runq [of s "butlast xs" "last xs" st])
        (use assms(1) Cons in \<open>auto simp: append_butlast_last_id\<close>)
    ultimately show ?thesis using Cons by simp
  qed
qed

lemma run_queue_refines_list_witness:
  "(\<exists>t. addrun 7 dis3 = Inr t \<and> runq t [1, 2, 3, 7])
   \<and> (\<exists>t. delrunq 2 dis3 = Inr t \<and> runq t [1, 3]) \<and> (\<exists>t. pushrun 7 dis0 = Inr t \<and> runq t [7])"
  using run_queue_refines_list [of dis3 "[1, 2, 3]" 7 Psend 2] dis3_runq run_queue_refines_list [of dis0 "[]" 7 Psend 2]
  by (auto simp: dis3_def dis0_def prog0_def)

text \<open>
  C28. The scheduler is fair.  Whatever the quanta do, as long as they leave the waiting progs in
  their places (\<open>quantum_ok\<close>): a prog that stands \<open>i\<close> places behind the head is the running prog
  after \<open>i\<close> turns, and no number of turns, also of a prog that is alone or gone, fails or
  damages the queue.
\<close>

theorem round_robin_fair:
  assumes "quantum_ok xec" "runq s xs" "i < length xs"
  shows "(\<exists>t. turns currun (vm_turn xec) i s = Inr t \<and> currun t = Some (xs ! i))
    \<and> (\<forall>n. \<exists>t ys. turns currun (vm_turn xec) n s = Inr t \<and> runq t (drop n xs @ ys))"
  using run_queue.served [OF vm_run_queue [OF assms(1)] assms(2,3)]
    run_queue.turns_rep [OF vm_run_queue [OF assms(1)] assms(2)] by blast

text \<open>A quantum in which prog 1 blocks, the others run on.\<close>

definition quantum_block :: "pid \<Rightarrow> dis \<Rightarrow> dis outcome" where
  "quantum_block r s = (if r = 1 then rbind (delrun Psend s) (\<lambda>(_, s). Inr s) else Inr s)"

lemma round_robin_fair_witness:
  "\<exists>t. turns currun (vm_turn quantum_block) 2 dis3 = Inr t \<and> currun t = Some 3"
proof -
  have "quantum_ok quantum_block"
    unfolding quantum_ok_def
  proof (intro allI impI)
    fix s r ys assume q: "runq s (r # ys)"
    obtain t where "delrun Psend s = Inr (r, t)" "runq t ys" by (rule delrun_runq [OF q])
    then show "\<exists>t zs. quantum_block r s = Inr t \<and> (runq t (r # ys @ zs) \<or> runq t (ys @ zs))"
      using q by (intro exI [of _ "if r = 1 then t else s"] exI [of _ "[]"]) (simp add: quantum_block_def)
  qed
  then show ?thesis using round_robin_fair [OF _ dis3_runq, of quantum_block 2] by simp
qed

end
