(* ===== verification/Chan.thy ===== *)
theory Chan
  imports Sched
begin

text \<open>
  Channels and alts: the wait queues, the buffer and the instructions \<open>isend\<close>, \<open>irecv\<close> and the
  channel constructors of \<^verbatim>\<open>libinterp/xec.c\<close>, the alt of \<^verbatim>\<open>libinterp/alt.c\<close>, and the routines of
  \<^verbatim>\<open>emu/port/dis.c\<close> that take a blocked prog off its channels (\<open>altgone\<close>, \<open>killcomm\<close>, \<open>exprog\<close>).

  Reference counts, and the heap's allocation failures, are not part of the state.  A data mover
  copies the datum of one cell to another.  Messages the code prints are dropped, and
  \<open>swiprog\<close>, which interrupts a host thread, changes nothing here.
\<close>

section \<open>Wait queues\<close>

definition exNilref :: string where "exNilref = ''dereference of nil''"
definition exAlt :: string where "exAlt = ''alt send/recv on same chan''"
definition exNegsize :: string where "exNegsize = ''negative array size''"

text \<open>\<open>q->prog\<close>, \<open>cqadd\<close>, \<open>cqdel\<close>, \<open>cqdelp\<close>; the empty list is the nil pointer.\<close>

definition cqprog :: "progq \<Rightarrow> pid option outcome" where
  "cqprog q = (case q of [] \<Rightarrow> Inl NilDeref | x # _ \<Rightarrow> Inr x)"

definition cqadd :: "progq \<Rightarrow> pid \<Rightarrow> progq outcome" where
  "cqadd q p = (case q of
       [] \<Rightarrow> Inl NilDeref
     | None # r \<Rightarrow> Inr (Some p # r)
     | _ \<Rightarrow> Inr (q @ [Some p]))"

definition cqdel :: "progq \<Rightarrow> progq outcome" where
  "cqdel q = (case q of
       [] \<Rightarrow> Inl NilDeref
     | [x] \<Rightarrow> Inr [None]
     | x # r \<Rightarrow> Inr r)"

fun cqdelp_loop :: "progq \<Rightarrow> pid \<Rightarrow> progq" where
  "cqdelp_loop [] p = []"
| "cqdelp_loop (x # r) p = (if x = Some p then cqdelp_loop r p else x # cqdelp_loop r p)"

definition cqdelp :: "progq \<Rightarrow> pid \<Rightarrow> progq outcome" where
  "cqdelp q p = (case q of
       [] \<Rightarrow> Inl NilDeref
     | [x] \<Rightarrow> Inr (if x = Some p then [None] else [x])
     | _ \<Rightarrow> Inr (cqdelp_loop q p))"

section \<open>The buffer of a channel\<close>

definition canget :: "channel \<Rightarrow> bool" where
  "canget ch \<longleftrightarrow> ch_size ch > 0"

definition canput :: "channel \<Rightarrow> bool" where
  "canput ch \<longleftrightarrow> (case ch_buf ch of None \<Rightarrow> False | Some a \<Rightarrow> ch_size ch < length a)"

definition cgetb :: "cid \<Rightarrow> addr \<Rightarrow> dis \<Rightarrow> (bool \<times> dis) outcome" where
  "cgetb c v s = (let ch = chans s c in case ch_buf ch of
       None \<Rightarrow> Inr (False, s)
     | Some a \<Rightarrow>
        if ch_size ch > 0 then
          rbind (fetch BadIndex a (ch_front ch)) (\<lambda>w.
            let f = ch_front ch + 1;
                f = (if f = length a then 0 else f);
                s = upd_chan c (\<lambda>ch. ch\<lparr>ch_front := f, ch_size := ch_size ch - 1\<rparr>) s;
                s = put_mem v w s;
                s = (if ty_np (ch_type ch) \<noteq> 0
                     then upd_chan c (\<lambda>x. x\<lparr>ch_buf := Some (a[ch_front ch := ty_reset (ch_type ch) w])\<rparr>) s
                     else s)
            in Inr (True, s))
        else Inr (False, s))"

definition cputb :: "cid \<Rightarrow> addr option \<Rightarrow> dis \<Rightarrow> (bool \<times> dis) outcome" where
  "cputb c v s = (let ch = chans s c in case ch_buf ch of
       None \<Rightarrow> Inr (False, s)
     | Some a \<Rightarrow>
        if ch_size ch < length a then
          (let r = ch_front ch + ch_size ch;
               r = (if r \<ge> length a then r - length a else r)
           in case v of
                None \<Rightarrow> Inl NilDeref
              | Some v \<Rightarrow> rbind (store BadIndex a r (mem s v)) (\<lambda>a.
                  Inr (True, upd_chan c (\<lambda>ch. ch\<lparr>ch_size := ch_size ch + 1, ch_buf := Some a\<rparr>) s)))
        else Inr (False, s))"

section \<open>Channel constructors\<close>

text \<open>
  \<open>cnewc\<close>: only a \<open>movtmp\<close> channel has \<open>mid\<close> set.  \<open>junk\<close> is what a fresh array holds.
\<close>

definition cnewc :: "(nat \<Rightarrow> int) \<Rightarrow> dtype \<Rightarrow> mover \<Rightarrow> nat \<Rightarrow> dis \<Rightarrow> cid \<times> dis" where
  "cnewc junk t mv len s =
     (let c = nchan s;
          ch = \<lparr>ch_buf = (if len > 0 then Some (map junk [0..<len]) else None), ch_type = t,
                ch_send = [None], ch_recv = [None], ch_mover = mv,
                ch_mid = (if mv = Movtmp then MidT t else Stale), ch_front = 0, ch_size = 0\<rparr>
      in (c, s\<lparr>chans := (chans s)(c := ch), nchan := c + 1\<rparr>))"

text \<open>The length operand \<open>R.m\<close> is absent when it is the destination.\<close>

definition newc :: "(nat \<Rightarrow> int) \<Rightarrow> dtype \<Rightarrow> mover \<Rightarrow> int option \<Rightarrow> dis \<Rightarrow> (cid \<times> dis) outcome" where
  "newc junk t mv m s = (case m of
       None \<Rightarrow> Inr (cnewc junk t mv 0 s)
     | Some len \<Rightarrow>
        if len < 0 then Inl (Raised exNegsize s) else Inr (cnewc junk t mv (nat len) s))"

definition newcm :: "(nat \<Rightarrow> int) \<Rightarrow> dtype \<Rightarrow> int \<Rightarrow> int option \<Rightarrow> dis \<Rightarrow> (cid \<times> dis) outcome" where
  "newcm junk t w m s = rbind (newc junk t Movm m s) (\<lambda>(c, s).
     Inr (c, upd_chan c (\<lambda>ch. ch\<lparr>ch_mid := MidW w\<rparr>) s))"

section \<open>Leaving an alt\<close>

text \<open>Pointers have 8 bytes, words 4.\<close>

definition IBY2PTR :: nat where "IBY2PTR = 8"
definition IBY2WD :: nat where "IBY2WD = 4"

definition altvaloff :: "dtype option \<Rightarrow> nat" where
  "altvaloff t = (case t of
       None \<Rightarrow> IBY2WD
     | Some t \<Rightarrow> if list_ex (\<lambda>b. b \<noteq> 0) (take (ty_np t) (ty_map t)) then IBY2PTR else IBY2WD)"

text \<open>\<open>c->mid.t\<close>: there is a \<open>Type\<close> to point to only if one was stored.\<close>

definition mid_t :: "mid \<Rightarrow> dtype outcome" where
  "mid_t m = (case m of MidT t \<Rightarrow> Inr t | _ \<Rightarrow> Inl WildType)"

text \<open>\<open>if(c->send->prog) cqdelp(&c->send, p)\<close> and its twin.\<close>

definition drop_send :: "cid \<Rightarrow> pid \<Rightarrow> dis \<Rightarrow> dis outcome" where
  "drop_send c p s = rbind (cqprog (ch_send (chans s c))) (\<lambda>x.
     if x = None then Inr s
     else rbind (cqdelp (ch_send (chans s c)) p) (\<lambda>q. Inr (upd_chan c (\<lambda>ch. ch\<lparr>ch_send := q\<rparr>) s)))"

definition drop_recv :: "cid \<Rightarrow> pid \<Rightarrow> dis \<Rightarrow> dis outcome" where
  "drop_recv c p s = rbind (cqprog (ch_recv (chans s c))) (\<lambda>x.
     if x = None then Inr s
     else rbind (cqdelp (ch_recv (chans s c)) p) (\<lambda>q. Inr (upd_chan c (\<lambda>ch. ch\<lparr>ch_recv := q\<rparr>) s)))"

text \<open>
  \<open>sel\<close> is the channel on which the alt was served, nil (\<open>None\<close>) if there is none or once its
  entry was found; \<open>n\<close> counts the entries.
\<close>

fun altunmark :: "addr \<Rightarrow> pid \<Rightarrow> int \<Rightarrow> cid option \<Rightarrow> nat \<Rightarrow> nat \<Rightarrow> cid option list \<Rightarrow> dis
    \<Rightarrow> (cid option \<times> dis) outcome" where
  "altunmark ptr p sr sel dn n [] s = Inr (sel, s)"
| "altunmark ptr p sr sel dn n (None # cs) s = altunmark ptr p sr sel dn (n + 1) cs s"
| "altunmark ptr p sr sel dn n (Some c # cs) s =
     rbind (drop_recv c p s) (\<lambda>s.
       if sr = 1 \<and> sel = Some c then
         rbind (mid_t (ch_mid (chans s c))) (\<lambda>t.
           let s = put_mem (pr_Rd (progs s p)) (int dn) s;
               s = set_ptr (Some (ptr + altvaloff (Some t))) p s;
               s = put_mem ptr (int n) s
           in altunmark ptr p sr None dn (n + 1) cs s)
       else altunmark ptr p sr sel dn (n + 1) cs s)"

fun altdone_send :: "pid \<Rightarrow> int \<Rightarrow> cid option \<Rightarrow> nat \<Rightarrow> altc list \<Rightarrow> dis
    \<Rightarrow> (cid option \<times> nat \<times> dis) outcome" where
  "altdone_send p sr sel n [] s = Inr (sel, n, s)"
| "altdone_send p sr sel n (ac # acs) s = (case ac_c ac of
       NilCh \<Rightarrow> altdone_send p sr sel (n + 1) acs s
     | ArrCh _ \<Rightarrow> Inl WildType
     | Ch c \<Rightarrow> rbind (drop_send c p s) (\<lambda>s.
         if sr = 0 \<and> sel = Some c then
           (let s = set_ptr (Some (ac_ptr ac)) p s;
                s = put_mem (pr_Rd (progs s p)) (int n) s
            in altdone_send p sr None (n + 1) acs s)
         else altdone_send p sr sel (n + 1) acs s))"

fun altdone_recv :: "pid \<Rightarrow> int \<Rightarrow> cid option \<Rightarrow> nat \<Rightarrow> altc list \<Rightarrow> dis \<Rightarrow> dis outcome" where
  "altdone_recv p sr sel n [] s = Inr s"
| "altdone_recv p sr sel n (ac # acs) s = (case ac_c ac of
       NilCh \<Rightarrow> altdone_recv p sr sel (n + 1) acs s
     | ArrCh a \<Rightarrow> rbind (altunmark (ac_ptr ac) p sr sel n 0 (arrays s a) s) (\<lambda>(sel, s).
         altdone_recv p sr sel (n + 1) acs s)
     | Ch c \<Rightarrow> rbind (drop_recv c p s) (\<lambda>s.
         if sr = 1 \<and> sel = Some c then
           (let s = set_ptr (Some (ac_ptr ac)) p s;
                s = put_mem (pr_Rd (progs s p)) (int n) s
            in altdone_recv p sr None (n + 1) acs s)
         else altdone_recv p sr sel (n + 1) acs s))"

definition al_sends :: "alt \<Rightarrow> altc list" where
  "al_sends a = take (al_nsend a) (al_ac a)"

definition al_recvs :: "alt \<Rightarrow> altc list" where
  "al_recvs a = take (al_nrecv a) (drop (al_nsend a) (al_ac a))"

definition altdone :: "alt \<Rightarrow> pid \<Rightarrow> cid option \<Rightarrow> int \<Rightarrow> dis \<Rightarrow> dis outcome" where
  "altdone a p sel sr s = rbind (altdone_send p sr sel 0 (al_sends a) s) (\<lambda>(sel, n, s).
     altdone_recv p sr sel n (al_recvs a) s)"

section \<open>Send and receive\<close>

definition isend :: "cid option \<Rightarrow> addr \<Rightarrow> dis \<Rightarrow> dis outcome" where
  "isend d src s = (case d of
       None \<Rightarrow> Inl (Raised exNilref s)
     | Some c \<Rightarrow> rbind (cqprog (ch_recv (chans s c))) (\<lambda>po. case po of
         None \<Rightarrow> rbind (cputb c (Some src) s) (\<lambda>(ok, s).
           if ok then Inr s
           else rbind (delrun Psend s) (\<lambda>(p, s).
             let s = upd_prog p (\<lambda>r. r\<lparr>pr_ptr := Some src, pr_chan := Some c\<rparr>) s;
                 s = s\<lparr>RIC := 1, Rt := 1\<rparr>
             in rbind (cqadd (ch_send (chans s c)) p) (\<lambda>q.
                  Inr (upd_chan c (\<lambda>ch. ch\<lparr>ch_send := q\<rparr>) s))))
       | Some p \<Rightarrow> rbind (cqdel (ch_recv (chans s c))) (\<lambda>q.
           let s = upd_chan c (\<lambda>ch. ch\<lparr>ch_recv := q\<rparr>) s
           in rbind (if pr_state (progs s p) = Palt then altdone (pr_Rs (progs s p)) p (Some c) 1 s
                     else Inr s) (\<lambda>s.
              case pr_ptr (progs s p) of
                None \<Rightarrow> Inl NilDeref
              | Some d \<Rightarrow>
                 (let s = set_ptr None p s;
                      s = put_mem d (mem s src) s
                  in rbind (addrun p s) (\<lambda>s. Inr (s\<lparr>Rt := 0\<rparr>)))))))"

definition irecv :: "cid option \<Rightarrow> addr \<Rightarrow> dis \<Rightarrow> dis outcome" where
  "irecv sc dst s = (case sc of
       None \<Rightarrow> Inl (Raised exNilref s)
     | Some c \<Rightarrow> rbind (cqprog (ch_send (chans s c))) (\<lambda>po. case po of
         None \<Rightarrow> rbind (cgetb c dst s) (\<lambda>(ok, s).
           if ok then Inr s
           else rbind (delrun Precv s) (\<lambda>(p, s).
             let s = upd_prog p (\<lambda>r. r\<lparr>pr_ptr := Some dst, pr_chan := Some c\<rparr>) s;
                 s = s\<lparr>RIC := 1, Rt := 1\<rparr>
             in rbind (cqadd (ch_recv (chans s c)) p) (\<lambda>q.
                  Inr (upd_chan c (\<lambda>ch. ch\<lparr>ch_recv := q\<rparr>) s))))
       | Some p \<Rightarrow> rbind (cqdel (ch_send (chans s c))) (\<lambda>q.
           let s = upd_chan c (\<lambda>ch. ch\<lparr>ch_send := q\<rparr>) s
           in rbind (if pr_state (progs s p) = Palt then altdone (pr_Rs (progs s p)) p (Some c) 0 s
                     else Inr s) (\<lambda>s.
              rbind (if ch_buf (chans s c) \<noteq> None
                     then rbind (cgetb c dst s) (\<lambda>(_, s).
                            rbind (cputb c (pr_ptr (progs s p)) s) (\<lambda>(_, s). Inr (set_ptr None p s)))
                     else (case pr_ptr (progs s p) of
                             None \<Rightarrow> Inl NilDeref
                           | Some a \<Rightarrow> Inr (put_mem dst (mem s a) (set_ptr None p s)))) (\<lambda>s.
              rbind (addrun p s) (\<lambda>s. Inr (s\<lparr>Rt := 0\<rparr>)))))))"

section \<open>Alt: the three passes\<close>

text \<open>\<open>c->send->prog || CANGET(c)\<close> and \<open>c->recv->prog || CANPUT(c)\<close>.\<close>

definition recv_ready :: "dis \<Rightarrow> cid \<Rightarrow> bool outcome" where
  "recv_ready s c = rbind (cqprog (ch_send (chans s c))) (\<lambda>x. Inr (x \<noteq> None \<or> canget (chans s c)))"

definition send_ready :: "dis \<Rightarrow> cid \<Rightarrow> bool outcome" where
  "send_ready s c = rbind (cqprog (ch_recv (chans s c))) (\<lambda>x. Inr (x \<noteq> None \<or> canput (chans s c)))"

definition mark_recv :: "cid \<Rightarrow> pid \<Rightarrow> dis \<Rightarrow> dis outcome" where
  "mark_recv c p s = rbind (cqadd (ch_recv (chans s c)) p) (\<lambda>q.
     Inr (upd_chan c (\<lambda>ch. ch\<lparr>ch_recv := q\<rparr>) s))"

definition mark_send :: "cid \<Rightarrow> pid \<Rightarrow> dis \<Rightarrow> dis outcome" where
  "mark_send c p s = rbind (cqadd (ch_send (chans s c)) p) (\<lambda>q.
     Inr (upd_chan c (\<lambda>ch. ch\<lparr>ch_send := q\<rparr>) s))"

fun altmark :: "pid \<Rightarrow> nat \<Rightarrow> cid option list \<Rightarrow> dis \<Rightarrow> (nat \<times> dis) outcome" where
  "altmark p nrdy [] s = Inr (nrdy, s)"
| "altmark p nrdy (None # cs) s = altmark p nrdy cs s"
| "altmark p nrdy (Some c # cs) s =
     rbind (recv_ready s c) (\<lambda>b.
     rbind (mark_recv c p s) (\<lambda>s. altmark p (if b then nrdy + 1 else nrdy) cs s))"

fun altrdy_recv :: "pid \<Rightarrow> string option \<Rightarrow> nat \<Rightarrow> altc list \<Rightarrow> dis
    \<Rightarrow> (string option \<times> nat \<times> dis) outcome" where
  "altrdy_recv p e nrdy [] s = Inr (e, nrdy, s)"
| "altrdy_recv p e nrdy (ac # acs) s = (case ac_c ac of
       NilCh \<Rightarrow> altrdy_recv p (Some exNilref) nrdy acs s
     | ArrCh a \<Rightarrow> rbind (altmark p 0 (arrays s a) s) (\<lambda>(k, s). altrdy_recv p e (nrdy + k) acs s)
     | Ch c \<Rightarrow> rbind (recv_ready s c) (\<lambda>b.
         rbind (mark_recv c p s) (\<lambda>s. altrdy_recv p e (if b then nrdy + 1 else nrdy) acs s)))"

fun altrdy_send :: "pid \<Rightarrow> string option \<Rightarrow> nat \<Rightarrow> altc list \<Rightarrow> dis
    \<Rightarrow> (string option \<times> nat \<times> dis) outcome" where
  "altrdy_send p e nrdy [] s = Inr (e, nrdy, s)"
| "altrdy_send p e nrdy (ac # acs) s = (case ac_c ac of
       NilCh \<Rightarrow> altrdy_send p (Some exNilref) nrdy acs s
     | ArrCh _ \<Rightarrow> Inl WildType
     | Ch c \<Rightarrow> rbind (send_ready s c) (\<lambda>b.
         rbind (cqprog (ch_recv (chans s c))) (\<lambda>x.
           if b \<and> x = Some p then altrdy_send p (Some exAlt) nrdy acs s
           else rbind (mark_send c p s) (\<lambda>s.
                  altrdy_send p e (if b then nrdy + 1 else nrdy) acs s))))"

definition altrdy :: "alt \<Rightarrow> pid \<Rightarrow> dis \<Rightarrow> (nat \<times> dis) outcome" where
  "altrdy a p s =
     rbind (altrdy_recv p None 0 (al_recvs a) s) (\<lambda>(e, nrdy, s).
     rbind (altrdy_send p e nrdy (al_sends a) s) (\<lambda>(e, nrdy, s).
       case e of
         None \<Rightarrow> Inr (nrdy, s)
       | Some e \<Rightarrow> rbind (altdone a p None (- 1) s) (\<lambda>s. Inl (Raised e s))))"

text \<open>
  \<open>altcomm\<close>: \<open>which\<close> counts down over the entries that are ready; \<open>rd\<close> is \<open>R.d\<close>, where the index
  of the chosen entry goes.  The loops yield \<open>None\<close> when they did the communication.
\<close>

fun altcomm_send :: "addr \<Rightarrow> nat \<Rightarrow> nat \<Rightarrow> altc list \<Rightarrow> dis \<Rightarrow> ((nat \<times> nat) option \<times> dis) outcome" where
  "altcomm_send rd which n [] s = Inr (Some (which, n), s)"
| "altcomm_send rd which n (ac # acs) s = (case ac_c ac of
       NilCh \<Rightarrow> Inl NilDeref
     | ArrCh _ \<Rightarrow> Inl WildType
     | Ch c \<Rightarrow> rbind (send_ready s c) (\<lambda>b.
         if b \<and> which = 0 then
           rbind (isend (Some c) (ac_ptr ac) (put_mem rd (int n) s)) (\<lambda>s. Inr (None, s))
         else altcomm_send rd (if b then which - 1 else which) (n + 1) acs s))"

fun altcomm_array :: "addr \<Rightarrow> nat \<Rightarrow> nat \<Rightarrow> nat \<Rightarrow> addr \<Rightarrow> cid option list \<Rightarrow> dis
    \<Rightarrow> (nat option \<times> dis) outcome" where
  "altcomm_array rd which n an ptr [] s = Inr (Some which, s)"
| "altcomm_array rd which n an ptr (None # cs) s = altcomm_array rd which n (an + 1) ptr cs s"
| "altcomm_array rd which n an ptr (Some c # cs) s =
     rbind (recv_ready s c) (\<lambda>b.
       if b \<and> which = 0 then
         (let s = put_mem rd (int n) s
          in rbind (mid_t (ch_mid (chans s c))) (\<lambda>t.
             let s = put_mem ptr (int an) s
             in rbind (irecv (Some c) (ptr + altvaloff (Some t)) s) (\<lambda>s. Inr (None, s))))
       else altcomm_array rd (if b then which - 1 else which) n (an + 1) ptr cs s)"

fun altcomm_recv :: "addr \<Rightarrow> nat \<Rightarrow> nat \<Rightarrow> altc list \<Rightarrow> dis \<Rightarrow> dis outcome" where
  "altcomm_recv rd which n [] s = Inr s"
| "altcomm_recv rd which n (ac # acs) s = (case ac_c ac of
       NilCh \<Rightarrow> Inl NilDeref
     | ArrCh a \<Rightarrow> rbind (altcomm_array rd which n 0 (ac_ptr ac) (arrays s a) s) (\<lambda>(w, s).
         case w of None \<Rightarrow> Inr s | Some which \<Rightarrow> altcomm_recv rd which (n + 1) acs s)
     | Ch c \<Rightarrow> rbind (recv_ready s c) (\<lambda>b.
         if b \<and> which = 0 then irecv (Some c) (ac_ptr ac) (put_mem rd (int n) s)
         else altcomm_recv rd (if b then which - 1 else which) (n + 1) acs s))"

definition altcomm :: "alt \<Rightarrow> addr \<Rightarrow> nat \<Rightarrow> dis \<Rightarrow> dis outcome" where
  "altcomm a rd which s = rbind (altcomm_send rd which 0 (al_sends a) s) (\<lambda>(w, s).
     case w of None \<Rightarrow> Inr s | Some (which, n) \<Rightarrow> altcomm_recv rd which n (al_recvs a) s)"

text \<open>
  \<open>xecalt\<close>: \<open>a\<close> is \<open>R.s\<close>, \<open>rd\<close> is \<open>R.d\<close>.  The random choice is the code's linear congruence on a
  64-bit \<open>ulong\<close>.
\<close>

definition xecalt :: "bool \<Rightarrow> alt \<Rightarrow> addr \<Rightarrow> dis \<Rightarrow> dis outcome" where
  "xecalt block a rd s = (case currun s of
       None \<Rightarrow> Inl NilDeref
     | Some p \<Rightarrow> rbind (altrdy a p s) (\<lambda>(nrdy, s).
         if nrdy = 0 then
           (if block then
              rbind (delrun Palt s) (\<lambda>(q, s).
                Inr ((upd_prog p (\<lambda>r. r\<lparr>pr_Rs := a, pr_Rd := rd\<rparr>) s)\<lparr>RIC := 1, Rt := 1\<rparr>))
            else altdone a p None (- 1) (put_mem rd (int (al_nsend a + al_nrecv a)) s))
         else
           (let x = xrand s * 1103515245 + 12345;
                s = s\<lparr>xrand := x\<rparr>
            in rbind (altcomm a rd (unat (drop_bit 8 x) mod nrdy) s) (\<lambda>s.
                 altdone a p None (- 1) s))))"

section \<open>Taking a blocked prog off its channels\<close>

definition cstr :: "string \<Rightarrow> byte list" where
  "cstr = map of_char"

definition altgone :: "pid \<Rightarrow> dis \<Rightarrow> dis outcome" where
  "altgone p s =
     (if pr_state (progs s p) = Palt then
        rbind (altdone (pr_Rs (progs s p)) p None (- 1) s) (\<lambda>s.
          addrun p (upd_prog p (\<lambda>r. r\<lparr>pr_kill := Some (cstr ''alt channel hungup'')\<rparr>) s))
      else Inr s)"

text \<open>
  \<open>killcomm(&c->send)\<close> (\<open>b\<close>) and \<open>killcomm(&c->recv)\<close>.  The loop frees a node in each round and
  reads the queue again, since \<open>altgone\<close> may have changed it; the bound \<open>k\<close> is the queue's
  length.
\<close>

definition chq :: "bool \<Rightarrow> channel \<Rightarrow> progq" where
  "chq b ch = (if b then ch_send ch else ch_recv ch)"

definition set_chq :: "bool \<Rightarrow> cid \<Rightarrow> progq \<Rightarrow> dis \<Rightarrow> dis" where
  "set_chq b c q = upd_chan c (\<lambda>ch. if b then ch\<lparr>ch_send := q\<rparr> else ch\<lparr>ch_recv := q\<rparr>)"

primrec killcomm_loop :: "nat \<Rightarrow> bool \<Rightarrow> cid \<Rightarrow> dis \<Rightarrow> dis outcome" where
  "killcomm_loop 0 b c s = (if chq b (chans s c) = [] then Inr s else Inl Spin)"
| "killcomm_loop (Suc k) b c s = (case chq b (chans s c) of
       [] \<Rightarrow> Inr s
     | None # r \<Rightarrow> Inr (set_chq b c r s)
     | Some p # r \<Rightarrow>
        (let s = set_ptr None p (set_chq b c r s)
         in rbind (case pr_state (progs s p) of
                Psend \<Rightarrow> addrun p (upd_prog p (\<lambda>x. x\<lparr>pr_kill := Some (cstr ''channel hangup'')\<rparr>) s)
              | Precv \<Rightarrow> addrun p (upd_prog p (\<lambda>x. x\<lparr>pr_kill := Some (cstr ''channel hangup'')\<rparr>) s)
              | Palt \<Rightarrow> altgone p s
              | _ \<Rightarrow> Inr s) (killcomm_loop k b c)))"

definition killcomm :: "bool \<Rightarrow> cid \<Rightarrow> dis \<Rightarrow> dis outcome" where
  "killcomm b c s = killcomm_loop (length (chq b (chans s c))) b c s"

text \<open>
  \<open>kstrcpy\<close> of \<^verbatim>\<open>emu/port/chan.c\<close>: the string (without its NUL) that ends up in a buffer of
  \<open>ns\<close> bytes.  A string that does not fit is cut at a character boundary and ends in dots.
\<close>

fun cut_back :: "byte list \<Rightarrow> nat \<Rightarrow> nat" where
  "cut_back s 0 = 0"
| "cut_back s (Suc n) = (if (s ! n) AND 0xC0 = 0x80 then cut_back s n else n)"

definition kstrcpy :: "byte list \<Rightarrow> nat \<Rightarrow> byte list" where
  "kstrcpy t ns =
     (if length t + 1 \<le> ns then t
      else if ns < 4 then take ns t
      else take (cut_back t (ns - 4)) t @ cstr ''...'')"

definition ERRMAX :: nat where "ERRMAX = 128"

definition exprog :: "pid \<Rightarrow> byte list \<Rightarrow> dis \<Rightarrow> (nat \<times> dis) outcome" where
  "exprog p exc s =
     (let st = pr_state (progs s p);
          ch = pr_chan (progs s p);
          unwait = (case st of
              Palt \<Rightarrow> altdone (pr_Rs (progs s p)) p None (- 1) s
            | Psend \<Rightarrow> (case ch of None \<Rightarrow> Inl NilDeref
                | Some c \<Rightarrow> rbind (cqdelp (ch_send (chans s c)) p) (\<lambda>q. Inr (set_chq True c q s)))
            | Precv \<Rightarrow> (case ch of None \<Rightarrow> Inl NilDeref
                | Some c \<Rightarrow> rbind (cqdelp (ch_recv (chans s c)) p) (\<lambda>q. Inr (set_chq False c q s)))
            | _ \<Rightarrow> Inr s)
      in if st \<in> {Pexiting, Pbroken, Pdebug} then Inr (0, s)
         else rbind unwait (\<lambda>s.
              rbind (if pr_state (progs s p) \<noteq> Pready \<and> pr_state (progs s p) \<noteq> Prelease
                     then addrun p s else Inr s) (\<lambda>s.
              Inr (1, if pr_kill (progs s p) = None
                      then upd_prog p (\<lambda>r. r\<lparr>pr_kill := Some (kstrcpy exc ERRMAX)\<rparr>) s else s))))"

end
