(* ===== verification/ChanOps.thy ===== *)
theory ChanOps
  imports Chan
begin

text \<open>
  What the operations on wait queues, buffers and alts do, in closed form.  A well-formed wait
  queue is the representation \<open>qrep xs\<close> of a list of progs; on well-formed queues no operation
  reaches a nil pointer, and leaving an alt is the removal of the prog from a set of queues
  (\<open>strip_send\<close>, \<open>strip_recv\<close>).
\<close>

section \<open>Wait queues as lists\<close>

definition qrep :: "pid list \<Rightarrow> progq" where
  "qrep xs = (if xs = [] then [None] else map Some xs)"

definition qpids :: "progq \<Rightarrow> pid list" where
  "qpids q = map the (filter (\<lambda>x. x \<noteq> None) q)"

lemma qpids_qrep [simp]: "qpids (qrep xs) = xs"
  by (induction xs) (auto simp: qpids_def qrep_def)

lemma qrep_eq_iff [simp]: "qrep xs = qrep ys \<longleftrightarrow> xs = ys"
  by (metis qpids_qrep)

lemma qrep_not_Nil [simp]: "qrep xs \<noteq> []"
  by (simp add: qrep_def)

lemma cqprog_qrep [simp]: "cqprog (qrep xs) = Inr (if xs = [] then None else Some (hd xs))"
  by (cases xs) (auto simp: cqprog_def qrep_def)

lemma cqadd_qrep [simp]: "cqadd (qrep xs) p = Inr (qrep (xs @ [p]))"
  by (cases xs) (auto simp: cqadd_def qrep_def)

lemma cqdel_qrep [simp]: "cqdel (qrep xs) = Inr (qrep (tl xs))"
  by (cases xs; cases "tl xs") (auto simp: cqdel_def qrep_def)

lemma cqdelp_loop_map: "cqdelp_loop (map Some xs) p = map Some (removeAll p xs)"
  by (induction xs) auto

lemma cqdelp_qrep [simp]:
  assumes "distinct xs"
  shows "cqdelp (qrep xs) p = Inr (qrep (removeAll p xs))"
proof (cases xs)
  case Nil
  then show ?thesis by (simp add: cqdelp_def qrep_def)
next
  case (Cons x r)
  show ?thesis
  proof (cases r)
    case Nil
    then show ?thesis using Cons by (auto simp: cqdelp_def qrep_def)
  next
    case (Cons y r')
    have "removeAll p xs \<noteq> []"
      using assms \<open>xs = x # r\<close> Cons by auto
    then show ?thesis
      using \<open>xs = x # r\<close> Cons cqdelp_loop_map [of "x # y # r'" p]
      by (simp add: cqdelp_def qrep_def)
  qed
qed

text \<open>A queue that holds nothing but \<open>p\<close>, more than once, becomes the nil pointer.\<close>

lemma cqdelp_all: "cqdelp (qrep (replicate (n + 2) p)) p = Inr []"
proof -
  have "removeAll p (replicate k p) = []" for k by (induction k) auto
  then show ?thesis
    using cqdelp_loop_map [of "replicate (n + 2) p" p]
    by (simp add: cqdelp_def qrep_def)
qed

section \<open>The queues of a state\<close>

definition sq :: "dis \<Rightarrow> cid \<Rightarrow> pid list" where
  "sq s c = qpids (ch_send (chans s c))"

definition rq :: "dis \<Rightarrow> cid \<Rightarrow> pid list" where
  "rq s c = qpids (ch_recv (chans s c))"

definition wfqs :: "dis \<Rightarrow> bool" where
  "wfqs s \<longleftrightarrow> (\<forall>c. ch_send (chans s c) = qrep (sq s c) \<and> ch_recv (chans s c) = qrep (rq s c)
     \<and> distinct (sq s c) \<and> distinct (rq s c))"

lemma wfqsD:
  assumes "wfqs s"
  shows "ch_send (chans s c) = qrep (sq s c)" "ch_recv (chans s c) = qrep (rq s c)"
    "distinct (sq s c)" "distinct (rq s c)"
  using assms by (auto simp: wfqs_def)

lemma queues_cong:
  "chans s = chans t \<Longrightarrow> sq s = sq t \<and> rq s = rq t \<and> wfqs s = wfqs t"
  unfolding wfqs_def sq_def [abs_def] rq_def [abs_def] by simp

lemma queues_simps [simp]:
  "sq (upd_prog p f s) = sq s" "rq (upd_prog p f s) = rq s" "wfqs (upd_prog p f s) = wfqs s"
  "sq (put_mem a v s) = sq s" "rq (put_mem a v s) = rq s" "wfqs (put_mem a v s) = wfqs s"
  "sq (set_ptr l p s) = sq s" "rq (set_ptr l p s) = rq s" "wfqs (set_ptr l p s) = wfqs s"
  by (simp_all only: wfqs_def sq_def [abs_def] rq_def [abs_def] set_ptr_def upd_prog_simps put_mem_simps)

lemma set_ptr_simps [simp]:
  "chans (set_ptr l p s) = chans s" "arrays (set_ptr l p s) = arrays s"
  "runhd (set_ptr l p s) = runhd s" "runtl (set_ptr l p s) = runtl s"
  "nchan (set_ptr l p s) = nchan s" "mem (set_ptr l p s) = mem s"
  "RIC (set_ptr l p s) = RIC s" "Rt (set_ptr l p s) = Rt s" "xrand (set_ptr l p s) = xrand s"
  "progs (set_ptr l p s) = (progs s)(p := (progs s p)\<lparr>pr_ptr := l\<rparr>)"
  by (simp_all add: set_ptr_def)

section \<open>Taking a prog off a set of queues\<close>

definition strip_send :: "pid \<Rightarrow> cid set \<Rightarrow> dis \<Rightarrow> dis" where
  "strip_send p C s = s\<lparr>chans := (\<lambda>c. if c \<in> C
     then (chans s c)\<lparr>ch_send := qrep (removeAll p (sq s c))\<rparr> else chans s c)\<rparr>"

definition strip_recv :: "pid \<Rightarrow> cid set \<Rightarrow> dis \<Rightarrow> dis" where
  "strip_recv p C s = s\<lparr>chans := (\<lambda>c. if c \<in> C
     then (chans s c)\<lparr>ch_recv := qrep (removeAll p (rq s c))\<rparr> else chans s c)\<rparr>"

lemma strip_simps [simp]:
  "progs (strip_send p C s) = progs s" "runhd (strip_send p C s) = runhd s"
  "runtl (strip_send p C s) = runtl s" "nchan (strip_send p C s) = nchan s"
  "arrays (strip_send p C s) = arrays s" "mem (strip_send p C s) = mem s"
  "progs (strip_recv p C s) = progs s" "runhd (strip_recv p C s) = runhd s"
  "runtl (strip_recv p C s) = runtl s" "nchan (strip_recv p C s) = nchan s"
  "arrays (strip_recv p C s) = arrays s" "mem (strip_recv p C s) = mem s"
  "RIC (strip_send p C s) = RIC s" "Rt (strip_send p C s) = Rt s" "xrand (strip_send p C s) = xrand s"
  "RIC (strip_recv p C s) = RIC s" "Rt (strip_recv p C s) = Rt s" "xrand (strip_recv p C s) = xrand s"
  by (simp_all add: strip_send_def strip_recv_def)

lemma strip_queues [simp]:
  "sq (strip_send p C s) c = (if c \<in> C then removeAll p (sq s c) else sq s c)"
  "rq (strip_send p C s) c = rq s c"
  "rq (strip_recv p C s) c = (if c \<in> C then removeAll p (rq s c) else rq s c)"
  "sq (strip_recv p C s) c = sq s c"
  by (simp_all add: strip_send_def strip_recv_def sq_def rq_def)

text \<open>The fields of a channel other than its queues.\<close>

definition bufpart where
  "bufpart ch = (ch_buf ch, ch_type ch, ch_mover ch, ch_mid ch, ch_front ch, ch_size ch)"

lemma bufpartD:
  "bufpart a = bufpart b \<Longrightarrow> ch_buf a = ch_buf b \<and> ch_type a = ch_type b \<and> ch_mover a = ch_mover b
     \<and> ch_mid a = ch_mid b \<and> ch_front a = ch_front b \<and> ch_size a = ch_size b"
  by (simp add: bufpart_def)

lemma strip_bufpart [simp]:
  "bufpart (chans (strip_send p C s) c) = bufpart (chans s c)"
  "bufpart (chans (strip_recv p C s) c) = bufpart (chans s c)"
  by (simp_all add: strip_send_def strip_recv_def bufpart_def)

lemma strip_mid [simp]:
  "ch_mid (chans (strip_send p C s) c) = ch_mid (chans s c)"
  "ch_mid (chans (strip_recv p C s) c) = ch_mid (chans s c)"
  by (simp_all add: strip_send_def strip_recv_def)

lemma strip_wfqs [simp]:
  "wfqs s \<Longrightarrow> wfqs (strip_send p C s)" "wfqs s \<Longrightarrow> wfqs (strip_recv p C s)"
  by (auto simp: wfqs_def) (auto simp: strip_send_def strip_recv_def distinct_removeAll)

lemma strip_Un:
  "strip_send p A (strip_send p B s) = strip_send p (A \<union> B) s"
  "strip_recv p A (strip_recv p B s) = strip_recv p (A \<union> B) s"
  by (auto simp: strip_send_def strip_recv_def sq_def rq_def fun_eq_iff)

lemma strip_empty [simp]: "strip_send p {} s = s" "strip_recv p {} s = s"
  by (simp_all add: strip_send_def strip_recv_def)

lemma strip_commute:
  "strip_recv p A (upd_prog q f s) = upd_prog q f (strip_recv p A s)"
  "strip_recv p A (put_mem a v s) = put_mem a v (strip_recv p A s)"
  "strip_recv p A (set_ptr l q s) = set_ptr l q (strip_recv p A s)"
  "strip_send p A (upd_prog q f s) = upd_prog q f (strip_send p A s)"
  "strip_send p A (put_mem a v s) = put_mem a v (strip_send p A s)"
  "strip_send p A (set_ptr l q s) = set_ptr l q (strip_send p A s)"
  by (rule dis.equality; auto simp: strip_recv_def strip_send_def rq_def sq_def fun_eq_iff
      set_ptr_def upd_prog_def put_mem_def)+

lemma drop_send_strip:
  assumes "wfqs s"
  shows "drop_send c p s = Inr (strip_send p {c} s)"
proof -
  have "upd_chan c (\<lambda>ch. ch\<lparr>ch_send := qrep (removeAll p (sq s c))\<rparr>) s = strip_send p {c} s"
    by (auto simp: upd_chan_def strip_send_def fun_eq_iff)
  moreover have "s = strip_send p {c} s" if "sq s c = []"
    using wfqsD(1) [OF assms, of c] that
    by (intro dis.equality) (auto simp: strip_send_def fun_eq_iff)
  ultimately show ?thesis
    using wfqsD [OF assms, of c] by (simp add: drop_send_def)
qed

lemma drop_recv_strip:
  assumes "wfqs s"
  shows "drop_recv c p s = Inr (strip_recv p {c} s)"
proof -
  have "upd_chan c (\<lambda>ch. ch\<lparr>ch_recv := qrep (removeAll p (rq s c))\<rparr>) s = strip_recv p {c} s"
    by (auto simp: upd_chan_def strip_recv_def fun_eq_iff)
  moreover have "s = strip_recv p {c} s" if "rq s c = []"
    using wfqsD(2) [OF assms, of c] that
    by (intro dis.equality) (auto simp: strip_recv_def fun_eq_iff)
  ultimately show ?thesis
    using wfqsD [OF assms, of c] by (simp add: drop_recv_def)
qed

section \<open>Leaving an alt, in closed form\<close>

fun somes :: "'a option list \<Rightarrow> 'a list" where
  "somes [] = []"
| "somes (None # xs) = somes xs"
| "somes (Some x # xs) = x # somes xs"

lemma set_somes: "set (somes xs) = {x. Some x \<in> set xs}"
  by (induction xs rule: somes.induct) auto

fun send_chans :: "altc list \<Rightarrow> cid list" where
  "send_chans [] = []"
| "send_chans (ac # acs) = (case ac_c ac of Ch c \<Rightarrow> c # send_chans acs | _ \<Rightarrow> send_chans acs)"

fun recv_chans :: "(aid \<Rightarrow> cid option list) \<Rightarrow> altc list \<Rightarrow> cid list" where
  "recv_chans A [] = []"
| "recv_chans A (ac # acs) = (case ac_c ac of
       NilCh \<Rightarrow> recv_chans A acs
     | Ch c \<Rightarrow> c # recv_chans A acs
     | ArrCh a \<Rightarrow> somes (A a) @ recv_chans A acs)"

definition no_arr :: "altc list \<Rightarrow> bool" where
  "no_arr acs \<longleftrightarrow> (\<forall>ac \<in> set acs. case ac_c ac of ArrCh _ \<Rightarrow> False | _ \<Rightarrow> True)"

lemma no_arr_simps [simp]:
  "no_arr []" "no_arr (ac # acs) \<longleftrightarrow> (\<forall>a. ac_c ac \<noteq> ArrCh a) \<and> no_arr acs"
  by (auto simp: no_arr_def split: altch.splits)

lemma altunmark_strip:
  "wfqs s \<Longrightarrow> sel = None \<or> sr \<noteq> 1 \<Longrightarrow>
   altunmark ptr p sr sel dn n cs s = Inr (sel, strip_recv p (set (somes cs)) s)"
proof (induction ptr p sr sel dn n cs s rule: altunmark.induct)
  case (3 ptr p sr sel dn n c cs s)
  then show ?case by (auto simp: drop_recv_strip strip_Un)
qed auto

lemma altdone_send_strip:
  "wfqs s \<Longrightarrow> sel = None \<or> sr \<noteq> 0 \<Longrightarrow> no_arr acs \<Longrightarrow>
   altdone_send p sr sel n acs s
     = Inr (sel, n + length acs, strip_send p (set (send_chans acs)) s)"
proof (induction acs arbitrary: n s)
  case Nil
  then show ?case by simp
next
  case (Cons ac acs)
  then show ?case
    by (auto simp: drop_send_strip strip_Un split: altch.splits)
qed

lemma altdone_recv_strip:
  "wfqs s \<Longrightarrow> sel = None \<or> sr \<noteq> 1 \<Longrightarrow>
   altdone_recv p sr sel n acs s = Inr (strip_recv p (set (recv_chans (arrays s) acs)) s)"
proof (induction acs arbitrary: n s)
  case Nil
  then show ?case by simp
next
  case (Cons ac acs)
  then show ?case
    by (auto simp: drop_recv_strip altunmark_strip strip_Un Un_commute split: altch.splits)
qed

text \<open>All the queues an alt has its prog on.\<close>

definition alt_sends :: "alt \<Rightarrow> cid set" where
  "alt_sends a = set (send_chans (al_sends a))"

definition alt_recvs :: "dis \<Rightarrow> alt \<Rightarrow> cid set" where
  "alt_recvs s a = set (recv_chans (arrays s) (al_recvs a))"

definition unlink_alt :: "alt \<Rightarrow> pid \<Rightarrow> dis \<Rightarrow> dis" where
  "unlink_alt a p s = strip_recv p (alt_recvs s a) (strip_send p (alt_sends a) s)"

lemma altdone_strip:
  assumes "wfqs s" "no_arr (al_sends a)"
  shows "altdone a p None (- 1) s = Inr (unlink_alt a p s)"
  using assms
  by (simp add: altdone_def altdone_send_strip altdone_recv_strip unlink_alt_def
      alt_sends_def alt_recvs_def)

text \<open>
  The entry of an alt that a channel served: its number, its data pointer, and the index in the
  array when it is an array.
\<close>

fun arr_hit :: "cid \<Rightarrow> nat \<Rightarrow> cid option list \<Rightarrow> nat option" where
  "arr_hit c n [] = None"
| "arr_hit c n (x # xs) = (if x = Some c then Some n else arr_hit c (n + 1) xs)"

fun send_hit :: "cid \<Rightarrow> nat \<Rightarrow> altc list \<Rightarrow> (nat \<times> addr \<times> nat option) option" where
  "send_hit c n [] = None"
| "send_hit c n (ac # acs) =
     (if ac_c ac = Ch c then Some (n, ac_ptr ac, None) else send_hit c (n + 1) acs)"

fun recv_hit :: "(aid \<Rightarrow> cid option list) \<Rightarrow> cid \<Rightarrow> nat \<Rightarrow> altc list
    \<Rightarrow> (nat \<times> addr \<times> nat option) option" where
  "recv_hit A c n [] = None"
| "recv_hit A c n (ac # acs) = (case ac_c ac of
       NilCh \<Rightarrow> recv_hit A c (n + 1) acs
     | Ch c' \<Rightarrow> if c' = c then Some (n, ac_ptr ac, None) else recv_hit A c (n + 1) acs
     | ArrCh a \<Rightarrow> (case arr_hit c 0 (A a) of
         Some i \<Rightarrow> Some (n, ac_ptr ac, Some i)
       | None \<Rightarrow> recv_hit A c (n + 1) acs))"

lemma arr_hit_iff: "arr_hit c n xs \<noteq> None \<longleftrightarrow> c \<in> set (somes xs)"
proof (induction xs arbitrary: n)
  case Nil
  then show ?case by simp
next
  case (Cons x xs)
  then show ?case by (cases x) auto
qed

lemma send_hit_iff: "no_arr acs \<Longrightarrow> send_hit c n acs \<noteq> None \<longleftrightarrow> c \<in> set (send_chans acs)"
  by (induction acs arbitrary: n) (auto split: altch.splits)

lemma recv_hit_iff: "recv_hit A c n acs \<noteq> None \<longleftrightarrow> c \<in> set (recv_chans A acs)"
proof (induction acs arbitrary: n)
  case Nil
  then show ?case by simp
next
  case (Cons ac acs)
  then show ?case
    using arr_hit_iff [of c 0] by (auto split: altch.splits option.splits)
      (metis option.distinct(1))+
qed

definition val_at :: "dtype \<Rightarrow> addr \<Rightarrow> nat option \<Rightarrow> addr" where
  "val_at t ptr i = (case i of None \<Rightarrow> ptr | Some _ \<Rightarrow> ptr + altvaloff (Some t))"

definition served_mem :: "addr \<Rightarrow> nat \<times> addr \<times> nat option \<Rightarrow> (addr \<Rightarrow> int) \<Rightarrow> addr \<Rightarrow> int" where
  "served_mem rd h m = (case h of (n, ptr, i) \<Rightarrow>
     (case i of None \<Rightarrow> m(rd := int n) | Some i \<Rightarrow> m(rd := int n, ptr := int i)))"

definition serve :: "pid \<Rightarrow> dtype \<Rightarrow> nat \<times> addr \<times> nat option \<Rightarrow> dis \<Rightarrow> dis" where
  "serve p t h s = set_ptr (Some (val_at t (fst (snd h)) (snd (snd h)))) p
     (s\<lparr>mem := served_mem (pr_Rd (progs s p)) h (mem s)\<rparr>)"

lemma serve_plain:
  "put_mem (pr_Rd (progs s p)) (int n) (set_ptr (Some ptr) p s) = serve p t (n, ptr, None) s"
  by (rule dis.equality)
    (auto simp: serve_def served_mem_def val_at_def set_ptr_def put_mem_def upd_prog_def)

lemma serve_array:
  "put_mem ptr (int i) (set_ptr (Some (ptr + altvaloff (Some t))) p
     (put_mem (pr_Rd (progs s p)) (int n) s)) = serve p t (n, ptr, Some i) s"
  by (rule dis.equality)
    (auto simp: serve_def served_mem_def val_at_def set_ptr_def put_mem_def upd_prog_def)

lemma serve_simps [simp]:
  "chans (serve p t h s) = chans s" "arrays (serve p t h s) = arrays s"
  "runhd (serve p t h s) = runhd s" "runtl (serve p t h s) = runtl s"
  "nchan (serve p t h s) = nchan s" "wfqs (serve p t h s) = wfqs s"
  "mem (serve p t h s) = served_mem (pr_Rd (progs s p)) h (mem s)"
  "progs (serve p t h s)
     = (progs s)(p := (progs s p)\<lparr>pr_ptr := Some (val_at t (fst (snd h)) (snd (snd h)))\<rparr>)"
  by (simp_all add: serve_def) (simp_all add: wfqs_def sq_def rq_def)

lemma strip_serve:
  "strip_recv p A (serve q t h s) = serve q t h (strip_recv p A s)"
  "strip_send p A (serve q t h s) = serve q t h (strip_send p A s)"
  by (rule dis.equality; auto simp: strip_recv_def strip_send_def serve_def rq_def sq_def fun_eq_iff)+

lemma altunmark_hit:
  "wfqs s \<Longrightarrow> (c \<in> set (somes cs) \<Longrightarrow> ch_mid (chans s c) = MidT t) \<Longrightarrow>
   altunmark ptr p 1 (Some c) dn n cs s = (case arr_hit c n cs of
       None \<Rightarrow> Inr (Some c, strip_recv p (set (somes cs)) s)
     | Some i \<Rightarrow> Inr (None, serve p t (dn, ptr, Some i) (strip_recv p (set (somes cs)) s)))"
proof (induction cs arbitrary: n s)
  case Nil
  then show ?case by simp
next
  case (Cons x cs)
  show ?case
  proof (cases x)
    case None
    then show ?thesis using Cons by (auto split: option.splits)
  next
    case (Some d)
    show ?thesis
    proof (cases "d = c")
      case True
      have "altunmark ptr p 1 (Some c) dn n (x # cs) s
          = altunmark ptr p 1 None dn (n + 1) cs (serve p t (dn, ptr, Some n) (strip_recv p {c} s))"
        using Cons.prems Some True
        by (simp add: drop_recv_strip mid_t_def Let_def flip: serve_array)
      also have "\<dots> = Inr (None, serve p t (dn, ptr, Some n) (strip_recv p (set (somes (x # cs))) s))"
        using Cons.prems Some True
        by (subst altunmark_strip) (auto simp: strip_serve strip_Un)
      finally show ?thesis using Some True by simp
    next
      case False
      then show ?thesis
        using Cons.prems Some Cons.IH [of "strip_recv p {d} s" "n + 1"]
        by (auto simp: drop_recv_strip strip_Un split: option.splits)
    qed
  qed
qed

lemma altdone_recv_hit:
  "wfqs s \<Longrightarrow> ch_mid (chans s c) = MidT t \<or> (\<forall>n ptr i. recv_hit (arrays s) c n0 acs \<noteq> Some (n, ptr, Some i)) \<Longrightarrow>
   altdone_recv p 1 (Some c) n0 acs s = Inr (let s' = strip_recv p (set (recv_chans (arrays s) acs)) s
     in case recv_hit (arrays s) c n0 acs of None \<Rightarrow> s' | Some h \<Rightarrow> serve p t h s')"
proof (induction acs arbitrary: n0 s)
  case Nil
  then show ?case by simp
next
  case (Cons ac acs)
  show ?case
  proof (cases "ac_c ac")
    case NilCh
    then show ?thesis using Cons by simp
  next
    case (Ch d)
    show ?thesis
    proof (cases "d = c")
      case True
      have "altdone_recv p 1 (Some c) n0 (ac # acs) s
          = altdone_recv p 1 None (n0 + 1) acs (serve p t (n0, ac_ptr ac, None) (strip_recv p {c} s))"
        using Cons.prems Ch True by (simp add: drop_recv_strip Let_def flip: serve_plain)
      also have "\<dots> = Inr (serve p t (n0, ac_ptr ac, None)
          (strip_recv p (set (recv_chans (arrays s) (ac # acs))) s))"
        using Cons.prems Ch True by (subst altdone_recv_strip) (auto simp: strip_serve strip_Un)
      finally show ?thesis using Ch True by simp
    next
      case False
      then show ?thesis
        using Cons.prems Ch Cons.IH [of "strip_recv p {d} s" "n0 + 1"]
        by (auto simp: drop_recv_strip strip_Un Let_def split: option.splits)
    qed
  next
    case (ArrCh a)
    show ?thesis
    proof (cases "arr_hit c 0 (arrays s a)")
      case None
      then have "c \<notin> set (somes (arrays s a))" using arr_hit_iff [of c 0 "arrays s a"] by simp
      then have "altunmark (ac_ptr ac) p 1 (Some c) n0 0 (arrays s a) s
          = Inr (Some c, strip_recv p (set (somes (arrays s a))) s)"
        using Cons.prems None by (subst altunmark_hit) auto
      then show ?thesis
        using Cons.prems ArrCh None Cons.IH [of "strip_recv p (set (somes (arrays s a))) s" "n0 + 1"]
        by (auto simp: strip_Un Un_commute Let_def split: option.splits)
    next
      case (Some i)
      then have mid: "ch_mid (chans s c) = MidT t" using Cons.prems ArrCh by auto
      have "altunmark (ac_ptr ac) p 1 (Some c) n0 0 (arrays s a) s
          = Inr (None, serve p t (n0, ac_ptr ac, Some i) (strip_recv p (set (somes (arrays s a))) s))"
        using Cons.prems Some mid by (subst altunmark_hit) auto
      then have "altdone_recv p 1 (Some c) n0 (ac # acs) s
          = altdone_recv p 1 None (n0 + 1) acs
              (serve p t (n0, ac_ptr ac, Some i) (strip_recv p (set (somes (arrays s a))) s))"
        using ArrCh by simp
      also have "\<dots> = Inr (serve p t (n0, ac_ptr ac, Some i)
          (strip_recv p (set (recv_chans (arrays s) (ac # acs))) s))"
        using Cons.prems ArrCh
        by (subst altdone_recv_strip) (auto simp: strip_serve strip_Un Un_commute)
      finally show ?thesis using ArrCh Some by simp
    qed
  qed
qed

lemma altdone_send_hit:
  "wfqs s \<Longrightarrow> no_arr acs \<Longrightarrow>
   altdone_send p 0 (Some c) n0 acs s = Inr (let s' = strip_send p (set (send_chans acs)) s
     in case send_hit c n0 acs of
          None \<Rightarrow> (Some c, n0 + length acs, s')
        | Some h \<Rightarrow> (None, n0 + length acs, serve p t h s'))"
proof (induction acs arbitrary: n0 s)
  case Nil
  then show ?case by simp
next
  case (Cons ac acs)
  show ?case
  proof (cases "ac_c ac")
    case NilCh
    then show ?thesis using Cons by (auto simp: Let_def split: option.splits)
  next
    case (ArrCh a)
    then show ?thesis using Cons.prems by simp
  next
    case (Ch d)
    show ?thesis
    proof (cases "d = c")
      case True
      have "altdone_send p 0 (Some c) n0 (ac # acs) s
          = altdone_send p 0 None (n0 + 1) acs (serve p t (n0, ac_ptr ac, None) (strip_send p {c} s))"
        using Cons.prems Ch True
        by (simp add: drop_send_strip Let_def flip: serve_plain)
      also have "\<dots> = Inr (None, n0 + length (ac # acs), serve p t (n0, ac_ptr ac, None)
          (strip_send p (set (send_chans (ac # acs))) s))"
        using Cons.prems Ch True by (subst altdone_send_strip) (auto simp: strip_serve strip_Un)
      finally show ?thesis using Ch True by simp
    next
      case False
      then show ?thesis
        using Cons.prems Ch Cons.IH [of "strip_send p {d} s" "n0 + 1"]
        by (auto simp: drop_send_strip strip_Un Let_def split: option.splits)
    qed
  qed
qed

text \<open>The two ways an alt is served by the other side.\<close>

lemma altdone_served_recv:
  assumes "wfqs s" "no_arr (al_sends a)" "recv_hit (arrays s) c (length (al_sends a)) (al_recvs a) = Some h"
    "snd (snd h) \<noteq> None \<Longrightarrow> ch_mid (chans s c) = MidT t"
  shows "altdone a p (Some c) 1 s = Inr (serve p t h (unlink_alt a p s))"
proof -
  have "ch_mid (chans (strip_send p (alt_sends a) s) c) = MidT t
      \<or> (\<forall>n ptr i. recv_hit (arrays s) c (length (al_sends a)) (al_recvs a) \<noteq> Some (n, ptr, Some i))"
    using assms(3,4) by auto
  then show ?thesis
    using assms altdone_recv_hit [of "strip_send p (alt_sends a) s" c t "length (al_sends a)" "al_recvs a" p]
    by (simp add: altdone_def altdone_send_strip unlink_alt_def alt_sends_def alt_recvs_def Let_def)
qed

lemma altdone_served_send:
  assumes "wfqs s" "no_arr (al_sends a)" "send_hit c 0 (al_sends a) = Some h"
  shows "altdone a p (Some c) 0 s = Inr (serve p t h (unlink_alt a p s))"
proof -
  have "altdone_send p 0 (Some c) 0 (al_sends a) s
      = Inr (None, length (al_sends a), serve p t h (strip_send p (alt_sends a) s))"
    using assms altdone_send_hit [of s "al_sends a" p c 0 t] by (simp add: Let_def alt_sends_def)
  then show ?thesis
    using assms by (simp add: altdone_def altdone_recv_strip unlink_alt_def alt_recvs_def strip_serve)
qed

end
