(* ===== verification/ChanWake.thy ===== *)
theory ChanWake
  imports ChanOps
begin

text \<open>
  The communication itself, in closed form: what \<open>isend\<close> and \<open>irecv\<close> do when the other side
  waits, when the buffer serves them, and when they block.  Each splits into a change of progs and
  memory, which does not look at the queues, and a change of every channel by itself
  (\<open>map_chans\<close>); this is what lets an alt be compared with a plain send or receive.
\<close>

section \<open>Changes of every channel by itself\<close>

definition map_chans :: "(cid \<Rightarrow> channel \<Rightarrow> channel) \<Rightarrow> dis \<Rightarrow> dis" where
  "map_chans g s = s\<lparr>chans := (\<lambda>c. g c (chans s c))\<rparr>"

lemma map_chans_simps [simp]:
  "chans (map_chans g s) c = g c (chans s c)"
  "progs (map_chans g s) = progs s" "runhd (map_chans g s) = runhd s"
  "runtl (map_chans g s) = runtl s" "nchan (map_chans g s) = nchan s"
  "arrays (map_chans g s) = arrays s" "mem (map_chans g s) = mem s"
  "RIC (map_chans g s) = RIC s" "Rt (map_chans g s) = Rt s" "xrand (map_chans g s) = xrand s"
  by (simp_all add: map_chans_def)

lemma map_chans_comp: "map_chans g (map_chans h s) = map_chans (\<lambda>c ch. g c (h c ch)) s"
  by (simp add: map_chans_def)

lemma map_chans_cong:
  "(\<And>c. g c (chans s c) = h c (chans s c)) \<Longrightarrow> map_chans g s = map_chans h s"
  by (simp add: map_chans_def)

lemma upd_chan_map: "upd_chan c f s = map_chans (\<lambda>d ch. if d = c then f ch else ch) s"
  by (rule dis.equality) (auto simp: upd_chan_def map_chans_def fun_eq_iff)

definition cut_send :: "pid \<Rightarrow> cid set \<Rightarrow> cid \<Rightarrow> channel \<Rightarrow> channel" where
  "cut_send p C c ch = (if c \<in> C then ch\<lparr>ch_send := qrep (removeAll p (qpids (ch_send ch)))\<rparr> else ch)"

definition cut_recv :: "pid \<Rightarrow> cid set \<Rightarrow> cid \<Rightarrow> channel \<Rightarrow> channel" where
  "cut_recv p C c ch = (if c \<in> C then ch\<lparr>ch_recv := qrep (removeAll p (qpids (ch_recv ch)))\<rparr> else ch)"

lemma strip_map:
  "strip_send p C s = map_chans (cut_send p C) s"
  "strip_recv p C s = map_chans (cut_recv p C) s"
  by (simp_all only: strip_send_def strip_recv_def map_chans_def cut_send_def cut_recv_def sq_def rq_def)

lemma cut_empty [simp]: "cut_send p {} d ch = ch" "cut_recv p {} d ch = ch"
  by (simp_all add: cut_send_def cut_recv_def)

lemma map_chans_commute:
  "map_chans g (upd_prog p f s) = upd_prog p f (map_chans g s)"
  "map_chans g (put_mem a v s) = put_mem a v (map_chans g s)"
  "map_chans g (set_ptr l p s) = set_ptr l p (map_chans g s)"
  "map_chans g (set_link l p s) = set_link l p (map_chans g s)"
  "map_chans g (set_state st p s) = set_state st p (map_chans g s)"
  "map_chans g (s\<lparr>runhd := r\<rparr>) = (map_chans g s)\<lparr>runhd := r\<rparr>"
  "map_chans g (s\<lparr>runtl := r\<rparr>) = (map_chans g s)\<lparr>runtl := r\<rparr>"
  "map_chans g (s\<lparr>Rt := n\<rparr>) = (map_chans g s)\<lparr>Rt := n\<rparr>"
  "map_chans g (s\<lparr>RIC := n\<rparr>) = (map_chans g s)\<lparr>RIC := n\<rparr>"
  "map_chans g (s\<lparr>mem := m\<rparr>) = (map_chans g s)\<lparr>mem := m\<rparr>"
  "map_chans g (s\<lparr>xrand := w\<rparr>) = (map_chans g s)\<lparr>xrand := w\<rparr>"
  by (simp_all add: map_chans_def upd_prog_def put_mem_def set_ptr_def set_link_def set_state_def)

lemma serve_map: "map_chans g (serve p t h s) = serve p t h (map_chans g s)"
  by (simp add: serve_def map_chans_commute)

text \<open>\<open>addrun\<close> does not look at the channels.\<close>

definition wake :: "pid \<Rightarrow> dis \<Rightarrow> dis outcome" where
  "wake p s = rbind (addrun p s) (\<lambda>s. Inr (s\<lparr>Rt := 0\<rparr>))"

lemma addrun_map: "addrun p (map_chans g s) = rbind (addrun p s) (\<lambda>s. Inr (map_chans g s))"
  by (auto simp: addrun_def Let_def set_link_def set_state_def map_chans_commute
      split: option.splits callback.splits)

lemma wake_map: "wake p (map_chans g s) = rbind (wake p s) (\<lambda>s. Inr (map_chans g s))"
  by (cases "addrun p s") (simp_all add: wake_def addrun_map map_chans_commute)

lemma addrun_chans: "addrun p s = Inr t \<Longrightarrow> chans t = chans s"
  by (auto simp: addrun_def Let_def set_link_def set_state_def split: option.splits callback.splits)

lemma wake_chans: "wake p s = Inr t \<Longrightarrow> chans t = chans s"
  by (auto simp: wake_def rbind_eq_Inr_iff dest!: addrun_chans)

section \<open>The other side: what is done to the waiting prog\<close>

definition mid_type :: "mid \<Rightarrow> dtype" where
  "mid_type m = (case m of MidT t \<Rightarrow> t | _ \<Rightarrow> word_type)"

definition alt_recv_hit :: "dis \<Rightarrow> alt \<Rightarrow> cid \<Rightarrow> (nat \<times> addr \<times> nat option) option" where
  "alt_recv_hit s a c = recv_hit (arrays s) c (length (al_sends a)) (al_recvs a)"

definition alt_send_hit :: "alt \<Rightarrow> cid \<Rightarrow> (nat \<times> addr \<times> nat option) option" where
  "alt_send_hit a c = send_hit c 0 (al_sends a)"

text \<open>
  \<open>peer_recv s c x\<close>: the prog \<open>x\<close> can be served as a receiver of \<open>c\<close>: it has a place for the
  datum, directly or through an entry of its alt.
\<close>

definition peer_recv :: "dis \<Rightarrow> cid \<Rightarrow> pid \<Rightarrow> bool" where
  "peer_recv s c x = (if pr_state (progs s x) = Palt
     then no_arr (al_sends (pr_Rs (progs s x)))
       \<and> (\<exists>n ptr i. alt_recv_hit s (pr_Rs (progs s x)) c = Some (n, ptr, i)
            \<and> (i \<noteq> None \<longrightarrow> (\<exists>t. ch_mid (chans s c) = MidT t)))
     else pr_ptr (progs s x) \<noteq> None)"

definition peer_send :: "dis \<Rightarrow> cid \<Rightarrow> pid \<Rightarrow> bool" where
  "peer_send s c x = (if pr_state (progs s x) = Palt
     then no_arr (al_sends (pr_Rs (progs s x))) \<and> alt_send_hit (pr_Rs (progs s x)) c \<noteq> None
     else pr_ptr (progs s x) \<noteq> None)"

text \<open>The prog is told which entry was served, and its data pointer is set.\<close>

definition settle_recv :: "cid \<Rightarrow> pid \<Rightarrow> dis \<Rightarrow> dis" where
  "settle_recv c x s = (if pr_state (progs s x) = Palt
     then serve x (mid_type (ch_mid (chans s c))) (the (alt_recv_hit s (pr_Rs (progs s x)) c)) s
     else s)"

definition settle_send :: "cid \<Rightarrow> pid \<Rightarrow> dis \<Rightarrow> dis" where
  "settle_send c x s = (if pr_state (progs s x) = Palt
     then serve x (mid_type (ch_mid (chans s c))) (the (alt_send_hit (pr_Rs (progs s x)) c)) s
     else s)"

text \<open>The queues a prog leaves when it is served.\<close>

definition left_sends :: "dis \<Rightarrow> pid \<Rightarrow> cid set" where
  "left_sends s x = (if pr_state (progs s x) = Palt then alt_sends (pr_Rs (progs s x)) else {})"

definition left_recvs :: "dis \<Rightarrow> pid \<Rightarrow> cid set" where
  "left_recvs s x = (if pr_state (progs s x) = Palt then alt_recvs s (pr_Rs (progs s x)) else {})"

definition tail_recv :: "cid \<Rightarrow> cid \<Rightarrow> channel \<Rightarrow> channel" where
  "tail_recv c d ch = (if d = c then ch\<lparr>ch_recv := qrep (tl (qpids (ch_recv ch)))\<rparr> else ch)"

definition tail_send :: "cid \<Rightarrow> cid \<Rightarrow> channel \<Rightarrow> channel" where
  "tail_send c d ch = (if d = c then ch\<lparr>ch_send := qrep (tl (qpids (ch_send ch)))\<rparr> else ch)"

definition free_recv :: "cid \<Rightarrow> pid \<Rightarrow> dis \<Rightarrow> cid \<Rightarrow> channel \<Rightarrow> channel" where
  "free_recv c x s d ch =
     cut_recv x (left_recvs s x) d (cut_send x (left_sends s x) d (tail_recv c d ch))"

definition free_send :: "cid \<Rightarrow> pid \<Rightarrow> dis \<Rightarrow> cid \<Rightarrow> channel \<Rightarrow> channel" where
  "free_send c x s d ch =
     cut_recv x (left_recvs s x) d (cut_send x (left_sends s x) d (tail_send c d ch))"

lemma tail_recv_upd: "wfqs s \<Longrightarrow> rq s c = x # xs \<Longrightarrow>
    upd_chan c (\<lambda>ch. ch\<lparr>ch_recv := qrep xs\<rparr>) s = map_chans (tail_recv c) s"
  by (simp add: upd_chan_map map_chans_def tail_recv_def rq_def fun_eq_iff)

lemma tail_send_upd: "wfqs s \<Longrightarrow> sq s c = x # xs \<Longrightarrow>
    upd_chan c (\<lambda>ch. ch\<lparr>ch_send := qrep xs\<rparr>) s = map_chans (tail_send c) s"
  by (simp add: upd_chan_map map_chans_def tail_send_def sq_def fun_eq_iff)

lemma wfqs_map:
  assumes "wfqs s"
    "\<And>c. \<exists>xs. distinct xs \<and> ch_send (g c (chans s c)) = qrep xs"
    "\<And>c. \<exists>xs. distinct xs \<and> ch_recv (g c (chans s c)) = qrep xs"
  shows "wfqs (map_chans g s)"
  unfolding wfqs_def sq_def rq_def using assms(2,3) by (metis map_chans_simps(1) qpids_qrep)

lemma wfqs_tail [simp]:
  "wfqs s \<Longrightarrow> wfqs (map_chans (tail_recv c) s)" "wfqs s \<Longrightarrow> wfqs (map_chans (tail_send c) s)"
  by (rule wfqs_map; use wfqsD [of s] in \<open>force simp: tail_recv_def tail_send_def distinct_tl sq_def rq_def\<close>)+

lemma part_mid [simp]:
  "ch_mid (tail_recv c d ch) = ch_mid ch" "ch_mid (tail_send c d ch) = ch_mid ch"
  "ch_mid (cut_recv p C d ch) = ch_mid ch" "ch_mid (cut_send p C d ch) = ch_mid ch"
  by (simp_all add: tail_recv_def tail_send_def cut_recv_def cut_send_def)

lemma part_mid_free [simp]:
  "ch_mid (free_recv c x s d ch) = ch_mid ch" "ch_mid (free_send c x s d ch) = ch_mid ch"
  by (simp_all add: free_recv_def free_send_def)

lemma settle_map:
  "(\<And>ch. ch_mid (g c ch) = ch_mid ch) \<Longrightarrow>
     settle_recv c x (map_chans g s) = map_chans g (settle_recv c x s)"
  "(\<And>ch. ch_mid (g c ch) = ch_mid ch) \<Longrightarrow>
     settle_send c x (map_chans g s) = map_chans g (settle_send c x s)"
  by (simp_all add: settle_recv_def settle_send_def serve_map alt_recv_hit_def)

lemma settle_simps [simp]:
  "chans (settle_recv c x s) = chans s" "arrays (settle_recv c x s) = arrays s"
  "chans (settle_send c x s) = chans s" "arrays (settle_send c x s) = arrays s"
  "runhd (settle_recv c x s) = runhd s" "runtl (settle_recv c x s) = runtl s"
  "runhd (settle_send c x s) = runhd s" "runtl (settle_send c x s) = runtl s"
  "nchan (settle_recv c x s) = nchan s" "nchan (settle_send c x s) = nchan s"
  by (simp_all add: settle_recv_def settle_send_def)

text \<open>What \<open>altdone\<close> does for the sender that found the prog \<open>x\<close>.\<close>

lemma leave_recv:
  assumes "wfqs s" "rq s c = x # xs" "peer_recv s c x"
  shows "(if pr_state (progs s x) = Palt then altdone (pr_Rs (progs s x)) x (Some c) 1
            (map_chans (tail_recv c) s) else Inr (map_chans (tail_recv c) s))
    = Inr (map_chans (free_recv c x s) (settle_recv c x s))"
proof (cases "pr_state (progs s x) = Palt")
  case False
  then show ?thesis
    by (simp add: settle_recv_def free_recv_def [abs_def] left_sends_def left_recvs_def)
next
  case True
  let ?a = "pr_Rs (progs s x)" and ?s1 = "map_chans (tail_recv c) s"
  obtain h where h: "alt_recv_hit s ?a c = Some h" "no_arr (al_sends ?a)"
    and mid: "snd (snd h) \<noteq> None \<Longrightarrow> ch_mid (chans s c) = MidT (mid_type (ch_mid (chans s c)))"
    using assms(3) True by (auto simp: peer_recv_def mid_type_def)
  have "altdone ?a x (Some c) 1 ?s1 = Inr (serve x (mid_type (ch_mid (chans s c))) h (unlink_alt ?a x ?s1))"
    by (rule altdone_served_recv) (use assms(1) h mid in \<open>auto simp: alt_recv_hit_def\<close>)
  also have "\<dots> = Inr (map_chans (free_recv c x s) (settle_recv c x s))"
    using True h
    by (simp add: unlink_alt_def strip_map alt_recvs_def settle_recv_def serve_map [symmetric]
        map_chans_comp free_recv_def [abs_def] left_sends_def left_recvs_def)
  finally show ?thesis using True by simp
qed

lemma leave_send:
  assumes "wfqs s" "sq s c = x # xs" "peer_send s c x"
  shows "(if pr_state (progs s x) = Palt then altdone (pr_Rs (progs s x)) x (Some c) 0
            (map_chans (tail_send c) s) else Inr (map_chans (tail_send c) s))
    = Inr (map_chans (free_send c x s) (settle_send c x s))"
proof (cases "pr_state (progs s x) = Palt")
  case False
  then show ?thesis
    by (simp add: settle_send_def free_send_def [abs_def] left_sends_def left_recvs_def)
next
  case True
  let ?a = "pr_Rs (progs s x)" and ?s1 = "map_chans (tail_send c) s"
  obtain h where h: "alt_send_hit ?a c = Some h" "no_arr (al_sends ?a)"
    using assms(3) True by (auto simp: peer_send_def)
  have "altdone ?a x (Some c) 0 ?s1 = Inr (serve x (mid_type (ch_mid (chans s c))) h (unlink_alt ?a x ?s1))"
    by (rule altdone_served_send) (use assms(1) h in \<open>auto simp: alt_send_hit_def\<close>)
  also have "\<dots> = Inr (map_chans (free_send c x s) (settle_send c x s))"
    using True h
    by (simp add: unlink_alt_def strip_map alt_recvs_def settle_send_def serve_map [symmetric]
        map_chans_comp free_send_def [abs_def] left_sends_def left_recvs_def)
  finally show ?thesis using True by simp
qed

section \<open>The ring buffer\<close>

definition ring_ok :: "channel \<Rightarrow> bool" where
  "ring_ok ch \<longleftrightarrow> (case ch_buf ch of
       None \<Rightarrow> ch_size ch = 0
     | Some a \<Rightarrow> ch_front ch < length a \<and> ch_size ch \<le> length a)"

definition ring_at :: "int list \<Rightarrow> nat \<Rightarrow> nat \<Rightarrow> int list" where
  "ring_at a f n = map (\<lambda>i. a ! ((f + i) mod length a)) [0..<n]"

text \<open>The data in the buffer, oldest first.\<close>

definition ring_items :: "channel \<Rightarrow> int list" where
  "ring_items ch = (case ch_buf ch of None \<Rightarrow> [] | Some a \<Rightarrow> ring_at a (ch_front ch) (ch_size ch))"

definition wrap :: "nat \<Rightarrow> nat \<Rightarrow> nat" where
  "wrap i n = (if i \<ge> n then i - n else i)"

lemma wrap_mod: "i < 2 * n \<Longrightarrow> wrap i n = i mod n"
  by (auto simp: wrap_def mod_if)

lemma wrap_next: "(i :: nat) < n \<Longrightarrow> (if i + 1 = n then 0 else i + 1) = (i + 1) mod n"
  by auto

lemma ring_at_length [simp]: "length (ring_at a f n) = n"
  by (simp add: ring_at_def)

lemma ring_slot_fresh:
  fixes f n i :: nat
  assumes "f < l" "n < l" "i < n"
  shows "(f + i) mod l \<noteq> (f + n) mod l"
proof
  assume "(f + i) mod l = (f + n) mod l"
  then have "l dvd (f + n) - (f + i)" by (metis mod_eq_dvd_iff_nat nat_add_left_cancel_le less_imp_le assms(3))
  then have "l dvd n - i" by simp
  then show False using assms by (auto dest: dvd_imp_le)
qed

lemma ring_at_put:
  assumes "f < length a" "n < length a"
  shows "ring_at (a[(f + n) mod length a := v]) f (n + 1) = ring_at a f n @ [v]"
proof -
  have "(f + n) mod length a < length a" using assms by (intro mod_less_divisor) auto
  then show ?thesis
    using ring_slot_fresh [OF assms, THEN not_sym] by (auto simp: ring_at_def nth_list_update)
qed

lemma ring_at_get:
  assumes "f < length a" "0 < n" "n \<le> length a"
  shows "ring_at a f n = a ! f # ring_at (a[f := w]) ((f + 1) mod length a) (n - 1)"
proof -
  have "ring_at (a[f := w]) ((f + 1) mod length a) (n - 1)
      = map (\<lambda>i. a ! ((f + i) mod length a)) (map Suc [0..<n - 1])"
    unfolding ring_at_def map_map
  proof (rule map_cong [OF refl])
    fix i
    assume i: "i \<in> set [0..<n - 1]"
    have "((f + 1) mod length a + i) mod length a = (f + Suc i) mod length a"
      by (simp add: mod_add_left_eq)
    moreover have "(f + Suc i) mod length a \<noteq> f"
      using ring_slot_fresh [of f "length a" "Suc i" 0, THEN not_sym] assms i by simp
    ultimately show "a[f := w] ! (((f + 1) mod length a + i) mod length (a[f := w]))
        = ((\<lambda>i. a ! ((f + i) mod length a)) \<circ> Suc) i"
      by simp
  qed
  moreover have "[0..<n] = 0 # map Suc [0..<n - 1]"
    using assms by (cases n) (simp_all add: upt_conv_Cons map_Suc_upt del: upt_Suc)
  ultimately show ?thesis using assms by (simp add: ring_at_def)
qed

definition put_ring :: "cid \<Rightarrow> int \<Rightarrow> cid \<Rightarrow> channel \<Rightarrow> channel" where
  "put_ring c v d ch = (if d \<noteq> c then ch else case ch_buf ch of
       None \<Rightarrow> ch
     | Some a \<Rightarrow> ch\<lparr>ch_size := ch_size ch + 1,
         ch_buf := Some (a[(ch_front ch + ch_size ch) mod length a := v])\<rparr>)"

definition get_ring :: "cid \<Rightarrow> cid \<Rightarrow> channel \<Rightarrow> channel" where
  "get_ring c d ch = (if d \<noteq> c then ch else case ch_buf ch of
       None \<Rightarrow> ch
     | Some a \<Rightarrow> ch\<lparr>ch_size := ch_size ch - 1, ch_front := (ch_front ch + 1) mod length a,
         ch_buf := Some (if ty_np (ch_type ch) \<noteq> 0
           then a[ch_front ch := ty_reset (ch_type ch) (a ! ch_front ch)] else a)\<rparr>)"

lemma cputb_ring:
  assumes "ring_ok (chans s c)"
  shows "cputb c (Some v) s
    = Inr (if canput (chans s c) then (True, map_chans (put_ring c (mem s v)) s) else (False, s))"
proof (cases "ch_buf (chans s c)")
  case None
  then show ?thesis by (simp add: cputb_def canput_def)
next
  case (Some a)
  let ?ch = "chans s c"
  have w: "wrap (ch_front ?ch + ch_size ?ch) (length a) = (ch_front ?ch + ch_size ?ch) mod length a"
    if "ch_size ?ch < length a"
    using assms Some that by (intro wrap_mod) (auto simp: ring_ok_def)
  have b: "(ch_front ?ch + ch_size ?ch) mod length a < length a" if "ch_size ?ch < length a"
    using that by (intro mod_less_divisor) auto
  show ?thesis
  proof (cases "ch_size ?ch < length a")
    case False
    then show ?thesis using Some by (simp add: cputb_def canput_def)
  next
    case True
    have "upd_chan c (\<lambda>ch. ch\<lparr>ch_size := ch_size ch + 1,
        ch_buf := Some (a[(ch_front ?ch + ch_size ?ch) mod length a := mem s v])\<rparr>) s
        = map_chans (put_ring c (mem s v)) s"
      unfolding upd_chan_map by (rule map_chans_cong) (use Some in \<open>simp add: put_ring_def\<close>)
    then show ?thesis
      using Some True w b unfolding wrap_def by (simp add: cputb_def canput_def Let_def)
  qed
qed

lemma cgetb_ring:
  assumes "ring_ok (chans s c)"
  shows "cgetb c v s = Inr (if canget (chans s c)
     then (True, put_mem v (hd (ring_items (chans s c))) (map_chans (get_ring c) s)) else (False, s))"
proof (cases "ch_buf (chans s c)")
  case None
  then show ?thesis using assms by (simp add: cgetb_def canget_def ring_ok_def)
next
  case (Some a)
  let ?ch = "chans s c"
  show ?thesis
  proof (cases "0 < ch_size ?ch")
    case False
    then show ?thesis using Some by (simp add: cgetb_def canget_def)
  next
    case True
    have fr: "ch_front ?ch < length a" "ch_size ?ch \<le> length a"
      using assms Some by (auto simp: ring_ok_def)
    have hd: "hd (ring_items ?ch) = a ! ch_front ?ch"
      using ring_at_get [OF fr(1) True fr(2), of 0] Some by (simp add: ring_items_def)
    have nx: "(if ch_front ?ch + 1 = length a then 0 else ch_front ?ch + 1) = (ch_front ?ch + 1) mod length a"
      by (rule wrap_next [OF fr(1)])
    show ?thesis
    proof (cases "ty_np (ch_type ?ch) = 0")
      case True': True
      have "upd_chan c (\<lambda>ch. ch\<lparr>ch_front := (ch_front ?ch + 1) mod length a, ch_size := ch_size ch - 1\<rparr>) s
          = map_chans (get_ring c) s"
        unfolding upd_chan_map by (rule map_chans_cong) (use Some True' in \<open>simp add: get_ring_def\<close>)
      then show ?thesis
        using Some True True' fr hd nx by (auto simp: canget_def cgetb_def Let_def)
    next
      case False
      have "upd_chan c (\<lambda>x. x\<lparr>ch_buf := Some (a[ch_front ?ch := ty_reset (ch_type ?ch) (a ! ch_front ?ch)])\<rparr>)
          (put_mem v (a ! ch_front ?ch)
            (upd_chan c (\<lambda>ch. ch\<lparr>ch_front := (ch_front ?ch + 1) mod length a, ch_size := ch_size ch - 1\<rparr>) s))
          = put_mem v (a ! ch_front ?ch) (map_chans (get_ring c) s)"
        unfolding upd_chan_map map_chans_commute map_chans_comp
        by (rule arg_cong [where f = "put_mem v (a ! ch_front ?ch)"], rule map_chans_cong)
          (use Some False in \<open>simp add: get_ring_def\<close>)
      then show ?thesis
        using Some True False fr hd nx by (auto simp: canget_def cgetb_def Let_def)
    qed
  qed
qed

lemma put_ring_items:
  assumes "ring_ok ch" "canput ch"
  shows "ring_ok (put_ring c v c ch)" "ring_items (put_ring c v c ch) = ring_items ch @ [v]"
proof -
  obtain a where a: "ch_buf ch = Some a" "ch_front ch < length a" "ch_size ch < length a"
    using assms by (auto simp: ring_ok_def canput_def split: option.splits)
  show "ring_ok (put_ring c v c ch)" using a by (simp add: ring_ok_def put_ring_def)
  show "ring_items (put_ring c v c ch) = ring_items ch @ [v]"
    using a ring_at_put [OF a(2,3), of v] by (simp add: ring_items_def put_ring_def)
qed

lemma get_ring_items:
  assumes "ring_ok ch" "canget ch"
  shows "ring_ok (get_ring c c ch)" "ring_items ch = hd (ring_items ch) # ring_items (get_ring c c ch)"
proof -
  obtain a where a: "ch_buf ch = Some a" "ch_front ch < length a" "0 < ch_size ch" "ch_size ch \<le> length a"
    using assms by (auto simp: ring_ok_def canget_def split: option.splits)
  have l: "0 < length a" using a by auto
  show "ring_ok (get_ring c c ch)" using a l by (auto simp: ring_ok_def get_ring_def)
  have "ring_items ch = a ! ch_front ch # ring_items (get_ring c c ch)"
    using a ring_at_get [OF a(2,3,4), of "ty_reset (ch_type ch) (a ! ch_front ch)"]
      ring_at_get [OF a(2,3,4), of "a ! ch_front ch"]
    by (auto simp: ring_items_def get_ring_def)
  then show "ring_items ch = hd (ring_items ch) # ring_items (get_ring c c ch)" by simp
qed

lemma ring_items_length: "ring_ok ch \<Longrightarrow> length (ring_items ch) = ch_size ch"
  by (auto simp: ring_ok_def ring_items_def split: option.splits)

section \<open>Send and receive, case by case\<close>

definition deliver :: "pid \<Rightarrow> addr \<Rightarrow> dis \<Rightarrow> dis" where
  "deliver x src s = put_mem (the (pr_ptr (progs s x))) (mem s src) (set_ptr None x s)"

definition collect :: "pid \<Rightarrow> addr \<Rightarrow> dis \<Rightarrow> dis" where
  "collect x dst s = put_mem dst (mem s (the (pr_ptr (progs s x)))) (set_ptr None x s)"

lemma isend_wake:
  assumes "wfqs s" "rq s c = x # xs" "peer_recv s c x"
  shows "isend (Some c) src s = rbind (wake x (deliver x src (settle_recv c x s)))
    (\<lambda>t. Inr (map_chans (free_recv c x s) t))"
proof -
  have q: "ch_recv (chans s c) = qrep (x # xs)" using wfqsD(2) [OF assms(1), of c] assms(2) by simp
  have s1: "upd_chan c (\<lambda>ch. ch\<lparr>ch_recv := qrep xs\<rparr>) s = map_chans (tail_recv c) s"
    by (rule tail_recv_upd [OF assms(1,2)])
  have ptr: "pr_ptr (progs (settle_recv c x s) x) \<noteq> None"
    using assms(3) by (auto simp: settle_recv_def peer_recv_def)
  then obtain d where d: "pr_ptr (progs (settle_recv c x s) x) = Some d" by auto
  have "isend (Some c) src s = rbind (if pr_state (progs s x) = Palt
       then altdone (pr_Rs (progs s x)) x (Some c) 1 (map_chans (tail_recv c) s)
       else Inr (map_chans (tail_recv c) s)) (\<lambda>s. case pr_ptr (progs s x) of
         None \<Rightarrow> Inl NilDeref
       | Some d \<Rightarrow> wake x (put_mem d (mem s src) (set_ptr None x s)))"
    unfolding isend_def Let_def wake_def [abs_def] set_ptr_simps by (simp add: q s1)
  also have "\<dots> = wake x (map_chans (free_recv c x s) (deliver x src (settle_recv c x s)))"
    unfolding leave_recv [OF assms] using d by (simp add: deliver_def map_chans_commute)
  finally show ?thesis by (simp add: wake_map)
qed

lemma isend_put:
  assumes "wfqs s" "rq s c = []" "ring_ok (chans s c)" "canput (chans s c)"
  shows "isend (Some c) src s = Inr (map_chans (put_ring c (mem s src)) s)"
  using wfqsD(2) [OF assms(1), of c] cputb_ring [OF assms(3), of src] assms
  by (simp add: isend_def)

definition park :: "pstate \<Rightarrow> cid \<Rightarrow> addr \<Rightarrow> pid \<Rightarrow> dis \<Rightarrow> dis" where
  "park st c v p s = (upd_prog p (\<lambda>r. r\<lparr>pr_state := st, pr_ptr := Some v, pr_chan := Some c\<rparr>) s)
     \<lparr>RIC := 1, Rt := 1\<rparr>"

definition push_send :: "cid \<Rightarrow> pid \<Rightarrow> cid \<Rightarrow> channel \<Rightarrow> channel" where
  "push_send c p d ch = (if d = c then ch\<lparr>ch_send := qrep (qpids (ch_send ch) @ [p])\<rparr> else ch)"

definition push_recv :: "cid \<Rightarrow> pid \<Rightarrow> cid \<Rightarrow> channel \<Rightarrow> channel" where
  "push_recv c p d ch = (if d = c then ch\<lparr>ch_recv := qrep (qpids (ch_recv ch) @ [p])\<rparr> else ch)"

lemma runq_map [simp]: "runq (map_chans g s) xs = runq s xs"
  by (rule runq_cong) simp_all

lemma runq_upd:
  "(\<And>r. pr_link (f r) = pr_link r) \<Longrightarrow> runq (upd_prog p f s) xs = runq s xs"
  by (rule runq_cong) (auto simp: fun_eq_iff)

lemma runq_regs [simp]: "runq (s\<lparr>RIC := i\<rparr>) xs = runq s xs" "runq (s\<lparr>Rt := j\<rparr>) xs = runq s xs"
  by (rule runq_cong; simp)+

text \<open>Same in everything but the links of the run queue.\<close>

lemma body_map: "body s = body t \<Longrightarrow> body (map_chans g s) = body (map_chans g t)"
  using body_chans [of s t] body_prog [of s t] by (intro bodyI) auto

lemma body_park:
  assumes "body s = body (set_state st p t)"
  shows "body ((upd_prog p (\<lambda>r. r\<lparr>pr_ptr := Some v, pr_chan := Some c\<rparr>) s)\<lparr>RIC := 1, Rt := 1\<rparr>)
    = body (park st c v p t)"
proof (rule bodyI)
  fix q
  let ?f = "\<lambda>r :: prog. r\<lparr>pr_ptr := Some v, pr_chan := Some c\<rparr>"
  have eq: "(progs (upd_prog p ?f u) q)\<lparr>pr_link := None\<rparr>
      = (if q = p then ?f else (\<lambda>r. r)) ((progs u q)\<lparr>pr_link := None\<rparr>)" for u
    by simp
  have "(progs (park st c v p t) q)\<lparr>pr_link := None\<rparr>
      = (progs (upd_prog p ?f (set_state st p t)) q)\<lparr>pr_link := None\<rparr>"
    by (simp add: park_def set_state_def)
  then show "(progs ((upd_prog p ?f s)\<lparr>RIC := 1, Rt := 1\<rparr>) q)\<lparr>pr_link := None\<rparr>
      = (progs (park st c v p t) q)\<lparr>pr_link := None\<rparr>"
    using eq [of s] eq [of "set_state st p t"] body_prog [OF assms, of q] by simp
qed (use body_chans [OF assms] in \<open>simp_all add: park_def set_state_def\<close>)

lemma isend_block:
  assumes "wfqs s" "rq s c = []" "ring_ok (chans s c)" "\<not> canput (chans s c)" "runq s (p # ps)"
  obtains t where "isend (Some c) src s = Inr t" "runq t ps"
    "body t = body (map_chans (push_send c p) (park Psend c src p s))"
proof -
  obtain u where u: "delrun Psend s = Inr (p, u)" "runq u ps" "body u = body (set_state Psend p s)"
    by (rule delrun_runq [OF assms(5), of Psend])
  have c: "chans u = chans s" using body_chans [OF u(3)] by (simp add: set_state_def)
  let ?v = "(upd_prog p (\<lambda>r. r\<lparr>pr_ptr := Some src, pr_chan := Some c\<rparr>) u)\<lparr>RIC := 1, Rt := 1\<rparr>"
  have q: "ch_send (chans s c) = qrep (sq s c)" "ch_recv (chans s c) = qrep []"
    using wfqsD [OF assms(1), of c] assms(2) by auto
  have eq: "upd_chan c (\<lambda>ch. ch\<lparr>ch_send := qrep (sq s c @ [p])\<rparr>) ?v = map_chans (push_send c p) ?v"
    unfolding upd_chan_map by (rule map_chans_cong) (simp add: push_send_def sq_def c)
  have "isend (Some c) src s = Inr (map_chans (push_send c p) ?v)"
    using cputb_ring [OF assms(3), of src] assms(4) u(1) eq
    by (simp add: isend_def q c Let_def)
  moreover have "runq (map_chans (push_send c p) ?v) ps"
    using u(2) by (simp add: runq_upd)
  moreover have "body (map_chans (push_send c p) ?v) = body (map_chans (push_send c p) (park Psend c src p s))"
    by (rule body_map [OF body_park [OF u(3)]])
  ultimately show thesis by (rule that)
qed

text \<open>With a full buffer the oldest datum goes out and the waiting sender's goes in.\<close>

definition turn_ring :: "cid \<Rightarrow> int \<Rightarrow> cid \<Rightarrow> channel \<Rightarrow> channel" where
  "turn_ring c v d ch = put_ring c v d (get_ring c d ch)"

definition collect_full :: "pid \<Rightarrow> addr \<Rightarrow> int \<Rightarrow> dis \<Rightarrow> dis" where
  "collect_full x dst w s = set_ptr None x (put_mem dst w s)"

definition recv_from :: "cid \<Rightarrow> pid \<Rightarrow> addr \<Rightarrow> dis \<Rightarrow> dis outcome" where
  "recv_from c x dst s = rbind (if ch_buf (chans s c) \<noteq> None
       then rbind (cgetb c dst s) (\<lambda>(_, s).
              rbind (cputb c (pr_ptr (progs s x)) s) (\<lambda>(_, s). Inr (set_ptr None x s)))
       else (case pr_ptr (progs s x) of
               None \<Rightarrow> Inl NilDeref
             | Some a \<Rightarrow> Inr (put_mem dst (mem s a) (set_ptr None x s)))) (wake x)"

lemma irecv_wake:
  assumes "wfqs s" "sq s c = x # xs" "peer_send s c x" "ch_buf (chans s c) = None"
  shows "irecv (Some c) dst s = rbind (wake x (collect x dst (settle_send c x s)))
    (\<lambda>t. Inr (map_chans (free_send c x s) t))"
proof -
  have q: "ch_send (chans s c) = qrep (x # xs)" using wfqsD(1) [OF assms(1), of c] assms(2) by simp
  have s1: "upd_chan c (\<lambda>ch. ch\<lparr>ch_send := qrep xs\<rparr>) s = map_chans (tail_send c) s"
    by (rule tail_send_upd [OF assms(1,2)])
  have "pr_ptr (progs (settle_send c x s) x) \<noteq> None"
    using assms(3) by (auto simp: settle_send_def peer_send_def)
  then obtain d where d: "pr_ptr (progs (settle_send c x s) x) = Some d" by auto
  have b: "ch_buf (free_send c x s c (chans s c)) = None"
    using assms(4) by (simp add: free_send_def cut_recv_def cut_send_def tail_send_def)
  have "irecv (Some c) dst s = rbind (if pr_state (progs s x) = Palt
       then altdone (pr_Rs (progs s x)) x (Some c) 0 (map_chans (tail_send c) s)
       else Inr (map_chans (tail_send c) s)) (recv_from c x dst)"
    unfolding irecv_def Let_def wake_def [abs_def] recv_from_def [abs_def] by (simp add: q s1)
  also have "\<dots> = wake x (map_chans (free_send c x s) (collect x dst (settle_send c x s)))"
    unfolding leave_send [OF assms(1-3)] using d b
    by (simp add: recv_from_def collect_def map_chans_commute)
  finally show ?thesis by (simp add: wake_map)
qed

lemma free_bufpart [simp]:
  "bufpart (free_send c x s d ch) = bufpart ch" "bufpart (free_recv c x s d ch) = bufpart ch"
  by (simp_all add: bufpart_def free_send_def free_recv_def cut_recv_def cut_send_def
      tail_send_def tail_recv_def)

lemma ring_bufpart:
  assumes "bufpart a = bufpart b"
  shows "ring_ok a = ring_ok b" "ring_items a = ring_items b" "canget a = canget b" "canput a = canput b"
  using bufpartD [OF assms]
  by (auto simp: ring_ok_def ring_items_def canget_def canput_def split: option.splits)

lemma irecv_wake_full:
  fixes dst :: addr
  assumes "wfqs s" "sq s c = x # xs" "peer_send s c x"
    and b: "ch_buf (chans s c) = Some a" "ring_ok (chans s c)" "ch_size (chans s c) = length a"
  defines "w \<equiv> hd (ring_items (chans s c))"
  defines "s1 \<equiv> put_mem dst w (settle_send c x s)"
  defines "v \<equiv> mem s1 (the (pr_ptr (progs s1 x)))"
  shows "irecv (Some c) dst s = rbind (wake x (set_ptr None x s1))
    (\<lambda>t. Inr (map_chans (\<lambda>d ch. turn_ring c v d (free_send c x s d ch)) t))"
proof -
  have q: "ch_send (chans s c) = qrep (x # xs)" using wfqsD(1) [OF assms(1), of c] assms(2) by simp
  have up: "upd_chan c (\<lambda>ch. ch\<lparr>ch_send := qrep xs\<rparr>) s = map_chans (tail_send c) s"
    by (rule tail_send_upd [OF assms(1,2)])
  have "pr_ptr (progs s1 x) \<noteq> None"
    using assms(3) by (auto simp: s1_def settle_send_def peer_send_def)
  then obtain d where d: "pr_ptr (progs s1 x) = Some d" by auto
  have cs: "chans s1 = chans s" by (simp add: s1_def)
  let ?ch = "free_send c x s c (chans s c)"
  note same = ring_bufpart [OF free_bufpart(1) [of c x s c "chans s c"]]
  have buf: "ch_buf ?ch \<noteq> None"
    using bufpartD [OF free_bufpart(1) [of c x s c "chans s c"]] b by simp
  let ?u = "map_chans (free_send c x s) (settle_send c x s)"
  have g: "canget (chans s c)"
    using b by (auto simp: ring_ok_def canget_def)
  then have get: "cgetb c dst ?u = Inr (True, put_mem dst w (map_chans (get_ring c) ?u))"
    using cgetb_ring [of ?u c dst] same b(2) by (simp add: w_def)
  let ?u' = "put_mem dst w (map_chans (get_ring c) ?u)"
  have u': "?u' = map_chans (\<lambda>d ch. get_ring c d (free_send c x s d ch)) s1"
    by (simp add: s1_def map_chans_comp map_chans_commute)
  have ok: "ring_ok (get_ring c c ?ch)"
    using get_ring_items(1) [of ?ch c] same b(2) g by simp
  have "canput (get_ring c c ?ch)"
    using bufpartD [OF free_bufpart(1) [of c x s c "chans s c"]] b g
    by (auto simp: canput_def get_ring_def canget_def split: option.splits)
  then have put: "cputb c (Some d) ?u' = Inr (True, map_chans (put_ring c v) ?u')"
    using cputb_ring [of ?u' c d] ok d cs unfolding u' by (simp add: v_def)
  have p: "pr_ptr (progs (settle_send c x s) x) = Some d" using d by (simp add: s1_def)
  have "irecv (Some c) dst s = rbind (if pr_state (progs s x) = Palt
       then altdone (pr_Rs (progs s x)) x (Some c) 0 (map_chans (tail_send c) s)
       else Inr (map_chans (tail_send c) s)) (recv_from c x dst)"
    unfolding irecv_def Let_def wake_def [abs_def] recv_from_def [abs_def] by (simp add: q up)
  also have "\<dots> = wake x (set_ptr None x (map_chans (put_ring c v) ?u'))"
    unfolding leave_send [OF assms(1-3)] using buf by (simp add: recv_from_def get put p)
  also have "set_ptr None x (map_chans (put_ring c v) ?u')
      = map_chans (\<lambda>d ch. turn_ring c v d (free_send c x s d ch)) (set_ptr None x s1)"
    unfolding u' by (simp add: map_chans_comp map_chans_commute turn_ring_def)
  finally show ?thesis by (simp add: wake_map)
qed

lemma irecv_get:
  assumes "wfqs s" "sq s c = []" "ring_ok (chans s c)" "canget (chans s c)"
  shows "irecv (Some c) dst s
    = Inr (put_mem dst (hd (ring_items (chans s c))) (map_chans (get_ring c) s))"
  using wfqsD(1) [OF assms(1), of c] cgetb_ring [OF assms(3), of dst] assms
  by (simp add: irecv_def)

lemma irecv_block:
  assumes "wfqs s" "sq s c = []" "ring_ok (chans s c)" "\<not> canget (chans s c)" "runq s (p # ps)"
  obtains t where "irecv (Some c) dst s = Inr t" "runq t ps"
    "body t = body (map_chans (push_recv c p) (park Precv c dst p s))"
proof -
  obtain u where u: "delrun Precv s = Inr (p, u)" "runq u ps" "body u = body (set_state Precv p s)"
    by (rule delrun_runq [OF assms(5), of Precv])
  have c: "chans u = chans s" using body_chans [OF u(3)] by (simp add: set_state_def)
  let ?v = "(upd_prog p (\<lambda>r. r\<lparr>pr_ptr := Some dst, pr_chan := Some c\<rparr>) u)\<lparr>RIC := 1, Rt := 1\<rparr>"
  have q: "ch_recv (chans s c) = qrep (rq s c)" "ch_send (chans s c) = qrep []"
    using wfqsD [OF assms(1), of c] assms(2) by auto
  have eq: "upd_chan c (\<lambda>ch. ch\<lparr>ch_recv := qrep (rq s c @ [p])\<rparr>) ?v = map_chans (push_recv c p) ?v"
    unfolding upd_chan_map by (rule map_chans_cong) (simp add: push_recv_def rq_def c)
  have "irecv (Some c) dst s = Inr (map_chans (push_recv c p) ?v)"
    using cgetb_ring [OF assms(3), of dst] assms(4) u(1) eq
    by (simp add: irecv_def q c Let_def)
  moreover have "runq (map_chans (push_recv c p) ?v) ps"
    using u(2) by (simp add: runq_upd)
  moreover have "body (map_chans (push_recv c p) ?v) = body (map_chans (push_recv c p) (park Precv c dst p s))"
    by (rule body_map [OF body_park [OF u(3)]])
  ultimately show thesis by (rule that)
qed

end
