(* ===== verification/ChanInv.thy ===== *)
theory ChanInv
  imports ChanWake
begin

text \<open>
  The invariant of the scheduler and the channels.  The run queue holds the ready progs and no
  others; a prog is on a channel's queue exactly when its state says it waits there; a channel
  with a waiting receiver has no data and no waiting sender, and one with a waiting sender has no
  room.  \<open>isend\<close> and \<open>irecv\<close> keep the invariant and never fail in a state that has it.
\<close>

section \<open>The invariant\<close>

definition waits_recv :: "dis \<Rightarrow> pid \<Rightarrow> cid \<Rightarrow> bool" where
  "waits_recv s p c = (case pr_state (progs s p) of
       Precv \<Rightarrow> pr_chan (progs s p) = Some c
     | Palt \<Rightarrow> c \<in> alt_recvs s (pr_Rs (progs s p))
     | _ \<Rightarrow> False)"

definition waits_send :: "dis \<Rightarrow> pid \<Rightarrow> cid \<Rightarrow> bool" where
  "waits_send s p c = (case pr_state (progs s p) of
       Psend \<Rightarrow> pr_chan (progs s p) = Some c
     | Palt \<Rightarrow> c \<in> alt_sends (pr_Rs (progs s p))
     | _ \<Rightarrow> False)"

text \<open>
  The alts the code handles: no channel twice, none on both sides, only live channels, and the
  channels of an array carry the \<open>Type\<close> that \<open>altvaloff\<close> reads.
\<close>

definition arr_typed :: "dis \<Rightarrow> altc \<Rightarrow> bool" where
  "arr_typed s ac = (case ac_c ac of
       ArrCh r \<Rightarrow> (\<forall>c \<in> set (somes (arrays s r)). case ch_mid (chans s c) of MidT _ \<Rightarrow> True | _ \<Rightarrow> False)
     | _ \<Rightarrow> True)"

definition alt_ok :: "dis \<Rightarrow> alt \<Rightarrow> bool" where
  "alt_ok s a \<longleftrightarrow> no_arr (al_sends a) \<and> distinct (send_chans (al_sends a))
     \<and> distinct (recv_chans (arrays s) (al_recvs a)) \<and> alt_sends a \<inter> alt_recvs s a = {}
     \<and> (\<forall>c \<in> alt_sends a \<union> alt_recvs s a. c < nchan s)
     \<and> (\<forall>ac \<in> set (al_recvs a). arr_typed s ac)"

definition sched_inv :: "dis \<Rightarrow> bool" where
  "sched_inv s \<longleftrightarrow> (\<exists>xs. runq s xs \<and> (\<forall>p. p \<in> set xs \<longleftrightarrow> pr_state (progs s p) = Pready))"

definition wait_inv :: "dis \<Rightarrow> bool" where
  "wait_inv s \<longleftrightarrow> wfqs s \<and> (\<forall>p c. p \<in> set (rq s c) \<longleftrightarrow> waits_recv s p c)
     \<and> (\<forall>p c. p \<in> set (sq s c) \<longleftrightarrow> waits_send s p c)"

definition data_inv :: "dis \<Rightarrow> cid \<Rightarrow> bool" where
  "data_inv s c \<longleftrightarrow> ring_ok (chans s c)
     \<and> (rq s c \<noteq> [] \<longrightarrow> sq s c = [] \<and> \<not> canget (chans s c))
     \<and> (sq s c \<noteq> [] \<longrightarrow> \<not> canput (chans s c))
     \<and> (nchan s \<le> c \<longrightarrow> rq s c = [] \<and> sq s c = [])"

definition prog_inv :: "dis \<Rightarrow> pid \<Rightarrow> bool" where
  "prog_inv s p \<longleftrightarrow> pr_addrun (progs s p) = None
     \<and> (pr_state (progs s p) = Palt \<longrightarrow> alt_ok s (pr_Rs (progs s p)))
     \<and> (pr_state (progs s p) \<in> {Psend, Precv} \<longrightarrow> pr_ptr (progs s p) \<noteq> None \<and> pr_chan (progs s p) \<noteq> None)"

definition dis_inv :: "dis \<Rightarrow> bool" where
  "dis_inv s \<longleftrightarrow> sched_inv s \<and> wait_inv s \<and> (\<forall>c. data_inv s c) \<and> (\<forall>p. prog_inv s p)"

lemma dis_invD:
  assumes "dis_inv s"
  shows "sched_inv s" "wait_inv s" "wfqs s" "data_inv s c" "prog_inv s p"
    "p \<in> set (rq s c) \<longleftrightarrow> waits_recv s p c" "p \<in> set (sq s c) \<longleftrightarrow> waits_send s p c"
    "ring_ok (chans s c)" "pr_addrun (progs s p) = None"
  using assms by (auto simp: dis_inv_def wait_inv_def data_inv_def prog_inv_def)

lemma waits_not_ready:
  "waits_recv s p c \<Longrightarrow> pr_state (progs s p) \<in> {Precv, Palt}"
  "waits_send s p c \<Longrightarrow> pr_state (progs s p) \<in> {Psend, Palt}"
  by (auto simp: waits_recv_def waits_send_def split: pstate.splits)

lemma dis_inv_run:
  assumes "dis_inv s" "runhd s = Some p"
  obtains ps where "runq s (p # ps)" "\<And>q. q \<in> set (p # ps) \<longleftrightarrow> pr_state (progs s q) = Pready"
proof -
  obtain xs where xs: "runq s xs" "\<And>q. q \<in> set xs \<longleftrightarrow> pr_state (progs s q) = Pready"
    using dis_invD(1) [OF assms(1)] by (auto simp: sched_inv_def)
  then obtain ps where "xs = p # ps" using runq_head [OF xs(1)] assms(2) by (cases xs) auto
  then show thesis using xs that by blast
qed

text \<open>
  One prog \<open>p\<close> changes, and the queues change by it alone: then only \<open>p\<close> and the channels' data
  are left to check.
\<close>

lemma alt_ok_cong:
  assumes "arrays t = arrays s" "nchan s \<le> nchan t"
    "\<And>c. c < nchan s \<Longrightarrow> ch_mid (chans t c) = ch_mid (chans s c)" "alt_ok s a"
  shows "alt_ok t a"
proof -
  have r: "alt_recvs t a = alt_recvs s a" using assms(1) by (simp add: alt_recvs_def)
  have "arr_typed t ac" if ac: "ac \<in> set (al_recvs a)" for ac
  proof (cases "ac_c ac")
    case (ArrCh r)
    have typed: "arr_typed s ac" using assms(4) ac by (simp add: alt_ok_def)
    have "c < nchan s" if "c \<in> set (somes (arrays s r))" for c
    proof -
      have "set (somes (arrays s r)) \<subseteq> set (recv_chans (arrays s) acs)" if "ac \<in> set acs" for acs
        using that ArrCh by (induction acs) (auto split: altch.splits)
      then have "c \<in> alt_recvs s a" using ac \<open>c \<in> _\<close> by (auto simp: alt_recvs_def)
      then show ?thesis using assms(4) by (auto simp: alt_ok_def)
    qed
    then show ?thesis using typed ArrCh assms(1,3) by (auto simp: arr_typed_def)
  qed (auto simp: arr_typed_def)
  moreover have "c < nchan t" if "c \<in> alt_sends a \<union> alt_recvs s a" for c
    using assms(2,4) that less_le_trans unfolding alt_ok_def by blast
  ultimately show ?thesis using assms(1,4) r by (simp add: alt_ok_def)
qed

lemma dis_inv_change:
  assumes inv: "dis_inv s"
    and others: "\<And>q. q \<noteq> p \<Longrightarrow> pr_state (progs t q) = pr_state (progs s q)
        \<and> pr_chan (progs t q) = pr_chan (progs s q) \<and> pr_ptr (progs t q) = pr_ptr (progs s q)
        \<and> pr_Rs (progs t q) = pr_Rs (progs s q) \<and> pr_addrun (progs t q) = pr_addrun (progs s q)"
    and same: "arrays t = arrays s" "nchan t = nchan s"
      "\<And>c. ch_mid (chans t c) = ch_mid (chans s c)"
    and qs: "wfqs t" "\<And>c q. q \<noteq> p \<Longrightarrow> q \<in> set (rq t c) \<longleftrightarrow> q \<in> set (rq s c)"
      "\<And>c q. q \<noteq> p \<Longrightarrow> q \<in> set (sq t c) \<longleftrightarrow> q \<in> set (sq s c)"
    and mine: "\<And>c. p \<in> set (rq t c) \<longleftrightarrow> waits_recv t p c" "\<And>c. p \<in> set (sq t c) \<longleftrightarrow> waits_send t p c"
      "prog_inv t p" "sched_inv t" "\<And>c. data_inv t c"
  shows "dis_inv t"
proof -
  have r: "alt_recvs t a = alt_recvs s a" for a using same(1) by (simp add: alt_recvs_def)
  have w: "waits_recv t q c = waits_recv s q c \<and> waits_send t q c = waits_send s q c" if "q \<noteq> p" for q c
    using others [OF that] by (simp add: waits_recv_def waits_send_def r split: pstate.splits)
  have "prog_inv t q" for q
  proof (cases "q = p")
    case False
    have "alt_ok s a \<Longrightarrow> alt_ok t a" for a by (rule alt_ok_cong) (use same in auto)
    then show ?thesis
      using dis_invD(5) [OF inv, of q] others [OF False] by (auto simp: prog_inv_def)
  qed (use mine in simp)
  moreover have "q \<in> set (rq t c) \<longleftrightarrow> waits_recv t q c" for q c
    using mine(1) w qs(2) dis_invD(6) [OF inv] by (cases "q = p") auto
  moreover have "q \<in> set (sq t c) \<longleftrightarrow> waits_send t q c" for q c
    using mine(2) w qs(3) dis_invD(7) [OF inv] by (cases "q = p") auto
  ultimately show ?thesis
    using mine(4,5) qs(1) by (simp add: dis_inv_def wait_inv_def)
qed

section \<open>A waiting prog is served\<close>

lemma recv_hit_arr:
  "recv_hit A c n acs = Some (m, ptr, Some i) \<Longrightarrow> \<exists>ac \<in> set acs. \<exists>r. ac_c ac = ArrCh r \<and> c \<in> set (somes (A r))"
proof (induction acs arbitrary: n)
  case Nil
  then show ?case by simp
next
  case (Cons ac acs)
  show ?case
  proof (cases "ac_c ac")
    case (ArrCh r)
    show ?thesis
    proof (cases "arr_hit c 0 (A r)")
      case None
      then show ?thesis using Cons ArrCh by auto
    next
      case (Some j)
      then have "c \<in> set (somes (A r))" using arr_hit_iff [of c 0 "A r"] by simp
      then show ?thesis using ArrCh by auto
    qed
  qed (use Cons in \<open>auto split: if_splits\<close>)
qed

lemma arr_typedD:
  assumes "arr_typed s ac" "ac_c ac = ArrCh r" "c \<in> set (somes (arrays s r))"
  shows "\<exists>t. ch_mid (chans s c) = MidT t"
proof -
  have "case ch_mid (chans s c) of MidT _ \<Rightarrow> True | _ \<Rightarrow> False"
    using assms by (simp add: arr_typed_def)
  then show ?thesis by (cases "ch_mid (chans s c)") simp_all
qed

lemma peer_recv_inv:
  assumes "dis_inv s" "waits_recv s x c"
  shows "peer_recv s c x"
proof (cases "pr_state (progs s x) = Palt")
  case True
  let ?a = "pr_Rs (progs s x)"
  have ok: "alt_ok s ?a" using dis_invD(5) [OF assms(1), of x] True by (simp add: prog_inv_def)
  have "c \<in> alt_recvs s ?a" using assms(2) True by (simp add: waits_recv_def)
  then obtain n ptr i where h: "alt_recv_hit s ?a c = Some (n, ptr, i)"
    using recv_hit_iff [of "arrays s" c "length (al_sends ?a)" "al_recvs ?a"]
    by (auto simp: alt_recv_hit_def alt_recvs_def)
  have "\<exists>t. ch_mid (chans s c) = MidT t" if i: "i \<noteq> None"
  proof -
    obtain j where "i = Some j" using i by auto
    then have "recv_hit (arrays s) c (length (al_sends ?a)) (al_recvs ?a) = Some (n, ptr, Some j)"
      using h by (simp add: alt_recv_hit_def)
    from recv_hit_arr [OF this] obtain ac r
      where ac: "ac \<in> set (al_recvs ?a)" "ac_c ac = ArrCh r" "c \<in> set (somes (arrays s r))"
      by blast
    have "arr_typed s ac" using ok ac(1) by (simp add: alt_ok_def)
    then show ?thesis using ac(2,3) by (rule arr_typedD)
  qed
  then show ?thesis using True h ok by (auto simp: peer_recv_def alt_ok_def)
next
  case False
  then show ?thesis
    using assms(2) waits_not_ready(1) [OF assms(2)] dis_invD(5) [OF assms(1), of x]
    by (auto simp: peer_recv_def prog_inv_def)
qed

lemma peer_send_inv:
  assumes "dis_inv s" "waits_send s x c"
  shows "peer_send s c x"
proof (cases "pr_state (progs s x) = Palt")
  case True
  let ?a = "pr_Rs (progs s x)"
  have ok: "alt_ok s ?a" using dis_invD(5) [OF assms(1), of x] True by (simp add: prog_inv_def)
  have "c \<in> alt_sends ?a" using assms(2) True by (simp add: waits_send_def)
  then show ?thesis
    using True ok send_hit_iff [of "al_sends ?a" c 0]
    by (auto simp: peer_send_def alt_send_hit_def alt_sends_def alt_ok_def)
next
  case False
  then show ?thesis
    using assms(2) waits_not_ready(2) [OF assms(2)] dis_invD(5) [OF assms(1), of x]
    by (auto simp: peer_send_def prog_inv_def)
qed

lemma removeAll_distinct_hd: "distinct (x # xs) \<Longrightarrow> removeAll x (x # xs) = xs"
  by simp

text \<open>A served prog leaves every queue it was on, and no other prog does.\<close>

lemma cut_queues:
  "qpids (ch_recv (cut_recv p C c ch)) = (if c \<in> C then removeAll p (qpids (ch_recv ch)) else qpids (ch_recv ch))"
  "ch_send (cut_recv p C c ch) = ch_send ch"
  "qpids (ch_send (cut_send p C c ch)) = (if c \<in> C then removeAll p (qpids (ch_send ch)) else qpids (ch_send ch))"
  "ch_recv (cut_send p C c ch) = ch_recv ch"
  by (simp_all add: cut_recv_def cut_send_def)

lemma tail_queues:
  "qpids (ch_recv (tail_recv c d ch)) = (if d = c then tl (qpids (ch_recv ch)) else qpids (ch_recv ch))"
  "ch_send (tail_recv c d ch) = ch_send ch"
  "qpids (ch_send (tail_send c d ch)) = (if d = c then tl (qpids (ch_send ch)) else qpids (ch_send ch))"
  "ch_recv (tail_send c d ch) = ch_recv ch"
  by (simp_all add: tail_recv_def tail_send_def)

lemma left_queues:
  assumes "dis_inv s"
  shows "d \<notin> left_recvs s x \<Longrightarrow> pr_state (progs s x) \<noteq> Precv \<Longrightarrow> x \<notin> set (rq s d)"
    "d \<notin> left_sends s x \<Longrightarrow> pr_state (progs s x) \<noteq> Psend \<Longrightarrow> x \<notin> set (sq s d)"
  using dis_invD(6,7) [OF assms]
  by (auto simp: waits_recv_def waits_send_def left_recvs_def left_sends_def split: pstate.splits if_splits)

lemma free_recv_queues:
  assumes "dis_inv s" "rq s c = x # xs"
  shows "qpids (ch_recv (free_recv c x s d (chans s d))) = removeAll x (rq s d)"
    "qpids (ch_send (free_recv c x s d (chans s d))) = removeAll x (sq s d)"
proof -
  have w: "waits_recv s x c" using dis_invD(6) [OF assms(1), of x c] assms(2) by simp
  have dist: "distinct (rq s d)" for d using wfqsD(4) [OF dis_invD(3) [OF assms(1)]] .
  have tl: "tl (rq s c) = removeAll x (rq s c)" using dist [of c] assms(2) by simp
  have r: "x \<notin> set (rq s d)" if "d \<noteq> c" "d \<notin> left_recvs s x"
    using w that dis_invD(6) [OF assms(1), of x d]
    by (auto simp: waits_recv_def left_recvs_def split: pstate.splits if_splits)
  have sd: "x \<notin> set (sq s d)" if "d \<notin> left_sends s x"
    using left_queues(2) [OF assms(1) that] waits_not_ready(1) [OF w] by auto
  show "qpids (ch_recv (free_recv c x s d (chans s d))) = removeAll x (rq s d)"
    using tl r by (auto simp: free_recv_def cut_queues tail_queues rq_def)
  show "qpids (ch_send (free_recv c x s d (chans s d))) = removeAll x (sq s d)"
    using sd by (auto simp: free_recv_def cut_queues tail_queues sq_def)
qed

lemma free_send_queues:
  assumes "dis_inv s" "sq s c = x # xs"
  shows "qpids (ch_recv (free_send c x s d (chans s d))) = removeAll x (rq s d)"
    "qpids (ch_send (free_send c x s d (chans s d))) = removeAll x (sq s d)"
proof -
  have w: "waits_send s x c" using dis_invD(7) [OF assms(1), of x c] assms(2) by simp
  have dist: "distinct (sq s d)" for d using wfqsD(3) [OF dis_invD(3) [OF assms(1)]] .
  have tl: "tl (sq s c) = removeAll x (sq s c)" using dist [of c] assms(2) by simp
  have sd: "x \<notin> set (sq s d)" if "d \<noteq> c" "d \<notin> left_sends s x"
    using w that dis_invD(7) [OF assms(1), of x d]
    by (auto simp: waits_send_def left_sends_def split: pstate.splits if_splits)
  have r: "x \<notin> set (rq s d)" if "d \<notin> left_recvs s x"
    using left_queues(1) [OF assms(1) that] waits_not_ready(2) [OF w] by auto
  show "qpids (ch_recv (free_send c x s d (chans s d))) = removeAll x (rq s d)"
    using r by (auto simp: free_send_def cut_queues tail_queues rq_def)
  show "qpids (ch_send (free_send c x s d (chans s d))) = removeAll x (sq s d)"
    using tl sd by (auto simp: free_send_def cut_queues tail_queues sq_def)
qed

lemma free_rep:
  assumes "dis_inv s"
  shows "\<exists>xs. ch_recv (free_recv c x s d (chans s d)) = qrep xs"
    "\<exists>xs. ch_send (free_recv c x s d (chans s d)) = qrep xs"
    "\<exists>xs. ch_recv (free_send c x s d (chans s d)) = qrep xs"
    "\<exists>xs. ch_send (free_send c x s d (chans s d)) = qrep xs"
  using wfqsD(1,2) [OF dis_invD(3) [OF assms], of d]
  by (auto simp: free_recv_def free_send_def cut_recv_def cut_send_def tail_recv_def tail_send_def)

lemma qrep_of_qpids: "\<exists>xs. q = qrep xs \<Longrightarrow> qpids q = ys \<Longrightarrow> q = qrep ys"
  by auto

lemmas free_recv_reps = free_rep(1) [THEN qrep_of_qpids, OF _ free_recv_queues(1)]
  free_rep(2) [THEN qrep_of_qpids, OF _ free_recv_queues(2)]
lemmas free_send_reps = free_rep(3) [THEN qrep_of_qpids, OF _ free_send_queues(1)]
  free_rep(4) [THEN qrep_of_qpids, OF _ free_send_queues(2)]

lemma wake_runq:
  assumes "runq u xs" "x \<notin> set xs" "pr_addrun (progs u x) = None"
  obtains t where "wake x u = Inr t" "runq t (xs @ [x])"
    "body t = body ((set_state Pready x u)\<lparr>Rt := 0\<rparr>)"
proof -
  obtain t where t: "addrun x u = Inr t" "runq t (xs @ [x])" "body t = body (set_state Pready x u)"
    by (rule addrun_runq [OF assms])
  have "body (t\<lparr>Rt := 0\<rparr>) = body ((set_state Pready x u)\<lparr>Rt := 0\<rparr>)"
    using t(3) by (simp add: body_def)
  then show thesis using that [of "t\<lparr>Rt := 0\<rparr>"] t(1,2) by (simp add: wake_def)
qed

lemma dis_inv_wake:
  assumes inv: "dis_inv s"
    and st: "pr_state (progs s x) \<in> {Psend, Precv, Palt}"
    and run: "lnk u = lnk s" "runhd u = runhd s" "runtl u = runtl s"
    and fields: "\<And>q. pr_state (progs u q) = pr_state (progs s q) \<and> pr_chan (progs u q) = pr_chan (progs s q)
        \<and> pr_Rs (progs u q) = pr_Rs (progs s q) \<and> pr_addrun (progs u q) = pr_addrun (progs s q)"
      "\<And>q. q \<noteq> x \<Longrightarrow> pr_ptr (progs u q) = pr_ptr (progs s q)"
    and same: "arrays u = arrays s" "nchan u = nchan s" "chans u = chans s"
    and g: "\<And>d. ch_recv (g d (chans s d)) = qrep (removeAll x (rq s d))"
      "\<And>d. ch_send (g d (chans s d)) = qrep (removeAll x (sq s d))"
      "\<And>d. ring_ok (g d (chans s d))" "\<And>d. ch_mid (g d (chans s d)) = ch_mid (chans s d)"
      "\<And>d. canget (g d (chans s d)) = canget (chans s d)"
      "\<And>d. canput (g d (chans s d)) = canput (chans s d)"
  obtains t where "wake x u = Inr t" "dis_inv (map_chans g t)"
    "body t = body ((set_state Pready x u)\<lparr>Rt := 0\<rparr>)" "\<And>xs. runq s xs \<Longrightarrow> runq t (xs @ [x])"
proof -
  obtain xs where xs: "runq s xs" "\<And>q. q \<in> set xs \<longleftrightarrow> pr_state (progs s q) = Pready"
    using dis_invD(1) [OF inv] by (auto simp: sched_inv_def)
  have x: "x \<notin> set xs" using xs(2) st by auto
  have ru: "runq u xs" using xs(1) runq_cong [OF run] by simp
  have ad: "pr_addrun (progs u x) = None" using fields(1) dis_invD(9) [OF inv] by simp
  obtain t where t: "wake x u = Inr t" "runq t (xs @ [x])"
      "body t = body ((set_state Pready x u)\<lparr>Rt := 0\<rparr>)"
    by (rule wake_runq [OF ru x ad])
  note tf = body_fields [OF t(3)] and tb = body_chans [OF t(3)]
  let ?t = "map_chans g t"
  have ct: "chans t = chans s" using tb same by (simp add: set_state_def)
  have nc: "nchan t = nchan s" and ar: "arrays t = arrays s" using tb same by (simp_all add: set_state_def)
  have rqt: "rq ?t d = removeAll x (rq s d)" and sqt: "sq ?t d = removeAll x (sq s d)" for d
    using g(1,2) [of d] by (simp_all add: rq_def sq_def ct)
  have state: "pr_state (progs t q) = (if q = x then Pready else pr_state (progs s q))" for q
    using tf(1) [of q] fields(1) by (simp add: set_state_def)
  have "dis_inv ?t"
  proof (rule dis_inv_change [OF inv, of x])
    show "wfqs ?t"
      unfolding wfqs_def rqt sqt using g(1,2) wfqsD(3,4) [OF dis_invD(3) [OF inv]]
      by (simp add: ct distinct_removeAll)
    show "prog_inv ?t x"
      using tf(5) [of x] ad state [of x] by (simp add: prog_inv_def set_state_def)
    have "\<forall>p. p \<in> set (xs @ [x]) \<longleftrightarrow> pr_state (progs ?t p) = Pready"
      using xs(2) by (simp add: state)
    moreover have "runq ?t (xs @ [x])" using t(2) by simp
    ultimately show "sched_inv ?t" unfolding sched_inv_def by blast
    show "data_inv ?t d" for d
      using dis_invD(4) [OF inv, of d] g(3,5,6) [of d] nc
      by (auto simp: data_inv_def rqt sqt ct)
    show "arrays ?t = arrays s" "nchan ?t = nchan s" by (simp_all add: ar nc)
    show "ch_mid (chans ?t d) = ch_mid (chans s d)" for d by (simp add: ct g(4))
    show "q \<in> set (rq ?t d) \<longleftrightarrow> q \<in> set (rq s d)" "q \<in> set (sq ?t d) \<longleftrightarrow> q \<in> set (sq s d)"
      if "q \<noteq> x" for q d using that by (simp_all add: rqt sqt)
    show "x \<in> set (rq ?t d) \<longleftrightarrow> waits_recv ?t x d" "x \<in> set (sq ?t d) \<longleftrightarrow> waits_send ?t x d" for d
      by (simp_all add: rqt sqt waits_recv_def waits_send_def state)
  next
    fix q
    assume "q \<noteq> x"
    then show "pr_state (progs ?t q) = pr_state (progs s q) \<and> pr_chan (progs ?t q) = pr_chan (progs s q)
        \<and> pr_ptr (progs ?t q) = pr_ptr (progs s q) \<and> pr_Rs (progs ?t q) = pr_Rs (progs s q)
        \<and> pr_addrun (progs ?t q) = pr_addrun (progs s q)"
      using tf [of q] fields [of q] by (simp add: set_state_def)
  qed
  moreover have "runq t (ys @ [x])" if "runq s ys" for ys
    using runq_unique [OF that xs(1)] t(2) by simp
  ultimately show thesis using that t(1,3) by blast
qed

section \<open>A prog blocks, or a buffer serves it\<close>

lemma dis_inv_block:
  assumes inv: "dis_inv s" and run: "runq s (p # ps)" "runq t ps"
    and others: "\<And>q. q \<noteq> p \<Longrightarrow> pr_state (progs t q) = pr_state (progs s q)
        \<and> pr_chan (progs t q) = pr_chan (progs s q) \<and> pr_ptr (progs t q) = pr_ptr (progs s q)
        \<and> pr_Rs (progs t q) = pr_Rs (progs s q) \<and> pr_addrun (progs t q) = pr_addrun (progs s q)"
    and mine: "pr_state (progs t p) \<noteq> Pready" "prog_inv t p"
    and same: "arrays t = arrays s" "nchan t = nchan s"
      "\<And>c. bufpart (chans t c) = bufpart (chans s c)"
    and qs: "\<And>c. ch_recv (chans t c) = qrep (rq s c @ (if waits_recv t p c then [p] else []))"
      "\<And>c. ch_send (chans t c) = qrep (sq s c @ (if waits_send t p c then [p] else []))"
    and waits: "\<And>c. waits_recv t p c \<Longrightarrow>
        sq s c = [] \<and> \<not> waits_send t p c \<and> \<not> canget (chans s c) \<and> c < nchan s"
      "\<And>c. waits_send t p c \<Longrightarrow> rq s c = [] \<and> \<not> canput (chans s c) \<and> c < nchan s"
  shows "dis_inv t"
proof -
  have rqt: "rq t c = rq s c @ (if waits_recv t p c then [p] else [])"
    and sqt: "sq t c = sq s c @ (if waits_send t p c then [p] else [])" for c
    using qs [of c] by (simp_all add: rq_def sq_def)
  have ready: "pr_state (progs s p) = Pready"
    and rdy: "\<And>q. q \<in> set (p # ps) \<longleftrightarrow> pr_state (progs s q) = Pready"
  proof -
    obtain xs where "runq s xs" "\<And>q. q \<in> set xs \<longleftrightarrow> pr_state (progs s q) = Pready"
      using dis_invD(1) [OF inv] by (auto simp: sched_inv_def)
    then show "\<And>q. q \<in> set (p # ps) \<longleftrightarrow> pr_state (progs s q) = Pready"
      using runq_unique [OF run(1)] by blast
    then show "pr_state (progs s p) = Pready" by (metis list.set_intros(1))
  qed
  have np: "p \<notin> set (rq s c)" "p \<notin> set (sq s c)" for c
    using waits_not_ready [of s p c] ready dis_invD(6,7) [OF inv, of p c] by auto
  have pps: "p \<notin> set ps" using run(1) by (simp add: runq_def)
  show ?thesis
  proof (rule dis_inv_change [OF inv others])
    show "wfqs t"
      unfolding wfqs_def rqt sqt using qs wfqsD(3,4) [OF dis_invD(3) [OF inv]] np by simp
    have "\<forall>q. q \<in> set ps \<longleftrightarrow> pr_state (progs t q) = Pready"
    proof
      fix q
      show "q \<in> set ps \<longleftrightarrow> pr_state (progs t q) = Pready"
        using rdy [of q] others [of q] mine(1) pps by (cases "q = p") auto
    qed
    then show "sched_inv t" unfolding sched_inv_def using run(2) by blast
    show "data_inv t c" for c
      using dis_invD(4) [OF inv, of c] waits [of c] ring_bufpart [OF same(3) [of c]] same(2)
      by (auto simp: data_inv_def rqt sqt split: if_splits)
    show "ch_mid (chans t c) = ch_mid (chans s c)" for c using bufpartD [OF same(3) [of c]] by simp
    show "prog_inv t p" "arrays t = arrays s" "nchan t = nchan s" by (fact mine same)+
    show "q \<in> set (rq t c) \<longleftrightarrow> q \<in> set (rq s c)" "q \<in> set (sq t c) \<longleftrightarrow> q \<in> set (sq s c)"
      if "q \<noteq> p" for c q using that by (simp_all add: rqt sqt)
    show "p \<in> set (rq t c) \<longleftrightarrow> waits_recv t p c" "p \<in> set (sq t c) \<longleftrightarrow> waits_send t p c" for c
      using np by (simp_all add: rqt sqt)
  qed auto
qed

lemma dis_inv_data:
  assumes inv: "dis_inv s" and same: "progs t = progs s" "runhd t = runhd s" "runtl t = runtl s"
      "arrays t = arrays s" "nchan t = nchan s"
    and chans: "\<And>c. ch_mid (chans t c) = ch_mid (chans s c)" "\<And>c. ch_send (chans t c) = ch_send (chans s c)"
      "\<And>c. ch_recv (chans t c) = ch_recv (chans s c)" "\<And>c. ring_ok (chans t c)"
      "\<And>c. rq s c \<noteq> [] \<Longrightarrow> \<not> canget (chans t c)" "\<And>c. sq s c \<noteq> [] \<Longrightarrow> \<not> canput (chans t c)"
  shows "dis_inv t"
proof -
  have q: "rq t = rq s" "sq t = sq s" using chans by (simp_all add: rq_def [abs_def] sq_def [abs_def])
  have w: "waits_recv t = waits_recv s" "waits_send t = waits_send s"
    unfolding waits_recv_def [abs_def] waits_send_def [abs_def] alt_recvs_def same by (rule refl)+
  show ?thesis
  proof (rule dis_inv_change [OF inv, of 0])
    show "wfqs t" using dis_invD(3) [OF inv] chans(2,3) by (simp add: wfqs_def q)
    show "prog_inv t 0"
      using dis_invD(5) [OF inv, of 0] alt_ok_cong [of t s] same chans(1) by (auto simp: prog_inv_def)
    have "runq t = runq s" using same by (simp add: runq_def [abs_def])
    then show "sched_inv t" using dis_invD(1) [OF inv] same(1) by (simp add: sched_inv_def)
    show "data_inv t c" for c
      using dis_invD(4) [OF inv, of c] chans(4-6) [of c] same(5) by (auto simp: data_inv_def q)
  qed (use same chans dis_invD(6,7) [OF inv] in \<open>auto simp: q w\<close>)
qed

section \<open>Send and receive keep the invariant\<close>

lemma serve_lnk [simp]: "lnk (serve x t h s) = lnk s"
  by (auto simp: fun_eq_iff)

lemma settle_lnk [simp]: "lnk (settle_recv c x s) = lnk s" "lnk (settle_send c x s) = lnk s"
  by (simp_all add: settle_recv_def settle_send_def del: serve_simps)

lemma settle_fields [simp]:
  "pr_link (progs (settle_recv c x s) q) = pr_link (progs s q)"
  "pr_link (progs (settle_send c x s) q) = pr_link (progs s q)"
  "pr_state (progs (settle_recv c x s) q) = pr_state (progs s q)"
  "pr_chan (progs (settle_recv c x s) q) = pr_chan (progs s q)"
  "pr_Rs (progs (settle_recv c x s) q) = pr_Rs (progs s q)"
  "pr_addrun (progs (settle_recv c x s) q) = pr_addrun (progs s q)"
  "pr_state (progs (settle_send c x s) q) = pr_state (progs s q)"
  "pr_chan (progs (settle_send c x s) q) = pr_chan (progs s q)"
  "pr_Rs (progs (settle_send c x s) q) = pr_Rs (progs s q)"
  "pr_addrun (progs (settle_send c x s) q) = pr_addrun (progs s q)"
  by (simp_all add: settle_recv_def settle_send_def)

lemma settle_ptr:
  "q \<noteq> x \<Longrightarrow> progs (settle_recv c x s) q = progs s q"
  "q \<noteq> x \<Longrightarrow> progs (settle_send c x s) q = progs s q"
  by (simp_all add: settle_recv_def settle_send_def)

lemma set_ptr_lnk [simp]: "lnk (set_ptr l x s) = lnk s" "lnk (put_mem a v s) = lnk s"
  by (auto simp: fun_eq_iff)

lemma part_other [simp]:
  "d \<noteq> c \<Longrightarrow> put_ring c v d ch = ch" "d \<noteq> c \<Longrightarrow> get_ring c d ch = ch" "d \<noteq> c \<Longrightarrow> turn_ring c v d ch = ch"
  by (simp_all add: put_ring_def get_ring_def turn_ring_def)

lemma ring_frame [simp]:
  "ch_mid (put_ring c v d ch) = ch_mid ch" "ch_send (put_ring c v d ch) = ch_send ch"
  "ch_recv (put_ring c v d ch) = ch_recv ch" "ch_mid (get_ring c d ch) = ch_mid ch"
  "ch_send (get_ring c d ch) = ch_send ch" "ch_recv (get_ring c d ch) = ch_recv ch"
  by (simp_all add: put_ring_def get_ring_def split: option.splits)

lemma turn_ring_ok:
  assumes "ring_ok ch" "ch_buf ch = Some a" "ch_size ch = length a"
  shows "ring_ok (turn_ring c v d ch)" "canget (turn_ring c v d ch) = canget ch"
    "canput (turn_ring c v d ch) = canput ch"
proof -
  have "(ch_front ch + 1) mod length a < length a"
    using assms by (intro mod_less_divisor) (auto simp: ring_ok_def)
  then show "ring_ok (turn_ring c v d ch)" "canget (turn_ring c v d ch) = canget ch"
    "canput (turn_ring c v d ch) = canput ch"
    using assms
    by (auto simp: ring_ok_def turn_ring_def put_ring_def get_ring_def canget_def canput_def)
qed

lemma isend_inv:
  assumes inv: "dis_inv s" and p: "runhd s = Some p" and c: "c < nchan s"
  shows "\<exists>t. isend (Some c) src s = Inr t \<and> dis_inv t"
proof (cases "rq s c")
  case (Cons x xs)
  have w: "waits_recv s x c" using dis_invD(6) [OF inv, of x c] Cons by simp
  let ?u = "deliver x src (settle_recv c x s)"
  obtain t where t: "wake x ?u = Inr t" "dis_inv (map_chans (free_recv c x s) t)"
  proof (rule dis_inv_wake [OF inv, of x ?u "free_recv c x s"])
    show "ring_ok (free_recv c x s d (chans s d))"
        "canget (free_recv c x s d (chans s d)) = canget (chans s d)"
        "canput (free_recv c x s d (chans s d)) = canput (chans s d)" for d
      using ring_bufpart [OF free_bufpart(2)] dis_invD(8) [OF inv, of d] by auto
  qed (use waits_not_ready(1) [OF w] free_recv_reps [OF inv inv Cons] in \<open>auto simp: deliver_def settle_ptr fun_eq_iff\<close>)
  then show ?thesis
    using isend_wake [OF dis_invD(3) [OF inv] Cons peer_recv_inv [OF inv w]] by simp
next
  case Nil
  note ok = dis_invD(8) [OF inv, of c]
  show ?thesis
  proof (cases "canput (chans s c)")
    case True
    have "dis_inv (map_chans (put_ring c (mem s src)) s)"
    proof (rule dis_inv_data [OF inv])
      fix d
      show "ring_ok (chans (map_chans (put_ring c (mem s src)) s) d)"
        using put_ring_items(1) [OF ok True] dis_invD(8) [OF inv, of d] by (cases "d = c") auto
      show "rq s d \<noteq> [] \<Longrightarrow> \<not> canget (chans (map_chans (put_ring c (mem s src)) s) d)"
        "sq s d \<noteq> [] \<Longrightarrow> \<not> canput (chans (map_chans (put_ring c (mem s src)) s) d)"
        using Nil True dis_invD(4) [OF inv, of d] by (cases "d = c"; auto simp: data_inv_def)+
    qed simp_all
    then show ?thesis using isend_put [OF dis_invD(3) [OF inv] Nil ok True] by simp
  next
    case False
    obtain ps where ps: "runq s (p # ps)" by (rule dis_inv_run [OF inv p])
    obtain t where t: "isend (Some c) src s = Inr t" "runq t ps"
        "body t = body (map_chans (push_send c p) (park Psend c src p s))"
      by (rule isend_block [OF dis_invD(3) [OF inv] Nil ok False ps])
    note tf = body_fields [OF t(3)] and tb = body_chans [OF t(3)]
    have ct: "chans t d = push_send c p d (chans s d)" for d using tb by (simp add: park_def)
    have st: "pr_state (progs t p) = Psend" "pr_chan (progs t p) = Some c" "pr_ptr (progs t p) = Some src"
      "pr_addrun (progs t p) = None"
      using tf [of p] dis_invD(9) [OF inv] by (simp_all add: park_def)
    have w: "waits_send t p d \<longleftrightarrow> d = c" "\<not> waits_recv t p d" for d
      using st by (auto simp: waits_send_def waits_recv_def)
    have "dis_inv t"
    proof (rule dis_inv_block [OF inv ps t(2)])
      show "prog_inv t p" using st by (simp add: prog_inv_def)
      fix d
      show "ch_recv (chans t d) = qrep (rq s d @ (if waits_recv t p d then [p] else []))"
        "ch_send (chans t d) = qrep (sq s d @ (if waits_send t p d then [p] else []))"
        using wfqsD(1,2) [OF dis_invD(3) [OF inv], of d]
        by (auto simp: ct push_send_def w sq_def)
      show "bufpart (chans t d) = bufpart (chans s d)" by (simp add: ct push_send_def bufpart_def)
    qed (use tb tf st w Nil False c in \<open>auto simp: park_def\<close>)
    then show ?thesis using t(1) by simp
  qed
qed

lemma send_waits_full:
  assumes "dis_inv s" "sq s c = x # xs" "ch_buf (chans s c) = Some a"
  shows "ch_size (chans s c) = length a"
  using dis_invD(4) [OF assms(1), of c] assms(2,3)
  by (auto simp: data_inv_def ring_ok_def canput_def)

lemma irecv_inv:
  assumes inv: "dis_inv s" and p: "runhd s = Some p" and c: "c < nchan s"
  shows "\<exists>t. irecv (Some c) dst s = Inr t \<and> dis_inv t"
proof (cases "sq s c")
  case (Cons x xs)
  have w: "waits_send s x c" using dis_invD(7) [OF inv, of x c] Cons by simp
  note peer = peer_send_inv [OF inv w] and wf = dis_invD(3) [OF inv] and reps = free_send_reps [OF inv inv Cons]
  have ring: "ring_ok (free_send c x s d (chans s d))"
      "canget (free_send c x s d (chans s d)) = canget (chans s d)"
      "canput (free_send c x s d (chans s d)) = canput (chans s d)" for d
    using ring_bufpart [OF free_bufpart(1)] dis_invD(8) [OF inv, of d] by auto
  show ?thesis
  proof (cases "ch_buf (chans s c)")
    case None
    let ?u = "collect x dst (settle_send c x s)"
    obtain t where t: "wake x ?u = Inr t" "dis_inv (map_chans (free_send c x s) t)"
      by (rule dis_inv_wake [OF inv, of x ?u "free_send c x s"])
        (use waits_not_ready(2) [OF w] reps ring in \<open>auto simp: collect_def settle_ptr fun_eq_iff\<close>)
    then show ?thesis using irecv_wake [OF wf Cons peer None] by simp
  next
    case (Some a)
    note full = send_waits_full [OF inv Cons Some] and ok = dis_invD(8) [OF inv, of c]
    let ?s1 = "put_mem dst (hd (ring_items (chans s c))) (settle_send c x s)"
    let ?v = "mem ?s1 (the (pr_ptr (progs ?s1 x)))"
    let ?g = "\<lambda>d ch. turn_ring c ?v d (free_send c x s d ch)"
    have buf: "ch_buf (free_send c x s c (chans s c)) = Some a"
        "ch_size (free_send c x s c (chans s c)) = length a"
      using bufpartD [OF free_bufpart(1) [of c x s c "chans s c"]] Some full by simp_all
    have turn: "ring_ok (?g d (chans s d))" "canget (?g d (chans s d)) = canget (chans s d)"
        "canput (?g d (chans s d)) = canput (chans s d)" for d
      using turn_ring_ok [OF ring(1) [of c] buf] ring [of d] ring [of c] by (cases "d = c"; simp)+
    have frame: "ch_mid (?g d (chans s d)) = ch_mid (chans s d)"
        "ch_send (?g d (chans s d)) = qrep (removeAll x (sq s d))"
        "ch_recv (?g d (chans s d)) = qrep (removeAll x (rq s d))" for d
      using reps by (simp_all add: turn_ring_def)
    obtain t where t: "wake x (set_ptr None x ?s1) = Inr t" "dis_inv (map_chans ?g t)"
      by (rule dis_inv_wake [OF inv, of x "set_ptr None x ?s1" ?g])
        (use waits_not_ready(2) [OF w] frame turn in \<open>auto simp: settle_ptr fun_eq_iff\<close>)
    then show ?thesis using irecv_wake_full [OF wf Cons peer Some ok full] by simp
  qed
next
  case Nil
  note ok = dis_invD(8) [OF inv, of c]
  show ?thesis
  proof (cases "canget (chans s c)")
    case True
    let ?t = "put_mem dst (hd (ring_items (chans s c))) (map_chans (get_ring c) s)"
    have rq: "rq s c = []" using dis_invD(4) [OF inv, of c] True by (auto simp: data_inv_def)
    have "dis_inv ?t"
    proof (rule dis_inv_data [OF inv])
      fix d
      show "ring_ok (chans ?t d)"
        using get_ring_items(1) [OF ok True] dis_invD(8) [OF inv, of d] by (cases "d = c") auto
      show "rq s d \<noteq> [] \<Longrightarrow> \<not> canget (chans ?t d)" "sq s d \<noteq> [] \<Longrightarrow> \<not> canput (chans ?t d)"
        using Nil rq dis_invD(4) [OF inv, of d] by (cases "d = c"; auto simp: data_inv_def)+
    qed simp_all
    then show ?thesis using irecv_get [OF dis_invD(3) [OF inv] Nil ok True] by simp
  next
    case False
    obtain ps where ps: "runq s (p # ps)" by (rule dis_inv_run [OF inv p])
    obtain t where t: "irecv (Some c) dst s = Inr t" "runq t ps"
        "body t = body (map_chans (push_recv c p) (park Precv c dst p s))"
      by (rule irecv_block [OF dis_invD(3) [OF inv] Nil ok False ps])
    note tf = body_fields [OF t(3)] and tb = body_chans [OF t(3)]
    have ct: "chans t d = push_recv c p d (chans s d)" for d using tb by (simp add: park_def)
    have st: "pr_state (progs t p) = Precv" "pr_chan (progs t p) = Some c" "pr_ptr (progs t p) = Some dst"
      "pr_addrun (progs t p) = None"
      using tf [of p] dis_invD(9) [OF inv] by (simp_all add: park_def)
    have w: "waits_recv t p d \<longleftrightarrow> d = c" "\<not> waits_send t p d" for d
      using st by (auto simp: waits_send_def waits_recv_def)
    have "dis_inv t"
    proof (rule dis_inv_block [OF inv ps t(2)])
      show "prog_inv t p" using st by (simp add: prog_inv_def)
      fix d
      show "ch_recv (chans t d) = qrep (rq s d @ (if waits_recv t p d then [p] else []))"
        "ch_send (chans t d) = qrep (sq s d @ (if waits_send t p d then [p] else []))"
        using wfqsD(1,2) [OF dis_invD(3) [OF inv], of d]
        by (auto simp: ct push_recv_def w rq_def)
      show "bufpart (chans t d) = bufpart (chans s d)" by (simp add: ct push_recv_def bufpart_def)
    qed (use tb tf st w Nil False c in \<open>auto simp: park_def\<close>)
    then show ?thesis using t(1) by simp
  qed
qed

end
