(* ===== verification/ChanAlt.thy ===== *)
theory ChanAlt
  imports ChanInv
begin

text \<open>
  Alts.  While it looks for a ready entry, an alt has its own prog on every queue of its channels;
  the theory shows that these marks are invisible: an alt with a ready entry has the effect of the
  plain send or receive on the entry it chooses, and an alt without one leaves no trace, or blocks
  on all its channels.
\<close>

section \<open>Marking\<close>

definition mark_in :: "pid \<Rightarrow> cid set \<Rightarrow> cid \<Rightarrow> channel \<Rightarrow> channel" where
  "mark_in p R d ch = (if d \<in> R then ch\<lparr>ch_recv := qrep (qpids (ch_recv ch) @ [p])\<rparr> else ch)"

definition mark_out :: "pid \<Rightarrow> cid set \<Rightarrow> cid \<Rightarrow> channel \<Rightarrow> channel" where
  "mark_out p S d ch = (if d \<in> S then ch\<lparr>ch_send := qrep (qpids (ch_send ch) @ [p])\<rparr> else ch)"

definition mark :: "pid \<Rightarrow> cid set \<Rightarrow> cid set \<Rightarrow> cid \<Rightarrow> channel \<Rightarrow> channel" where
  "mark p R S d ch = mark_out p S d (mark_in p R d ch)"

definition unmark :: "pid \<Rightarrow> cid set \<Rightarrow> cid set \<Rightarrow> cid \<Rightarrow> channel \<Rightarrow> channel" where
  "unmark p R S d ch = cut_recv p R d (cut_send p S d ch)"

definition rready :: "dis \<Rightarrow> cid \<Rightarrow> bool" where
  "rready s c \<longleftrightarrow> sq s c \<noteq> [] \<or> canget (chans s c)"

definition sready :: "dis \<Rightarrow> cid \<Rightarrow> bool" where
  "sready s c \<longleftrightarrow> rq s c \<noteq> [] \<or> canput (chans s c)"

definition has_nil :: "altc list \<Rightarrow> bool" where
  "has_nil acs \<longleftrightarrow> (\<exists>ac \<in> set acs. ac_c ac = NilCh)"

lemma has_nil_simps [simp]: "\<not> has_nil []" "has_nil (ac # acs) \<longleftrightarrow> ac_c ac = NilCh \<or> has_nil acs"
  by (auto simp: has_nil_def)

lemma ready_eq:
  "wfqs s \<Longrightarrow> recv_ready s c = Inr (rready s c)"
  "wfqs s \<Longrightarrow> send_ready s c = Inr (sready s c)"
  using wfqsD [of s c] by (simp_all add: recv_ready_def send_ready_def rready_def sready_def)

lemma mark_eq:
  "wfqs s \<Longrightarrow> mark_recv c p s = Inr (map_chans (mark_in p {c}) s)"
  "wfqs s \<Longrightarrow> mark_send c p s = Inr (map_chans (mark_out p {c}) s)"
proof -
  assume w: "wfqs s"
  have "map_chans (\<lambda>d ch. if d = c then ch\<lparr>ch_recv := qrep (rq s c @ [p])\<rparr> else ch) s
      = map_chans (mark_in p {c}) s"
    by (rule map_chans_cong) (simp add: mark_in_def rq_def)
  then show "mark_recv c p s = Inr (map_chans (mark_in p {c}) s)"
    using wfqsD(2) [OF w, of c] by (simp add: mark_recv_def upd_chan_map)
next
  assume w: "wfqs s"
  have "map_chans (\<lambda>d ch. if d = c then ch\<lparr>ch_send := qrep (sq s c @ [p])\<rparr> else ch) s
      = map_chans (mark_out p {c}) s"
    by (rule map_chans_cong) (simp add: mark_out_def sq_def)
  then show "mark_send c p s = Inr (map_chans (mark_out p {c}) s)"
    using wfqsD(1) [OF w, of c] by (simp add: mark_send_def upd_chan_map)
qed

lemma mark_queues [simp]:
  "rq (map_chans (mark_in p R) s) c = (if c \<in> R then rq s c @ [p] else rq s c)"
  "sq (map_chans (mark_in p R) s) c = sq s c"
  "sq (map_chans (mark_out p R) s) c = (if c \<in> R then sq s c @ [p] else sq s c)"
  "rq (map_chans (mark_out p R) s) c = rq s c"
  by (simp_all add: rq_def sq_def mark_in_def mark_out_def)

lemma mark_can [simp]:
  "canget (mark_in p R c ch) = canget ch" "canput (mark_in p R c ch) = canput ch"
  "canget (mark_out p R c ch) = canget ch" "canput (mark_out p R c ch) = canput ch"
  by (auto simp: canget_def canput_def mark_in_def mark_out_def split: option.splits)

lemma mark_Un:
  "A \<inter> B = {} \<Longrightarrow> map_chans (mark_in p A) (map_chans (mark_in p B) s) = map_chans (mark_in p (A \<union> B)) s"
  "A \<inter> B = {} \<Longrightarrow> map_chans (mark_out p A) (map_chans (mark_out p B) s) = map_chans (mark_out p (A \<union> B)) s"
  unfolding map_chans_comp by (rule map_chans_cong; auto simp: mark_in_def mark_out_def)+

lemma mark_empty [simp]: "map_chans (mark_in p {}) s = s" "map_chans (mark_out p {}) s = s"
  by (simp_all add: map_chans_def mark_in_def mark_out_def)

lemma wfqs_mark:
  "wfqs s \<Longrightarrow> (\<And>c. c \<in> R \<Longrightarrow> p \<notin> set (rq s c)) \<Longrightarrow> wfqs (map_chans (mark_in p R) s)"
  "wfqs s \<Longrightarrow> (\<And>c. c \<in> R \<Longrightarrow> p \<notin> set (sq s c)) \<Longrightarrow> wfqs (map_chans (mark_out p R) s)"
  by (auto simp: wfqs_def) (auto simp: mark_in_def mark_out_def rq_def sq_def)

lemma ready_mark [simp]:
  "rready (map_chans (mark_in p R) s) = rready s" "sready (map_chans (mark_out p R) s) = sready s"
  by (simp_all add: rready_def [abs_def] sready_def [abs_def])

lemma altmark_eq:
  "wfqs s \<Longrightarrow> distinct (somes cs) \<Longrightarrow> (\<And>c. c \<in> set (somes cs) \<Longrightarrow> p \<notin> set (rq s c)) \<Longrightarrow>
   altmark p k cs s = Inr (k + length (filter (rready s) (somes cs)),
     map_chans (mark_in p (set (somes cs))) s)"
proof (induction cs arbitrary: k s rule: somes.induct)
  case 1
  then show ?case by simp
next
  case (2 xs)
  then show ?case by simp
next
  case (3 c cs)
  let ?s = "map_chans (mark_in p {c}) s"
  have w: "wfqs ?s" by (rule wfqs_mark) (use 3 in auto)
  have "altmark p k (Some c # cs) s = altmark p (if rready s c then k + 1 else k) cs ?s"
    using 3 by (simp add: ready_eq mark_eq)
  also have "\<dots> = Inr ((if rready s c then k + 1 else k) + length (filter (rready s) (somes cs)),
      map_chans (mark_in p (set (somes cs))) ?s)"
    using 3 w by (subst 3(1)) auto
  also have "map_chans (mark_in p (set (somes cs))) ?s = map_chans (mark_in p (set (somes (Some c # cs)))) s"
    using 3 by (subst mark_Un) auto
  finally show ?case by simp
qed

lemma altrdy_recv_eq:
  "wfqs s \<Longrightarrow> distinct (recv_chans (arrays s) acs) \<Longrightarrow>
   (\<And>c. c \<in> set (recv_chans (arrays s) acs) \<Longrightarrow> p \<notin> set (rq s c)) \<Longrightarrow>
   altrdy_recv p e k acs s = Inr (if has_nil acs then Some exNilref else e,
     k + length (filter (rready s) (recv_chans (arrays s) acs)),
     map_chans (mark_in p (set (recv_chans (arrays s) acs))) s)"
proof (induction acs arbitrary: e k s)
  case Nil
  then show ?case by simp
next
  case (Cons ac acs)
  have IH: "altrdy_recv p e k acs (map_chans (mark_in p C) s)
      = Inr (if has_nil acs then Some exNilref else e,
          k + length (filter (rready s) (recv_chans (arrays s) acs)),
          map_chans (mark_in p (set (recv_chans (arrays s) acs) \<union> C)) s)"
    if "C \<inter> set (recv_chans (arrays s) acs) = {}" "\<forall>c \<in> C. p \<notin> set (rq s c)"
      "distinct (recv_chans (arrays s) acs)"
      "\<forall>c \<in> set (recv_chans (arrays s) acs). p \<notin> set (rq s c)" for e k C
  proof -
    have "wfqs (map_chans (mark_in p C) s)" by (rule wfqs_mark) (use Cons.prems that in auto)
    then have "altrdy_recv p e k acs (map_chans (mark_in p C) s)
      = Inr (if has_nil acs then Some exNilref else e,
          k + length (filter (rready s) (recv_chans (arrays s) acs)),
          map_chans (mark_in p (set (recv_chans (arrays s) acs))) (map_chans (mark_in p C) s))"
      using that by (subst Cons.IH) auto
    then show ?thesis using that by (subst (asm) mark_Un) auto
  qed
  show ?case
  proof (cases "ac_c ac")
    case NilCh
    then show ?thesis using Cons by auto
  next
    case (Ch c)
    then show ?thesis
      using Cons.prems IH [of "{c}"] by (auto simp: ready_eq mark_eq Un_commute)
  next
    case (ArrCh r)
    have "altmark p 0 (arrays s r) s = Inr (length (filter (rready s) (somes (arrays s r))),
        map_chans (mark_in p (set (somes (arrays s r)))) s)"
      using Cons.prems ArrCh by (subst altmark_eq) auto
    then show ?thesis
      using Cons.prems ArrCh IH [of "set (somes (arrays s r))"] by (auto simp: Un_commute)
  qed
qed

lemma altrdy_send_eq:
  "wfqs s \<Longrightarrow> no_arr acs \<Longrightarrow> distinct (send_chans acs) \<Longrightarrow>
   (\<And>c. c \<in> set (send_chans acs) \<Longrightarrow> p \<notin> set (sq s c) \<and> p \<notin> set (rq s c)) \<Longrightarrow>
   altrdy_send p e k acs s = Inr (if has_nil acs then Some exNilref else e,
     k + length (filter (sready s) (send_chans acs)),
     map_chans (mark_out p (set (send_chans acs))) s)"
proof (induction acs arbitrary: e k s)
  case Nil
  then show ?case by simp
next
  case (Cons ac acs)
  show ?case
  proof (cases "ac_c ac")
    case NilCh
    then show ?thesis using Cons by auto
  next
    case (ArrCh r)
    then show ?thesis using Cons.prems by simp
  next
    case (Ch c)
    let ?s = "map_chans (mark_out p {c}) s"
    have w: "wfqs ?s" by (rule wfqs_mark) (use Cons.prems Ch in auto)
    have hd: "(if rq s c = [] then None else Some (hd (rq s c))) \<noteq> Some p"
      using Cons.prems(4) [of c] Ch by (cases "rq s c") auto
    have "altrdy_send p e k (ac # acs) s = altrdy_send p e (if sready s c then k + 1 else k) acs ?s"
      using Cons.prems Ch hd wfqsD(2) [OF Cons.prems(1), of c]
      by (simp add: ready_eq mark_eq split: if_splits)
    also have "\<dots> = Inr (if has_nil acs then Some exNilref else e,
        (if sready s c then k + 1 else k) + length (filter (sready s) (send_chans acs)),
        map_chans (mark_out p (set (send_chans acs))) ?s)"
      using Cons.prems Ch w by (subst Cons.IH) auto
    also have "map_chans (mark_out p (set (send_chans acs))) ?s
        = map_chans (mark_out p (set (send_chans (ac # acs)))) s"
      using Cons.prems Ch by (subst mark_Un) auto
    finally show ?thesis using Ch by simp
  qed
qed

text \<open>The channels that are ready, in the order the alt counts them.\<close>

definition ready_sends :: "dis \<Rightarrow> alt \<Rightarrow> cid list" where
  "ready_sends s a = filter (sready s) (send_chans (al_sends a))"

definition ready_recvs :: "dis \<Rightarrow> alt \<Rightarrow> cid list" where
  "ready_recvs s a = filter (rready s) (recv_chans (arrays s) (al_recvs a))"

definition alt_nil :: "alt \<Rightarrow> bool" where
  "alt_nil a \<longleftrightarrow> has_nil (al_sends a) \<or> has_nil (al_recvs a)"

definition alt_mark :: "alt \<Rightarrow> pid \<Rightarrow> dis \<Rightarrow> dis" where
  "alt_mark a p s = map_chans (mark p (alt_recvs s a) (alt_sends a)) s"

definition unqueued :: "dis \<Rightarrow> pid \<Rightarrow> bool" where
  "unqueued s p \<longleftrightarrow> (\<forall>c. p \<notin> set (rq s c) \<and> p \<notin> set (sq s c))"

lemma alt_mark_map:
  "alt_mark a p s = map_chans (mark_out p (alt_sends a)) (map_chans (mark_in p (alt_recvs s a)) s)"
  by (simp add: alt_mark_def map_chans_comp mark_def [abs_def])

lemma wfqs_alt_mark: "wfqs s \<Longrightarrow> unqueued s p \<Longrightarrow> wfqs (alt_mark a p s)"
  unfolding alt_mark_map by (intro wfqs_mark) (auto simp: unqueued_def)

lemma unlink_map:
  "unlink_alt a p s = map_chans (unmark p (alt_recvs s a) (alt_sends a)) s"
  by (simp add: unlink_alt_def strip_map map_chans_comp unmark_def [abs_def])

lemma removeAll_absent: "p \<notin> set xs \<Longrightarrow> removeAll p xs = xs"
  by (induction xs) auto

text \<open>Unmarking undoes marking, whatever was done in between to the other progs.\<close>

lemma channel_eqI:
  "bufpart a = bufpart b \<Longrightarrow> ch_recv a = ch_recv b \<Longrightarrow> ch_send a = ch_send b \<Longrightarrow> a = (b :: channel)"
  by (cases a; cases b) (simp add: bufpart_def)

lemma mark_parts [simp]:
  "bufpart (mark p R S d ch) = bufpart ch" "bufpart (unmark p R S d ch) = bufpart ch"
  "ch_recv (mark p R S d ch) = (if d \<in> R then qrep (qpids (ch_recv ch) @ [p]) else ch_recv ch)"
  "ch_send (mark p R S d ch) = (if d \<in> S then qrep (qpids (ch_send ch) @ [p]) else ch_send ch)"
  "ch_recv (unmark p R S d ch) = (if d \<in> R then qrep (removeAll p (qpids (ch_recv ch))) else ch_recv ch)"
  "ch_send (unmark p R S d ch) = (if d \<in> S then qrep (removeAll p (qpids (ch_send ch))) else ch_send ch)"
  by (simp_all add: mark_def unmark_def mark_in_def mark_out_def cut_recv_def cut_send_def bufpart_def)

lemma free_parts:
  "ch_recv (free_recv c x s d ch) = (let q = (if d = c then qrep (tl (qpids (ch_recv ch))) else ch_recv ch)
     in if d \<in> left_recvs s x then qrep (removeAll x (qpids q)) else q)"
  "ch_send (free_recv c x s d ch)
     = (if d \<in> left_sends s x then qrep (removeAll x (qpids (ch_send ch))) else ch_send ch)"
  "ch_send (free_send c x s d ch) = (let q = (if d = c then qrep (tl (qpids (ch_send ch))) else ch_send ch)
     in if d \<in> left_sends s x then qrep (removeAll x (qpids q)) else q)"
  "ch_recv (free_send c x s d ch)
     = (if d \<in> left_recvs s x then qrep (removeAll x (qpids (ch_recv ch))) else ch_recv ch)"
  by (simp_all add: free_recv_def free_send_def cut_recv_def cut_send_def tail_recv_def tail_send_def Let_def)

lemma unmark_mark:
  assumes "ch_recv ch = qrep xs" "ch_send ch = qrep ys" "p \<notin> set xs" "p \<notin> set ys"
  shows "unmark p R S d (mark p R S d ch) = ch"
  by (rule channel_eqI) (use assms in \<open>simp_all add: removeAll_absent\<close>)

lemma unmark_free_recv:
  assumes "ch_recv ch = qrep xs" "ch_send ch = qrep ys" "p \<notin> set xs" "p \<notin> set ys" "x \<noteq> p" "c \<notin> R"
  shows "unmark p R S d (free_recv c x s d (mark p R S d ch)) = free_recv c x s d ch"
  by (rule channel_eqI) (use assms in \<open>auto simp: free_parts Let_def removeAll_absent\<close>)

lemma unmark_free_send:
  assumes "ch_recv ch = qrep xs" "ch_send ch = qrep ys" "p \<notin> set xs" "p \<notin> set ys" "x \<noteq> p" "c \<notin> S"
  shows "unmark p R S d (free_send c x s d (mark p R S d ch)) = free_send c x s d ch"
  by (rule channel_eqI) (use assms in \<open>auto simp: free_parts Let_def removeAll_absent\<close>)

lemma unmark_ring:
  "unmark p R S d (put_ring c v d ch) = put_ring c v d (unmark p R S d ch)"
  "unmark p R S d (get_ring c d ch) = get_ring c d (unmark p R S d ch)"
  by (auto simp: unmark_def cut_recv_def cut_send_def put_ring_def get_ring_def split: option.splits)

section \<open>The choice\<close>

lemma altcomm_send_pass:
  "wfqs s \<Longrightarrow> no_arr acs \<Longrightarrow> \<not> has_nil acs \<Longrightarrow> length (filter (sready s) (send_chans acs)) \<le> which \<Longrightarrow>
   altcomm_send rd which n acs s
     = Inr (Some (which - length (filter (sready s) (send_chans acs)), n + length acs), s)"
proof (induction acs arbitrary: which n)
  case Nil
  then show ?case by simp
next
  case (Cons ac acs)
  then show ?case by (cases "ac_c ac") (auto simp: ready_eq)
qed

lemma altcomm_send_pick:
  "wfqs s \<Longrightarrow> no_arr acs \<Longrightarrow> \<not> has_nil acs \<Longrightarrow> which < length (filter (sready s) (send_chans acs)) \<Longrightarrow>
   \<exists>i < length acs. ac_c (acs ! i) = Ch (filter (sready s) (send_chans acs) ! which)
     \<and> altcomm_send rd which n acs s
       = rbind (isend (Some (filter (sready s) (send_chans acs) ! which)) (ac_ptr (acs ! i))
           (put_mem rd (int (n + i)) s)) (\<lambda>s. Inr (None, s))"
proof (induction acs arbitrary: which n)
  case Nil
  then show ?case by simp
next
  case (Cons ac acs)
  then obtain c where c: "ac_c ac = Ch c" by (cases "ac_c ac") auto
  show ?case
  proof (cases "sready s c \<and> which = 0")
    case True
    then show ?thesis using c Cons.prems by (intro exI [of _ 0]) (simp add: ready_eq)
  next
    case False
    let ?w = "if sready s c then which - 1 else which"
    have lt: "?w < length (filter (sready s) (send_chans acs))" using Cons.prems(4) c False by auto
    obtain i where i: "i < length acs" "ac_c (acs ! i) = Ch (filter (sready s) (send_chans acs) ! ?w)"
      "altcomm_send rd ?w (n + 1) acs s
       = rbind (isend (Some (filter (sready s) (send_chans acs) ! ?w)) (ac_ptr (acs ! i))
           (put_mem rd (int (n + 1 + i)) s)) (\<lambda>s. Inr (None, s))"
      using Cons.IH [OF _ _ _ lt, of "n + 1"] Cons.prems by auto
    have nth: "filter (sready s) (send_chans (ac # acs)) ! which = filter (sready s) (send_chans acs) ! ?w"
      using c False by (auto simp: nth_Cons split: nat.splits)
    have "altcomm_send rd which n (ac # acs) s = altcomm_send rd ?w (n + 1) acs s"
      using c False Cons.prems by (auto simp: ready_eq)
    then show ?thesis
      unfolding nth using i by (intro exI [of _ "Suc i"]) simp
  qed
qed

text \<open>
  What an entry of an alt means for a receive on \<open>c\<close>: where the datum goes, and the memory once
  the indices are written.
\<close>

definition recv_pick :: "dis \<Rightarrow> addr \<Rightarrow> nat \<Rightarrow> altc \<Rightarrow> cid \<Rightarrow> addr \<Rightarrow> (addr \<Rightarrow> int) \<Rightarrow> bool" where
  "recv_pick s rd n ac c dst m \<longleftrightarrow>
     ac_c ac = Ch c \<and> dst = ac_ptr ac \<and> m = (mem s)(rd := int n)
   \<or> (\<exists>r j t. ac_c ac = ArrCh r \<and> j < length (arrays s r) \<and> arrays s r ! j = Some c
        \<and> ch_mid (chans s c) = MidT t \<and> dst = ac_ptr ac + altvaloff (Some t)
        \<and> m = (mem s)(rd := int n, ac_ptr ac := int j))"

lemma altcomm_array_pass:
  "wfqs s \<Longrightarrow> length (filter (rready s) (somes cs)) \<le> which \<Longrightarrow>
   altcomm_array rd which n an ptr cs s = Inr (Some (which - length (filter (rready s) (somes cs))), s)"
proof (induction cs arbitrary: which an rule: somes.induct)
  case (3 c cs)
  then show ?case by (auto simp: ready_eq)
qed auto

lemma altcomm_array_pick:
  "wfqs s \<Longrightarrow> which < length (filter (rready s) (somes cs)) \<Longrightarrow>
   (\<And>c. c \<in> set (somes cs) \<Longrightarrow> \<exists>t. ch_mid (chans s c) = MidT t) \<Longrightarrow>
   \<exists>j t. j < length cs \<and> cs ! j = Some (filter (rready s) (somes cs) ! which)
     \<and> ch_mid (chans s (filter (rready s) (somes cs) ! which)) = MidT t
     \<and> altcomm_array rd which n an ptr cs s
       = rbind (irecv (Some (filter (rready s) (somes cs) ! which)) (ptr + altvaloff (Some t))
           (put_mem ptr (int (an + j)) (put_mem rd (int n) s))) (\<lambda>s. Inr (None, s))"
proof (induction cs arbitrary: which an rule: somes.induct)
  case 1
  then show ?case by simp
next
  case (2 cs)
  from 2(1) [OF 2(2) _ 2(4), of which "an + 1"] 2(3)
  obtain j t where "j < length cs" "cs ! j = Some (filter (rready s) (somes cs) ! which)"
    "ch_mid (chans s (filter (rready s) (somes cs) ! which)) = MidT t"
    "altcomm_array rd which n (an + 1) ptr cs s
       = rbind (irecv (Some (filter (rready s) (somes cs) ! which)) (ptr + altvaloff (Some t))
           (put_mem ptr (int (an + 1 + j)) (put_mem rd (int n) s))) (\<lambda>s. Inr (None, s))"
    by auto
  then show ?case by (intro exI [of _ "Suc j"]) simp
next
  case (3 c cs)
  show ?case
  proof (cases "rready s c \<and> which = 0")
    case True
    obtain t where t: "ch_mid (chans s c) = MidT t" using 3(4) [of c] by auto
    then show ?thesis using True 3(2) by (intro exI [of _ 0]) (simp add: ready_eq mid_t_def Let_def)
  next
    case False
    let ?w = "if rready s c then which - 1 else which"
    have lt: "?w < length (filter (rready s) (somes cs))" using 3(3) False by auto
    from 3(1) [OF 3(2) lt, of "an + 1"] 3(4)
    obtain j t where jt: "j < length cs" "cs ! j = Some (filter (rready s) (somes cs) ! ?w)"
      "ch_mid (chans s (filter (rready s) (somes cs) ! ?w)) = MidT t"
      "altcomm_array rd ?w n (an + 1) ptr cs s
         = rbind (irecv (Some (filter (rready s) (somes cs) ! ?w)) (ptr + altvaloff (Some t))
             (put_mem ptr (int (an + 1 + j)) (put_mem rd (int n) s))) (\<lambda>s. Inr (None, s))"
      by auto
    have nth: "filter (rready s) (somes (Some c # cs)) ! which = filter (rready s) (somes cs) ! ?w"
      using False by (auto simp: nth_Cons split: nat.splits)
    have "altcomm_array rd which n an ptr (Some c # cs) s = altcomm_array rd ?w n (an + 1) ptr cs s"
      using False 3(2) by (auto simp: ready_eq)
    then show ?thesis unfolding nth using jt by (intro exI [of _ "Suc j"]) simp
  qed
qed

lemma altcomm_recv_pick:
  "wfqs s \<Longrightarrow> \<not> has_nil acs \<Longrightarrow> \<forall>ac \<in> set acs. arr_typed s ac \<Longrightarrow>
   which < length (filter (rready s) (recv_chans (arrays s) acs)) \<Longrightarrow>
   \<exists>i dst m. i < length acs
     \<and> recv_pick s rd (n + i) (acs ! i) (filter (rready s) (recv_chans (arrays s) acs) ! which) dst m
     \<and> altcomm_recv rd which n acs s
       = irecv (Some (filter (rready s) (recv_chans (arrays s) acs) ! which)) dst (s\<lparr>mem := m\<rparr>)"
proof (induction acs arbitrary: which n)
  case Nil
  then show ?case by simp
next
  case (Cons ac acs)
  have step: ?case
    if w: "w < length (filter (rready s) (recv_chans (arrays s) acs))"
      and nth: "filter (rready s) (recv_chans (arrays s) (ac # acs)) ! which
        = filter (rready s) (recv_chans (arrays s) acs) ! w"
      and eq: "altcomm_recv rd which n (ac # acs) s = altcomm_recv rd w (n + 1) acs s" for w
  proof -
    obtain i dst m where i: "i < length acs"
      "recv_pick s rd (n + 1 + i) (acs ! i) (filter (rready s) (recv_chans (arrays s) acs) ! w) dst m"
      "altcomm_recv rd w (n + 1) acs s
       = irecv (Some (filter (rready s) (recv_chans (arrays s) acs) ! w)) dst (s\<lparr>mem := m\<rparr>)"
      using Cons.IH [OF Cons.prems(1) _ _ w, of "n + 1"] Cons.prems(2,3) by auto
    have "Suc i < length (ac # acs)
       \<and> recv_pick s rd (n + Suc i) ((ac # acs) ! Suc i) (filter (rready s) (recv_chans (arrays s) acs) ! w) dst m
       \<and> altcomm_recv rd w (n + 1) acs s
         = irecv (Some (filter (rready s) (recv_chans (arrays s) acs) ! w)) dst (s\<lparr>mem := m\<rparr>)"
      using i by simp
    then show ?case unfolding nth eq by blast
  qed
  show ?case
  proof (cases "ac_c ac")
    case NilCh
    then show ?thesis using Cons.prems(2) by simp
  next
    case (Ch c)
    show ?thesis
    proof (cases "rready s c \<and> which = 0")
      case True
      then have "0 < length (ac # acs)
          \<and> recv_pick s rd (n + 0) ((ac # acs) ! 0) c (ac_ptr ac) ((mem s)(rd := int n))
          \<and> altcomm_recv rd which n (ac # acs) s = irecv (Some c) (ac_ptr ac) (s\<lparr>mem := (mem s)(rd := int n)\<rparr>)"
        using Ch Cons.prems(1) by (simp add: ready_eq recv_pick_def put_mem_def)
      moreover have "filter (rready s) (recv_chans (arrays s) (ac # acs)) ! which = c"
        using True Ch by simp
      ultimately show ?thesis by blast
    next
      case False
      show ?thesis
        by (rule step [of "if rready s c then which - 1 else which"])
          (use Ch False Cons.prems in \<open>auto simp: ready_eq nth_Cons split: nat.splits\<close>)
    qed
  next
    case (ArrCh r)
    let ?L = "filter (rready s) (somes (arrays s r))"
    have typed: "\<exists>t. ch_mid (chans s c) = MidT t" if "c \<in> set (somes (arrays s r))" for c
      using arr_typedD [of s ac r c] Cons.prems(3) ArrCh that by simp
    show ?thesis
    proof (cases "which < length ?L")
      case True
      obtain j t where jt: "j < length (arrays s r)" "arrays s r ! j = Some (?L ! which)"
        "ch_mid (chans s (?L ! which)) = MidT t"
        "altcomm_array rd which n 0 (ac_ptr ac) (arrays s r) s
         = rbind (irecv (Some (?L ! which)) (ac_ptr ac + altvaloff (Some t))
             (put_mem (ac_ptr ac) (int (0 + j)) (put_mem rd (int n) s))) (\<lambda>s. Inr (None, s))"
        using altcomm_array_pick [OF Cons.prems(1) True typed] by blast
      have nth: "filter (rready s) (recv_chans (arrays s) (ac # acs)) ! which = ?L ! which"
        using ArrCh True by (simp add: nth_append)
      have m: "put_mem (ac_ptr ac) (int j) (put_mem rd (int n) s)
          = s\<lparr>mem := (mem s)(rd := int n, ac_ptr ac := int j)\<rparr>"
        by (simp add: put_mem_def)
      have "altcomm_recv rd which n (ac # acs) s = irecv (Some (?L ! which))
          (ac_ptr ac + altvaloff (Some t)) (s\<lparr>mem := (mem s)(rd := int n, ac_ptr ac := int j)\<rparr>)"
        using ArrCh jt(4) m by (cases "irecv (Some (?L ! which)) (ac_ptr ac + altvaloff (Some t))
          (s\<lparr>mem := (mem s)(rd := int n, ac_ptr ac := int j)\<rparr>)") simp_all
      moreover have "recv_pick s rd (n + 0) ((ac # acs) ! 0) (?L ! which)
          (ac_ptr ac + altvaloff (Some t)) ((mem s)(rd := int n, ac_ptr ac := int j))"
        using ArrCh jt(1-3) by (auto simp: recv_pick_def)
      ultimately show ?thesis unfolding nth by blast
    next
      case False
      show ?thesis
        by (rule step [of "which - length ?L"])
          (use ArrCh False Cons.prems altcomm_array_pass [OF Cons.prems(1), of "arrays s r" which]
            in \<open>auto simp: nth_append\<close>)
    qed
  qed
qed

section \<open>The marks are invisible\<close>

lemma wfqs_parts:
  assumes "wfqs s"
  shows "wfqs (map_chans (cut_recv p C) s)" "wfqs (map_chans (cut_send p C) s)"
    "wfqs (map_chans (put_ring c v) s)" "wfqs (map_chans (get_ring c) s)"
proof -
  show "wfqs (map_chans (cut_recv p C) s)" "wfqs (map_chans (cut_send p C) s)"
    using strip_wfqs [OF assms, of p C] by (simp_all only: strip_map)
  show "wfqs (map_chans (put_ring c v) s)" "wfqs (map_chans (get_ring c) s)"
    using assms by (simp_all add: wfqs_def sq_def rq_def)
qed

lemma wfqs_free:
  assumes "wfqs s"
  shows "wfqs (map_chans (free_recv c x u) s)" "wfqs (map_chans (free_send c x u) s)"
proof -
  have "map_chans (free_recv c x u) s = map_chans (cut_recv x (left_recvs u x))
      (map_chans (cut_send x (left_sends u x)) (map_chans (tail_recv c) s))"
    by (simp add: map_chans_comp free_recv_def [abs_def])
  then show "wfqs (map_chans (free_recv c x u) s)" using assms by (simp add: wfqs_parts)
  have "map_chans (free_send c x u) s = map_chans (cut_recv x (left_recvs u x))
      (map_chans (cut_send x (left_sends u x)) (map_chans (tail_send c) s))"
    by (simp add: map_chans_comp free_send_def [abs_def])
  then show "wfqs (map_chans (free_send c x u) s)" using assms by (simp add: wfqs_parts)
qed

lemma wake_arrays: "wake p s = Inr t \<Longrightarrow> arrays t = arrays s"
  by (auto simp: wake_def addrun_def Let_def set_link_def set_state_def rbind_eq_Inr_iff
      split: option.splits callback.splits)

lemma free_marked [simp]:
  "free_recv c x (map_chans g s) = free_recv c x s" "free_send c x (map_chans g s) = free_send c x s"
  by (simp_all add: free_recv_def [abs_def] free_send_def [abs_def] left_recvs_def left_sends_def
      alt_recvs_def)

text \<open>Marked, changed by \<open>g\<close>, and unmarked again is changed by \<open>g\<close>.\<close>

lemma altdone_marked:
  assumes "wfqs t" "unqueued t p" "no_arr (al_sends a)"
    and g: "\<And>s. wfqs s \<Longrightarrow> wfqs (map_chans g s)"
    and comm: "\<And>d. unmark p (alt_recvs t a) (alt_sends a) d
        (g d (mark p (alt_recvs t a) (alt_sends a) d (chans t d))) = g d (chans t d)"
  shows "altdone a p None (- 1) (map_chans g (alt_mark a p t)) = Inr (map_chans g t)"
proof -
  have "wfqs (map_chans g (alt_mark a p t))" by (rule g [OF wfqs_alt_mark [OF assms(1,2)]])
  then have "altdone a p None (- 1) (map_chans g (alt_mark a p t))
      = Inr (unlink_alt a p (map_chans g (alt_mark a p t)))"
    by (rule altdone_strip [OF _ assms(3)])
  also have "unlink_alt a p (map_chans g (alt_mark a p t)) = map_chans g t"
    unfolding unlink_map alt_mark_def map_chans_comp
    by (rule map_chans_cong) (use comm in \<open>simp add: alt_recvs_def\<close>)
  finally show ?thesis .
qed

lemma alt_mark_parts [simp]:
  "progs (alt_mark a p s) = progs s" "arrays (alt_mark a p s) = arrays s" "mem (alt_mark a p s) = mem s"
  "runhd (alt_mark a p s) = runhd s" "runtl (alt_mark a p s) = runtl s" "nchan (alt_mark a p s) = nchan s"
  "RIC (alt_mark a p s) = RIC s" "Rt (alt_mark a p s) = Rt s" "xrand (alt_mark a p s) = xrand s"
  "ch_mid (chans (alt_mark a p s) c) = ch_mid (chans s c)"
  "ring_ok (chans (alt_mark a p s) c) = ring_ok (chans s c)"
  "ring_items (chans (alt_mark a p s) c) = ring_items (chans s c)"
  "canget (chans (alt_mark a p s) c) = canget (chans s c)"
  "canput (chans (alt_mark a p s) c) = canput (chans s c)"
  "ch_buf (chans (alt_mark a p s) c) = ch_buf (chans s c)"
  "ch_size (chans (alt_mark a p s) c) = ch_size (chans s c)"
  "c \<notin> alt_recvs s a \<Longrightarrow> rq (alt_mark a p s) c = rq s c"
  "c \<notin> alt_sends a \<Longrightarrow> sq (alt_mark a p s) c = sq s c"
  using bufpartD [OF mark_parts(1) [of p "alt_recvs s a" "alt_sends a" c "chans s c"]]
    ring_bufpart [OF mark_parts(1) [of p "alt_recvs s a" "alt_sends a" c "chans s c"]]
  by (simp_all add: alt_mark_def rq_def sq_def)

lemma mark_mid [simp]: "ch_mid (mark p R S d ch) = ch_mid ch"
  using bufpartD [OF mark_parts(1)] by blast

lemma wake_marked:
  "wake x (alt_mark a p u) = rbind (wake x u) (\<lambda>t. Inr (alt_mark a p t))"
proof (cases "wake x u")
  case (Inl e)
  then show ?thesis by (simp add: alt_mark_def wake_map)
next
  case (Inr t)
  then have "alt_recvs t a = alt_recvs u a" by (simp add: alt_recvs_def wake_arrays)
  then show ?thesis using Inr by (simp add: alt_mark_def wake_map)
qed

lemma alt_mark_settle:
  "settle_recv c x (alt_mark a p s) = alt_mark a p (settle_recv c x s)"
  "settle_send c x (alt_mark a p s) = alt_mark a p (settle_send c x s)"
  "deliver x src (alt_mark a p s) = alt_mark a p (deliver x src s)"
  "collect x src (alt_mark a p s) = alt_mark a p (collect x src s)"
  "put_mem v w (alt_mark a p s) = alt_mark a p (put_mem v w s)"
  "set_ptr l q (alt_mark a p s) = alt_mark a p (set_ptr l q s)"
  by (simp_all add: alt_mark_def settle_map deliver_def collect_def map_chans_commute alt_recvs_def)

lemma alt_mark_hit: "alt_recv_hit (alt_mark a p s) b d = alt_recv_hit s b d"
  by (simp add: alt_recv_hit_def)

lemma reps_of:
  "wfqs s \<Longrightarrow> unqueued s p \<Longrightarrow> ch_recv (chans s d) = qrep (rq s d) \<and> ch_send (chans s d) = qrep (sq s d)
     \<and> p \<notin> set (rq s d) \<and> p \<notin> set (sq s d)"
  by (simp add: wfqs_def unqueued_def)

lemma isend_marked:
  assumes wf: "wfqs s" and un: "unqueued s p" and ok: "alt_ok s a" and c: "c \<in> alt_sends a"
    and rdy: "sready s c" and ring: "ring_ok (chans s c)"
    and peer: "\<And>x xs. rq s c = x # xs \<Longrightarrow> peer_recv s c x"
  shows "rbind (isend (Some c) src (alt_mark a p s)) (altdone a p None (- 1)) = isend (Some c) src s"
proof -
  have cR: "c \<notin> alt_recvs s a" and na: "no_arr (al_sends a)"
    using ok c by (auto simp: alt_ok_def)
  note wf1 = wfqs_alt_mark [OF wf un, of a]
  show ?thesis
  proof (cases "rq s c")
    case (Cons x xs)
    note pr = peer [OF Cons]
    have pr1: "peer_recv (alt_mark a p s) c x" using pr by (simp only: peer_recv_def alt_mark_hit alt_mark_parts)
    have rq1: "rq (alt_mark a p s) c = x # xs" using Cons cR by simp
    have xp: "x \<noteq> p" using un Cons unfolding unqueued_def by (metis list.set_intros(1))
    let ?u = "deliver x src (settle_recv c x s)"
    have fin: "altdone a p None (- 1) (map_chans (free_recv c x s) (alt_mark a p t))
        = Inr (map_chans (free_recv c x s) t)" if t: "wake x ?u = Inr t" for t
    proof -
      have same: "chans t = chans s" "arrays t = arrays s"
        using wake_chans [OF t] wake_arrays [OF t] by (simp_all add: deliver_def)
      have q: "wfqs t" "unqueued t p" "alt_recvs t a = alt_recvs s a"
        using wf un queues_cong [OF same(1)] same(2) by (auto simp: unqueued_def alt_recvs_def)
      show ?thesis
      proof (rule altdone_marked [OF q(1,2) na wfqs_free(1)])
        fix d
        show "unmark p (alt_recvs t a) (alt_sends a) d (free_recv c x s d
            (mark p (alt_recvs t a) (alt_sends a) d (chans t d))) = free_recv c x s d (chans t d)"
          using reps_of [OF wf un, of d] xp cR unfolding q(3) same(1)
          by (intro unmark_free_recv [of _ "rq s d" "sq s d"]) simp_all
      qed
    qed
    have "isend (Some c) src (alt_mark a p s)
        = rbind (wake x ?u) (\<lambda>t. Inr (map_chans (free_recv c x s) (alt_mark a p t)))"
      unfolding isend_wake [OF wf1 rq1 pr1]
      by (simp add: alt_mark_settle wake_marked rbind_assoc) (simp add: alt_mark_def)
    then show ?thesis
      unfolding isend_wake [OF wf Cons pr] using fin by (cases "wake x ?u") simp_all
  next
    case Nil
    have put: "canput (chans s c)" using rdy Nil by (simp add: sready_def)
    have "isend (Some c) src (alt_mark a p s) = Inr (map_chans (put_ring c (mem s src)) (alt_mark a p s))"
      using isend_put [OF wf1, of c src] Nil cR ring put by simp
    moreover have "altdone a p None (- 1) (map_chans (put_ring c (mem s src)) (alt_mark a p s))
        = Inr (map_chans (put_ring c (mem s src)) s)"
    proof (rule altdone_marked [OF wf un na wfqs_parts(3)])
      fix d
      show "unmark p (alt_recvs s a) (alt_sends a) d (put_ring c (mem s src) d
          (mark p (alt_recvs s a) (alt_sends a) d (chans s d))) = put_ring c (mem s src) d (chans s d)"
        using reps_of [OF wf un, of d] by (simp add: unmark_ring unmark_mark)
    qed
    ultimately show ?thesis using isend_put [OF wf Nil ring put] by simp
  qed
qed

lemma irecv_marked:
  assumes wf: "wfqs s" and un: "unqueued s p" and ok: "alt_ok s a" and c: "c \<in> alt_recvs s a"
    and rdy: "rready s c" and ring: "ring_ok (chans s c)"
    and peer: "\<And>x xs. sq s c = x # xs \<Longrightarrow> peer_send s c x \<and> \<not> canput (chans s c)"
  shows "rbind (irecv (Some c) dst (alt_mark a p s)) (altdone a p None (- 1)) = irecv (Some c) dst s"
proof -
  have cS: "c \<notin> alt_sends a" and na: "no_arr (al_sends a)"
    using ok c by (auto simp: alt_ok_def)
  note wf1 = wfqs_alt_mark [OF wf un, of a]
  show ?thesis
  proof (cases "sq s c")
    case (Cons x xs)
    have pr: "peer_send s c x" using peer [OF Cons] by simp
    have pr1: "peer_send (alt_mark a p s) c x" using pr by (simp add: peer_send_def)
    have sq1: "sq (alt_mark a p s) c = x # xs" using Cons cS by simp
    have xp: "x \<noteq> p" using un Cons unfolding unqueued_def by (metis list.set_intros(1))
    have fin: "altdone a p None (- 1) (map_chans (\<lambda>d ch. f d (free_send c x s d ch)) (alt_mark a p t))
        = Inr (map_chans (\<lambda>d ch. f d (free_send c x s d ch)) t)"
      if t: "wake x u = Inr t" "chans u = chans s" "arrays u = arrays s"
        and f: "\<And>s. wfqs s \<Longrightarrow> wfqs (map_chans f s)"
          "\<And>R S d ch. unmark p R S d (f d ch) = f d (unmark p R S d ch)" for t u f
    proof -
      have same: "chans t = chans s" "arrays t = arrays s"
        using wake_chans [OF t(1)] wake_arrays [OF t(1)] t(2,3) by simp_all
      have q: "wfqs t" "unqueued t p" "alt_recvs t a = alt_recvs s a"
        using wf un queues_cong [OF same(1)] same(2) by (auto simp: unqueued_def alt_recvs_def)
      show ?thesis
      proof (rule altdone_marked [OF q(1,2) na])
        show "wfqs s' \<Longrightarrow> wfqs (map_chans (\<lambda>d ch. f d (free_send c x s d ch)) s')" for s'
          using f(1) [OF wfqs_free(2) [of s' c x s]] by (simp add: map_chans_comp)
        fix d
        have "unmark p (alt_recvs t a) (alt_sends a) d (free_send c x s d
            (mark p (alt_recvs t a) (alt_sends a) d (chans t d))) = free_send c x s d (chans t d)"
          using reps_of [OF wf un, of d] xp cS unfolding q(3) same(1)
          by (intro unmark_free_send [of _ "rq s d" "sq s d"]) simp_all
        then show "unmark p (alt_recvs t a) (alt_sends a) d (f d (free_send c x s d
            (mark p (alt_recvs t a) (alt_sends a) d (chans t d)))) = f d (free_send c x s d (chans t d))"
          by (simp add: f(2))
      qed
    qed
    show ?thesis
    proof (cases "ch_buf (chans s c)")
      case None
      let ?u = "collect x dst (settle_send c x s)"
      have "irecv (Some c) dst (alt_mark a p s)
          = rbind (wake x ?u) (\<lambda>t. Inr (map_chans (free_send c x s) (alt_mark a p t)))"
        using irecv_wake [OF wf1 sq1 pr1, of dst] None
        by (simp add: alt_mark_settle wake_marked rbind_assoc) (simp add: alt_mark_def)
      moreover have "altdone a p None (- 1) (map_chans (free_send c x s) (alt_mark a p t))
          = Inr (map_chans (free_send c x s) t)" if "wake x ?u = Inr t" for t
        using fin [OF that, of "\<lambda>d ch. ch"] by (simp add: collect_def map_chans_def)
      ultimately show ?thesis
        unfolding irecv_wake [OF wf Cons pr None] by (cases "wake x ?u") simp_all
    next
      case (Some b)
      have full: "ch_size (chans s c) = length b"
        using peer [OF Cons] Some ring by (auto simp: canput_def ring_ok_def)
      let ?w = "hd (ring_items (chans s c))"
      let ?s1 = "put_mem dst ?w (settle_send c x s)"
      let ?v = "mem ?s1 (the (pr_ptr (progs ?s1 x)))"
      let ?u = "set_ptr None x ?s1"
      have "irecv (Some c) dst (alt_mark a p s) = rbind (wake x ?u) (\<lambda>t.
          Inr (map_chans (\<lambda>d ch. turn_ring c ?v d (free_send c x s d ch)) (alt_mark a p t)))"
        using irecv_wake_full [OF wf1 sq1 pr1, of b dst] Some full ring
        by (simp add: alt_mark_settle wake_marked rbind_assoc) (simp add: alt_mark_def)
      moreover have "altdone a p None (- 1)
          (map_chans (\<lambda>d ch. turn_ring c ?v d (free_send c x s d ch)) (alt_mark a p t))
          = Inr (map_chans (\<lambda>d ch. turn_ring c ?v d (free_send c x s d ch)) t)" if t: "wake x ?u = Inr t" for t
      proof (rule fin [OF t])
        show "wfqs s' \<Longrightarrow> wfqs (map_chans (turn_ring c ?v) s')" for s'
          using wfqs_parts(3) [OF wfqs_parts(4), of s' c ?v c]
          by (simp add: map_chans_comp turn_ring_def [abs_def])
      qed (simp_all add: turn_ring_def unmark_ring)
      ultimately show ?thesis
        unfolding irecv_wake_full [OF wf Cons pr Some ring full] by (cases "wake x ?u") simp_all
    qed
  next
    case Nil
    have get: "canget (chans s c)" using rdy Nil by (simp add: rready_def)
    let ?w = "hd (ring_items (chans s c))"
    have "irecv (Some c) dst (alt_mark a p s) = Inr (map_chans (get_ring c) (alt_mark a p (put_mem dst ?w s)))"
      using irecv_get [OF wf1, of c dst] Nil cS ring get
      by (simp add: map_chans_commute alt_mark_settle [symmetric])
    moreover have "altdone a p None (- 1) (map_chans (get_ring c) (alt_mark a p (put_mem dst ?w s)))
        = Inr (map_chans (get_ring c) (put_mem dst ?w s))"
    proof (rule altdone_marked [OF _ _ na wfqs_parts(4)])
      fix d
      show "unmark p (alt_recvs (put_mem dst ?w s) a) (alt_sends a) d (get_ring c d
          (mark p (alt_recvs (put_mem dst ?w s) a) (alt_sends a) d (chans (put_mem dst ?w s) d)))
          = get_ring c d (chans (put_mem dst ?w s) d)"
        using reps_of [OF wf un, of d] by (simp add: unmark_ring unmark_mark)
    qed (use wf un in \<open>simp_all add: unqueued_def\<close>)
    ultimately show ?thesis using irecv_get [OF wf Nil ring get] by (simp add: map_chans_commute)
  qed
qed

section \<open>The whole instruction\<close>

lemma ready_marked:
  assumes "alt_ok s a"
  shows "filter (sready (alt_mark a p s)) (send_chans (al_sends a)) = ready_sends s a"
    "filter (rready (alt_mark a p s)) (recv_chans (arrays s) (al_recvs a)) = ready_recvs s a"
proof -
  have "sready (alt_mark a p s) c = sready s c" if "c \<in> set (send_chans (al_sends a))" for c
  proof -
    have "c \<notin> alt_recvs s a" using assms that by (auto simp: alt_ok_def alt_sends_def)
    then show ?thesis by (simp add: sready_def)
  qed
  then show "filter (sready (alt_mark a p s)) (send_chans (al_sends a)) = ready_sends s a"
    unfolding ready_sends_def by (rule filter_cong [OF refl])
  have "rready (alt_mark a p s) c = rready s c" if "c \<in> set (recv_chans (arrays s) (al_recvs a))" for c
  proof -
    have "c \<notin> alt_sends a" using assms that by (auto simp: alt_ok_def alt_recvs_def)
    then show ?thesis by (simp add: rready_def)
  qed
  then show "filter (rready (alt_mark a p s)) (recv_chans (arrays s) (al_recvs a)) = ready_recvs s a"
    unfolding ready_recvs_def by (rule filter_cong [OF refl])
qed

lemma altdone_alt_mark:
  assumes "wfqs s" "unqueued s p" "alt_ok s a"
  shows "altdone a p None (- 1) (alt_mark a p s) = Inr s"
proof -
  have "altdone a p None (- 1) (map_chans (\<lambda>d ch. ch) (alt_mark a p s)) = Inr (map_chans (\<lambda>d ch. ch) s)"
  proof (rule altdone_marked [OF assms(1,2)])
    fix d
    show "unmark p (alt_recvs s a) (alt_sends a) d
        (mark p (alt_recvs s a) (alt_sends a) d (chans s d)) = chans s d"
      using reps_of [OF assms(1,2), of d] by (intro unmark_mark [of _ "rq s d" "sq s d"]) simp_all
  qed (use assms in \<open>simp_all add: alt_ok_def map_chans_def\<close>)
  then show ?thesis by (simp add: map_chans_def)
qed

lemma altrdy_eq:
  assumes "wfqs s" "unqueued s p" "alt_ok s a"
  shows "altrdy a p s = (if alt_nil a then Inl (Raised exNilref s)
    else Inr (length (ready_sends s a) + length (ready_recvs s a), alt_mark a p s))"
proof -
  let ?R = "recv_chans (arrays s) (al_recvs a)" and ?S = "send_chans (al_sends a)"
  let ?s1 = "map_chans (mark_in p (alt_recvs s a)) s"
  have r: "altrdy_recv p None 0 (al_recvs a) s = Inr (if has_nil (al_recvs a) then Some exNilref else None,
      length (ready_recvs s a), ?s1)"
    using assms by (subst altrdy_recv_eq) (auto simp: alt_ok_def unqueued_def ready_recvs_def alt_recvs_def)
  have w: "wfqs ?s1" by (rule wfqs_mark) (use assms in \<open>auto simp: unqueued_def\<close>)
  have f: "filter (sready ?s1) ?S = ready_sends s a"
    unfolding ready_sends_def
    by (rule filter_cong [OF refl]) (use assms(3) in \<open>auto simp: sready_def alt_ok_def alt_sends_def\<close>)
  have "altrdy_send p e k (al_sends a) ?s1 = Inr (if has_nil (al_sends a) then Some exNilref else e,
      k + length (ready_sends s a), alt_mark a p s)" for e k
    unfolding f [symmetric] alt_mark_map alt_sends_def
    by (rule altrdy_send_eq) (use w assms in \<open>auto simp: alt_ok_def unqueued_def alt_sends_def\<close>)
  then show ?thesis
    using r altdone_alt_mark [OF assms] by (simp add: altrdy_def alt_nil_def)
qed

lemma unqueued_inv:
  assumes "dis_inv s" "pr_state (progs s p) = Pready"
  shows "unqueued s p"
  using dis_invD(6,7) [OF assms(1), of p] waits_not_ready [of s p] assms(2) by (auto simp: unqueued_def)

lemma run_ready:
  assumes "dis_inv s" "runhd s = Some p"
  shows "pr_state (progs s p) = Pready"
  using dis_inv_run [OF assms] by (metis list.set_intros(1))

definition next_rand :: "u64 \<Rightarrow> u64" where
  "next_rand x = x * 1103515245 + 12345"

text \<open>The number of the ready entry that \<open>xecalt\<close> picks among \<open>n\<close>.\<close>

definition pick_index :: "dis \<Rightarrow> nat \<Rightarrow> nat" where
  "pick_index s n = unat (drop_bit 8 (next_rand (xrand s))) mod n"

lemma alt_mark_upds:
  "(alt_mark a p s)\<lparr>xrand := x\<rparr> = alt_mark a p (s\<lparr>xrand := x\<rparr>)"
  "(alt_mark a p s)\<lparr>mem := m\<rparr> = alt_mark a p (s\<lparr>mem := m\<rparr>)"
  by (simp_all add: alt_mark_def map_chans_commute alt_recvs_def)

lemma wfqs_upds [simp]:
  "wfqs (s\<lparr>xrand := x\<rparr>) = wfqs s" "wfqs (s\<lparr>mem := m\<rparr>) = wfqs s"
  "rq (s\<lparr>xrand := x\<rparr>) = rq s" "sq (s\<lparr>xrand := x\<rparr>) = sq s"
  "rq (s\<lparr>mem := m\<rparr>) = rq s" "sq (s\<lparr>mem := m\<rparr>) = sq s"
  by (simp_all add: wfqs_def sq_def [abs_def] rq_def [abs_def])

lemma arr_typed_upds [simp]:
  "arr_typed (alt_mark a p s) ac = arr_typed s ac"
  "arr_typed (s\<lparr>xrand := x\<rparr>) ac = arr_typed s ac" "arr_typed (s\<lparr>mem := m\<rparr>) ac = arr_typed s ac"
  by (cases "ac_c ac"; simp add: arr_typed_def)+

lemma alt_upds [simp]:
  "alt_recvs (s\<lparr>xrand := x\<rparr>) a = alt_recvs s a" "alt_recvs (s\<lparr>mem := m\<rparr>) a = alt_recvs s a"
  "alt_ok (s\<lparr>xrand := x\<rparr>) a = alt_ok s a" "alt_ok (s\<lparr>mem := m\<rparr>) a = alt_ok s a"
  "unqueued (s\<lparr>xrand := x\<rparr>) p = unqueued s p" "unqueued (s\<lparr>mem := m\<rparr>) p = unqueued s p"
  "sready (s\<lparr>xrand := x\<rparr>) = sready s" "rready (s\<lparr>xrand := x\<rparr>) = rready s"
  "sready (s\<lparr>mem := m\<rparr>) = sready s" "rready (s\<lparr>mem := m\<rparr>) = rready s"
  "ready_sends (s\<lparr>xrand := x\<rparr>) a = ready_sends s a" "ready_recvs (s\<lparr>xrand := x\<rparr>) a = ready_recvs s a"
  by (simp_all add: alt_recvs_def alt_ok_def unqueued_def sready_def [abs_def]
      rready_def [abs_def] ready_sends_def ready_recvs_def)

lemma waits_upds [simp]:
  "waits_recv (s\<lparr>xrand := x\<rparr>) = waits_recv s" "waits_recv (s\<lparr>mem := m\<rparr>) = waits_recv s"
  "waits_send (s\<lparr>xrand := x\<rparr>) = waits_send s" "waits_send (s\<lparr>mem := m\<rparr>) = waits_send s"
  by (intro ext; simp add: waits_recv_def waits_send_def split: pstate.split)+

lemma dis_inv_upds:
  assumes "dis_inv s"
  shows "dis_inv (s\<lparr>xrand := x\<rparr>)" "dis_inv (s\<lparr>mem := m\<rparr>)"
  using dis_invD(4) [OF assms] dis_invD(8) [OF assms]
  by (intro dis_inv_data [OF assms]; auto simp: data_inv_def)+

lemma xecalt_send:
  assumes inv: "dis_inv s" and p: "runhd s = Some p" and ok: "alt_ok s a" "\<not> alt_nil a"
  defines "n \<equiv> length (ready_sends s a) + length (ready_recvs s a)"
  assumes k: "pick_index s n < length (ready_sends s a)"
  shows "\<exists>i < length (al_sends a). ac_c (al_sends a ! i) = Ch (ready_sends s a ! pick_index s n)
    \<and> xecalt b a rd s = isend (Some (ready_sends s a ! pick_index s n)) (ac_ptr (al_sends a ! i))
        (put_mem rd (int i) (s\<lparr>xrand := next_rand (xrand s)\<rparr>))"
proof -
  note wf = dis_invD(3) [OF inv] and un = unqueued_inv [OF inv run_ready [OF inv p]]
  let ?c = "ready_sends s a ! pick_index s n" and ?s0 = "s\<lparr>xrand := next_rand (xrand s)\<rparr>"
  let ?s1 = "alt_mark a p ?s0"
  have n0: "n \<noteq> 0" using k unfolding n_def by (cases "ready_sends s a") auto
  have wf1: "wfqs ?s1" using wf un by (simp add: wfqs_alt_mark)
  have f1: "filter (sready ?s1) (send_chans (al_sends a)) = ready_sends s a"
    using ready_marked(1) [of ?s0 a p] ok by simp
  obtain i where i: "i < length (al_sends a)" "ac_c (al_sends a ! i) = Ch ?c"
    "altcomm_send rd (pick_index s n) 0 (al_sends a) ?s1
       = rbind (isend (Some ?c) (ac_ptr (al_sends a ! i)) (put_mem rd (int i) ?s1)) (\<lambda>s. Inr (None, s))"
    using altcomm_send_pick [OF wf1, of "al_sends a" "pick_index s n" rd 0] ok k
    unfolding f1 by (auto simp: alt_ok_def alt_nil_def)
  have cs: "?c \<in> alt_sends a" "sready s ?c"
    using nth_mem [OF k] by (auto simp: ready_sends_def alt_sends_def)
  have rdy: "altrdy a p s = Inr (n, alt_mark a p s)"
    using altrdy_eq [OF wf un ok(1)] ok(2) by (simp add: n_def)
  have "xecalt b a rd s = rbind (altcomm a rd (pick_index s n) ?s1) (altdone a p None (- 1))"
    using rdy p n0
    by (simp add: xecalt_def currun_def pick_index_def next_rand_def Let_def alt_mark_upds)
  also have "\<dots> = rbind (isend (Some ?c) (ac_ptr (al_sends a ! i))
      (alt_mark a p (put_mem rd (int i) ?s0))) (altdone a p None (- 1))"
    using i(3) by (simp add: altcomm_def rbind_assoc alt_mark_settle)
  also have "\<dots> = isend (Some ?c) (ac_ptr (al_sends a ! i)) (put_mem rd (int i) ?s0)"
  proof (rule isend_marked)
    show "peer_recv (put_mem rd (int i) ?s0) ?c x" if "rq (put_mem rd (int i) ?s0) ?c = x # xs" for x xs
    proof -
      have "waits_recv s x ?c" using dis_invD(6) [OF inv, of x ?c] that by (simp add: put_mem_def)
      then have "peer_recv s ?c x" by (rule peer_recv_inv [OF inv])
      then show ?thesis by (simp add: peer_recv_def alt_recv_hit_def put_mem_def cong: if_cong)
    qed
  qed (use wf un ok cs dis_invD(8) [OF inv] in \<open>simp_all add: put_mem_def\<close>)
  finally show ?thesis using i(1,2) by blast
qed

lemma xecalt_recv:
  assumes inv: "dis_inv s" and p: "runhd s = Some p" and ok: "alt_ok s a" "\<not> alt_nil a"
  defines "n \<equiv> length (ready_sends s a) + length (ready_recvs s a)"
  defines "k \<equiv> pick_index s n - length (ready_sends s a)"
  assumes k: "length (ready_sends s a) \<le> pick_index s n" "0 < n"
  shows "\<exists>i < length (al_recvs a). \<exists>dst m.
      recv_pick s rd (length (al_sends a) + i) (al_recvs a ! i) (ready_recvs s a ! k) dst m
    \<and> xecalt b a rd s = irecv (Some (ready_recvs s a ! k)) dst
        (s\<lparr>xrand := next_rand (xrand s), mem := m\<rparr>)"
proof -
  note wf = dis_invD(3) [OF inv] and un = unqueued_inv [OF inv run_ready [OF inv p]]
  let ?c = "ready_recvs s a ! k" and ?s0 = "s\<lparr>xrand := next_rand (xrand s)\<rparr>"
  let ?s1 = "alt_mark a p ?s0"
  have kl: "k < length (ready_recvs s a)"
  proof -
    have "pick_index s n < n" using k(2) by (simp add: pick_index_def)
    then show ?thesis using k(1) by (simp add: k_def n_def)
  qed
  have wf1: "wfqs ?s1" using wf un by (simp add: wfqs_alt_mark)
  have f1: "filter (sready ?s1) (send_chans (al_sends a)) = ready_sends s a"
    "filter (rready ?s1) (recv_chans (arrays ?s1) (al_recvs a)) = ready_recvs s a"
    using ready_marked [of ?s0 a p] ok by simp_all
  have pass: "altcomm_send rd (pick_index s n) 0 (al_sends a) ?s1 = Inr (Some (k, length (al_sends a)), ?s1)"
    using altcomm_send_pass [OF wf1, of "al_sends a" "pick_index s n" rd 0] ok k(1)
    unfolding f1 by (simp add: alt_ok_def alt_nil_def k_def)
  have typed: "\<forall>ac \<in> set (al_recvs a). arr_typed ?s1 ac"
    using ok(1) by (simp add: alt_ok_def)
  have nn: "\<not> has_nil (al_recvs a)" using ok(2) by (simp add: alt_nil_def)
  obtain i dst m where i: "i < length (al_recvs a)"
    "recv_pick ?s1 rd (length (al_sends a) + i) (al_recvs a ! i) ?c dst m"
    "altcomm_recv rd k (length (al_sends a)) (al_recvs a) ?s1 = irecv (Some ?c) dst (?s1\<lparr>mem := m\<rparr>)"
    using altcomm_recv_pick [OF wf1 nn typed, of k rd "length (al_sends a)"] kl unfolding f1 by auto
  have cs: "?c \<in> alt_recvs s a" "rready s ?c"
    using nth_mem [OF kl] by (auto simp: ready_recvs_def alt_recvs_def)
  have rdy: "altrdy a p s = Inr (n, alt_mark a p s)"
    using altrdy_eq [OF wf un ok(1)] ok(2) by (simp add: n_def)
  have "xecalt b a rd s = rbind (altcomm a rd (pick_index s n) ?s1) (altdone a p None (- 1))"
    using rdy p k(2)
    by (simp add: xecalt_def currun_def pick_index_def next_rand_def Let_def alt_mark_upds)
  also have "\<dots> = rbind (irecv (Some ?c) dst (alt_mark a p (?s0\<lparr>mem := m\<rparr>))) (altdone a p None (- 1))"
    using pass i(3) by (simp add: altcomm_def alt_mark_upds)
  also have "\<dots> = irecv (Some ?c) dst (?s0\<lparr>mem := m\<rparr>)"
  proof (rule irecv_marked)
    show "peer_send (?s0\<lparr>mem := m\<rparr>) ?c x \<and> \<not> canput (chans (?s0\<lparr>mem := m\<rparr>) ?c)"
      if "sq (?s0\<lparr>mem := m\<rparr>) ?c = x # xs" for x xs
    proof -
      have "waits_send s x ?c" using dis_invD(7) [OF inv, of x ?c] that by simp
      then have "peer_send s ?c x" by (rule peer_send_inv [OF inv])
      moreover have "\<not> canput (chans s ?c)" using dis_invD(4) [OF inv, of ?c] that by (simp add: data_inv_def)
      ultimately show ?thesis by (simp add: peer_send_def cong: if_cong)
    qed
  qed (use wf un ok cs dis_invD(8) [OF inv] in simp_all)
  finally have "xecalt b a rd s = irecv (Some ?c) dst (?s0\<lparr>mem := m\<rparr>)" .
  moreover have "recv_pick s rd (length (al_sends a) + i) (al_recvs a ! i) ?c dst m"
    using i(2) by (simp add: recv_pick_def)
  ultimately show ?thesis using i(1) by auto
qed

end
