(* ===== verification/ChanSpec.thy ===== *)
theory ChanSpec
  imports ChanAlt
begin

text \<open>
  The scheduler and the channels as a transition system: its steps are the instructions and
  scheduler operations of the previous theories, its invariant is \<open>dis_inv\<close>.  The theory ends with
  the properties of the component.
\<close>

section \<open>An alt without a ready entry\<close>

lemma xecalt_nil:
  assumes inv: "dis_inv s" and p: "runhd s = Some p" and ok: "alt_ok s a" "alt_nil a"
  shows "xecalt b a rd s = Inl (Raised exNilref s)"
  using altrdy_eq [OF dis_invD(3) [OF inv] unqueued_inv [OF inv run_ready [OF inv p]] ok(1)] ok(2) p
  by (simp add: xecalt_def currun_def)

lemma xecalt_idle:
  assumes inv: "dis_inv s" and p: "runhd s = Some p" and ok: "alt_ok s a" "\<not> alt_nil a"
    and none: "ready_sends s a = []" "ready_recvs s a = []"
  shows "xecalt False a rd s = Inr (put_mem rd (int (al_nsend a + al_nrecv a)) s)"
proof -
  note wf = dis_invD(3) [OF inv] and un = unqueued_inv [OF inv run_ready [OF inv p]]
  let ?t = "put_mem rd (int (al_nsend a + al_nrecv a)) s"
  have "altdone a p None (- 1) (alt_mark a p ?t) = Inr ?t"
    by (rule altdone_alt_mark) (use wf un ok in \<open>simp_all add: put_mem_def\<close>)
  then show ?thesis
    using altrdy_eq [OF wf un ok(1)] ok(2) none p
    by (simp add: xecalt_def currun_def alt_mark_settle)
qed

lemma xecalt_blocks:
  assumes inv: "dis_inv s" and p: "runhd s = Some p" and ok: "alt_ok s a" "\<not> alt_nil a"
    and none: "ready_sends s a = []" "ready_recvs s a = []"
  obtains t where "xecalt True a rd s = Inr t" "dis_inv t" "pr_state (progs t p) = Palt"
    "pr_Rs (progs t p) = a" "pr_Rd (progs t p) = rd" "mem t = mem s" "arrays t = arrays s"
proof -
  note wf = dis_invD(3) [OF inv] and un = unqueued_inv [OF inv run_ready [OF inv p]]
  obtain ps where ps: "runq s (p # ps)" by (rule dis_inv_run [OF inv p])
  let ?s1 = "alt_mark a p s"
  have "runq ?s1 (p # ps)" using ps by (simp add: alt_mark_def)
  then obtain u where u: "delrun Palt ?s1 = Inr (p, u)" "runq u ps" "body u = body (set_state Palt p ?s1)"
    by (rule delrun_runq)
  let ?t = "(upd_prog p (\<lambda>r. r\<lparr>pr_Rs := a, pr_Rd := rd\<rparr>) u)\<lparr>RIC := 1, Rt := 1\<rparr>"
  note uf = body_fields [OF u(3)] and ub = body_chans [OF u(3)]
  have ct: "chans ?t = chans ?s1" and same: "arrays ?t = arrays s" "nchan ?t = nchan s" "mem ?t = mem s"
    using ub by (simp_all add: set_state_def)
  have st: "pr_state (progs ?t p) = Palt" "pr_Rs (progs ?t p) = a" "pr_Rd (progs ?t p) = rd"
      "pr_addrun (progs ?t p) = None"
    using uf [of p] dis_invD(9) [OF inv] by (simp_all add: set_state_def)
  have ar: "alt_recvs ?t b = alt_recvs s b" for b using same(1) by (simp add: alt_recvs_def)
  have w: "waits_recv ?t p c \<longleftrightarrow> c \<in> alt_recvs s a" "waits_send ?t p c \<longleftrightarrow> c \<in> alt_sends a" for c
    using st ar by (simp_all add: waits_recv_def waits_send_def)
  have "dis_inv ?t"
  proof (rule dis_inv_block [OF inv ps])
    show "runq ?t ps" using u(2) by (simp add: runq_upd)
    show "pr_state (progs ?t p) \<noteq> Pready" using st by simp
    have "alt_ok ?t a" by (rule alt_ok_cong [of _ s]) (use same ct ok in simp_all)
    then show "prog_inv ?t p" using st by (simp add: prog_inv_def)
    show "arrays ?t = arrays s" "nchan ?t = nchan s" by (fact same)+
    fix c
    show "bufpart (chans ?t c) = bufpart (chans s c)" unfolding ct by (simp add: alt_mark_def)
    show "ch_recv (chans ?t c) = qrep (rq s c @ (if waits_recv ?t p c then [p] else []))"
      "ch_send (chans ?t c) = qrep (sq s c @ (if waits_send ?t p c then [p] else []))"
      unfolding ct w using wfqsD(1,2) [OF wf, of c] by (simp_all add: alt_mark_def rq_def sq_def)
    show "sq s c = [] \<and> \<not> waits_send ?t p c \<and> \<not> canget (chans s c) \<and> c < nchan s"
      if "waits_recv ?t p c"
    proof -
      have c: "c \<in> alt_recvs s a" using that w by simp
      then have "\<not> rready s c" using none(2) by (simp add: ready_recvs_def alt_recvs_def filter_empty_conv)
      then show ?thesis using c ok(1) w by (auto simp: rready_def alt_ok_def)
    qed
    show "rq s c = [] \<and> \<not> canput (chans s c) \<and> c < nchan s" if "waits_send ?t p c"
    proof -
      have c: "c \<in> alt_sends a" using that w by simp
      then have "\<not> sready s c" using none(1) by (simp add: ready_sends_def alt_sends_def filter_empty_conv)
      then show ?thesis using c ok(1) by (auto simp: sready_def alt_ok_def)
    qed
    fix q
    assume "q \<noteq> p"
    then show "pr_state (progs ?t q) = pr_state (progs s q) \<and> pr_chan (progs ?t q) = pr_chan (progs s q)
        \<and> pr_ptr (progs ?t q) = pr_ptr (progs s q) \<and> pr_Rs (progs ?t q) = pr_Rs (progs s q)
        \<and> pr_addrun (progs ?t q) = pr_addrun (progs s q)"
      using uf [of q] by (simp add: set_state_def)
  qed
  moreover have "xecalt True a rd s = Inr ?t"
    using altrdy_eq [OF wf un ok(1)] ok(2) none p u(1) by (simp add: xecalt_def currun_def)
  ultimately show thesis using that st same(1,3) by blast
qed

lemma xecalt_inv:
  assumes inv: "dis_inv s" and p: "runhd s = Some p" and ok: "alt_ok s a"
  shows "(\<exists>t. xecalt b a rd s = Inr t \<and> dis_inv t) \<or> xecalt b a rd s = Inl (Raised exNilref s)"
proof (cases "alt_nil a")
  case True
  then show ?thesis using xecalt_nil [OF inv p ok] by simp
next
  case nn: False
  let ?n = "length (ready_sends s a) + length (ready_recvs s a)"
  have live: "c < nchan s" if "c \<in> set (ready_sends s a) \<union> set (ready_recvs s a)" for c
    using that ok by (auto simp: ready_sends_def ready_recvs_def alt_ok_def alt_sends_def alt_recvs_def)
  consider (none) "?n = 0" | (snd) "pick_index s ?n < length (ready_sends s a)"
    | (rcv) "0 < ?n" "length (ready_sends s a) \<le> pick_index s ?n" by linarith
  then show ?thesis
  proof cases
    case none
    then have e: "ready_sends s a = []" "ready_recvs s a = []" by auto
    show ?thesis
    proof (cases b)
      case True
      then show ?thesis using xecalt_blocks [OF inv p ok nn e, of rd] by (metis True)
    next
      case False
      then show ?thesis
        using xecalt_idle [OF inv p ok nn e, of rd] dis_inv_upds(2) [OF inv] by (simp add: put_mem_def)
    qed
  next
    case snd
    obtain i where i: "xecalt b a rd s = isend (Some (ready_sends s a ! pick_index s ?n))
        (ac_ptr (al_sends a ! i)) (put_mem rd (int i) (s\<lparr>xrand := next_rand (xrand s)\<rparr>))"
      using xecalt_send [OF inv p ok nn snd] by blast
    let ?u = "put_mem rd (int i) (s\<lparr>xrand := next_rand (xrand s)\<rparr>)"
    have "dis_inv ?u" using dis_inv_upds(2) [OF dis_inv_upds(1) [OF inv]] by (simp add: put_mem_def)
    then show ?thesis
      using isend_inv [of ?u p "ready_sends s a ! pick_index s ?n"] i p live nth_mem [OF snd] by auto
  next
    case rcv
    obtain dst m where i: "xecalt b a rd s = irecv (Some (ready_recvs s a ! (pick_index s ?n - length (ready_sends s a))))
        dst (s\<lparr>xrand := next_rand (xrand s), mem := m\<rparr>)"
      using xecalt_recv [OF inv p ok nn rcv(2,1)] by blast
    have "pick_index s ?n < ?n" using rcv(1) by (simp add: pick_index_def)
    then have k: "pick_index s ?n - length (ready_sends s a) < length (ready_recvs s a)" using rcv(2) by simp
    let ?u = "s\<lparr>xrand := next_rand (xrand s), mem := m\<rparr>"
    have "dis_inv ?u" using dis_inv_upds(2) [OF dis_inv_upds(1) [OF inv]] .
    then show ?thesis using irecv_inv [of ?u p _ dst] i p live nth_mem [OF k] by auto
  qed
qed

section \<open>Scheduler steps, exceptions and new channels keep the invariant\<close>

lemma dis_inv_cong:
  assumes inv: "dis_inv s"
    and fields: "\<And>q. pr_state (progs t q) = pr_state (progs s q) \<and> pr_chan (progs t q) = pr_chan (progs s q)
        \<and> pr_ptr (progs t q) = pr_ptr (progs s q) \<and> pr_Rs (progs t q) = pr_Rs (progs s q)
        \<and> pr_addrun (progs t q) = pr_addrun (progs s q)"
    and same: "arrays t = arrays s" "nchan t = nchan s" "chans t = chans s" and sched: "sched_inv t"
  shows "dis_inv t"
proof -
  note q = queues_cong [OF same(3)]
  have w: "waits_recv t p c = waits_recv s p c" "waits_send t p c = waits_send s p c" for p c
    using fields [of p] same(1) by (simp_all add: waits_recv_def waits_send_def alt_recvs_def split: pstate.split)
  have ok: "alt_ok s a \<Longrightarrow> alt_ok t a" for a by (rule alt_ok_cong) (use same in auto)
  show ?thesis
  proof (rule dis_inv_change [OF inv, of 0])
    show "prog_inv t 0" using dis_invD(5) [OF inv, of 0] fields [of 0] ok by (auto simp: prog_inv_def)
    show "data_inv t c" for c using dis_invD(4) [OF inv, of c] q same by (simp add: data_inv_def)
    show "wfqs t" using q dis_invD(3) [OF inv] by simp
    show "r \<in> set (rq t c) \<longleftrightarrow> r \<in> set (rq s c)" "r \<in> set (sq t c) \<longleftrightarrow> r \<in> set (sq s c)" for r c
      using q by simp_all
    show "0 \<in> set (rq t c) \<longleftrightarrow> waits_recv t 0 c" "0 \<in> set (sq t c) \<longleftrightarrow> waits_send t 0 c" for c
      using q w dis_invD(6,7) [OF inv, of 0 c] by simp_all
  qed (simp_all add: fields same sched)
qed

lemma dis_inv_body:
  assumes inv: "dis_inv s" and b: "body t = body s" and run: "runq s xs" "runq t ys" "set ys = set xs"
  shows "dis_inv t"
proof -
  note f = body_fields [OF b] and c = body_chans [OF b]
  have "\<forall>p. p \<in> set ys \<longleftrightarrow> pr_state (progs t p) = Pready"
  proof -
    obtain zs where "runq s zs" "\<And>p. p \<in> set zs \<longleftrightarrow> pr_state (progs s p) = Pready"
      using dis_invD(1) [OF inv] by (auto simp: sched_inv_def)
    then show ?thesis using runq_unique [OF run(1)] run(3) f(1) by auto
  qed
  then have "sched_inv t" unfolding sched_inv_def using run(2) by blast
  then show ?thesis by (rule dis_inv_cong [OF inv, rotated -1]) (use f c in auto)
qed

lemma rotate_inv:
  assumes inv: "dis_inv s" and r: "runhd s = Some r"
  obtains t where "rotate_run r s = Inr t" "dis_inv t"
proof -
  obtain ps where ps: "runq s (r # ps)" by (rule dis_inv_run [OF inv r])
  then obtain t where t: "rotate_run r s = Inr t" "runq t (ps @ [r])" "body t = body s"
    by (rule rotate_runq)
  have "dis_inv t" by (rule dis_inv_body [OF inv t(3) ps t(2)]) auto
  then show thesis using that t(1) by blast
qed

text \<open>A prog that is not on any queue changes between running and being released.\<close>

lemma dis_inv_restate:
  assumes inv: "dis_inv s" and b: "body t = body (set_state st p s)"
    and old: "pr_state (progs s p) \<in> {Pready, Prelease}" and new: "st \<in> {Pready, Prelease}"
    and run: "runq t ys" "\<And>q. q \<in> set ys \<longleftrightarrow> (if q = p then st = Pready else pr_state (progs s q) = Pready)"
  shows "dis_inv t"
proof -
  note f = body_fields [OF b] and c = body_chans [OF b]
  have ch: "chans t = chans s" using c by (simp add: set_state_def)
  note q = queues_cong [OF ch]
  have st: "pr_state (progs t r) = (if r = p then st else pr_state (progs s r))" for r
    using f(1) by (simp add: set_state_def)
  have none: "p \<notin> set (rq s c)" "p \<notin> set (sq s c)" for c
    using dis_invD(6,7) [OF inv, of p c] waits_not_ready [of s p c] old by auto
  have w: "\<not> waits_recv t p c" "\<not> waits_send t p c" for c
    using st new waits_not_ready [of t p c] by auto
  show ?thesis
  proof (rule dis_inv_change [OF inv, of p])
    show "prog_inv t p" using st new f(5) [of p] dis_invD(9) [OF inv, of p] by (auto simp: prog_inv_def set_state_def)
    have "\<forall>r. r \<in> set ys \<longleftrightarrow> pr_state (progs t r) = Pready" using run(2) st by simp
    then show "sched_inv t" unfolding sched_inv_def using run(1) by blast
    show "data_inv t c" for c using dis_invD(4) [OF inv, of c] q ch c by (simp add: data_inv_def set_state_def)
    show "arrays t = arrays s" "nchan t = nchan s" using c by (simp_all add: set_state_def)
    fix r
    assume "r \<noteq> p"
    then show "pr_state (progs t r) = pr_state (progs s r) \<and> pr_chan (progs t r) = pr_chan (progs s r)
        \<and> pr_ptr (progs t r) = pr_ptr (progs s r) \<and> pr_Rs (progs t r) = pr_Rs (progs s r)
        \<and> pr_addrun (progs t r) = pr_addrun (progs s r)"
      using f [of r] by (simp add: set_state_def)
  next
    show "wfqs t" using q dis_invD(3) [OF inv] by simp
    show "r \<in> set (rq t c) \<longleftrightarrow> r \<in> set (rq s c)" "r \<in> set (sq t c) \<longleftrightarrow> r \<in> set (sq s c)" for r c
      using q by simp_all
    show "p \<in> set (rq t c) \<longleftrightarrow> waits_recv t p c" "p \<in> set (sq t c) \<longleftrightarrow> waits_send t p c" for c
      using q w none by simp_all
  qed (simp add: ch)
qed

lemma release_inv:
  assumes inv: "dis_inv s" and p: "runhd s = Some p"
  obtains t where "delrun Prelease s = Inr (p, t)" "dis_inv t"
proof -
  obtain ps where ps: "runq s (p # ps)" "\<And>q. q \<in> set (p # ps) \<longleftrightarrow> pr_state (progs s q) = Pready"
    by (rule dis_inv_run [OF inv p]) (rule that)
  obtain t where t: "delrun Prelease s = Inr (p, t)" "runq t ps" "body t = body (set_state Prelease p s)"
    by (rule delrun_runq [OF ps(1)])
  have "p \<notin> set ps" using ps(1) by (simp add: runq_def)
  then have mem: "q \<in> set ps \<longleftrightarrow> (if q = p then Prelease = Pready else pr_state (progs s q) = Pready)" for q
    using ps(2) [of q] by (cases "q = p") simp_all
  have "dis_inv t"
    by (rule dis_inv_restate [OF inv t(3) _ _ t(2) mem]) (simp_all add: run_ready [OF inv p])
  then show thesis using that t(1) by blast
qed

lemma acquire_inv:
  assumes inv: "dis_inv s" and p: "pr_state (progs s p) = Prelease"
  obtains t where "pushrun p s = Inr t" "dis_inv t"
proof -
  obtain xs where xs: "runq s xs" "\<And>q. q \<in> set xs \<longleftrightarrow> pr_state (progs s q) = Pready"
    using dis_invD(1) [OF inv] by (auto simp: sched_inv_def)
  have x: "p \<notin> set xs" using xs(2) p by simp
  obtain t where t: "pushrun p s = Inr t" "runq t (p # xs)" "body t = body (set_state Pready p s)"
    by (rule pushrun_runq [OF xs(1) x dis_invD(9) [OF inv]])
  have mem: "q \<in> set (p # xs) \<longleftrightarrow> (if q = p then Pready = Pready else pr_state (progs s q) = Pready)" for q
    using xs(2) [of q] by simp
  have "dis_inv t"
    by (rule dis_inv_restate [OF inv t(3) _ _ t(2) mem]) (simp_all add: p)
  then show thesis using that t(1) by blast
qed

text \<open>What \<open>exprog\<close> does to the queues: the prog leaves all of them.\<close>

definition unwait :: "pid \<Rightarrow> dis \<Rightarrow> cid \<Rightarrow> channel \<Rightarrow> channel" where
  "unwait p s d ch = ch\<lparr>ch_recv := qrep (removeAll p (rq s d)), ch_send := qrep (removeAll p (sq s d))\<rparr>"

lemma unwait_keep:
  assumes "wfqs s" "p \<notin> set (rq s d)" "p \<notin> set (sq s d)"
  shows "unwait p s d (chans s d) = chans s d"
  using wfqsD(1,2) [OF assms(1), of d] assms(2,3) by (simp add: unwait_def removeAll_absent)

lemma unwait_parts:
  assumes "dis_inv s"
  shows "pr_state (progs s p) = Palt \<Longrightarrow>
      altdone (pr_Rs (progs s p)) p None (- 1) s = Inr (map_chans (unwait p s) s)"
    "pr_state (progs s p) = Psend \<Longrightarrow> pr_chan (progs s p) = Some c \<Longrightarrow>
      rbind (cqdelp (ch_send (chans s c)) p) (\<lambda>q. Inr (set_chq True c q s)) = Inr (map_chans (unwait p s) s)"
    "pr_state (progs s p) = Precv \<Longrightarrow> pr_chan (progs s p) = Some c \<Longrightarrow>
      rbind (cqdelp (ch_recv (chans s c)) p) (\<lambda>q. Inr (set_chq False c q s)) = Inr (map_chans (unwait p s) s)"
proof -
  note wf = dis_invD(3) [OF assms] and q = wfqsD [OF wf]
  note mem = dis_invD(6,7) [OF assms, of p]
  show "altdone (pr_Rs (progs s p)) p None (- 1) s = Inr (map_chans (unwait p s) s)"
    if st: "pr_state (progs s p) = Palt"
  proof -
    have "no_arr (al_sends (pr_Rs (progs s p)))"
      using dis_invD(5) [OF assms, of p] st by (simp add: prog_inv_def alt_ok_def)
    then have "altdone (pr_Rs (progs s p)) p None (- 1) s = Inr (unlink_alt (pr_Rs (progs s p)) p s)"
      by (rule altdone_strip [OF wf])
    also have "unlink_alt (pr_Rs (progs s p)) p s = map_chans (unwait p s) s"
      unfolding unlink_map
    proof (rule map_chans_cong)
      fix d
      show "unmark p (alt_recvs s (pr_Rs (progs s p))) (alt_sends (pr_Rs (progs s p))) d (chans s d)
          = unwait p s d (chans s d)"
        using mem [of d] q(1,2) [of d] st
        by (intro channel_eqI)
          (auto simp: unwait_def bufpart_def unmark_def cut_recv_def cut_send_def waits_recv_def
            waits_send_def removeAll_absent rq_def [symmetric] sq_def [symmetric])
    qed
    finally show ?thesis .
  qed
  show "rbind (cqdelp (ch_send (chans s c)) p) (\<lambda>q. Inr (set_chq True c q s)) = Inr (map_chans (unwait p s) s)"
    if st: "pr_state (progs s p) = Psend" "pr_chan (progs s p) = Some c"
  proof -
    have "map_chans (\<lambda>d ch. if d = c then ch\<lparr>ch_send := qrep (removeAll p (sq s c))\<rparr> else ch) s
        = map_chans (unwait p s) s"
    proof (rule map_chans_cong)
      fix d
      show "(if d = c then (chans s d)\<lparr>ch_send := qrep (removeAll p (sq s c))\<rparr> else chans s d)
          = unwait p s d (chans s d)"
        using mem [of d] q(1,2) [of d] st
        by (intro channel_eqI)
          (auto simp: unwait_def bufpart_def waits_recv_def waits_send_def removeAll_absent)
    qed
    then show ?thesis using q(1,3) [of c] by (simp add: set_chq_def upd_chan_map)
  qed
  show "rbind (cqdelp (ch_recv (chans s c)) p) (\<lambda>q. Inr (set_chq False c q s)) = Inr (map_chans (unwait p s) s)"
    if st: "pr_state (progs s p) = Precv" "pr_chan (progs s p) = Some c"
  proof -
    have "map_chans (\<lambda>d ch. if d = c then ch\<lparr>ch_recv := qrep (removeAll p (rq s c))\<rparr> else ch) s
        = map_chans (unwait p s) s"
    proof (rule map_chans_cong)
      fix d
      show "(if d = c then (chans s d)\<lparr>ch_recv := qrep (removeAll p (rq s c))\<rparr> else chans s d)
          = unwait p s d (chans s d)"
        using mem [of d] q(1,2) [of d] st
        by (intro channel_eqI)
          (auto simp: unwait_def bufpart_def waits_recv_def waits_send_def removeAll_absent)
    qed
    then show ?thesis using q(2,4) [of c] by (simp add: set_chq_def upd_chan_map)
  qed
qed

lemma set_kill_inv:
  assumes "dis_inv s"
  shows "dis_inv (upd_prog p (\<lambda>r. r\<lparr>pr_kill := k\<rparr>) s)"
proof (rule dis_inv_cong [OF assms])
  have "runq (upd_prog p (\<lambda>r. r\<lparr>pr_kill := k\<rparr>) s) = runq s" by (rule ext) (simp add: runq_upd)
  then show "sched_inv (upd_prog p (\<lambda>r. r\<lparr>pr_kill := k\<rparr>) s)"
    using dis_invD(1) [OF assms] by (auto simp: sched_inv_def)
qed auto

lemma exprog_waiting:
  assumes inv: "dis_inv s" and st: "pr_state (progs s p) \<in> {Psend, Precv, Palt}"
  obtains t where "exprog p exc s = Inr (1, t)" "dis_inv t" "pr_state (progs t p) = Pready"
    "unqueued t p" "pr_kill (progs t p)
      = (if pr_kill (progs s p) = None then Some (kstrcpy exc ERRMAX) else pr_kill (progs s p))"
    "\<And>c. rq t c = removeAll p (rq s c) \<and> sq t c = removeAll p (sq s c)"
proof -
  have bp: "bufpart (unwait p s d (chans s d)) = bufpart (chans s d)" for d
    by (simp add: unwait_def bufpart_def)
  obtain t' where t': "wake p s = Inr t'" "dis_inv (map_chans (unwait p s) t')"
      "body t' = body ((set_state Pready p s)\<lparr>Rt := 0\<rparr>)"
    by (rule dis_inv_wake [OF inv st refl refl refl, of "unwait p s"])
      (use ring_bufpart [OF bp] bufpartD [OF bp] dis_invD(8) [OF inv] in \<open>auto simp: unwait_def\<close>)
  obtain t where t: "addrun p s = Inr t" "t' = t\<lparr>Rt := 0\<rparr>"
    using t'(1) by (auto simp: wake_def rbind_eq_Inr_iff)
  let ?t = "map_chans (unwait p s) t"
  let ?k = "\<lambda>u. if pr_kill (progs u p) = None
      then upd_prog p (\<lambda>r. r\<lparr>pr_kill := Some (kstrcpy exc ERRMAX)\<rparr>) u else u"
  have eq: "?t\<lparr>Rt := 0\<rparr> = map_chans (unwait p s) t'" using t(2) by (simp add: map_chans_commute)
  have inv': "dis_inv ?t"
  proof (rule dis_inv_cong [of "?t\<lparr>Rt := 0\<rparr>"])
    show "dis_inv (?t\<lparr>Rt := 0\<rparr>)" using t'(2) eq by simp
    then show "sched_inv ?t" using dis_invD(1) by (fastforce simp: sched_inv_def)
  qed simp_all
  have ready: "pr_state (progs t p) = Pready" and kill: "pr_kill (progs t p) = pr_kill (progs s p)"
    using body_fields(1,4) [OF t'(3), of p] t(2) by (simp_all add: set_state_def)
  have ch: "pr_chan (progs s p) \<noteq> None" if "pr_state (progs s p) \<in> {Psend, Precv}"
    using dis_invD(5) [OF inv, of p] that by (auto simp: prog_inv_def)
  have run: "rbind (addrun p (map_chans (unwait p s) s)) (\<lambda>s. Inr (1, ?k s)) = Inr (1 :: nat, ?k ?t)"
    by (simp add: addrun_map t(1))
  have "exprog p exc s = Inr (1, ?k ?t)"
  proof (cases "pr_state (progs s p)")
    case Palt
    then show ?thesis using unwait_parts(1) [OF inv Palt] run by (simp add: exprog_def Let_def)
  next
    case Psend
    then obtain d where "pr_chan (progs s p) = Some d" using ch by auto
    then show ?thesis
      using unwait_parts(2) [OF inv Psend] Psend run by (simp add: exprog_def Let_def)
  next
    case Precv
    then obtain d where "pr_chan (progs s p) = Some d" using ch by auto
    then show ?thesis
      using unwait_parts(3) [OF inv Precv] Precv run by (simp add: exprog_def Let_def)
  qed (use st in simp_all)
  moreover have "dis_inv (?k ?t)" using inv' set_kill_inv by simp
  moreover have "pr_state (progs (?k ?t) p) = Pready" using ready by simp
  moreover have "unqueued (?k ?t) p"
    using unqueued_inv [OF inv', of p] ready by (simp add: unqueued_def)
  moreover have "pr_kill (progs (?k ?t) p)
      = (if pr_kill (progs s p) = None then Some (kstrcpy exc ERRMAX) else pr_kill (progs s p))"
    using kill by simp
  moreover have "rq (?k ?t) c = removeAll p (rq s c) \<and> sq (?k ?t) c = removeAll p (sq s c)" for c
    by (simp add: rq_def sq_def) (simp add: unwait_def rq_def sq_def addrun_chans [OF t(1)])
  ultimately show thesis by (rule that)
qed

lemma exprog_inv:
  assumes inv: "dis_inv s"
  obtains n t where "exprog p exc s = Inr (n, t)" "dis_inv t"
proof (cases "pr_state (progs s p) \<in> {Psend, Precv, Palt}")
  case True
  then show thesis using exprog_waiting [OF inv True, of exc] that by blast
next
  case False
  show thesis
  proof (cases "pr_state (progs s p) \<in> {Pexiting, Pbroken, Pdebug}")
    case True
    then have "exprog p exc s = Inr (0, s)" by (simp add: exprog_def Let_def)
    then show thesis using inv that by blast
  next
    case stay: False
    let ?t = "if pr_kill (progs s p) = None
      then upd_prog p (\<lambda>r. r\<lparr>pr_kill := Some (kstrcpy exc ERRMAX)\<rparr>) s else s"
    have "pr_state (progs s p) \<in> {Pready, Prelease}"
      using False stay by (cases "pr_state (progs s p)") simp_all
    then have "exprog p exc s = Inr (1, ?t)" by (auto simp: exprog_def Let_def)
    moreover have "dis_inv ?t" using inv set_kill_inv by simp
    ultimately show thesis using that by blast
  qed
qed

lemma add_chan_inv:
  assumes inv: "dis_inv s" and ch: "ch_send ch = [None]" "ch_recv ch = [None]" "ring_ok ch"
  shows "dis_inv (s\<lparr>chans := (chans s)(nchan s := ch), nchan := Suc (nchan s)\<rparr>)"
proof -
  let ?t = "s\<lparr>chans := (chans s)(nchan s := ch), nchan := Suc (nchan s)\<rparr>"
  have n: "[None] = qrep []" by (simp add: qrep_def)
  have old: "rq s (nchan s) = []" "sq s (nchan s) = []"
    using dis_invD(4) [OF inv, of "nchan s"] by (simp_all add: data_inv_def)
  have rq: "rq ?t d = rq s d" and sq: "sq ?t d = sq s d" for d
    using ch old n by (simp_all add: rq_def sq_def)
  have w: "waits_recv ?t q d = waits_recv s q d" "waits_send ?t q d = waits_send s q d" for q d
    by (simp_all add: waits_recv_def waits_send_def alt_recvs_def split: pstate.split)
  have "alt_ok s a \<Longrightarrow> alt_ok ?t a" for a by (rule alt_ok_cong) auto
  then have "prog_inv ?t q" for q using dis_invD(5) [OF inv, of q] by (auto simp: prog_inv_def)
  moreover have "sched_inv ?t"
  proof -
    have "runq ?t = runq s" by (rule ext) (simp add: runq_def)
    then show ?thesis using dis_invD(1) [OF inv] by (simp add: sched_inv_def)
  qed
  moreover have "data_inv ?t d" for d
    using dis_invD(4) [OF inv, of d] ch old by (auto simp: data_inv_def rq sq)
  moreover have "wfqs ?t"
    unfolding wfqs_def rq sq using wfqsD [OF dis_invD(3) [OF inv]] ch old n by simp
  ultimately show ?thesis
    using dis_invD(6,7) [OF inv] by (simp add: dis_inv_def wait_inv_def rq sq w)
qed

lemma newc_inv:
  assumes inv: "dis_inv s" and new: "newc junk ty mv m s = Inr (c, t)"
  shows "dis_inv t" "c = nchan s"
proof -
  obtain len where t: "cnewc junk ty mv len s = (c, t)"
    using new by (auto simp: newc_def split: option.splits if_splits)
  let ?ch = "\<lparr>ch_buf = (if len > 0 then Some (map junk [0..<len]) else None), ch_type = ty,
                ch_send = [None], ch_recv = [None], ch_mover = mv,
                ch_mid = (if mv = Movtmp then MidT ty else Stale), ch_front = 0, ch_size = 0\<rparr>"
  have "t = s\<lparr>chans := (chans s)(nchan s := ?ch), nchan := nchan s + 1\<rparr>" and c: "c = nchan s"
    using t by (auto simp: cnewc_def Let_def)
  moreover have "ring_ok ?ch" by (simp add: ring_ok_def)
  ultimately show "dis_inv t" using add_chan_inv [OF inv, of ?ch] by simp
  show "c = nchan s" by (fact c)
qed

section \<open>The transition system\<close>

text \<open>
  One step of the virtual machine, as far as channels and scheduling go.  The running prog sends,
  receives or executes an alt, makes a channel, stores to its memory, lets the processor go, or
  has used its quantum; a released prog comes back; an exception is posted to any prog.
\<close>

inductive dstep :: "dis \<Rightarrow> dis \<Rightarrow> bool" where
  step_send: "runhd s = Some p \<Longrightarrow> c < nchan s \<Longrightarrow> isend (Some c) src s = Inr t \<Longrightarrow> dstep s t"
| step_recv: "runhd s = Some p \<Longrightarrow> c < nchan s \<Longrightarrow> irecv (Some c) dst s = Inr t \<Longrightarrow> dstep s t"
| step_alt: "runhd s = Some p \<Longrightarrow> alt_ok s a \<Longrightarrow> xecalt b a rd s = Inr t \<Longrightarrow> dstep s t"
| step_raise: "runhd s = Some p \<Longrightarrow> alt_ok s a \<Longrightarrow> xecalt b a rd s = Inl (Raised e t) \<Longrightarrow> dstep s t"
| step_newc: "runhd s = Some p \<Longrightarrow> newc junk ty mv m s = Inr (c, t) \<Longrightarrow> dstep s t"
| step_store: "runhd s = Some p \<Longrightarrow> t = put_mem v w s \<Longrightarrow> dstep s t"
| step_rotate: "runhd s = Some p \<Longrightarrow> rotate_run p s = Inr t \<Longrightarrow> dstep s t"
| step_release: "runhd s = Some p \<Longrightarrow> delrun Prelease s = Inr (p, t) \<Longrightarrow> dstep s t"
| step_acquire: "pr_state (progs s p) = Prelease \<Longrightarrow> pushrun p s = Inr t \<Longrightarrow> dstep s t"
| step_exprog: "exprog p exc s = Inr (n, t) \<Longrightarrow> dstep s t"

inductive_cases dstepE: "dstep s t"

lemma dstep_inv:
  assumes "dstep s t" "dis_inv s"
  shows "dis_inv t"
  using assms
proof (induction rule: dstep.induct)
  case (step_send s p c src t)
  then show ?case using isend_inv [of s p c src] by auto
next
  case (step_recv s p c dst t)
  then show ?case using irecv_inv [of s p c dst] by auto
next
  case (step_alt s p a b rd t)
  then show ?case using xecalt_inv [of s p a b rd] by auto
next
  case (step_raise s p a b rd e t)
  then show ?case using xecalt_inv [of s p a b rd] by auto
next
  case (step_newc s p junk ty mv m c t)
  then show ?case using newc_inv(1) by blast
next
  case (step_store s p t v w)
  then show ?case using dis_inv_upds(2) by (simp add: put_mem_def)
next
  case (step_rotate s p t)
  then show ?case using rotate_inv [of s p] by (metis sum.inject(2))
next
  case (step_release s p t)
  then show ?case using release_inv [of s p] by (metis sum.inject(2) prod.inject)
next
  case (step_acquire s p t)
  then show ?case using acquire_inv [of s p] by (metis sum.inject(2))
next
  case (step_exprog p exc s n t)
  then show ?case using exprog_inv [of s p exc] by (metis sum.inject(2) prod.inject)
qed

lemma dsteps_inv: "dstep\<^sup>*\<^sup>* s t \<Longrightarrow> dis_inv s \<Longrightarrow> dis_inv t"
  by (induction rule: rtranclp_induct) (auto intro: dstep_inv)

end
