(* ===== verification/ChanFifo.thy ===== *)
theory ChanFifo
  imports ChanSpec
begin

text \<open>
  A channel with its buffer and its waiting progs as one queue of values.  \<open>pending\<close> is what the
  channel has to deliver: the data in its buffer, then what the waiting senders offer, plain or
  from within an alt.  The lemmas give the effect of \<open>isend\<close> and \<open>irecv\<close> on it on every branch.
\<close>

section \<open>What a waiting prog offers or asks for\<close>

text \<open>The cell of a waiting sender's value: its data pointer, or that of the entry of its alt.\<close>

definition send_cell :: "dis \<Rightarrow> cid \<Rightarrow> pid \<Rightarrow> addr" where
  "send_cell s c q = (if pr_state (progs s q) = Palt
     then ac_ptr (hd (filter (\<lambda>ac. ac_c ac = Ch c) (al_sends (pr_Rs (progs s q)))))
     else the (pr_ptr (progs s q)))"

definition offered :: "dis \<Rightarrow> cid \<Rightarrow> pid \<Rightarrow> int" where
  "offered s c q = mem s (send_cell s c q)"

definition pending :: "dis \<Rightarrow> cid \<Rightarrow> int list" where
  "pending s c = ring_items (chans s c) @ map (offered s c) (sq s c)"

text \<open>
  What a waiting prog is told when it is served: a plain one nothing, one in an alt the number of
  the entry that was served (and of the channel in an array).  \<open>m\<close> is the memory afterwards;
  \<open>dst\<close> is where a receiver wants the value.
\<close>

definition told_send :: "dis \<Rightarrow> cid \<Rightarrow> pid \<Rightarrow> (addr \<Rightarrow> int) \<Rightarrow> bool" where
  "told_send s c x m \<longleftrightarrow> (if pr_state (progs s x) = Palt
     then \<exists>i < length (al_sends (pr_Rs (progs s x))). ac_c (al_sends (pr_Rs (progs s x)) ! i) = Ch c
       \<and> m = (mem s)(pr_Rd (progs s x) := int i)
     else m = mem s)"

definition told_recv :: "dis \<Rightarrow> cid \<Rightarrow> pid \<Rightarrow> addr \<Rightarrow> (addr \<Rightarrow> int) \<Rightarrow> bool" where
  "told_recv s c x dst m \<longleftrightarrow> (if pr_state (progs s x) = Palt
     then \<exists>i < length (al_recvs (pr_Rs (progs s x))). recv_pick s (pr_Rd (progs s x))
       (length (al_sends (pr_Rs (progs s x))) + i) (al_recvs (pr_Rs (progs s x)) ! i) c dst m
     else pr_ptr (progs s x) = Some dst \<and> m = mem s)"

text \<open>The prog \<open>x\<close> is made ready and leaves every queue it is on; the other waiting progs keep their places.\<close>

definition released :: "pid \<Rightarrow> dis \<Rightarrow> dis \<Rightarrow> bool" where
  "released x s t \<longleftrightarrow> pr_state (progs t x) = Pready
     \<and> (\<forall>d. rq t d = removeAll x (rq s d) \<and> sq t d = removeAll x (sq s d))"

lemma send_hit_entry:
  "send_hit c k acs = Some (n, ptr, i) \<Longrightarrow> i = None \<and> ptr = ac_ptr (hd (filter (\<lambda>ac. ac_c ac = Ch c) acs))
     \<and> (\<exists>j < length acs. n = k + j \<and> ac_c (acs ! j) = Ch c)"
proof (induction acs arbitrary: k)
  case (Cons ac acs)
  show ?case
  proof (cases "ac_c ac = Ch c")
    case True
    then show ?thesis using Cons.prems by auto
  next
    case False
    then have "send_hit c (k + 1) acs = Some (n, ptr, i)" using Cons.prems by simp
    from Cons.IH [OF this] obtain j where "i = None" "ptr = ac_ptr (hd (filter (\<lambda>ac. ac_c ac = Ch c) acs))"
      "j < length acs" "n = k + 1 + j" "ac_c (acs ! j) = Ch c" by blast
    then show ?thesis using False by (auto intro!: exI [of _ "Suc j"])
  qed
qed simp

lemma arr_hit_entry: "arr_hit c k cs = Some n \<Longrightarrow> \<exists>j < length cs. n = k + j \<and> cs ! j = Some c"
proof (induction cs arbitrary: k)
  case (Cons x cs)
  show ?case
  proof (cases "x = Some c")
    case True
    then show ?thesis using Cons.prems by auto
  next
    case False
    then have "arr_hit c (k + 1) cs = Some n" using Cons.prems by simp
    from Cons.IH [OF this] obtain j where "j < length cs" "n = k + 1 + j" "cs ! j = Some c" by blast
    then show ?thesis by (intro exI [of _ "Suc j"]) simp
  qed
qed simp

lemma recv_hit_entry:
  "recv_hit A c k acs = Some (n, ptr, i) \<Longrightarrow> \<exists>j < length acs. n = k + j \<and> ptr = ac_ptr (acs ! j)
     \<and> (case i of None \<Rightarrow> ac_c (acs ! j) = Ch c
        | Some u \<Rightarrow> \<exists>r. ac_c (acs ! j) = ArrCh r \<and> u < length (A r) \<and> A r ! u = Some c)"
proof (induction acs arbitrary: k)
  case (Cons ac acs)
  show ?case
  proof (cases "recv_hit A c (k + 1) acs = Some (n, ptr, i)")
    case True
    from Cons.IH [OF this] obtain j where "j < length acs" "n = k + 1 + j" "ptr = ac_ptr (acs ! j)"
      "case i of None \<Rightarrow> ac_c (acs ! j) = Ch c
        | Some u \<Rightarrow> \<exists>r. ac_c (acs ! j) = ArrCh r \<and> u < length (A r) \<and> A r ! u = Some c" by blast
    then show ?thesis by (intro exI [of _ "Suc j"]) (cases i; simp)
  next
    case False
    then have "n = k \<and> ptr = ac_ptr ac \<and> (case i of None \<Rightarrow> ac_c ac = Ch c
        | Some u \<Rightarrow> \<exists>r. ac_c ac = ArrCh r \<and> u < length (A r) \<and> A r ! u = Some c)"
      using False Cons.prems arr_hit_entry [of c 0]
      by (cases "ac_c ac") (auto split: if_splits option.splits, metis option.exhaust)
    then show ?thesis by (intro exI [of _ 0]) (cases i; simp)
  qed
qed simp

lemma settle_send_told:
  assumes "peer_send s c x"
  shows "told_send s c x (mem (settle_send c x s))" "pr_ptr (progs (settle_send c x s) x) = Some (send_cell s c x)"
proof -
  have "told_send s c x (mem (settle_send c x s)) \<and> pr_ptr (progs (settle_send c x s) x) = Some (send_cell s c x)"
  proof (cases "pr_state (progs s x) = Palt")
    case True
    let ?a = "pr_Rs (progs s x)"
    obtain n ptr i where h: "send_hit c 0 (al_sends ?a) = Some (n, ptr, i)"
      using assms True by (auto simp: peer_send_def alt_send_hit_def)
    from send_hit_entry [OF h] have e: "i = None" "ptr = send_cell s c x"
      "n < length (al_sends ?a)" "ac_c (al_sends ?a ! n) = Ch c" using True by (auto simp: send_cell_def)
    then show ?thesis using True h
      by (auto simp: told_send_def settle_send_def alt_send_hit_def served_mem_def val_at_def)
  next
    case False
    then show ?thesis using assms by (auto simp: told_send_def settle_send_def send_cell_def peer_send_def)
  qed
  then show "told_send s c x (mem (settle_send c x s))"
    "pr_ptr (progs (settle_send c x s) x) = Some (send_cell s c x)" by blast+
qed

lemma settle_recv_told:
  assumes "peer_recv s c x"
  shows "\<exists>dst. pr_ptr (progs (settle_recv c x s) x) = Some dst \<and> told_recv s c x dst (mem (settle_recv c x s))"
proof (cases "pr_state (progs s x) = Palt")
  case True
  let ?a = "pr_Rs (progs s x)"
  obtain n ptr i where h: "alt_recv_hit s ?a c = Some (n, ptr, i)"
    and mid: "i \<noteq> None \<longrightarrow> (\<exists>t. ch_mid (chans s c) = MidT t)"
    using assms True by (auto simp: peer_recv_def)
  obtain j where j: "j < length (al_recvs ?a)" "n = length (al_sends ?a) + j" "ptr = ac_ptr (al_recvs ?a ! j)"
    "case i of None \<Rightarrow> ac_c (al_recvs ?a ! j) = Ch c
      | Some u \<Rightarrow> \<exists>r. ac_c (al_recvs ?a ! j) = ArrCh r \<and> u < length (arrays s r) \<and> arrays s r ! u = Some c"
    using recv_hit_entry [OF h [unfolded alt_recv_hit_def]] by blast
  show ?thesis
  proof (cases i)
    case None
    then show ?thesis using True h j
      by (intro exI [of _ ptr]) (auto simp: told_recv_def settle_recv_def served_mem_def val_at_def recv_pick_def)
  next
    case (Some u)
    then obtain t where t: "ch_mid (chans s c) = MidT t" using mid by auto
    show ?thesis using True h j Some t
      by (intro exI [of _ "ptr + altvaloff (Some t)"])
        (auto simp: told_recv_def settle_recv_def served_mem_def val_at_def recv_pick_def mid_type_def)
  qed
next
  case False
  then show ?thesis using assms by (auto simp: told_recv_def settle_recv_def peer_recv_def)
qed

section \<open>The lemmas of the property\<close>

lemma sq_map: "sq (map_chans g s) c = qpids (ch_send (g c (chans s c)))"
  "rq (map_chans g s) c = qpids (ch_recv (g c (chans s c)))"
  by (simp_all add: sq_def rq_def)

lemma no_buffer_empty: "ring_ok ch \<Longrightarrow> \<not> canget ch \<Longrightarrow> ring_items ch = []"
  using ring_items_length [of ch] by (simp add: canget_def)

lemma send_cell_cong:
  assumes "pr_state (progs t q) = pr_state (progs s q)" "pr_Rs (progs t q) = pr_Rs (progs s q)"
    "pr_ptr (progs t q) = pr_ptr (progs s q)"
  shows "send_cell t c q = send_cell s c q"
  using assms by (simp add: send_cell_def)

lemma offered_map [simp]: "offered (map_chans g t) c q = offered t c q"
  by (simp add: offered_def send_cell_def)

lemma send_appends:
  assumes inv: "dis_inv s" and p: "runhd s = Some p" and none: "rq s c = []"
  shows "\<exists>t. isend (Some c) v s = Inr t \<and> pending t c = pending s c @ [mem s v]"
proof (cases "canput (chans s c)")
  case True
  note ok = dis_invD(8) [OF inv, of c]
  have e: "sq s c = []" using dis_invD(4) [OF inv, of c] True by (auto simp: data_inv_def)
  let ?t = "map_chans (put_ring c (mem s v)) s"
  have "sq ?t c = []" using e by (simp add: sq_def)
  then have "pending ?t c = pending s c @ [mem s v]"
    using put_ring_items(2) [OF ok True, of c "mem s v"] e by (simp add: pending_def)
  then show ?thesis using isend_put [OF dis_invD(3) [OF inv] none ok True, of v] by simp
next
  case False
  note ok = dis_invD(8) [OF inv, of c]
  obtain ps where ps: "runq s (p # ps)" by (rule dis_inv_run [OF inv p])
  obtain t where t: "isend (Some c) v s = Inr t" "runq t ps"
      "body t = body (map_chans (push_send c p) (park Psend c v p s))"
    by (rule isend_block [OF dis_invD(3) [OF inv] none ok False ps])
  note tf = body_fields [OF t(3)] and tb = body_chans [OF t(3)]
  have ct: "chans t c = push_send c p c (chans s c)" and m: "mem t = mem s" using tb by (simp_all add: park_def)
  have np: "p \<notin> set (sq s c)"
    using unqueued_inv [OF inv run_ready [OF inv p]] by (simp add: unqueued_def)
  have sq: "sq t c = sq s c @ [p]" and ri: "ring_items (chans t c) = ring_items (chans s c)"
    by (simp_all add: sq_def ct push_send_def ring_items_def split: option.split)
  have "offered t c p = mem s v" using tf [of p] m by (simp add: offered_def send_cell_def park_def)
  moreover have "map (offered t c) (sq s c) = map (offered s c) (sq s c)"
  proof (rule map_cong [OF refl])
    fix q
    assume "q \<in> set (sq s c)"
    then have "q \<noteq> p" using np by auto
    then show "offered t c q = offered s c q"
      using tf [of q] m send_cell_cong [of t q s c] by (simp add: offered_def park_def)
  qed
  ultimately show ?thesis using t(1) sq ri by (simp add: pending_def)
qed

lemma send_hands_over:
  assumes inv: "dis_inv s" and q: "rq s c = x # xs"
  shows "pending s c = [] \<and> (\<exists>t dst m. isend (Some c) v s = Inr t \<and> told_recv s c x dst m \<and> mem t = m(dst := m v)
    \<and> released x s t \<and> pending t c = [])"
proof -
  have w: "waits_recv s x c" using dis_invD(6) [OF inv, of x c] q by simp
  note peer = peer_recv_inv [OF inv w]
  let ?s = "settle_recv c x s"
  obtain dst where dst: "pr_ptr (progs ?s x) = Some dst" "told_recv s c x dst (mem ?s)"
    using settle_recv_told [OF peer] by blast
  let ?u = "deliver x v ?s" and ?g = "free_recv c x s"
  have bp: "ring_ok (?g d (chans s d))" "canget (?g d (chans s d)) = canget (chans s d)"
      "canput (?g d (chans s d)) = canput (chans s d)" for d
    using ring_bufpart [OF free_bufpart(2)] dis_invD(8) [OF inv, of d] by auto
  obtain t where t: "wake x ?u = Inr t" "dis_inv (map_chans ?g t)"
      "body t = body ((set_state Pready x ?u)\<lparr>Rt := 0\<rparr>)"
    by (rule dis_inv_wake [OF inv, of x ?u ?g])
      (use waits_not_ready(1) [OF w] bp free_recv_reps [OF inv inv q] in \<open>auto simp: deliver_def settle_ptr fun_eq_iff\<close>)
  have run: "isend (Some c) v s = Inr (map_chans ?g t)"
    using isend_wake [OF dis_invD(3) [OF inv] q peer, of v] t(1) by simp
  have m: "mem t = (mem ?s)(dst := mem ?s v)" and ct: "chans t = chans s"
    using body_chans [OF t(3)] dst(1) by (simp_all add: deliver_def set_state_def)
  have "pr_state (progs (map_chans ?g t) x) = Pready"
    using body_fields(1) [OF t(3), of x] by (simp add: set_state_def)
  then have rel: "released x s (map_chans ?g t)"
    using free_recv_queues [OF inv q] by (simp add: released_def sq_map ct)
  have e: "sq s c = []" "ring_items (chans s c) = []"
    using dis_invD(4,8) [OF inv, of c] q no_buffer_empty by (auto simp: data_inv_def)
  have "pending (map_chans ?g t) c = []"
    using free_recv_queues(2) [OF inv q, of c] e ring_bufpart(2) [OF free_bufpart(2), of c x s c "chans s c"]
    by (simp add: pending_def sq_map ct)
  then show ?thesis using run m rel dst(2) e
    by (intro conjI exI [of _ "map_chans ?g t"] exI [of _ dst] exI [of _ "mem ?s"]) (simp_all add: pending_def)
qed

lemma recv_buffered:
  assumes inv: "dis_inv s" and none: "sq s c = []" and pend: "pending s c = w # ws"
  shows "\<exists>t. irecv (Some c) v s = Inr t \<and> mem t = (mem s)(v := w) \<and> pending t c = ws"
proof -
  note ok = dis_invD(8) [OF inv, of c]
  have it: "ring_items (chans s c) = w # ws" using pend none by (simp add: pending_def)
  then have get: "canget (chans s c)" using no_buffer_empty [OF ok] by auto
  let ?t = "put_mem v w (map_chans (get_ring c) s)"
  have "irecv (Some c) v s = Inr ?t"
    using irecv_get [OF dis_invD(3) [OF inv] none ok get, of v] it by simp
  moreover have "pending ?t c = ws"
    using get_ring_items(2) [OF ok get, of c] it none by (simp add: pending_def sq_map sq_def)
  ultimately show ?thesis by simp
qed

text \<open>The cells a receive at \<open>v\<close> writes when the prog \<open>x\<close> is the first sender.\<close>

definition written :: "dis \<Rightarrow> pid \<Rightarrow> addr \<Rightarrow> addr set" where
  "written s x v = insert v (if pr_state (progs s x) = Palt then {pr_Rd (progs s x)} else {})"

lemma told_send_mem: "told_send s c x m \<Longrightarrow> a \<notin> written s x v \<Longrightarrow> m a = mem s a"
  by (auto simp: told_send_def written_def split: if_splits)

lemma recv_serves:
  assumes inv: "dis_inv s" and sq: "sq s c = x # xs" and pend: "pending s c = w # ws"
    and apart: "\<And>q. q \<in> set (sq s c) \<Longrightarrow> send_cell s c q \<notin> written s x v"
  shows "\<exists>t m. irecv (Some c) v s = Inr t \<and> told_send s c x m \<and> mem t = m(v := w)
    \<and> released x s t \<and> pending t c = ws"
proof -
  note ok = dis_invD(8) [OF inv, of c] and wf = dis_invD(3) [OF inv]
  have wx: "waits_send s x c" using dis_invD(7) [OF inv, of x c] sq by simp
  note peer = peer_send_inv [OF inv wx]
  let ?s = "settle_send c x s"
  note told = settle_send_told [OF peer]
  have st: "pr_state (progs s x) \<in> {Psend, Palt}" by (rule waits_not_ready(2) [OF wx])
  have keep: "mem ?s a = mem s a" if "a \<notin> written s x v" for a by (rule told_send_mem [OF told(1) that])
  have px: "send_cell s c x \<noteq> v" "mem ?s (send_cell s c x) = offered s c x"
    using apart [of x] sq keep by (auto simp: written_def offered_def)
  have dist: "distinct (x # xs)" using wfqsD(3) [OF wf, of c] sq by simp
  have queues: "qpids (ch_recv (free_send c x s d (chans s d))) = removeAll x (rq s d)"
    "qpids (ch_send (free_send c x s d (chans s d))) = removeAll x (sq s d)" for d
    by (rule free_send_queues [OF inv sq])+
  note same = ring_bufpart [OF free_bufpart(1), of c x s c "chans s c"]
  have ad: "pr_addrun (progs s x) = None" by (rule dis_invD(9) [OF inv])
  obtain rs where rs: "runq s rs" "\<And>q. q \<in> set rs \<longleftrightarrow> pr_state (progs s q) = Pready"
    using dis_invD(1) [OF inv] by (auto simp: sched_inv_def)
  have xr: "x \<notin> set rs" using rs(2) st by auto
  have woken: "\<exists>t. wake x u = Inr t \<and> chans t = chans s \<and> mem t = mem u \<and> pr_state (progs t x) = Pready
      \<and> map (offered t c) xs = map (offered s c) xs"
    if u: "lnk u = lnk s" "runhd u = runhd s" "runtl u = runtl s" "chans u = chans s"
      "pr_addrun (progs u x) = None" "mem u = (mem ?s)(v := y)" "\<And>q. q \<noteq> x \<Longrightarrow> progs u q = progs s q" for u y
  proof -
    have "runq u rs" using rs(1) runq_cong [OF u(1-3)] by simp
    then obtain t where t: "wake x u = Inr t" "body t = body ((set_state Pready x u)\<lparr>Rt := 0\<rparr>)"
      using wake_runq [OF _ xr u(5)] by blast
    have m: "mem t = (mem ?s)(v := y)" using body_chans [OF t(2)] u(6) by (simp add: set_state_def)
    have "map (offered t c) xs = map (offered s c) xs"
    proof (rule map_cong [OF refl])
      fix q
      assume q: "q \<in> set xs"
      then have "q \<noteq> x" "send_cell s c q \<notin> written s x v" using dist apart [of q] sq by auto
      moreover from this have "send_cell t c q = send_cell s c q"
        using body_fields [OF t(2), of q] u(7) by (intro send_cell_cong) (simp_all add: set_state_def)
      ultimately show "offered t c q = offered s c q"
        using m keep [of "send_cell s c q"] by (auto simp: offered_def written_def)
    qed
    then show ?thesis
      using body_fields(1) [OF t(2), of x] body_chans [OF t(2)] u(4) t(1) by (auto simp: set_state_def)
  qed
  have rel: "released x s (map_chans g t)" if "pr_state (progs t x) = Pready" "chans t = chans s"
      "\<And>d. ch_recv (g d (chans s d)) = ch_recv (free_send c x s d (chans s d))"
      "\<And>d. ch_send (g d (chans s d)) = ch_send (free_send c x s d (chans s d))" for g t
    using that queues by (simp add: released_def sq_map)
  have sqg: "removeAll x (sq s c) = xs" using sq dist by (simp add: removeAll_absent)
  show ?thesis
  proof (cases "ch_buf (chans s c)")
    case None
    have ri: "ring_items (chans s c) = []" using None by (simp add: ring_items_def)
    then have w: "w = offered s c x" and ws: "ws = map (offered s c) xs"
      using pend sq by (auto simp: pending_def)
    let ?u = "collect x v ?s" and ?g = "free_send c x s"
    have mu: "mem ?u = (mem ?s)(v := w)" using told(2) px w by (simp add: collect_def)
    have lu: "lnk ?u = lnk s" by (auto simp: collect_def fun_eq_iff)
    obtain t where t: "wake x ?u = Inr t" "chans t = chans s" "mem t = mem ?u" "pr_state (progs t x) = Pready"
        "map (offered t c) xs = map (offered s c) xs"
      using woken [OF lu _ _ _ _ mu] ad by (auto simp: collect_def settle_ptr)
    have run: "irecv (Some c) v s = Inr (map_chans ?g t)"
      using irecv_wake [OF wf sq peer None, of v] t(1) by simp
    have "map (offered (map_chans ?g t) c) xs = map (offered s c) xs"
      using t(5) by simp
    then have "pending (map_chans ?g t) c = ws"
      using t(2) queues(2) [of c] sqg same(2) ri ws by (simp add: pending_def sq_map)
    then show ?thesis using run told(1) t(3) mu rel [OF t(4,2), of ?g]
      by (intro exI [of _ "map_chans ?g t"] exI [of _ "mem ?s"]) simp
  next
    case (Some a)
    note full = send_waits_full [OF inv sq Some]
    have get: "canget (chans s c)" using ok Some full by (auto simp: ring_ok_def canget_def)
    obtain w0 rest where it: "ring_items (chans s c) = w0 # rest"
      using get_ring_items(2) [OF ok get, of c] by blast
    have w: "w0 = w" and ws: "ws = rest @ offered s c x # map (offered s c) xs"
      using pend sq it by (auto simp: pending_def)
    let ?s1 = "put_mem v w ?s" and ?v = "offered s c x"
    let ?u = "set_ptr None x ?s1" and ?g = "\<lambda>d ch. turn_ring c ?v d (free_send c x s d ch)"
    have mu: "mem ?u = (mem ?s)(v := w)" by simp
    have lu: "lnk ?u = lnk s" by (auto simp: fun_eq_iff)
    obtain t where t: "wake x ?u = Inr t" "chans t = chans s" "mem t = mem ?u" "pr_state (progs t x) = Pready"
        "map (offered t c) xs = map (offered s c) xs"
      using woken [OF lu _ _ _ _ mu] ad by (auto simp: settle_ptr)
    have run: "irecv (Some c) v s = Inr (map_chans ?g t)"
      using irecv_wake_full [OF wf sq peer Some ok full, of v] t(1) told(2) px it w by simp
    have "ring_items (?g c (chans s c)) = rest @ [?v]"
    proof -
      let ?ch = "free_send c x s c (chans s c)"
      have ok': "ring_ok ?ch" "canget ?ch" "ring_items ?ch = w0 # rest" using same ok get it by auto
      have "ch_buf ?ch = Some a" "ch_size ?ch = length a"
        using bufpartD [OF free_bufpart(1), of c x s c "chans s c"] Some full by auto
      then have "canput (get_ring c c ?ch)"
        using ok'(2) by (auto simp: canput_def get_ring_def canget_def)
      then show ?thesis
        using put_ring_items(2) [OF get_ring_items(1) [OF ok'(1,2), of c], of c ?v]
          get_ring_items(2) [OF ok'(1,2), of c] ok'(3) by (simp add: turn_ring_def)
    qed
    moreover have "map (offered (map_chans ?g t) c) xs = map (offered s c) xs"
      using t(5) by simp
    ultimately have "pending (map_chans ?g t) c = ws"
      using t(2) queues(2) [of c] sqg ws by (simp add: pending_def sq_map) (simp add: turn_ring_def)
    then show ?thesis using run told(1) t(3) mu rel [OF t(4,2), of ?g]
      by (intro exI [of _ "map_chans ?g t"] exI [of _ "mem ?s"]) (simp add: turn_ring_def)
  qed
qed

lemma recv_waits:
  assumes inv: "dis_inv s" and p: "runhd s = Some p" and pend: "pending s c = []"
  shows "\<exists>t. irecv (Some c) v s = Inr t \<and> pr_state (progs t p) = Precv \<and> rq t c = rq s c @ [p]
    \<and> pending t c = [] \<and> mem t = mem s"
proof -
  note ok = dis_invD(8) [OF inv, of c]
  have e: "sq s c = []" "ring_items (chans s c) = []" using pend by (simp_all add: pending_def)
  have get: "\<not> canget (chans s c)"
    using ring_items_length [OF ok] e by (simp add: canget_def)
  obtain ps where ps: "runq s (p # ps)" by (rule dis_inv_run [OF inv p])
  obtain t where t: "irecv (Some c) v s = Inr t" "runq t ps"
      "body t = body (map_chans (push_recv c p) (park Precv c v p s))"
    by (rule irecv_block [OF dis_invD(3) [OF inv] e(1) ok get ps])
  have ct: "chans t c = push_recv c p c (chans s c)" "mem t = mem s" using body_chans [OF t(3)] by (simp_all add: park_def)
  have "rq t c = rq s c @ [p]" "sq t c = []" "ring_items (chans t c) = []"
    using e by (simp_all add: rq_def sq_def ct push_recv_def ring_items_def split: option.splits)
  moreover have "pr_state (progs t p) = Precv" using body_fields(1) [OF t(3), of p] by (simp add: park_def)
  ultimately show ?thesis using t(1) ct(2) by (simp add: pending_def)
qed

end
