(* ===== verification/ChanProps.thy ===== *)
theory ChanProps
  imports ChanFifo
begin

text \<open>
  The properties of channels, alts and the scheduler: the buffer is a first-in first-out queue
  (a locale, interpreted on \<open>cputb\<close> and \<open>cgetb\<close>), a channel with its buffer and its waiting
  senders is one too, the invariant holds in every reachable state, an alt is a choice of one ready
  communication, an exception takes a prog off all queues; and the two ways in which the code does
  not do what it means to.
\<close>

section \<open>Bounded first-in first-out buffers\<close>

text \<open>Puts of a list of values and a number of gets, by any put and get operation.\<close>

primrec put_all :: "('v \<Rightarrow> 's \<Rightarrow> 'e + bool \<times> 's) \<Rightarrow> 'v list \<Rightarrow> 's \<Rightarrow> 'e + 's" where
  "put_all put [] s = Inr s"
| "put_all put (v # vs) s = rbind (put v s) (\<lambda>(_, s). put_all put vs s)"

primrec get_n :: "('s \<Rightarrow> 'e + 'v option \<times> 's) \<Rightarrow> nat \<Rightarrow> 's \<Rightarrow> 'e + 'v list \<times> 's" where
  "get_n get 0 s = Inr ([], s)"
| "get_n get (Suc n) s = rbind (get s) (\<lambda>(v, s). case v of
       None \<Rightarrow> Inr ([], s)
     | Some v \<Rightarrow> rbind (get_n get n s) (\<lambda>(vs, s). Inr (v # vs, s)))"

locale bounded_fifo =
  fixes rep :: "'s \<Rightarrow> 'v list \<Rightarrow> bool"
    and cap :: nat
    and put :: "'v \<Rightarrow> 's \<Rightarrow> 'e + bool \<times> 's"
    and get :: "'s \<Rightarrow> 'e + 'v option \<times> 's"
  assumes put_room: "rep s xs \<Longrightarrow> length xs < cap \<Longrightarrow> \<exists>t. put v s = Inr (True, t) \<and> rep t (xs @ [v])"
    and put_full: "rep s xs \<Longrightarrow> length xs = cap \<Longrightarrow> \<exists>t. put v s = Inr (False, t) \<and> rep t xs"
    and get_some: "rep s (x # xs) \<Longrightarrow> \<exists>t. get s = Inr (Some x, t) \<and> rep t xs"
    and get_none: "rep s [] \<Longrightarrow> get s = Inr (None, s)"
    and rep_cap: "rep s xs \<Longrightarrow> length xs \<le> cap"
begin

lemma put_all_room:
  "rep s xs \<Longrightarrow> length xs + length vs \<le> cap \<Longrightarrow> \<exists>t. put_all put vs s = Inr t \<and> rep t (xs @ vs)"
proof (induction vs arbitrary: s xs)
  case Nil
  then show ?case by simp
next
  case (Cons v vs)
  obtain u where u: "put v s = Inr (True, u)" "rep u (xs @ [v])"
    using put_room [OF Cons.prems(1), of v] Cons.prems(2) by auto
  obtain t where "put_all put vs u = Inr t" "rep t ((xs @ [v]) @ vs)"
    using Cons.IH [OF u(2)] Cons.prems(2) by auto
  then show ?case using u(1) by simp
qed

lemma get_n_take: "rep s xs \<Longrightarrow> \<exists>t. get_n get n s = Inr (take n xs, t) \<and> rep t (drop n xs)"
proof (induction n arbitrary: s xs)
  case 0
  then show ?case by simp
next
  case (Suc n)
  show ?case
  proof (cases xs)
    case Nil
    then show ?thesis using Suc.prems get_none by auto
  next
    case (Cons x ys)
    obtain u where u: "get s = Inr (Some x, u)" "rep u ys" using get_some Suc.prems Cons by blast
    then show ?thesis using Suc.IH [OF u(2)] Cons by auto
  qed
qed

lemma in_order:
  assumes "rep s xs" "length xs + length vs \<le> cap"
  shows "\<exists>t. rbind (put_all put vs s) (get_n get (length xs + length vs)) = Inr (xs @ vs, t) \<and> rep t []"
proof -
  obtain u where u: "put_all put vs s = Inr u" "rep u (xs @ vs)" using put_all_room [OF assms] by blast
  then show ?thesis using get_n_take [OF u(2), of "length xs + length vs"] by simp
qed

end

text \<open>The buffer of channel \<open>c\<close>: a put from cell \<open>v\<close>, a get to cell \<open>v\<close>.\<close>

definition buf_rep :: "cid \<Rightarrow> nat \<Rightarrow> dis \<Rightarrow> int list \<Rightarrow> bool" where
  "buf_rep c n s xs \<longleftrightarrow> ring_ok (chans s c) \<and> ring_items (chans s c) = xs
     \<and> (case ch_buf (chans s c) of None \<Rightarrow> n = 0 | Some a \<Rightarrow> length a = n)"

definition buf_put :: "cid \<Rightarrow> addr \<Rightarrow> int \<Rightarrow> dis \<Rightarrow> (bool \<times> dis) outcome" where
  "buf_put c v x s = cputb c (Some v) (put_mem v x s)"

definition buf_get :: "cid \<Rightarrow> addr \<Rightarrow> dis \<Rightarrow> (int option \<times> dis) outcome" where
  "buf_get c v s = rbind (cgetb c v s) (\<lambda>(ok, s). Inr (if ok then Some (mem s v) else None, s))"

lemma buf_rep_size: "buf_rep c n s xs \<Longrightarrow> ch_size (chans s c) = length xs \<and> length xs \<le> n"
  using ring_items_length [of "chans s c"]
  by (auto simp: buf_rep_def ring_ok_def split: option.splits)

lemma buf_rep_can:
  assumes "buf_rep c n s xs"
  shows "canput (chans s c) \<longleftrightarrow> length xs < n" "canget (chans s c) \<longleftrightarrow> xs \<noteq> []"
  using buf_rep_size [OF assms] assms
  by (auto simp: buf_rep_def canput_def canget_def split: option.splits)

lemma put_ring_length:
  "(case ch_buf (put_ring c v d ch) of None \<Rightarrow> n = 0 | Some a \<Rightarrow> length a = n)
     \<longleftrightarrow> (case ch_buf ch of None \<Rightarrow> n = 0 | Some a \<Rightarrow> length a = n)"
  "(case ch_buf (get_ring c d ch) of None \<Rightarrow> n = 0 | Some a \<Rightarrow> length a = n)
     \<longleftrightarrow> (case ch_buf ch of None \<Rightarrow> n = 0 | Some a \<Rightarrow> length a = n)"
  by (auto simp: put_ring_def get_ring_def split: option.splits)

interpretation ring: bounded_fifo "buf_rep c n" n "buf_put c v" "buf_get c v"
  for c n v
proof
  fix s xs x
  assume r: "buf_rep c n s xs" and l: "length xs < n"
  have put: "canput (chans s c)" using buf_rep_can(1) [OF r] l by simp
  have ok: "ring_ok (chans s c)" using r by (simp add: buf_rep_def)
  have "buf_put c v x s = Inr (True, map_chans (put_ring c x) (put_mem v x s))"
    using cputb_ring [of "put_mem v x s" c v] ok put by (simp add: buf_put_def)
  moreover have "buf_rep c n (map_chans (put_ring c x) (put_mem v x s)) (xs @ [x])"
    using put_ring_items [OF ok put] r by (simp add: buf_rep_def put_ring_length)
  ultimately show "\<exists>t. buf_put c v x s = Inr (True, t) \<and> buf_rep c n t (xs @ [x])" by blast
next
  fix s xs x
  assume r: "buf_rep c n s xs" and l: "length xs = n"
  then have "\<not> canput (chans s c)" "ring_ok (chans s c)"
    using buf_rep_can(1) [OF r] by (simp_all add: buf_rep_def)
  then have "buf_put c v x s = Inr (False, put_mem v x s)"
    using cputb_ring [of "put_mem v x s" c v] by (simp add: buf_put_def)
  then show "\<exists>t. buf_put c v x s = Inr (False, t) \<and> buf_rep c n t xs"
    using r by (simp add: buf_rep_def)
next
  fix s x xs
  assume r: "buf_rep c n s (x # xs)"
  have get: "canget (chans s c)" using buf_rep_can(2) [OF r] by simp
  have ok: "ring_ok (chans s c)" and it: "ring_items (chans s c) = x # xs"
    using r by (simp_all add: buf_rep_def)
  have "buf_get c v s = Inr (Some x, put_mem v x (map_chans (get_ring c) s))"
    using cgetb_ring [OF ok, of v] get it by (simp add: buf_get_def)
  moreover have "buf_rep c n (put_mem v x (map_chans (get_ring c) s)) xs"
    using get_ring_items [OF ok get, of c] it r by (simp add: buf_rep_def put_ring_length)
  ultimately show "\<exists>t. buf_get c v s = Inr (Some x, t) \<and> buf_rep c n t xs" by blast
next
  fix s :: dis
  assume r: "buf_rep c n s []"
  then have "\<not> canget (chans s c)" "ring_ok (chans s c)"
    using buf_rep_can(2) [OF r] by (simp_all add: buf_rep_def)
  then show "buf_get c v s = Inr (None, s)" using cgetb_ring [of s c v] by (simp add: buf_get_def)
next
  fix s and xs :: "int list"
  assume "buf_rep c n s xs"
  then show "length xs \<le> n" using buf_rep_size by blast
qed

text \<open>A channel of words with a buffer of two, to try the theorems on.\<close>

definition two_buf :: dis where
  "two_buf = snd (cnewc (\<lambda>_. 0) word_type Movw 2 dis0)"

lemma two_buf_parts:
  "ring_ok (chans two_buf 0)" "ch_buf (chans two_buf 0) = Some [0, 0]" "ring_items (chans two_buf 0) = []"
  by (simp_all add: two_buf_def cnewc_def Let_def dis0_def ring_ok_def ring_items_def ring_at_def upt_rec)

text \<open>
  C19. The ring buffer of a channel is a bounded first-in first-out queue.  It never holds more than
  the array has room for; \<open>cputb\<close> appends a value when there is room and refuses, changing nothing,
  exactly when it is full; \<open>cgetb\<close> delivers the oldest value and refuses, changing nothing, exactly
  when it is empty.  So if it holds \<open>xs\<close> and there is room for \<open>vs\<close>, then after \<open>cputb\<close> of each
  of \<open>vs\<close> the calls of \<open>cgetb\<close> deliver \<open>xs\<close> and then \<open>vs\<close>, and leave the buffer empty, wherever
  in the array \<open>front\<close> stands.
\<close>

theorem ring_fifo:
  assumes "ring_ok (chans s c)" "ch_buf (chans s c) = Some a" "ring_items (chans s c) = xs"
  shows "length xs \<le> length a
    \<and> (if length xs = length a then cputb c (Some v) s = Inr (False, s)
       else \<exists>t. cputb c (Some v) s = Inr (True, t) \<and> mem t = mem s \<and> ring_ok (chans t c)
         \<and> ring_items (chans t c) = xs @ [mem s v])
    \<and> (case xs of [] \<Rightarrow> cgetb c v s = Inr (False, s)
       | x # ys \<Rightarrow> \<exists>t. cgetb c v s = Inr (True, t) \<and> mem t = (mem s)(v := x) \<and> ring_ok (chans t c)
         \<and> ring_items (chans t c) = ys)
    \<and> (\<forall>vs. length xs + length vs \<le> length a \<longrightarrow>
        (\<exists>t. rbind (put_all (buf_put c v) vs s) (get_n (buf_get c v) (length xs + length vs))
           = Inr (xs @ vs, t) \<and> ring_ok (chans t c) \<and> ring_items (chans t c) = []))"
proof -
  have r: "buf_rep c (length a) s xs" using assms by (simp add: buf_rep_def)
  note can = buf_rep_can [OF r]
  have le: "length xs \<le> length a" using buf_rep_size [OF r] by simp
  have full: "cputb c (Some v) s = Inr (False, s)" if "length xs = length a"
    using cputb_ring [OF assms(1), of v] can(1) that by simp
  have put: "\<exists>t. cputb c (Some v) s = Inr (True, t) \<and> mem t = mem s \<and> ring_ok (chans t c)
      \<and> ring_items (chans t c) = xs @ [mem s v]" if "length xs \<noteq> length a"
    using cputb_ring [OF assms(1), of v] can(1) le that put_ring_items [OF assms(1), of c "mem s v"] assms(3) by simp
  have none: "cgetb c v s = Inr (False, s)" if "xs = []"
    using cgetb_ring [OF assms(1), of v] can(2) that by simp
  have get: "\<exists>t. cgetb c v s = Inr (True, t) \<and> mem t = (mem s)(v := x) \<and> ring_ok (chans t c)
      \<and> ring_items (chans t c) = ys" if "xs = x # ys" for x ys
    using cgetb_ring [OF assms(1), of v] can(2) that get_ring_items [OF assms(1), of c] assms(3) by simp
  have "\<exists>t. rbind (put_all (buf_put c v) vs s) (get_n (buf_get c v) (length xs + length vs))
      = Inr (xs @ vs, t) \<and> ring_ok (chans t c) \<and> ring_items (chans t c) = []"
    if "length xs + length vs \<le> length a" for vs
    using ring.in_order [OF r that, of v] by (auto simp: buf_rep_def)
  then show ?thesis using le full put none get by (cases xs) auto
qed

lemma ring_fifo_witness:
  "(\<exists>t. rbind (put_all (buf_put 0 9) [5, 6] two_buf) (get_n (buf_get 0 9) (Suc (Suc 0))) = Inr ([5, 6], t))
   \<and> cgetb 0 9 two_buf = Inr (False, two_buf)"
  using ring_fifo [OF two_buf_parts, of 9] by (auto dest: spec [of _ "[5, 6]"])

section \<open>A state to try the theorems on\<close>

text \<open>
  Progs 1 and 2 are ready, prog 3 waits to receive on channel 0; channel 1 has a full buffer,
  channel 2 is idle.
\<close>

definition start :: dis where
  "start = dis0\<lparr>
     progs := (\<lambda>p. if p = 1 then prog0\<lparr>pr_link := Some 2\<rparr> else if p = 2 then prog0
       else if p = 3 then prog0\<lparr>pr_state := Precv, pr_chan := Some 0, pr_ptr := Some 40\<rparr>
       else prog0\<lparr>pr_state := Pexiting\<rparr>),
     runhd := Some 1, runtl := Some 2, nchan := 3,
     chans := (\<lambda>c. if c = 0 then chan0\<lparr>ch_recv := [Some 3]\<rparr>
       else if c = 1 then chan0\<lparr>ch_buf := Some [7, 8], ch_size := 2\<rparr> else chan0),
     mem := (\<lambda>a. int a)\<rparr>"

lemma start_queues:
  "sq start c = []" "rq start c = (if c = 0 then [3] else [])"
  by (auto simp: start_def dis0_def chan0_def sq_def rq_def qpids_def)

lemma start_parts [simp]:
  "runhd start = Some 1" "nchan start = 3" "arrays start r = []" "mem start v = int v"
  "pr_state (progs start 3) = Precv" "pr_ptr (progs start 3) = Some 40"
  "ch_buf (chans start (Suc 0)) = Some [7, 8]" "ch_size (chans start (Suc 0)) = 2"
  "ch_front (chans start (Suc 0)) = 0"
  "ch_buf (chans start 0) = None" "ch_size (chans start 0) = 0" "ch_buf (chans start 2) = None" "ch_size (chans start 2) = 0"
  by (simp_all add: start_def dis0_def chan0_def prog0_def)

lemma start_inv: "dis_inv start"
proof -
  have "runq start [1, 2]" by (simp add: runq_def start_def dis0_def prog0_def)
  moreover have "\<forall>p. p \<in> set [1, 2] \<longleftrightarrow> pr_state (progs start p) = Pready"
    by (simp add: start_def dis0_def prog0_def)
  ultimately have "sched_inv start" unfolding sched_inv_def by blast
  moreover have "wfqs start"
    unfolding wfqs_def start_queues by (auto simp: qrep_def start_def dis0_def chan0_def)
  moreover have "waits_recv start p c \<longleftrightarrow> p = 3 \<and> c = 0" "\<not> waits_send start p c" for p c
    by (auto simp: waits_recv_def waits_send_def start_def dis0_def prog0_def)
  moreover have "data_inv start c" for c
    by (auto simp: data_inv_def start_queues) (auto simp: ring_ok_def canget_def start_def dis0_def chan0_def)
  moreover have "prog_inv start p" for p
    by (simp add: prog_inv_def start_def dis0_def prog0_def)
  ultimately show ?thesis by (simp add: dis_inv_def wait_inv_def start_queues)
qed

section \<open>Properties\<close>

text \<open>
  C5. A channel delivers first in, first out, across its buffer and its waiting senders, be they
  blocked in a send or in an alt.  With no receiver waiting, \<open>isend\<close> adds the value at the end of
  what is pending, whether it blocks or not.  With a receiver waiting nothing is pending; the first
  receiver gets the value, is told which entry of its alt was served if it is in one, becomes ready
  and leaves all its queues.  \<open>irecv\<close> delivers the first pending value and leaves the rest in order,
  from the buffer, or from the first sender, or from a full buffer into which the first sender's
  value moves; that sender is told and released likewise.  (The last two cases require that the cells
  the receive writes are not those the waiting senders' values are in.)  With nothing pending it blocks.
\<close>

theorem channel_fifo:
  assumes "dis_inv s" "runhd s = Some p"
  shows "(rq s c = [] \<longrightarrow> (\<exists>t. isend (Some c) v s = Inr t \<and> pending t c = pending s c @ [mem s v]))
    \<and> (\<forall>x xs. rq s c = x # xs \<longrightarrow> pending s c = [] \<and>
        (\<exists>t dst m. isend (Some c) v s = Inr t \<and> told_recv s c x dst m \<and> mem t = m(dst := m v)
           \<and> released x s t \<and> pending t c = []))
    \<and> (\<forall>w ws. sq s c = [] \<longrightarrow> pending s c = w # ws \<longrightarrow>
        (\<exists>t. irecv (Some c) v s = Inr t \<and> mem t = (mem s)(v := w) \<and> pending t c = ws))
    \<and> (\<forall>x xs w ws. sq s c = x # xs \<longrightarrow> pending s c = w # ws \<longrightarrow>
        (\<forall>q \<in> set (sq s c). send_cell s c q \<notin> written s x v) \<longrightarrow>
        (\<exists>t m. irecv (Some c) v s = Inr t \<and> told_send s c x m \<and> mem t = m(v := w)
           \<and> released x s t \<and> pending t c = ws))
    \<and> (pending s c = [] \<longrightarrow> (\<exists>t. irecv (Some c) v s = Inr t \<and> pr_state (progs t p) = Precv
        \<and> rq t c = rq s c @ [p] \<and> pending t c = [] \<and> mem t = mem s))"
  using send_appends [OF assms, of c v] send_hands_over [OF assms(1), of c _ _ v]
    recv_buffered [OF assms(1), of c _ _ v] recv_serves [OF assms(1), of c _ _ _ _ v] recv_waits [OF assms, of c v]
  by (intro conjI allI impI) blast+

text \<open>In the state \<open>sends\<close> prog 3 waits in an alt that sends on channel 2 and receives on channel 0.\<close>

definition alt_offer :: alt where
  "alt_offer = \<lparr>al_nsend = 1, al_nrecv = 1,
     al_ac = [\<lparr>ac_c = Ch 2, ac_ptr = 50\<rparr>, \<lparr>ac_c = Ch 0, ac_ptr = 60\<rparr>]\<rparr>"

definition sends :: dis where
  "sends = start\<lparr>progs := (progs start)(3 := prog0\<lparr>pr_state := Palt, pr_Rs := alt_offer, pr_Rd := 70\<rparr>),
     chans := (chans start)(2 := chan0\<lparr>ch_send := [Some 3]\<rparr>)\<rparr>"

lemma alt_offer_parts [simp]:
  "al_sends alt_offer = [\<lparr>ac_c = Ch 2, ac_ptr = 50\<rparr>]" "al_recvs alt_offer = [\<lparr>ac_c = Ch 0, ac_ptr = 60\<rparr>]"
  by (simp_all add: al_sends_def al_recvs_def alt_offer_def)

lemma sends_queues:
  "sq sends c = (if c = 2 then [3] else [])" "rq sends c = (if c = 0 then [3] else [])"
  by (auto simp: sends_def start_def dis0_def chan0_def sq_def rq_def qpids_def)

lemma sends_inv: "dis_inv sends"
proof -
  have "runq sends [1, 2]" by (simp add: runq_def sends_def start_def dis0_def prog0_def)
  moreover have "\<forall>p. p \<in> set [1, 2] \<longleftrightarrow> pr_state (progs sends p) = Pready"
    by (simp add: sends_def start_def dis0_def prog0_def)
  ultimately have "sched_inv sends" unfolding sched_inv_def by blast
  moreover have "wfqs sends"
    unfolding wfqs_def sends_queues by (auto simp: qrep_def sends_def start_def dis0_def chan0_def)
  moreover have "waits_recv sends p c \<longleftrightarrow> p = 3 \<and> c = 0" "waits_send sends p c \<longleftrightarrow> p = 3 \<and> c = 2" for p c
    by (auto simp: waits_recv_def waits_send_def alt_recvs_def alt_sends_def sends_def start_def dis0_def prog0_def)
  moreover have "data_inv sends c" for c
    by (auto simp: data_inv_def sends_queues)
      (auto simp: ring_ok_def canget_def canput_def sends_def start_def dis0_def chan0_def)
  moreover have "prog_inv sends p" for p
    by (auto simp: prog_inv_def alt_ok_def alt_sends_def alt_recvs_def arr_typed_def sends_def start_def dis0_def prog0_def)
  ultimately show ?thesis by (simp add: dis_inv_def wait_inv_def sends_queues)
qed

lemma channel_fifo_witness:
  "(\<exists>t. isend (Some 1) 5 start = Inr t \<and> pending t 1 = [7, 8, 5])
   \<and> (\<exists>t. isend (Some 0) 5 start = Inr t \<and> mem t 40 = 5 \<and> pr_state (progs t 3) = Pready)
   \<and> (\<exists>t. irecv (Some 1) 5 start = Inr t \<and> mem t 5 = 7 \<and> pending t 1 = [8])
   \<and> (\<exists>t. irecv (Some 2) 5 start = Inr t \<and> pr_state (progs t 1) = Precv)
   \<and> (\<exists>t. irecv (Some 2) 5 sends = Inr t \<and> mem t 5 = 50 \<and> mem t 70 = 0 \<and> pr_state (progs t 3) = Pready \<and> rq t 0 = [])
   \<and> (\<exists>t. isend (Some 0) 5 sends = Inr t \<and> mem t 60 = 5 \<and> mem t 70 = 1 \<and> pr_state (progs t 3) = Pready \<and> sq t 2 = [])"
proof -
  have p: "pending start (Suc 0) = [7, 8]" "pending start 2 = []" "pending start 0 = []"
    by (simp_all add: pending_def start_queues ring_items_def ring_at_def upt_rec)
  have s3: "progs sends 3 = prog0\<lparr>pr_state := Palt, pr_Rs := alt_offer, pr_Rd := 70\<rparr>" "mem sends = int" "runhd sends = Some 1"
    by (simp_all add: sends_def start_def dis0_def)
  have cell: "send_cell sends 2 3 = 50" "written sends 3 5 = {5, 70}"
    by (auto simp: send_cell_def written_def s3)
  have ps: "pending sends 2 = [50]"
    by (simp add: pending_def sends_queues offered_def cell s3) (simp add: ring_items_def sends_def chan0_def)
  have told: "told_send sends 2 3 m \<Longrightarrow> m = int(70 := 0)" "told_recv sends 0 3 dst m \<Longrightarrow> dst = 60 \<and> m = int(70 := 1)" for dst m
    by (auto simp: told_send_def told_recv_def recv_pick_def s3)
  note sf = channel_fifo [OF sends_inv s3(3)]
  have "\<exists>t. irecv (Some 2) 5 sends = Inr t \<and> mem t 5 = 50 \<and> mem t 70 = 0 \<and> pr_state (progs t 3) = Pready \<and> rq t 0 = []"
    using sf [of 2 5] ps cell told by (fastforce simp: sends_queues released_def)
  moreover have "\<exists>t. isend (Some 0) 5 sends = Inr t \<and> mem t 60 = 5 \<and> mem t 70 = 1 \<and> pr_state (progs t 3) = Pready \<and> sq t 2 = []"
    using sf [of 0 5] told by (fastforce simp: sends_queues released_def)
  moreover have "told_recv start 0 3 dst m \<Longrightarrow> dst = 40 \<and> m = mem start" for dst m by (simp add: told_recv_def)
  then have "\<exists>t. isend (Some 0) 5 start = Inr t \<and> mem t 40 = 5 \<and> pr_state (progs t 3) = Pready"
    using channel_fifo [OF start_inv, of 1 0 5] by (fastforce simp: start_queues released_def)
  ultimately show ?thesis
    using channel_fifo [OF start_inv, of 1 1 5] channel_fifo [OF start_inv, of 1 2 5]
    by (auto simp: p start_queues)
qed

text \<open>
  C1. In every state reachable from one that satisfies the invariant: the run queue spells a list of
  exactly the ready progs (so no wakeup is lost); no channel has both a receiver and a sender
  waiting; while a receiver waits the buffer is empty, and while a sender waits it is full, which
  is what the two warnings of the code test; and send and receive on a live channel do not fail.
\<close>

theorem reachable_invariant:
  assumes "dis_inv s" "dstep\<^sup>*\<^sup>* s t"
  shows "dis_inv t
    \<and> (\<exists>xs. runq t xs \<and> (\<forall>p. p \<in> set xs \<longleftrightarrow> pr_state (progs t p) = Pready))
    \<and> (\<forall>c. rq t c = [] \<or> sq t c = [])
    \<and> (\<forall>c. rq t c \<noteq> [] \<longrightarrow> ch_size (chans t c) = 0)
    \<and> (\<forall>c a. sq t c \<noteq> [] \<longrightarrow> ch_buf (chans t c) = Some a \<longrightarrow> ch_size (chans t c) = length a)
    \<and> (\<forall>p c v. runhd t = Some p \<longrightarrow> c < nchan t \<longrightarrow>
         (\<exists>u. isend (Some c) v t = Inr u) \<and> (\<exists>u. irecv (Some c) v t = Inr u))"
proof -
  have inv: "dis_inv t" using dsteps_inv assms by blast
  note d = dis_invD(4) [OF inv]
  have "\<exists>xs. runq t xs \<and> (\<forall>p. p \<in> set xs \<longleftrightarrow> pr_state (progs t p) = Pready)"
    using dis_invD(1) [OF inv] by (simp add: sched_inv_def)
  moreover have "rq t c = [] \<or> sq t c = []" "rq t c \<noteq> [] \<longrightarrow> ch_size (chans t c) = 0" for c
    using d [of c] by (auto simp: data_inv_def canget_def)
  moreover have "ch_size (chans t c) = length a" if "sq t c \<noteq> []" "ch_buf (chans t c) = Some a" for c a
    using send_waits_full [OF inv _ that(2)] that(1) by (cases "sq t c") auto
  moreover have "(\<exists>u. isend (Some c) v t = Inr u) \<and> (\<exists>u. irecv (Some c) v t = Inr u)"
    if "runhd t = Some p" "c < nchan t" for p c v
    using isend_inv [OF inv that, of v] irecv_inv [OF inv that, of v] by auto
  ultimately show ?thesis using inv by blast
qed

lemma reachable_invariant_witness:
  "\<exists>t. dstep start t \<and> dis_inv t \<and> (\<forall>c. rq t c = [] \<or> sq t c = [])"
proof -
  obtain t where "isend (Some 0) 5 start = Inr t"
    using isend_inv [OF start_inv, of 1 0 5] by auto
  then have step: "dstep start t" by (intro step_send [of _ 1 0]) simp_all
  then show ?thesis using reachable_invariant [OF start_inv r_into_rtranclp [of dstep, OF step]] by blast
qed

text \<open>
  C3. An alt with a ready entry is the plain communication on one of them.  The entry is the one the
  random number picks among the ready channels, senders first; the instruction writes the entry's
  index (and the index in the array) and then is exactly \<open>isend\<close> or \<open>irecv\<close> on that channel: the
  marks the first pass leaves on all channels, and their removal in the third, are invisible.
\<close>

theorem alt_is_choice:
  assumes "dis_inv s" "runhd s = Some p" "alt_ok s a" "\<not> alt_nil a"
    "ready_sends s a @ ready_recvs s a \<noteq> []"
  shows "let ready = ready_sends s a @ ready_recvs s a; k = pick_index s (length ready);
      c = ready ! k; x = next_rand (xrand s)
    in k < length ready
      \<and> (if k < length (ready_sends s a)
         then \<exists>i < length (al_sends a). ac_c (al_sends a ! i) = Ch c
           \<and> xecalt b a rd s = isend (Some c) (ac_ptr (al_sends a ! i)) (put_mem rd (int i) (s\<lparr>xrand := x\<rparr>))
         else \<exists>i < length (al_recvs a). \<exists>dst m.
           recv_pick s rd (length (al_sends a) + i) (al_recvs a ! i) c dst m
           \<and> xecalt b a rd s = irecv (Some c) dst (s\<lparr>xrand := x, mem := m\<rparr>))"
proof -
  let ?n = "length (ready_sends s a) + length (ready_recvs s a)"
  have n: "0 < ?n" using assms(5) by auto
  have k: "pick_index s ?n < ?n" using n by (simp add: pick_index_def)
  show ?thesis
  proof (cases "pick_index s ?n < length (ready_sends s a)")
    case True
    then show ?thesis
      using xecalt_send [OF assms(1-4) True, of b rd] k by (auto simp: Let_def nth_append)
  next
    case False
    then show ?thesis
      using xecalt_recv [OF assms(1-4) _ n, of rd b] k by (auto simp: Let_def nth_append)
  qed
qed

definition try_alt :: alt where
  "try_alt = \<lparr>al_nsend = 1, al_nrecv = 1,
     al_ac = [\<lparr>ac_c = Ch 2, ac_ptr = 50\<rparr>, \<lparr>ac_c = Ch 1, ac_ptr = 60\<rparr>]\<rparr>"

lemma try_alt_parts [simp]:
  "al_sends try_alt = [\<lparr>ac_c = Ch 2, ac_ptr = 50\<rparr>]" "al_recvs try_alt = [\<lparr>ac_c = Ch 1, ac_ptr = 60\<rparr>]"
  by (simp_all add: al_sends_def al_recvs_def try_alt_def)

lemma try_alt_ready:
  "alt_ok start try_alt" "\<not> alt_nil try_alt" "ready_sends start try_alt = []"
  "ready_recvs start try_alt = [1]"
  by (simp_all add: alt_ok_def alt_sends_def alt_recvs_def arr_typed_def alt_nil_def ready_sends_def
      ready_recvs_def sready_def rready_def start_queues canget_def canput_def)

lemma alt_is_choice_witness:
  "\<exists>dst m. xecalt True try_alt 90 start
     = irecv (Some 1) dst (start\<lparr>xrand := next_rand (xrand start), mem := m\<rparr>)"
  using alt_is_choice [OF start_inv, of 1 try_alt True 90] try_alt_ready
  by (auto simp: Let_def pick_index_def)

text \<open>
  C29. An alt that cannot communicate.  A nil channel in it raises the exception and leaves no trace of
  the marks already made.  With nothing ready, the non-blocking form stores the number of entries
  and changes nothing else; the blocking form stops the prog, which then waits on exactly the
  channels of the alt, for sending and for receiving.  (The Dis manual, \<^verbatim>\<open>docs/ref/sources/dis.ms\<close>,
  has the non-blocking form transfer control to a PC in the last element of a table; the code only
  stores the count, and it is the compiled program that branches on it.)
\<close>

theorem alt_not_ready:
  assumes "dis_inv s" "runhd s = Some p" "alt_ok s a"
  shows "(alt_nil a \<longrightarrow> xecalt b a rd s = Inl (Raised exNilref s))
    \<and> (\<not> alt_nil a \<longrightarrow> ready_sends s a = [] \<longrightarrow> ready_recvs s a = [] \<longrightarrow>
        xecalt False a rd s = Inr (put_mem rd (int (al_nsend a + al_nrecv a)) s)
        \<and> (\<exists>t. xecalt True a rd s = Inr t \<and> dis_inv t \<and> pr_state (progs t p) = Palt \<and> mem t = mem s
             \<and> (\<forall>c. p \<in> set (rq t c) \<longleftrightarrow> c \<in> alt_recvs s a)
             \<and> (\<forall>c. p \<in> set (sq t c) \<longleftrightarrow> c \<in> alt_sends a)))"
proof (intro conjI impI)
  show "xecalt b a rd s = Inl (Raised exNilref s)" if "alt_nil a" by (rule xecalt_nil [OF assms that])
next
  assume r: "\<not> alt_nil a" "ready_sends s a = []" "ready_recvs s a = []"
  show "xecalt False a rd s = Inr (put_mem rd (int (al_nsend a + al_nrecv a)) s)"
    by (rule xecalt_idle [OF assms r])
  obtain t where t: "xecalt True a rd s = Inr t" "dis_inv t" "pr_state (progs t p) = Palt"
      "pr_Rs (progs t p) = a" "mem t = mem s" "arrays t = arrays s"
    using xecalt_blocks [OF assms r, of rd] by metis
  have "alt_recvs t a = alt_recvs s a" using t(6) by (simp add: alt_recvs_def)
  then have "p \<in> set (rq t c) \<longleftrightarrow> c \<in> alt_recvs s a" "p \<in> set (sq t c) \<longleftrightarrow> c \<in> alt_sends a" for c
    using dis_invD(6,7) [OF t(2), of p c] t(3,4) by (simp_all add: waits_recv_def waits_send_def)
  then show "\<exists>t. xecalt True a rd s = Inr t \<and> dis_inv t \<and> pr_state (progs t p) = Palt \<and> mem t = mem s
             \<and> (\<forall>c. p \<in> set (rq t c) \<longleftrightarrow> c \<in> alt_recvs s a)
             \<and> (\<forall>c. p \<in> set (sq t c) \<longleftrightarrow> c \<in> alt_sends a)"
    using t by blast
qed

definition idle_alt :: alt where
  "idle_alt = \<lparr>al_nsend = 1, al_nrecv = 1,
     al_ac = [\<lparr>ac_c = Ch 1, ac_ptr = 50\<rparr>, \<lparr>ac_c = Ch 2, ac_ptr = 60\<rparr>]\<rparr>"

lemma idle_alt_parts:
  "alt_ok start idle_alt" "\<not> alt_nil idle_alt" "ready_sends start idle_alt = []"
  "ready_recvs start idle_alt = []" "alt_recvs start idle_alt = {2}" "alt_sends idle_alt = {1}"
  by (simp_all add: al_sends_def al_recvs_def idle_alt_def alt_ok_def alt_sends_def alt_recvs_def
      arr_typed_def alt_nil_def ready_sends_def ready_recvs_def sready_def rready_def start_queues
      canget_def canput_def)

lemma alt_not_ready_witness:
  "xecalt False idle_alt 90 start = Inr (put_mem 90 (int (al_nsend idle_alt + al_nrecv idle_alt)) start)
   \<and> (\<exists>t. xecalt True idle_alt 90 start = Inr t \<and> pr_state (progs t 1) = Palt \<and> 1 \<in> set (rq t 2))"
  using alt_not_ready [OF start_inv start_parts(1) idle_alt_parts(1), of True 90] idle_alt_parts by auto

lemma cut_back_le: "cut_back t n \<le> n"
  by (induction n) auto

lemma kstrcpy_fits: "4 \<le> ns \<Longrightarrow> length (kstrcpy t ns) < ns"
  using cut_back_le [of t "ns - 4"] by (auto simp: kstrcpy_def cstr_def)

text \<open>
  C24. An exception posted to a blocked prog takes it off every wait queue it is on, leaves the other
  waiting progs and their order alone, and makes it ready, with the reason in \<open>kill\<close> (unless it
  already had one), cut so that it fits the buffer of \<open>ERRMAX\<close> bytes with its NUL.
\<close>

theorem exprog_unlinks:
  assumes "dis_inv s" "pr_state (progs s p) \<in> {Psend, Precv, Palt}"
  shows "\<exists>t. exprog p exc s = Inr (1, t) \<and> dis_inv t \<and> pr_state (progs t p) = Pready
    \<and> (\<forall>c. rq t c = removeAll p (rq s c) \<and> sq t c = removeAll p (sq s c))
    \<and> (\<exists>k. pr_kill (progs t p) = Some k
         \<and> (pr_kill (progs s p) = None \<longrightarrow> k = kstrcpy exc ERRMAX \<and> length k < ERRMAX))"
proof -
  obtain t where t: "exprog p exc s = Inr (1, t)" "dis_inv t" "pr_state (progs t p) = Pready"
    "pr_kill (progs t p)
      = (if pr_kill (progs s p) = None then Some (kstrcpy exc ERRMAX) else pr_kill (progs s p))"
    "\<And>c. rq t c = removeAll p (rq s c) \<and> sq t c = removeAll p (sq s c)"
    using exprog_waiting [OF assms, of exc] by metis
  have "length (kstrcpy exc ERRMAX) < ERRMAX" by (rule kstrcpy_fits) (simp add: ERRMAX_def)
  then show ?thesis using t by (cases "pr_kill (progs s p)") auto
qed

lemma exprog_unlinks_witness:
  "\<exists>t. exprog 3 (cstr ''killed'') start = Inr (1, t) \<and> pr_state (progs t 3) = Pready \<and> rq t 0 = []"
  using exprog_unlinks [OF start_inv, of 3 "cstr ''killed''"]
  by (force simp: start_queues)

definition twice :: "cid \<Rightarrow> addr \<Rightarrow> addr \<Rightarrow> alt" where
  "twice c u v = \<lparr>al_nsend = 0, al_nrecv = 2, al_ac = [\<lparr>ac_c = Ch c, ac_ptr = u\<rparr>, \<lparr>ac_c = Ch c, ac_ptr = v\<rparr>]\<rparr>"

text \<open>
  C36. A non-blocking alt that receives twice on the same channel, where nothing is ready and nobody
  waits to receive, destroys the channel: the first \<open>cqdelp\<close> of the third pass removes both of the prog's nodes and leaves the queue's pointer nil, which the
  test for the second entry dereferences.  (\<open>cqdelp\<close> keeps the last node only when it is the only
  one from the start.)
\<close>

theorem alt_twice_crashes:
  assumes "dis_inv s" "runhd s = Some p" "rq s c = []" "\<not> rready s c"
  shows "xecalt False (twice c u v) rd s = Inl NilDeref"
proof -
  note wf = dis_invD(3) [OF assms(1)]
  have un: "unqueued s p" by (rule unqueued_inv [OF assms(1) run_ready [OF assms(1,2)]])
  let ?s1 = "map_chans (mark_in p {c}) s"
  have w1: "wfqs ?s1" by (rule wfqs_mark) (use wf un in \<open>auto simp: unqueued_def\<close>)
  have r1: "\<not> rready ?s1 c" "rq ?s1 c = [p]" using assms(3,4) by simp_all
  obtain s2 where s2: "mark_recv c p ?s1 = Inr s2" "ch_recv (chans s2 c) = qrep [p, p]"
    using wfqsD(2) [OF w1, of c] r1(2) by (simp add: mark_recv_def)
  have "altrdy_recv p None 0 (al_recvs (twice c u v)) s = Inr (None, 0, s2)"
    using s2(1) assms(4) r1(1) by (simp add: al_recvs_def twice_def ready_eq [OF wf] ready_eq [OF w1] mark_eq [OF wf])
  then have rdy: "altrdy (twice c u v) p s = Inr (0, s2)"
    by (simp add: altrdy_def al_sends_def twice_def)
  have "drop_recv c p (put_mem rd 2 s2) = Inr (upd_chan c (\<lambda>ch. ch\<lparr>ch_recv := []\<rparr>) (put_mem rd 2 s2))"
    using s2(2) cqdelp_all [of 0 p] by (simp add: drop_recv_def numeral_2_eq_2)
  then have "altdone (twice c u v) p None (- 1) (put_mem rd 2 s2) = Inl NilDeref"
    by (simp add: altdone_def al_sends_def al_recvs_def twice_def)
      (simp add: drop_recv_def cqprog_def)
  then show ?thesis
    using rdy assms(2) by (simp add: xecalt_def currun_def twice_def)
qed

lemma alt_twice_crashes_witness:
  "xecalt False (twice 2 50 60) 90 start = Inl NilDeref"
  by (rule alt_twice_crashes [OF start_inv start_parts(1)])
    (simp_all add: start_queues rready_def canget_def)

text \<open>
  An alt that offers to send and to receive on the same channel is meant to be refused (\<open>exAlt\<close>),
  but the test looks only at the first prog of the receivers' queue.
\<close>

definition own_alt :: alt where
  "own_alt = \<lparr>al_nsend = 1, al_nrecv = 2, al_ac = [\<lparr>ac_c = Ch 0, ac_ptr = 50\<rparr>,
     \<lparr>ac_c = Ch 0, ac_ptr = 60\<rparr>, \<lparr>ac_c = Ch 1, ac_ptr = 70\<rparr>]\<rparr>"

lemma own_alt_entries:
  "al_sends own_alt = [\<lparr>ac_c = Ch 0, ac_ptr = 50\<rparr>]"
  "al_recvs own_alt = [\<lparr>ac_c = Ch 0, ac_ptr = 60\<rparr>, \<lparr>ac_c = Ch 1, ac_ptr = 70\<rparr>]"
  by (simp_all add: al_sends_def al_recvs_def own_alt_def)

lemma start_channels:
  "chans start 0 = chan0\<lparr>ch_recv := [Some 3]\<rparr>"
  "chans start (Suc 0) = chan0\<lparr>ch_buf := Some [7, 8], ch_size := 2\<rparr>"
  "pr_state (progs start (Suc 0)) = Pready" "pr_ptr (progs start (Suc 0)) = None"
  by (simp_all add: start_def dis0_def prog0_def)

lemma start_pick: "unat (drop_bit 8 (xrand start * 1103515245 + 12345)) mod Suc (Suc 0) = 1"
  by (simp add: start_def dis0_def numeral_2_eq_2 [symmetric])

text \<open>
  With another receiver waiting on the channel, such an alt is not refused.  In the state
  \<open>start\<close>, which satisfies the invariant, prog 1 sends and receives on channel 0, where prog 3
  waits, and receives on channel 1, which has data.  The first pass counts two ready entries; by
  the second pass the prog's own mark has made its receive on channel 0 look ready, the choice
  falls on it, and the code takes the running prog for the sender and copies from its nil data
  pointer.
\<close>

theorem alt_takes_own_offer:
  "dis_inv start \<and> runhd start = Some 1 \<and> xecalt True own_alt 90 start = Inl NilDeref"
  by (simp add: start_inv xecalt_def currun_def altrdy_def own_alt_entries recv_ready_def send_ready_def
      mark_recv_def mark_send_def cqprog_def cqadd_def start_channels chan0_def canget_def canput_def
      Let_def start_pick altcomm_def irecv_def cqdel_def)

text \<open>
  The value of an alt on an array of channels goes to an address that depends on \<open>c->mid.t\<close>.
  \<open>cnewc\<close> sets it for \<open>movtmp\<close> channels only: for a channel of strings, say, the alt reads a
  \<open>Type\<close> through memory that nobody set.
\<close>

lemma array_alt_untyped:
  assumes "newc junk ty mv m s0 = Inr (c, s)" "mv \<noteq> Movtmp" "wfqs t" "rready t c"
    "ch_mid (chans t c) = ch_mid (chans s c)"
  shows "altcomm_array rd 0 n 0 ptr [Some c] t = Inl WildType"
proof -
  have "ch_mid (chans s c) = Stale"
    using assms(1,2) by (auto simp: newc_def cnewc_def Let_def split: option.splits if_splits)
  then show ?thesis using assms(3-5) by (simp add: ready_eq mid_t_def Let_def)
qed

end
