(* ===== verification/Pool.thy ===== *)
theory Pool
  imports Prelude
begin

text \<open>
  The memory pools of \<^verbatim>\<open>emu/port/alloc.c\<close>: best fit from a tree of free blocks, with boundary tags.

  A block is a header (\<open>Bhdr\<close>), its data and a trailer (\<open>Btail\<close>) that points back to the header.
  The model keeps the headers in \<open>hdrs\<close>, by address; the trailers in \<open>tails\<close>, by the address
  where the block ends (the trailer is the word before it); and the bytes of the clients in
  \<open>p_data\<close>.  A header is a union: the links of a free block, the \<open>clink\<close> and \<open>csize\<close> of an
  arena's leader and the data of an allocated block share storage, so the links of an allocated
  block are arbitrary (\<open>scribble\<close> of \<^verbatim>\<open>PoolSpec\<close>).  A \<open>ulong\<close> has 64 bits and an \<open>int\<close> 32.

  The state is one pool, under its lock; \<open>p_brks\<close> are the answers the host will give to the
  calls of \<open>sbrk\<close> (an exhausted list: it refuses).  The debugging aids \<open>poolfencesize\<close>,
  \<open>poolparanoid\<close> and \<open>memmonitor\<close> are off, as by default.
\<close>

section \<open>Data\<close>

type_synonym baddr = nat

datatype pfault = DerefNil | PoolFault baddr | Aborted | Spinning

definition MAGIC_A :: u64 where "MAGIC_A = 0xa110c"
definition MAGIC_F :: u64 where "MAGIC_F = 0xbadc0c0a"
definition MAGIC_E :: u64 where "MAGIC_E = 0xdeadbabe"
definition MAGIC_I :: u64 where "MAGIC_I = 0xabba"

record bhdr =
  bh_magic :: u64
  bh_size :: nat
  bh_l :: "baddr option"
  bh_r :: "baddr option"
  bh_p :: "baddr option"
  bh_v :: "baddr option"
  bh_f :: "baddr option"
  bh_link :: "baddr option"
  bh_csize :: nat

record pool =
  hdrs :: "baddr \<Rightarrow> bhdr"
  tails :: "baddr \<Rightarrow> baddr option"
  p_data :: "baddr \<Rightarrow> byte"
  p_root :: "baddr option"
  p_chain :: "baddr option"
  p_maxsize :: nat
  p_quanta :: nat
  p_chunk :: nat
  p_ressize :: u64
  p_cursize :: u64
  p_arenasize :: nat
  p_hw :: u64
  p_nalloc :: u64
  p_nfree :: u64
  p_nbrk :: int
  p_lastfree :: int
  p_move :: bool
  p_brks :: "baddr option list"
  gc_ptr :: "baddr option"

text \<open>Conversions of C: to \<open>int\<close>, and of an \<open>int\<close> to \<open>ulong\<close>.\<close>

definition int32 :: "int \<Rightarrow> int" where
  "int32 x = signed_take_bit 31 x"

definition to_ulong :: "int \<Rightarrow> nat" where
  "to_ulong x = nat (x mod 2 ^ 64)"

text \<open>\<open>sizeof(Btail)\<close>, the offset of the data, and \<open>BHDRSIZE\<close> on a 64-bit host.\<close>

definition BTAIL :: nat where "BTAIL = 8"
definition DATA :: nat where "DATA = 16"
definition BHDRSIZE :: nat where "BHDRSIZE = DATA + BTAIL"

definition nonnil :: "baddr option \<Rightarrow> pfault + baddr" where
  "nonnil p = (case p of None \<Rightarrow> Inl DerefNil | Some a \<Rightarrow> Inr a)"

definition upd_h :: "baddr \<Rightarrow> (bhdr \<Rightarrow> bhdr) \<Rightarrow> pool \<Rightarrow> pool" where
  "upd_h a f s = s\<lparr>hdrs := (hdrs s)(a := f (hdrs s a))\<rparr>"

definition upd_opt :: "baddr option \<Rightarrow> (bhdr \<Rightarrow> bhdr) \<Rightarrow> pool \<Rightarrow> pool" where
  "upd_opt p f s = (case p of None \<Rightarrow> s | Some a \<Rightarrow> upd_h a f s)"

definition set_magic :: "baddr \<Rightarrow> u64 \<Rightarrow> pool \<Rightarrow> pool" where
  "set_magic a m = upd_h a (bh_magic_update (\<lambda>_. m))"

text \<open>\<open>b->size = n; B2T(b)->hdr = b\<close>.\<close>

definition set_block :: "baddr \<Rightarrow> nat \<Rightarrow> pool \<Rightarrow> pool" where
  "set_block a n s = (let s = upd_h a (bh_size_update (\<lambda>_. n)) s in s\<lparr>tails := (tails s)(a + n := Some a)\<rparr>)"

definition B2NB :: "pool \<Rightarrow> baddr \<Rightarrow> baddr" where
  "B2NB s b = b + bh_size (hdrs s b)"

definition B2LIMIT :: "pool \<Rightarrow> baddr \<Rightarrow> baddr" where
  "B2LIMIT s b = b + bh_csize (hdrs s b)"

definition B2D :: "baddr \<Rightarrow> baddr" where
  "B2D b = b + DATA"

definition D2B :: "baddr \<Rightarrow> pool \<Rightarrow> pfault + baddr" where
  "D2B v s =
     (if v < DATA then Inl DerefNil
      else let b = v - DATA in
        if bh_magic (hdrs s b) \<noteq> MAGIC_A \<and> bh_magic (hdrs s b) \<noteq> MAGIC_I then Inl (PoolFault v)
        else Inr b)"

section \<open>The tree of free blocks\<close>

text \<open>
  A node of the tree is the first of a ring of blocks of one size; the others have no parent.
  \<open>unring\<close> is \<open>t->prev->fwd = t->fwd; t->fwd->prev = t->prev\<close>, and \<open>relink\<close> puts \<open>rp\<close> where \<open>t\<close>
  hangs, under \<open>q\<close> or at the root.
\<close>

definition unring :: "baddr \<Rightarrow> pool \<Rightarrow> pfault + pool" where
  "unring t s = rbind (nonnil (bh_v (hdrs s t))) (\<lambda>v.
     let s = upd_h v (bh_f_update (\<lambda>_. bh_f (hdrs s t))) s
     in rbind (nonnil (bh_f (hdrs s t))) (\<lambda>f.
        Inr (upd_h f (bh_v_update (\<lambda>_. bh_v (hdrs s t))) s)))"

definition relink :: "baddr option \<Rightarrow> baddr \<Rightarrow> baddr option \<Rightarrow> pool \<Rightarrow> pool" where
  "relink q t rp s = (case q of
       None \<Rightarrow> s\<lparr>p_root := rp\<rparr>
     | Some q \<Rightarrow> if bh_l (hdrs s q) = Some t then upd_h q (bh_l_update (\<lambda>_. rp)) s
                else upd_h q (bh_r_update (\<lambda>_. rp)) s)"

text \<open>The loop to the leftmost node from \<open>rp\<close>, \<open>f\<close> the node before it.\<close>

partial_function (option) leftmost :: "(baddr \<Rightarrow> bhdr) \<Rightarrow> baddr \<Rightarrow> baddr \<Rightarrow> (baddr \<times> baddr) option" where
  "leftmost h f rp = (case bh_l (h rp) of None \<Rightarrow> Some (f, rp) | Some s \<Rightarrow> leftmost h rp s)"

definition del_ring_head :: "baddr \<Rightarrow> pool \<Rightarrow> pfault + pool" where
  "del_ring_head t s = rbind (nonnil (bh_f (hdrs s t))) (\<lambda>f.
     let q = bh_p (hdrs s t);
         s = upd_h f (bh_p_update (\<lambda>_. q)) s;
         s = relink q t (Some f) s;
         rp = bh_l (hdrs s t);
         s = upd_h f (bh_l_update (\<lambda>_. rp)) s;
         s = upd_opt rp (bh_p_update (\<lambda>_. Some f)) s;
         rp = bh_r (hdrs s t);
         s = upd_h f (bh_r_update (\<lambda>_. rp)) s;
         s = upd_opt rp (bh_p_update (\<lambda>_. Some f)) s
     in unring t s)"

text \<open>What takes the place of the node \<open>t\<close>, with the links below it set.\<close>

definition del_replacement :: "baddr \<Rightarrow> pool \<Rightarrow> pfault + baddr option \<times> pool" where
  "del_replacement t s = (case bh_l (hdrs s t) of
       None \<Rightarrow> Inr (bh_r (hdrs s t), s)
     | Some l \<Rightarrow> (case bh_r (hdrs s t) of
         None \<Rightarrow> Inr (Some l, s)
       | Some r \<Rightarrow> (case leftmost (hdrs s) t r of
           None \<Rightarrow> Inl Spinning
         | Some (f, rp) \<Rightarrow>
            (let s = (if f \<noteq> t then
                 let x = bh_r (hdrs s rp);
                     s = upd_h f (bh_l_update (\<lambda>_. x)) s;
                     s = upd_opt x (bh_p_update (\<lambda>_. Some f)) s;
                     x = bh_r (hdrs s t);
                     s = upd_h rp (bh_r_update (\<lambda>_. x)) s
                 in upd_opt x (bh_p_update (\<lambda>_. Some rp)) s
               else s);
                 x = bh_l (hdrs s t);
                 s = upd_h rp (bh_l_update (\<lambda>_. x)) s
             in rbind (nonnil x) (\<lambda>x. Inr (Some rp, upd_h x (bh_p_update (\<lambda>_. Some rp)) s))))))"

definition pooldel :: "baddr \<Rightarrow> pool \<Rightarrow> pfault + pool" where
  "pooldel t s =
     (if bh_p (hdrs s t) = None \<and> p_root s \<noteq> Some t then unring t s
      else if bh_f (hdrs s t) \<noteq> Some t then del_ring_head t s
      else rbind (del_replacement t s) (\<lambda>(rp, s).
        let q = bh_p (hdrs s t);
            s = relink q t rp s
        in Inr (upd_opt rp (bh_p_update (\<lambda>_. q)) s)))"

text \<open>The descent of \<open>pooladd\<close>: to a node of the same size, or to the node to hang under.\<close>

datatype place = Ring baddr | Under "baddr option"

partial_function (option) descend ::
    "(baddr \<Rightarrow> bhdr) \<Rightarrow> nat \<Rightarrow> baddr option \<Rightarrow> baddr option \<Rightarrow> place option" where
  "descend h sz tp t = (if t = None then Some (Under tp)
      else if sz = bh_size (h (the t)) then Some (Ring (the t))
      else if sz < bh_size (h (the t)) then descend h sz t (bh_l (h (the t)))
      else descend h sz t (bh_r (h (the t))))"

definition pooladd :: "baddr \<Rightarrow> pool \<Rightarrow> pfault + pool" where
  "pooladd q s =
     (let s = upd_h q (\<lambda>b. b\<lparr>bh_magic := MAGIC_F, bh_l := None, bh_r := None, bh_p := None,
                          bh_f := Some q, bh_v := Some q\<rparr>) s in
      if p_root s = None then Inr (s\<lparr>p_root := Some q\<rparr>)
      else let sz = to_ulong (int32 (int (bh_size (hdrs s q)))) in
        (case descend (hdrs s) sz None (p_root s) of
           None \<Rightarrow> Inl Spinning
         | Some (Ring t) \<Rightarrow>
            (let s = upd_h q (bh_v_update (\<lambda>_. bh_v (hdrs s t))) s
             in rbind (nonnil (bh_v (hdrs s q))) (\<lambda>v.
                let s = upd_h v (bh_f_update (\<lambda>_. Some q)) s;
                    s = upd_h q (bh_f_update (\<lambda>_. Some t)) s
                in Inr (upd_h t (bh_v_update (\<lambda>_. Some q)) s)))
         | Some (Under tp) \<Rightarrow> rbind (nonnil tp) (\<lambda>tp.
             let s = upd_h q (bh_p_update (\<lambda>_. Some tp)) s
             in Inr (if sz < bh_size (hdrs s tp) then upd_h tp (bh_l_update (\<lambda>_. Some q)) s
                     else upd_h tp (bh_r_update (\<lambda>_. Some q)) s))))"

section \<open>Freeing\<close>

definition poolfree :: "baddr \<Rightarrow> pool \<Rightarrow> pfault + pool" where
  "poolfree v s = rbind (D2B v s) (\<lambda>b.
     let s = s\<lparr>p_nfree := p_nfree s + 1, p_cursize := p_cursize s - of_nat (bh_size (hdrs s b))\<rparr>;
         c = B2NB s b
     in rbind (if bh_magic (hdrs s c) = MAGIC_F then
                 (let s = (if gc_ptr s = Some c then s\<lparr>gc_ptr := Some b\<rparr> else s)
                  in rbind (pooldel c s) (\<lambda>s.
                     let s = set_magic c 0 s
                     in Inr (set_block b (bh_size (hdrs s b) + bh_size (hdrs s c)) s)))
               else Inr s) (\<lambda>s.
        rbind (nonnil (tails s b)) (\<lambda>c.
        rbind (if bh_magic (hdrs s c) = MAGIC_F then
                 (let s = (if gc_ptr s = Some b then s\<lparr>gc_ptr := Some c\<rparr> else s)
                  in rbind (pooldel c s) (\<lambda>s.
                     let s = set_magic b 0 s
                     in Inr (c, set_block c (bh_size (hdrs s c) + bh_size (hdrs s b)) s)))
               else Inr (b, s)) (\<lambda>(b, s). pooladd b s))))"

section \<open>Allocating\<close>

definition pool_round :: "nat \<Rightarrow> nat \<Rightarrow> nat" where
  "pool_round q n = nat ((int n + int BHDRSIZE + int q) AND NOT (int q))"

datatype fit = Exact baddr | Best baddr | NoFit

definition best_of :: "baddr option \<Rightarrow> fit" where
  "best_of q = (case q of None \<Rightarrow> NoFit | Some q \<Rightarrow> Best q)"

partial_function (option) find_fit ::
    "(baddr \<Rightarrow> bhdr) \<Rightarrow> nat \<Rightarrow> baddr option \<Rightarrow> baddr option \<Rightarrow> fit option" where
  "find_fit h sz t q = (if t = None then Some (best_of q)
      else if bh_size (h (the t)) = sz then Some (Exact (the t))
      else if sz < bh_size (h (the t)) then find_fit h sz (bh_l (h (the t))) t
      else find_fit h sz (bh_r (h (the t))) q)"

definition charge :: "baddr \<Rightarrow> pool \<Rightarrow> pool" where
  "charge t s = (let c = p_cursize s + of_nat (bh_size (hdrs s t))
     in s\<lparr>p_cursize := c, p_hw := (if c > p_hw s then c else p_hw s)\<rparr>)"

text \<open>A block larger than needed: handed out whole, or split.\<close>

definition carve :: "baddr \<Rightarrow> nat \<Rightarrow> pool \<Rightarrow> pfault + pool" where
  "carve q sz s = rbind (pooldel q s) (\<lambda>s.
     let s = set_magic q MAGIC_A s;
         ns = int32 (int (bh_size (hdrs s q)) - int sz)
     in if ns < int (sz div 4) \<and> ns < 0x8000 then Inr (charge q s)
        else let s = set_block q sz s;
                 t = B2NB s q;
                 s = set_block t (to_ulong ns) s
             in rbind (pooladd t s) (\<lambda>s. Inr (charge q s)))"

text \<open>The bytes of the next arena, within \<open>maxsize\<close>; \<open>None\<close> if they cannot hold the block.\<close>

definition arena_bytes :: "nat \<Rightarrow> pool \<Rightarrow> nat option" where
  "arena_bytes sz s =
     (let ns = (if sz > p_chunk s then sz else p_chunk s); ldr = p_quanta s + 1 in
      if p_arenasize s + (ns + ldr + ldr) > p_maxsize s then
        (let ns = int32 (int (p_maxsize s) - int (p_arenasize s) - int ldr - int ldr) AND NOT (int (p_quanta s))
         in if ns < int sz then None else Some (nat ns))
      else Some ns)"

text \<open>The chain's newest arena grows by a block that has just come from the host.\<close>

definition extend_arena :: "baddr \<Rightarrow> nat \<Rightarrow> pool \<Rightarrow> baddr \<times> pool" where
  "extend_arena c alloc s =
     (let q = B2LIMIT s c;
          s = set_block q alloc (set_magic q MAGIC_A s);
          s = set_magic (B2NB s q) MAGIC_E s;
          s = upd_h c (\<lambda>b. b\<lparr>bh_csize := bh_csize b + alloc\<rparr>) s
      in (B2D q, s\<lparr>p_cursize := p_cursize s + of_nat alloc\<rparr>))"

definition new_arena :: "baddr \<Rightarrow> nat \<Rightarrow> nat \<Rightarrow> pool \<Rightarrow> pfault + baddr \<times> pool" where
  "new_arena t ns sz s =
     (let ldr = p_quanta s + 1;
          s = set_magic t MAGIC_E s;
          s = upd_h t (\<lambda>b. b\<lparr>bh_csize := ns + ldr, bh_link := p_chain s\<rparr>) s;
          s = set_block t ldr (s\<lparr>p_chain := Some t\<rparr>);
          t = B2NB s t;
          s = set_block t sz (set_magic t MAGIC_A s)
      in rbind (if ns - sz > 0 then
                  (let q = B2NB s t; s = set_block q (ns - sz) s
                   in rbind (pooladd q s) (\<lambda>s. Inr (q, s)))
                else Inr (t, s)) (\<lambda>(q, s).
         Inr (B2D t, charge t (set_magic (B2NB s q) MAGIC_E s))))"

definition align8 :: "baddr \<Rightarrow> baddr" where
  "align8 t = nat ((int t + 7) AND NOT 7)"

text \<open>\<open>memmove(e, p, n)\<close> for \<open>e \<le> p\<close>: headers, trailers and data move with the bytes that hold them.\<close>

definition move_block :: "baddr \<Rightarrow> baddr \<Rightarrow> nat \<Rightarrow> pool \<Rightarrow> pool" where
  "move_block e p n s = s\<lparr>
     hdrs := (\<lambda>a. if e \<le> a \<and> a < e + n then hdrs s (a + (p - e)) else hdrs s a),
     tails := (\<lambda>a. if e < a \<and> a \<le> e + n then tails s (a + (p - e)) else tails s a),
     p_data := (\<lambda>a. if e \<le> a \<and> a < e + n then p_data s (a + (p - e)) else p_data s a)\<rparr>"

text \<open>The end of an arena in \<open>poolcompact\<close>: what is left becomes one free block.\<close>

definition compact_rest :: "baddr \<Rightarrow> baddr \<Rightarrow> pool \<Rightarrow> pfault + pool" where
  "compact_rest limit e s =
     (let nb = int32 (int limit - int e) in
      if nb > 0 then
        (if nb < int (p_quanta s) + 1 then Inl Aborted else pooladd e (set_block e (nat nb) s))
      else Inr s)"

partial_function (option) compact_loop ::
    "baddr \<Rightarrow> baddr \<Rightarrow> baddr \<Rightarrow> baddr \<Rightarrow> bool \<Rightarrow> pool \<Rightarrow> (pfault + bool \<times> pool) option" where
  "compact_loop base p e limit compacted s =
     (let nx = B2NB s p;
          live = (bh_magic (hdrs s p) = MAGIC_A \<or> bh_magic (hdrs s p) = MAGIC_I);
          compacted = (if live \<and> p \<noteq> e then True else compacted);
          s = (if live \<and> p \<noteq> e then move_block e p (bh_size (hdrs s p)) s else s);
          e = (if live then B2NB s e else e)
      in if nx \<ge> limit then
           (case compact_rest limit e s of
              Inl f \<Rightarrow> Some (Inl f)
            | Inr s \<Rightarrow> (case bh_link (hdrs s base) of
                None \<Rightarrow> Some (Inr (compacted, s))
              | Some b \<Rightarrow> compact_loop b (B2NB s b) (B2NB s b) (B2LIMIT s b) compacted s))
         else compact_loop base nx e limit compacted s)"

definition poolcompact :: "pool \<Rightarrow> pfault + bool \<times> pool" where
  "poolcompact s =
     (if \<not> p_move s \<or> to_ulong (p_lastfree s) = unat (p_nfree s) then Inr (False, s)
      else let s = s\<lparr>p_lastfree := int32 (uint (p_nfree s))\<rparr> in
        rbind (nonnil (p_chain s)) (\<lambda>base.
          let p = B2NB s base; limit = B2LIMIT s base; s = s\<lparr>p_root := None\<rparr>
          in case compact_loop base p p limit False s of None \<Rightarrow> Inl Spinning | Some r \<Rightarrow> r))"

text \<open>
  \<open>dopoolalloc\<close> and \<open>poolalloc\<close> call one another after the pool was compacted and after its
  newest arena was extended; \<open>k\<close> bounds the calls, and two are always enough.  \<open>restr\<close> is the
  \<open>Prestricted\<close> flag of the running prog.
\<close>

definition restricted :: "bool \<Rightarrow> pool \<Rightarrow> bool" where
  "restricted restr s \<longleftrightarrow> restr \<and> p_cursize s > p_ressize s"

primrec dopoolalloc_n :: "nat \<Rightarrow> bool \<Rightarrow> nat \<Rightarrow> pool \<Rightarrow> pfault + baddr option \<times> pool" where
  "dopoolalloc_n 0 restr asize s = Inl Spinning"
| "dopoolalloc_n (Suc k) restr asize s =
     (if asize \<ge> 1024 * 1024 * 1024 then Inr (None, s)
      else let sz = pool_round (p_quanta s) asize;
               again = (\<lambda>s. if restricted restr s then Inr (None, s) else dopoolalloc_n k restr asize s);
               s = s\<lparr>p_nalloc := p_nalloc s + 1\<rparr>
        in (case find_fit (hdrs s) sz (p_root s) None of
              None \<Rightarrow> Inl Spinning
            | Some (Exact t) \<Rightarrow> rbind (nonnil (bh_f (hdrs s t))) (\<lambda>t.
                rbind (pooldel t s) (\<lambda>s. Inr (Some (B2D t), charge t (set_magic t MAGIC_A s))))
            | Some (Best q) \<Rightarrow> rbind (carve q sz s) (\<lambda>s. Inr (Some (B2D q), s))
            | Some NoFit \<Rightarrow>
               (case arena_bytes sz s of
                  None \<Rightarrow> rbind (poolcompact s) (\<lambda>(done_it, s). if done_it then again s else Inr (None, s))
                | Some ns \<Rightarrow>
                   (let ldr = p_quanta s + 1; alloc = ns + ldr + ldr;
                        s = s\<lparr>p_arenasize := p_arenasize s + alloc\<rparr>;
                        brk = (case p_brks s of [] \<Rightarrow> None | b # _ \<Rightarrow> b);
                        s = s\<lparr>p_brks := tl (p_brks s)\<rparr>
                    in case brk of
                         None \<Rightarrow> Inr (None, s)
                       | Some t \<Rightarrow>
                          (let t = align8 t; s = s\<lparr>p_nbrk := p_nbrk s + 1\<rparr> in
                           case p_chain s of
                             None \<Rightarrow> rbind (new_arena t ns sz s) (\<lambda>(v, s). Inr (Some v, s))
                           | Some c \<Rightarrow>
                               if t = B2LIMIT s c + ldr then
                                 (case extend_arena c alloc s of (v, s) \<Rightarrow> rbind (poolfree v s) again)
                               else rbind (new_arena t ns sz s) (\<lambda>(v, s). Inr (Some v, s)))))))"

definition dopoolalloc :: "bool \<Rightarrow> nat \<Rightarrow> pool \<Rightarrow> pfault + baddr option \<times> pool" where
  "dopoolalloc restr asize s = dopoolalloc_n 2 restr asize s"

definition poolalloc :: "bool \<Rightarrow> nat \<Rightarrow> pool \<Rightarrow> pfault + baddr option \<times> pool" where
  "poolalloc restr asize s =
     (if restricted restr s then Inr (None, s) else dopoolalloc restr asize s)"

section \<open>The other operations of a pool\<close>

text \<open>\<open>memmove\<close> and \<open>memset\<close> on the data of blocks.\<close>

definition copy_data :: "baddr \<Rightarrow> baddr \<Rightarrow> nat \<Rightarrow> pool \<Rightarrow> pool" where
  "copy_data d v n s =
     s\<lparr>p_data := (\<lambda>a. if d \<le> a \<and> a < d + n then p_data s (v + (a - d)) else p_data s a)\<rparr>"

definition fill_data :: "baddr \<Rightarrow> byte \<Rightarrow> nat \<Rightarrow> pool \<Rightarrow> pool" where
  "fill_data d x n s = s\<lparr>p_data := (\<lambda>a. if d \<le> a \<and> a < d + n then x else p_data s a)\<rparr>"

definition poolrealloc :: "bool \<Rightarrow> baddr option \<Rightarrow> nat \<Rightarrow> pool \<Rightarrow> pfault + baddr option \<times> pool" where
  "poolrealloc restr v sz s =
     (if sz \<ge> 1024 * 1024 * 1024 then Inr (None, s)
      else if sz = 0 then rbind (nonnil v) (\<lambda>v. rbind (poolfree v s) (\<lambda>s. Inr (None, s)))
      else case v of
        None \<Rightarrow> poolalloc restr sz s
      | Some v \<Rightarrow> rbind (D2B v s) (\<lambda>b.
          let osize = int32 (int (bh_size (hdrs s b)) - int BHDRSIZE) in
          if to_ulong osize \<ge> sz then Inr (Some v, s)
          else rbind (poolalloc restr sz s) (\<lambda>(nv, s). case nv of
                 None \<Rightarrow> Inr (None, s)
               | Some nv \<Rightarrow>
                   rbind (poolfree v (copy_data nv v (to_ulong osize) s)) (\<lambda>s. Inr (Some nv, s)))))"

definition poolmsize :: "baddr option \<Rightarrow> pool \<Rightarrow> pfault + nat" where
  "poolmsize v s = (case v of
       None \<Rightarrow> Inr 0
     | Some v \<Rightarrow> rbind (D2B v s) (\<lambda>b. Inr (bh_size (hdrs s b) - BHDRSIZE)))"

partial_function (option) rightmost :: "(baddr \<Rightarrow> bhdr) \<Rightarrow> baddr \<Rightarrow> baddr option" where
  "rightmost h t = (case bh_r (h t) of None \<Rightarrow> Some t | Some r \<Rightarrow> rightmost h r)"

definition poolmax :: "pool \<Rightarrow> pfault + u64" where
  "poolmax s =
     (let sz = of_nat (p_maxsize s) - p_cursize s;
          less_hdr = (\<lambda>sz :: u64. if sz \<ge> of_nat BHDRSIZE then sz - of_nat BHDRSIZE else sz) in
      case p_root s of
        None \<Rightarrow> Inr (less_hdr sz)
      | Some t \<Rightarrow> (case rightmost (hdrs s) t of
          None \<Rightarrow> Inl Spinning
        | Some t \<Rightarrow> (let n = of_nat (bh_size (hdrs s t)) in Inr (less_hdr (if sz < n then n else sz)))))"

definition poolimmutable :: "baddr \<Rightarrow> pool \<Rightarrow> pfault + pool" where
  "poolimmutable v s = rbind (D2B v s) (\<lambda>b. Inr (set_magic b MAGIC_I s))"

partial_function (option) chain_find :: "pool \<Rightarrow> baddr \<Rightarrow> baddr option \<Rightarrow> bool option" where
  "chain_find s u b = (if b = None then Some False
      else if the b \<le> u \<and> u < B2LIMIT s (the b) then Some True
      else chain_find s u (bh_link (hdrs s (the b))))"

definition ptrinpool :: "pool \<Rightarrow> baddr \<Rightarrow> pfault + bool" where
  "ptrinpool s u = (case chain_find s u (p_chain s) of None \<Rightarrow> Inl Spinning | Some b \<Rightarrow> Inr b)"

text \<open>
  \<open>poolaudit\<close> walks every block of every arena of each pool of \<open>table\<close>; \<open>audit\<close> is its callback,
  and the answer is the first complaint.
\<close>

definition block_complaint :: "(baddr \<Rightarrow> pool \<Rightarrow> string option) \<Rightarrow> pool \<Rightarrow> baddr \<Rightarrow> baddr \<Rightarrow> string option" where
  "block_complaint audit s bc b =
     (let m = bh_magic (hdrs s b) in
      if bh_size (hdrs s b) = 0 \<or> bh_size (hdrs s b) AND p_quanta s \<noteq> 0 then Some ''bad size in bhdr''
      else if m = MAGIC_E \<and> b \<noteq> bc then Some ''unexpected MAGIC_E''
      else if m = MAGIC_E \<or> m = MAGIC_F \<or> m = MAGIC_A \<or> m = MAGIC_I then audit b s
      else Some ''bad magic'')"

partial_function (option) audit_blocks ::
    "(baddr \<Rightarrow> pool \<Rightarrow> string option) \<Rightarrow> pool \<Rightarrow> baddr \<Rightarrow> baddr \<Rightarrow> baddr \<Rightarrow> (string + baddr) option" where
  "audit_blocks audit s bc ec b =
     (if b < ec then
        (case block_complaint audit s bc b of
           Some r \<Rightarrow> Some (Inl r)
         | None \<Rightarrow> audit_blocks audit s bc ec (B2NB s b))
      else Some (Inr b))"

partial_function (option) audit_arenas ::
    "(baddr \<Rightarrow> pool \<Rightarrow> string option) \<Rightarrow> pool \<Rightarrow> baddr option \<Rightarrow> string option option" where
  "audit_arenas audit s p =
     (if p = None then Some None
      else if bh_magic (hdrs s (the p)) \<noteq> MAGIC_E then Some (Some ''bad chain hdr'')
      else Option.bind (audit_blocks audit s (the p) (B2LIMIT s (the p)) (the p)) (\<lambda>r. case r of
          Inl r \<Rightarrow> Some (Some r)
        | Inr b \<Rightarrow> if b \<noteq> B2LIMIT s (the p) \<or> bh_magic (hdrs s b) \<noteq> MAGIC_E then Some (Some ''bad chain ending'')
                   else audit_arenas audit s (bh_link (hdrs s (the p)))))"

primrec poolaudit :: "(baddr \<Rightarrow> pool \<Rightarrow> string option) \<Rightarrow> pool list \<Rightarrow> string option option" where
  "poolaudit audit [] = Some None"
| "poolaudit audit (s # ps) = Option.bind (audit_arenas audit s (p_chain s)) (\<lambda>r.
     case r of Some r \<Rightarrow> Some (Some r) | None \<Rightarrow> poolaudit audit ps)"

section \<open>malloc and its relatives\<close>

text \<open>
  They work on the pool \<open>mainmem\<close> with two words of tags before the data (\<open>Npadlong\<close>); sizes
  wrap at 64 bits.  The tags themselves, addresses of callers, are not modelled.
\<close>

definition PAD :: nat where "PAD = 16"

definition padded :: "nat \<Rightarrow> nat" where
  "padded sz = (sz + PAD) mod 2 ^ 64"

definition cleared :: "bool \<Rightarrow> nat \<Rightarrow> baddr option \<times> pool \<Rightarrow> pfault + baddr option \<times> pool" where
  "cleared clr sz = (\<lambda>(v, s). case v of
       None \<Rightarrow> Inr (None, s)
     | Some v \<Rightarrow> (let v = v + PAD in Inr (Some v, if clr then fill_data v 0 sz s else s)))"

definition kmalloc :: "bool \<Rightarrow> nat \<Rightarrow> pool \<Rightarrow> pfault + baddr option \<times> pool" where
  "kmalloc restr sz s = rbind (dopoolalloc restr (padded sz) s) (cleared True sz)"

definition malloc :: "bool \<Rightarrow> nat \<Rightarrow> pool \<Rightarrow> pfault + baddr option \<times> pool" where
  "malloc restr sz s = rbind (poolalloc restr (padded sz) s) (cleared True sz)"

definition mallocz :: "bool \<Rightarrow> nat \<Rightarrow> bool \<Rightarrow> pool \<Rightarrow> pfault + baddr option \<times> pool" where
  "mallocz restr sz clr s = rbind (poolalloc restr (padded sz) s) (cleared clr sz)"

definition mfree :: "baddr option \<Rightarrow> pool \<Rightarrow> pfault + pool" where
  "mfree v s = (case v of
       None \<Rightarrow> Inr s
     | Some v \<Rightarrow> if v < PAD then Inl DerefNil
        else rbind (D2B (v - PAD) s) (\<lambda>_. poolfree (v - PAD) s))"

definition realloc :: "bool \<Rightarrow> baddr option \<Rightarrow> nat \<Rightarrow> pool \<Rightarrow> pfault + baddr option \<times> pool" where
  "realloc restr v sz s =
     (if sz = 0 then malloc restr sz s
      else rbind (poolrealloc restr (map_option (\<lambda>v. v - PAD) v) (padded sz) s) (\<lambda>(nv, s).
             Inr (map_option (\<lambda>v. v + PAD) nv, s)))"

definition msize :: "baddr option \<Rightarrow> pool \<Rightarrow> pfault + u64" where
  "msize v s = (case v of
       None \<Rightarrow> Inr 0
     | Some v \<Rightarrow> rbind (poolmsize (Some (v - PAD)) s) (\<lambda>n. Inr (of_nat n - of_nat PAD)))"

definition calloc :: "bool \<Rightarrow> nat \<Rightarrow> nat \<Rightarrow> pool \<Rightarrow> pfault + baddr option \<times> pool" where
  "calloc restr n szelem s = malloc restr (n * szelem mod 2 ^ 64) s"

declare leftmost.simps [code] descend.simps [code] find_fit.simps [code] compact_loop.simps [code]
  rightmost.simps [code] chain_find.simps [code] audit_blocks.simps [code] audit_arenas.simps [code]

end
