(* ===== verification/PoolTree.thy ===== *)
theory PoolTree
  imports Pool "HOL-Library.Tree"
begin

text \<open>
  The tree of free blocks as a value: a binary tree whose nodes are the rings of blocks of one
  size, the node's representative first.  \<open>rep h par T\<close> says that the headers \<open>h\<close> hold the
  links of \<open>T\<close> under the parent \<open>par\<close>.  \<open>pooladd\<close> is \<open>tins\<close>, \<open>pooldel\<close> is \<open>tdel\<close>, and the two
  searches find what a search in the list of rings finds.
\<close>

type_synonym ftree = "baddr list tree"

section \<open>Rings\<close>

text \<open>Consecutive blocks of the list are linked forward and back; a ring closes on its first.\<close>

fun linked :: "(baddr \<Rightarrow> bhdr) \<Rightarrow> baddr list \<Rightarrow> bool" where
  "linked h (a # b # xs) \<longleftrightarrow> bh_f (h a) = Some b \<and> bh_v (h b) = Some a \<and> linked h (b # xs)"
| "linked h _ \<longleftrightarrow> True"

definition is_ring :: "(baddr \<Rightarrow> bhdr) \<Rightarrow> baddr list \<Rightarrow> bool" where
  "is_ring h xs \<longleftrightarrow> xs \<noteq> [] \<and> linked h (xs @ [hd xs])"

lemma linked_append: "linked h (xs @ a # ys) \<longleftrightarrow> linked h (xs @ [a]) \<and> linked h (a # ys)"
  by (induction h xs rule: linked.induct) (auto simp: neq_Nil_conv elim: linked.elims)

lemma linked_Cons_iff:
  "linked h (a # xs) \<longleftrightarrow> xs = [] \<or> bh_f (h a) = Some (hd xs) \<and> bh_v (h (hd xs)) = Some a \<and> linked h xs"
  by (cases xs) auto

lemma linked_snoc:
  "linked h (xs @ [a, b]) \<longleftrightarrow> linked h (xs @ [a]) \<and> bh_f (h a) = Some b \<and> bh_v (h b) = Some a"
  using linked_append [of h xs a "[b]"] by simp

lemma is_ring_rotate: "is_ring h (xs @ ys) \<Longrightarrow> is_ring h (ys @ xs)"
proof (cases "xs = [] \<or> ys = []")
  case False
  then obtain a xs' b ys' where e: "xs = a # xs'" "ys = b # ys'" by (auto simp: neq_Nil_conv)
  assume "is_ring h (xs @ ys)"
  then have "linked h ((a # xs') @ b # (ys' @ [a]))" by (simp add: is_ring_def e)
  then have "linked h ((a # xs') @ [b])" "linked h ((b # ys') @ [a])"
    using linked_append [of h "a # xs'" b "ys' @ [a]"] by auto
  then show ?thesis using linked_append [of h "b # ys'" a "xs' @ [b]"] by (simp add: is_ring_def e)
qed auto

lemma linked_cong:
  "(\<And>x. x \<in> set xs \<Longrightarrow> bh_f (h' x) = bh_f (h x) \<and> bh_v (h' x) = bh_v (h x)) \<Longrightarrow> linked h' xs \<longleftrightarrow> linked h xs"
  by (induction h xs rule: linked.induct) auto

lemma is_ring_cong:
  "(\<And>x. x \<in> set xs \<Longrightarrow> bh_f (h' x) = bh_f (h x) \<and> bh_v (h' x) = bh_v (h x)) \<Longrightarrow> is_ring h' xs \<longleftrightarrow> is_ring h xs"
  using linked_cong [of "xs @ [hd xs]" h' h] by (cases xs) (auto simp: is_ring_def)

lemma is_ring_single: "is_ring h [a] \<longleftrightarrow> bh_f (h a) = Some a \<and> bh_v (h a) = Some a"
  by (auto simp: is_ring_def)

lemma linked_f_cong:
  "linked h xs \<Longrightarrow> (\<And>x. x \<in> set (butlast xs) \<Longrightarrow> bh_f (h' x) = bh_f (h x))
    \<Longrightarrow> (\<And>x. x \<in> set (tl xs) \<Longrightarrow> bh_v (h' x) = bh_v (h x)) \<Longrightarrow> linked h' xs"
  by (induction h xs rule: linked.induct) auto

text \<open>Taking the first block out of a ring, and putting a block in before the first.\<close>

lemma ring_first:
  assumes "is_ring h (t # rest)" "rest \<noteq> []"
  shows "bh_f (h t) = Some (hd rest)" "bh_v (h t) = Some (last rest)"
proof -
  obtain ys l where r: "rest = ys @ [l]" using assms(2) by (cases rest rule: rev_cases) auto
  have "linked h ((t # ys) @ [l, t])" using assms(1) by (simp add: is_ring_def r)
  then have "linked h (t # rest)" "bh_v (h t) = Some l"
    by (simp_all add: linked_snoc r del: append_Cons) simp
  then show "bh_f (h t) = Some (hd rest)" "bh_v (h t) = Some (last rest)"
    using assms(2) by (simp_all add: linked_Cons_iff r)
qed

lemma ring_remove_first:
  assumes "is_ring h (t # rest)" "rest \<noteq> []" "distinct (t # rest)"
    and f: "\<And>x. x \<in> set rest \<Longrightarrow> bh_f (h' x) = (if x = last rest then bh_f (h t) else bh_f (h x))"
    and v: "\<And>x. x \<in> set rest \<Longrightarrow> bh_v (h' x) = (if x = hd rest then bh_v (h t) else bh_v (h x))"
  shows "is_ring h' rest"
proof -
  obtain ys l where r: "rest = ys @ [l]" using assms(2) by (cases rest rule: rev_cases) auto
  have "linked h ((t # ys) @ [l, t])" using assms(1) by (simp add: is_ring_def r)
  then have k: "linked h (t # rest)" "bh_f (h l) = Some t" "bh_v (h t) = Some l"
    by (simp_all add: linked_snoc r del: append_Cons) simp
  then have t: "bh_f (h t) = Some (hd rest)" "linked h rest"
    using assms(2) by (simp_all add: linked_Cons_iff)
  have "linked h' rest"
  proof (rule linked_f_cong [OF t(2)])
    fix x assume "x \<in> set (butlast rest)"
    then show "bh_f (h' x) = bh_f (h x)" using f [of x] assms(3) by (auto simp: r)
  next
    fix x assume "x \<in> set (tl rest)"
    then show "bh_v (h' x) = bh_v (h x)" using v [of x] assms(2,3) by (cases rest) auto
  qed
  moreover have "bh_f (h' l) = Some (hd rest)" "bh_v (h' (hd rest)) = Some l"
    using f [of l] v [of "hd rest"] hd_in_set [OF assms(2)] t k by (simp_all add: r)
  ultimately show "is_ring h' rest" using linked_snoc [of h' ys l "hd rest"] by (simp add: is_ring_def r)
qed

lemma ring_add_last:
  assumes "is_ring h xs" "q \<notin> set xs" "distinct xs"
    and f: "\<And>x. x \<in> set xs \<Longrightarrow> bh_f (h' x) = (if x = last xs then Some q else bh_f (h x))"
    and v: "\<And>x. x \<in> set xs \<Longrightarrow> bh_v (h' x) = (if x = hd xs then Some q else bh_v (h x))"
    and q: "bh_f (h' q) = Some (hd xs)" "bh_v (h' q) = bh_v (h (hd xs))"
  shows "is_ring h' (xs @ [q])" "bh_v (h (hd xs)) = Some (last xs)"
proof -
  have ne: "xs \<noteq> []" using assms(1) by (simp add: is_ring_def)
  then obtain ys l where r: "xs = ys @ [l]" by (cases xs rule: rev_cases) auto
  have "linked h (ys @ [l, hd xs])" using assms(1) by (simp add: is_ring_def r)
  then have k: "linked h xs" "bh_v (h (hd xs)) = Some l" by (simp_all add: linked_snoc r)
  have "linked h' xs"
  proof (rule linked_f_cong [OF k(1)])
    fix x assume "x \<in> set (butlast xs)"
    then show "bh_f (h' x) = bh_f (h x)" using f [of x] assms(3) by (auto simp: r)
  next
    fix x assume "x \<in> set (tl xs)"
    then show "bh_v (h' x) = bh_v (h x)" using v [of x] ne assms(3) by (cases xs) auto
  qed
  moreover have "bh_f (h' l) = Some q" "bh_v (h' (hd xs)) = Some q"
    using f [of l] v [of "hd xs"] hd_in_set [OF ne] by (simp_all add: r)
  ultimately have "linked h' ((ys @ [l]) @ [q, hd xs])"
    using q k(2) by (simp only: linked_snoc [of h' "ys @ [l]"]) (simp add: linked_snoc r)
  moreover have "hd ((ys @ [l]) @ [q]) = hd (ys @ [l])" by (cases ys) auto
  ultimately show "is_ring h' (xs @ [q])" by (simp add: is_ring_def r)
  show "bh_v (h (hd xs)) = Some (last xs)" using k(2) by (simp add: r)
qed


section \<open>Trees\<close>

fun root_of :: "ftree \<Rightarrow> baddr option" where
  "root_of \<langle>\<rangle> = None"
| "root_of \<langle>_, ring, _\<rangle> = Some (hd ring)"

definition addrs :: "ftree \<Rightarrow> baddr set" where
  "addrs T = \<Union> (set ` set_tree T)"

definition reps :: "ftree \<Rightarrow> baddr set" where
  "reps T = hd ` set_tree T"

fun rep :: "(baddr \<Rightarrow> bhdr) \<Rightarrow> baddr option \<Rightarrow> ftree \<Rightarrow> bool" where
  "rep h par \<langle>\<rangle> \<longleftrightarrow> True"
| "rep h par \<langle>l, ring, r\<rangle> \<longleftrightarrow> is_ring h ring \<and> bh_p (h (hd ring)) = par
     \<and> bh_l (h (hd ring)) = root_of l \<and> bh_r (h (hd ring)) = root_of r
     \<and> (\<forall>x \<in> set (tl ring). bh_p (h x) = None)
     \<and> rep h (Some (hd ring)) l \<and> rep h (Some (hd ring)) r"

text \<open>All addresses of the tree differ.\<close>

fun apart :: "ftree \<Rightarrow> bool" where
  "apart \<langle>\<rangle> \<longleftrightarrow> True"
| "apart \<langle>l, ring, r\<rangle> \<longleftrightarrow> ring \<noteq> [] \<and> distinct ring \<and> apart l \<and> apart r \<and> set ring \<inter> addrs l = {}
     \<and> set ring \<inter> addrs r = {} \<and> addrs l \<inter> addrs r = {}"

fun tsub :: "baddr \<Rightarrow> ftree \<Rightarrow> ftree \<Rightarrow> ftree" where
  "tsub a S \<langle>\<rangle> = \<langle>\<rangle>"
| "tsub a S \<langle>l, ring, r\<rangle> = (if hd ring = a then S else \<langle>tsub a S l, ring, tsub a S r\<rangle>)"

fun sub_at :: "baddr \<Rightarrow> ftree \<Rightarrow> ftree" where
  "sub_at a \<langle>\<rangle> = \<langle>\<rangle>"
| "sub_at a \<langle>l, ring, r\<rangle> = (if hd ring = a then \<langle>l, ring, r\<rangle>
     else if a \<in> reps l then sub_at a l else sub_at a r)"

lemma addrs_simps [simp]:
  "addrs \<langle>\<rangle> = {}" "addrs \<langle>l, ring, r\<rangle> = set ring \<union> addrs l \<union> addrs r"
  by (auto simp: addrs_def)

lemma reps_simps [simp]:
  "reps \<langle>\<rangle> = {}" "reps \<langle>l, ring, r\<rangle> = insert (hd ring) (reps l \<union> reps r)"
  by (auto simp: reps_def)

lemma reps_addrs: "apart T \<Longrightarrow> reps T \<subseteq> addrs T"
  by (induction T) auto

lemma finite_addrs [simp]: "finite (addrs T)"
  by (simp add: addrs_def)

lemma root_of_reps: "root_of T = Some a \<Longrightarrow> a \<in> reps T"
  by (cases T) auto

lemma rep_cong:
  "(\<And>x. x \<in> addrs T \<Longrightarrow> bh_l (h' x) = bh_l (h x) \<and> bh_r (h' x) = bh_r (h x) \<and> bh_p (h' x) = bh_p (h x)
      \<and> bh_f (h' x) = bh_f (h x) \<and> bh_v (h' x) = bh_v (h x))
    \<Longrightarrow> apart T \<Longrightarrow> rep h' par T \<longleftrightarrow> rep h par T"
proof (induction T arbitrary: par)
  case (Node l ring r)
  have ring: "is_ring h' ring \<longleftrightarrow> is_ring h ring" using Node.prems(1) by (intro is_ring_cong) auto
  have hd: "hd ring \<in> set ring" "\<And>x. x \<in> set (tl ring) \<Longrightarrow> x \<in> set ring"
    using Node.prems(2) by (auto intro: list.set_sel(2))
  show ?case using Node hd by (simp add: ring)
qed simp

lemma rep_frame:
  "rep h par T \<Longrightarrow> apart T \<Longrightarrow> (\<And>x. x \<in> addrs T \<Longrightarrow> bh_l (h' x) = bh_l (h x) \<and> bh_r (h' x) = bh_r (h x)
      \<and> bh_p (h' x) = bh_p (h x) \<and> bh_f (h' x) = bh_f (h x) \<and> bh_v (h' x) = bh_v (h x)) \<Longrightarrow> rep h' par T"
  using rep_cong [of T h' h par] by blast

lemma parent_in:
  "rep h par T \<Longrightarrow> a \<in> reps T \<Longrightarrow> root_of T = Some a \<and> bh_p (h a) = par \<or> (\<exists>y \<in> reps T. bh_p (h a) = Some y)"
proof (induction T arbitrary: par)
  case (Node l ring r)
  then consider "a = hd ring" | "a \<in> reps l" | "a \<in> reps r" by auto
  then show ?case using Node by cases auto
qed simp

lemma root_parent:
  "rep h (Some b) T \<Longrightarrow> a \<in> reps T \<Longrightarrow> b \<notin> reps T \<Longrightarrow> root_of T = Some a \<longleftrightarrow> bh_p (h a) = Some b"
  using parent_in [of h "Some b" T a] by (cases T) auto

lemma tsub_notin [simp]: "a \<notin> reps T \<Longrightarrow> tsub a S T = T"
  by (induction T) auto

lemma root_of_tsub: "root_of (tsub a S T) = (if root_of T = Some a then root_of S else root_of T)"
  by (cases T) auto

lemma sub_at_rep: "rep h par T \<Longrightarrow> a \<in> reps T \<Longrightarrow> rep h (bh_p (h a)) (sub_at a T)"
  by (induction T arbitrary: par) auto

lemma sub_at_node: "a \<in> reps T \<Longrightarrow> \<exists>l ring r. sub_at a T = \<langle>l, ring, r\<rangle> \<and> hd ring = a"
  by (induction T) auto

lemma sub_at_addrs: "addrs (sub_at a T) \<subseteq> addrs T"
  by (induction T) auto

lemma sub_at_apart: "apart T \<Longrightarrow> apart (sub_at a T)"
  by (induction T) auto

text \<open>
  Replacing the subtree at \<open>a\<close> by \<open>S\<close>, and giving the tree another parent: outside the subtree
  only the link of the parent of \<open>a\<close> and the parent of the root may change.
\<close>

lemma rep_tsub:
  assumes "rep h par T" "apart T" "a \<in> reps T"
    and same: "\<And>x. x \<in> addrs T - addrs (sub_at a T) \<Longrightarrow> bh_f (h' x) = bh_f (h x) \<and> bh_v (h' x) = bh_v (h x)"
    and p: "\<And>x. x \<in> addrs T - addrs (sub_at a T) \<Longrightarrow> bh_p (h' x) = (if root_of T = Some x then par' else bh_p (h x))"
    and l: "\<And>x. x \<in> addrs T - addrs (sub_at a T) \<Longrightarrow>
      bh_l (h' x) = (if bh_p (h a) = Some x \<and> bh_l (h x) = Some a then root_of S else bh_l (h x))"
    and r: "\<And>x. x \<in> addrs T - addrs (sub_at a T) \<Longrightarrow>
      bh_r (h' x) = (if bh_p (h a) = Some x \<and> bh_l (h x) \<noteq> Some a then root_of S else bh_r (h x))"
    and S: "rep h' (if root_of T = Some a then par' else bh_p (h a)) S"
  shows "rep h' par' (tsub a S T)"
  using assms
proof (induction T arbitrary: par par')
  case (Node L ring R)
  let ?b = "hd ring"
  show ?case
  proof (cases "?b = a")
    case False
    have ring: "set ring \<inter> addrs L = {}" "set ring \<inter> addrs R = {}" "addrs L \<inter> addrs R = {}"
      "?b \<in> set ring" "apart L" "apart R" "ring \<noteq> []" "distinct ring"
      using Node.prems(2) by auto
    have disj: "?b \<notin> addrs L" "?b \<notin> addrs R" "\<And>x. x \<in> addrs L \<Longrightarrow> x \<notin> addrs R" "?b \<noteq> a"
      using ring(1-4) False by blast+
    have reps: "reps L \<subseteq> addrs L" "reps R \<subseteq> addrs R" using ring by (auto dest: reps_addrs)
    have rpL: "rep h (Some ?b) L" and rpR: "rep h (Some ?b) R"
      and rg: "is_ring h ring" "\<And>x. x \<in> set (tl ring) \<Longrightarrow> bh_p (h x) = None"
      and lr: "bh_l (h ?b) = root_of L" "bh_r (h ?b) = root_of R"
      using Node.prems(1) by auto
    have tl: "\<And>x. x \<in> set (tl ring) \<Longrightarrow> x \<in> set ring \<and> x \<noteq> ?b"
      using ring(7,8) by (cases ring) auto
    have inL: "a \<in> reps L \<Longrightarrow> sub_at a \<langle>L, ring, R\<rangle> = sub_at a L"
      and inR: "a \<in> reps R \<Longrightarrow> sub_at a \<langle>L, ring, R\<rangle> = sub_at a R"
      using False reps ring by auto
    have out: "x \<in> set ring \<Longrightarrow> x \<notin> addrs (sub_at a \<langle>L, ring, R\<rangle>)" for x
      using ring inL inR Node.prems(3) False sub_at_addrs [of a L] sub_at_addrs [of a R] by auto
    have ring': "is_ring h' ring"
      using rg(1) is_ring_cong [of ring h' h] Node.prems(4) out by auto
    have tl': "\<And>x. x \<in> set (tl ring) \<Longrightarrow> bh_p (h' x) = None"
      using Node.prems(5) out tl rg(2) by auto
    have b': "bh_p (h' ?b) = par'" using Node.prems(5) [of ?b] out ring(4) by auto
    show ?thesis
    proof (cases "a \<in> reps L")
      case True
      then have aR: "a \<notin> reps R" using reps ring by auto
      have par_a: "bh_p (h a) = Some y \<Longrightarrow> y \<in> insert ?b (addrs L)" for y
        using parent_in [OF rpL True] reps by auto
      have subR: "x \<in> addrs R \<Longrightarrow> x \<notin> addrs (sub_at a L)" for x
        using sub_at_addrs [of a L] ring by auto
      have R': "rep h' (Some ?b) R"
      proof (rule iffD2 [OF rep_cong rpR])
        fix x assume x: "x \<in> addrs R"
        then have "x \<in> addrs \<langle>L, ring, R\<rangle> - addrs (sub_at a \<langle>L, ring, R\<rangle>)" "x \<noteq> ?b" "bh_p (h a) \<noteq> Some x"
          using disj subR [OF x] par_a inL [OF True] x by auto
        then show "bh_l (h' x) = bh_l (h x) \<and> bh_r (h' x) = bh_r (h x) \<and> bh_p (h' x) = bh_p (h x)
            \<and> bh_f (h' x) = bh_f (h x) \<and> bh_v (h' x) = bh_v (h x)"
          using Node.prems(4-7) [of x] by simp
      qed (rule ring)
      have root: "root_of L = Some a \<longleftrightarrow> bh_p (h a) = Some ?b"
        by (rule root_parent [OF rpL True]) (use disj reps in blast)
      have p_L: "root_of L = Some x \<Longrightarrow> bh_p (h x) = Some ?b" for x
        using rpL by (cases L) auto
      have fr: "bh_f (h' x) = bh_f (h x) \<and> bh_v (h' x) = bh_v (h x)
          \<and> bh_p (h' x) = (if root_of L = Some x then Some ?b else bh_p (h x))
          \<and> bh_l (h' x) = (if bh_p (h a) = Some x \<and> bh_l (h x) = Some a then root_of S else bh_l (h x))
          \<and> bh_r (h' x) = (if bh_p (h a) = Some x \<and> bh_l (h x) \<noteq> Some a then root_of S else bh_r (h x))"
        if x: "x \<in> addrs L - addrs (sub_at a L)" for x
      proof -
        have "x \<in> addrs \<langle>L, ring, R\<rangle> - addrs (sub_at a \<langle>L, ring, R\<rangle>)" "x \<noteq> ?b"
          using x disj inL [OF True] by auto
        then show ?thesis using Node.prems(4-7) [of x] p_L [of x] by simp
      qed
      have L': "rep h' (Some ?b) (tsub a S L)"
      proof (rule Node.IH(1) [OF rpL ring(5) True])
        show "rep h' (if root_of L = Some a then Some ?b else bh_p (h a)) S"
          using Node.prems(8) False root by (simp split: if_splits)
      qed (use fr in blast)+
      have lr': "bh_l (h' ?b) = root_of (tsub a S L)" "bh_r (h' ?b) = root_of R"
        using Node.prems(6) [of ?b] Node.prems(7) [of ?b] out ring(4) lr root
        by (auto simp: root_of_tsub)
      show ?thesis using L' R' lr' ring' tl' b' aR False by simp
    next
      case aL: False
      then have True: "a \<in> reps R" using Node.prems(3) False by auto
      have par_a: "bh_p (h a) = Some y \<Longrightarrow> y \<in> insert ?b (addrs R)" for y
        using parent_in [OF rpR True] reps by auto
      have subL: "x \<in> addrs L \<Longrightarrow> x \<notin> addrs (sub_at a R)" for x
        using sub_at_addrs [of a R] ring by auto
      have L': "rep h' (Some ?b) L"
      proof (rule iffD2 [OF rep_cong rpL])
        fix x assume x: "x \<in> addrs L"
        then have "x \<in> addrs \<langle>L, ring, R\<rangle> - addrs (sub_at a \<langle>L, ring, R\<rangle>)" "x \<noteq> ?b" "bh_p (h a) \<noteq> Some x"
          using disj subL [OF x] par_a inR [OF True] x by auto
        then show "bh_l (h' x) = bh_l (h x) \<and> bh_r (h' x) = bh_r (h x) \<and> bh_p (h' x) = bh_p (h x)
            \<and> bh_f (h' x) = bh_f (h x) \<and> bh_v (h' x) = bh_v (h x)"
          using Node.prems(4-7) [of x] by simp
      qed (rule ring)
      have root: "root_of R = Some a \<longleftrightarrow> bh_p (h a) = Some ?b"
        by (rule root_parent [OF rpR True]) (use disj reps in blast)
      have p_R: "root_of R = Some x \<Longrightarrow> bh_p (h x) = Some ?b" for x
        using rpR by (cases R) auto
      have notL: "root_of L \<noteq> Some a" using aL root_of_reps by auto
      have fr: "bh_f (h' x) = bh_f (h x) \<and> bh_v (h' x) = bh_v (h x)
          \<and> bh_p (h' x) = (if root_of R = Some x then Some ?b else bh_p (h x))
          \<and> bh_l (h' x) = (if bh_p (h a) = Some x \<and> bh_l (h x) = Some a then root_of S else bh_l (h x))
          \<and> bh_r (h' x) = (if bh_p (h a) = Some x \<and> bh_l (h x) \<noteq> Some a then root_of S else bh_r (h x))"
        if x: "x \<in> addrs R - addrs (sub_at a R)" for x
      proof -
        have "x \<in> addrs \<langle>L, ring, R\<rangle> - addrs (sub_at a \<langle>L, ring, R\<rangle>)" "x \<noteq> ?b"
          using x disj inR [OF True] by auto
        then show ?thesis using Node.prems(4-7) [of x] p_R [of x] by simp
      qed
      have R': "rep h' (Some ?b) (tsub a S R)"
      proof (rule Node.IH(2) [OF rpR ring(6) True])
        show "rep h' (if root_of R = Some a then Some ?b else bh_p (h a)) S"
          using Node.prems(8) False root by (simp split: if_splits)
      qed (use fr in blast)+
      have lr': "bh_l (h' ?b) = root_of L" "bh_r (h' ?b) = root_of (tsub a S R)"
        using Node.prems(6) [of ?b] Node.prems(7) [of ?b] out ring(4) lr root notL
        by (auto simp: root_of_tsub)
      show ?thesis using L' R' lr' ring' tl' b' aL False by simp
    qed
  qed (use Node.prems in auto)
qed simp

end
