(* ===== verification/PoolDel.thy ===== *)
theory PoolDel
  imports PoolTree
begin

text \<open>
  \<open>pooldel\<close> and \<open>pooladd\<close> on a represented tree are deletion and insertion of the tree of
  rings (\<open>tdel\<close>, \<open>tins\<close>); the searches are searches of the tree.
\<close>

section \<open>Deletion in the tree\<close>

fun split_min :: "ftree \<Rightarrow> baddr list \<times> ftree" where
  "split_min \<langle>\<rangle> = ([], \<langle>\<rangle>)"
| "split_min \<langle>l, ring, r\<rangle> = (if l = \<langle>\<rangle> then (ring, r) else let (m, l') = split_min l in (m, \<langle>l', ring, r\<rangle>))"

definition tjoin :: "ftree \<Rightarrow> ftree \<Rightarrow> ftree" where
  "tjoin l r = (if l = \<langle>\<rangle> then r else if r = \<langle>\<rangle> then l else let (m, r') = split_min r in \<langle>l, m, r'\<rangle>)"

definition ndel :: "baddr \<Rightarrow> ftree \<Rightarrow> baddr list \<Rightarrow> ftree \<Rightarrow> ftree" where
  "ndel t l ring r = (if ring = [t] then tjoin l r else \<langle>l, remove1 t ring, r\<rangle>)"

fun tdel :: "baddr \<Rightarrow> ftree \<Rightarrow> ftree" where
  "tdel t \<langle>\<rangle> = \<langle>\<rangle>"
| "tdel t \<langle>l, ring, r\<rangle> = (if t \<in> set ring then ndel t l ring r else \<langle>tdel t l, ring, tdel t r\<rangle>)"

lemma split_min_inorder: "T \<noteq> \<langle>\<rangle> \<Longrightarrow> fst (split_min T) # inorder (snd (split_min T)) = inorder T"
  by (induction T rule: split_min.induct) (auto split: prod.splits)

lemma inorder_tjoin [simp]: "inorder (tjoin l r) = inorder l @ inorder r"
  using split_min_inorder [of r] by (auto simp: tjoin_def split: prod.splits)

definition rings :: "ftree \<Rightarrow> baddr list list" where
  "rings T = inorder T"

lemma addrs_inorder: "addrs T = \<Union> (set ` set (inorder T))"
  by (simp add: addrs_def)

lemma tdel_notin [simp]: "t \<notin> addrs T \<Longrightarrow> tdel t T = T"
  by (induction T) auto

lemma apart_iff: "apart T \<longleftrightarrow> distinct (concat (inorder T)) \<and> [] \<notin> set (inorder T)"
  by (induction T) (auto simp: addrs_inorder)

text \<open>On the list of rings, deletion removes the block from its ring, and a ring with its last block.\<close>

definition ring_del :: "baddr \<Rightarrow> baddr list list \<Rightarrow> baddr list list" where
  "ring_del t rs = filter (\<lambda>r. r \<noteq> []) (map (remove1 t) rs)"

lemma ring_del_notin: "t \<notin> \<Union> (set ` set rs) \<Longrightarrow> [] \<notin> set rs \<Longrightarrow> ring_del t rs = rs"
  by (induction rs) (auto simp: ring_del_def remove1_idem)

lemma remove1_empty: "remove1 t ring = [] \<longleftrightarrow> ring = [] \<or> ring = [t]"
  "[] = remove1 t ring \<longleftrightarrow> ring = [] \<or> ring = [t]"
  by (cases ring; auto)+

lemma inorder_tdel: "apart T \<Longrightarrow> inorder (tdel t T) = ring_del t (inorder T)"
proof (induction T)
  case (Node l ring r)
  have e: "t \<notin> addrs X \<Longrightarrow> apart X \<Longrightarrow> ring_del t (inorder X) = inorder X" for X
    by (rule ring_del_notin) (auto simp: addrs_inorder apart_iff)
  show ?case
  proof (cases "t \<in> set ring")
    case True
    then have "t \<notin> addrs l" "t \<notin> addrs r" using Node.prems by auto
    then show ?thesis using True Node.prems e [of l] e [of r]
      by (auto simp: ndel_def ring_del_def remove1_empty)
  next
    case False
    then show ?thesis using Node by (auto simp: ring_del_def remove1_idem)
  qed
qed (simp add: ring_del_def)

lemma ring_del_apart:
  "distinct (concat rs) \<Longrightarrow> distinct (concat (ring_del t rs)) \<and> [] \<notin> set (ring_del t rs)
    \<and> \<Union> (set ` set (ring_del t rs)) = \<Union> (set ` set rs) - {t}"
  by (induction rs) (auto simp: ring_del_def remove1_empty set_remove1_eq dest: in_set_remove1)

lemma apart_tdel: "apart T \<Longrightarrow> apart (tdel t T) \<and> addrs (tdel t T) = addrs T - {t}"
  using ring_del_apart [of "inorder T" t] inorder_tdel [of T t] by (simp add: apart_iff addrs_inorder)

lemma tdel_tsub:
  "apart T \<Longrightarrow> a \<in> reps T \<Longrightarrow> sub_at a T = \<langle>l, ring, r\<rangle> \<Longrightarrow> t \<in> set ring \<Longrightarrow>
    tdel t T = tsub a (ndel t l ring r) T"
proof (induction T)
  case (Node L rg R)
  have reps: "reps L \<subseteq> addrs L" "reps R \<subseteq> addrs R" using Node.prems(1) reps_addrs by auto
  show ?case
  proof (cases "hd rg = a")
    case True
    then show ?thesis using Node.prems by simp
  next
    case False
    show ?thesis
    proof (cases "a \<in> reps L")
      case True
      then have "t \<in> addrs L" using Node.prems False sub_at_addrs [of a L] by auto
      then have "t \<notin> set rg" "t \<notin> addrs R" "a \<notin> reps R" using Node.prems(1) True reps by auto
      then show ?thesis using Node False True by auto
    next
      case False
      then have "t \<in> addrs R" using Node.prems \<open>hd rg \<noteq> a\<close> sub_at_addrs [of a R] by auto
      then have "t \<notin> set rg" "t \<notin> addrs L" using Node.prems(1) by auto
      then show ?thesis using Node False \<open>hd rg \<noteq> a\<close> by auto
    qed
  qed
qed simp

lemma node_of:
  "t \<in> addrs T \<Longrightarrow> apart T \<Longrightarrow> \<exists>a l ring r. a \<in> reps T \<and> sub_at a T = \<langle>l, ring, r\<rangle> \<and> hd ring = a \<and> t \<in> set ring"
proof (induction T)
  case (Node L rg R)
  have reps: "reps L \<subseteq> addrs L" "reps R \<subseteq> addrs R" using Node.prems(2) reps_addrs by auto
  consider "t \<in> set rg" | "t \<in> addrs L" | "t \<in> addrs R" using Node.prems by auto
  then show ?case
  proof cases
    case 1
    then show ?thesis by (intro exI [of _ "hd rg"]) auto
  next
    case 2
    then obtain a l ring r where "a \<in> reps L" "sub_at a L = \<langle>l, ring, r\<rangle>" "hd ring = a" "t \<in> set ring"
      using Node by auto
    moreover then have "a \<noteq> hd rg" using Node.prems(2) reps hd_in_set [of rg] by (auto simp: disjoint_iff)
    ultimately show ?thesis by (intro exI [of _ a]) auto
  next
    case 3
    then obtain a l ring r where a: "a \<in> reps R" "sub_at a R = \<langle>l, ring, r\<rangle>" "hd ring = a" "t \<in> set ring"
      using Node by auto
    then have "a \<noteq> hd rg" "a \<notin> reps L" using Node.prems(2) reps hd_in_set [of rg] by (auto simp: disjoint_iff)
    then show ?thesis using a by (intro exI [of _ a]) auto
  qed
qed simp

section \<open>What the operations leave alone\<close>

text \<open>Only links of headers and the root change.\<close>

definition links_only :: "pool \<Rightarrow> pool \<Rightarrow> bool" where
  "links_only s t \<longleftrightarrow> s\<lparr>hdrs := hdrs t, p_root := p_root t\<rparr> = t
     \<and> (\<forall>x. bh_magic (hdrs t x) = bh_magic (hdrs s x) \<and> bh_size (hdrs t x) = bh_size (hdrs s x)
          \<and> bh_link (hdrs t x) = bh_link (hdrs s x) \<and> bh_csize (hdrs t x) = bh_csize (hdrs s x))"

lemma links_only_refl [simp]: "links_only s s"
  by (simp add: links_only_def)

lemma links_only_trans: "links_only s t \<Longrightarrow> links_only t u \<Longrightarrow> links_only s u"
  by (cases s; cases t; cases u) (simp add: links_only_def)

definition link_upd :: "(bhdr \<Rightarrow> bhdr) \<Rightarrow> bool" where
  "link_upd f \<longleftrightarrow> (\<forall>b. bh_magic (f b) = bh_magic b \<and> bh_size (f b) = bh_size b
     \<and> bh_link (f b) = bh_link b \<and> bh_csize (f b) = bh_csize b)"

lemma link_upds [simp]:
  "link_upd (bh_l_update f)" "link_upd (bh_r_update f)" "link_upd (bh_p_update f)"
  "link_upd (bh_f_update f)" "link_upd (bh_v_update f)"
  by (simp_all add: link_upd_def)

lemma links_only_upd_h: "link_upd f \<Longrightarrow> links_only s t \<Longrightarrow> links_only s (upd_h a f t)"
  by (cases s; cases t) (simp add: links_only_def link_upd_def upd_h_def)

lemma links_only_root: "links_only s t \<Longrightarrow> links_only s (t\<lparr>p_root := r\<rparr>)"
  by (cases s; cases t) (simp add: links_only_def)

lemma links_only_upd_opt: "link_upd f \<Longrightarrow> links_only s t \<Longrightarrow> links_only s (upd_opt p f t)"
  by (cases p) (simp_all add: upd_opt_def links_only_upd_h)

lemma links_only_relink: "links_only s t \<Longrightarrow> links_only s (relink q a rp t)"
  by (auto simp: relink_def links_only_upd_h links_only_root split: option.splits)

lemmas links_only_intros = links_only_refl links_only_upd_h links_only_upd_opt links_only_relink link_upds

lemma nonnil_eq [simp]: "nonnil p = Inr a \<longleftrightarrow> p = Some a" "nonnil (Some a) = Inr a"
  by (auto simp: nonnil_def split: option.splits)

lemma links_only_unring: "unring a t = Inr u \<Longrightarrow> links_only s t \<Longrightarrow> links_only s u"
  by (auto simp: unring_def Let_def rbind_eq_Inr_iff links_only_intros)

lemma links_only_pooldel: "pooldel a s = Inr u \<Longrightarrow> links_only s u"
  by (auto simp: pooldel_def del_ring_head_def del_replacement_def Let_def rbind_eq_Inr_iff
      intro!: links_only_intros elim!: links_only_unring split: if_splits option.splits prod.splits)

end
