(* ===== verification/PoolRep.thy ===== *)
theory PoolRep
  imports PoolDel
begin

section \<open>pooldel: blocks of larger rings\<close>

lemma upd_h_field [simp]: "hdrs (upd_h a f s) x = (if x = a then f (hdrs s x) else hdrs s x)"
  by (simp add: upd_h_def)

lemma upd_h_other [simp]: "p_root (upd_h a f s) = p_root s"
  by (simp add: upd_h_def)

lemma upd_opt_field [simp]: "hdrs (upd_opt p f s) x = (if p = Some x then f (hdrs s x) else hdrs s x)"
  by (simp add: upd_opt_def split: option.splits)

lemma upd_opt_other [simp]: "p_root (upd_opt p f s) = p_root s"
  by (simp add: upd_opt_def split: option.splits)

lemma relink_field:
  "hdrs (relink q t rp s) x = (if q = Some x
     then (if bh_l (hdrs s x) = Some t then (hdrs s x)\<lparr>bh_l := rp\<rparr> else (hdrs s x)\<lparr>bh_r := rp\<rparr>) else hdrs s x)"
  "p_root (relink q t rp s) = (if q = None then rp else p_root s)"
  by (auto simp: relink_def split: option.splits)

lemma unring_fields:
  assumes "bh_v (hdrs s t) = Some v" "bh_f (hdrs s t) = Some f" "v \<noteq> t"
  shows "\<exists>u. unring t s = Inr u \<and> p_root u = p_root s
    \<and> (\<forall>x. bh_l (hdrs u x) = bh_l (hdrs s x) \<and> bh_r (hdrs u x) = bh_r (hdrs s x) \<and> bh_p (hdrs u x) = bh_p (hdrs s x)
        \<and> bh_f (hdrs u x) = (if x = v then Some f else bh_f (hdrs s x))
        \<and> bh_v (hdrs u x) = (if x = f then Some v else bh_v (hdrs s x)))"
  using assms by (simp add: unring_def Let_def)

lemma ring_unring:
  assumes "is_ring h ring" "distinct ring" "t \<in> set ring" "ring \<noteq> [t]"
  obtains f v where "bh_f (h t) = Some f" "bh_v (h t) = Some v" "f \<noteq> t" "v \<noteq> t" "f \<in> set ring" "v \<in> set ring"
    "t = hd ring \<Longrightarrow> f = hd (remove1 t ring)"
    "\<And>h' :: baddr \<Rightarrow> bhdr. (\<And>x. x \<in> set ring - {t} \<Longrightarrow> bh_f (h' x) = (if x = v then Some f else bh_f (h x))
       \<and> bh_v (h' x) = (if x = f then Some v else bh_v (h x))) \<Longrightarrow> is_ring h' (remove1 t ring)"
proof -
  obtain ys zs where r: "ring = ys @ t # zs" using assms(3) by (auto simp: in_set_conv_decomp)
  let ?rest = "zs @ ys"
  have ne: "?rest \<noteq> []" using assms(4) r by auto
  have d: "distinct (t # ?rest)" using assms(2) r by auto
  have ring: "is_ring h (t # ?rest)" using is_ring_rotate [of h ys "t # zs"] assms(1) r by simp
  have rm: "remove1 t ring = ys @ zs" using d r by (simp add: remove1_append)
  have fv: "bh_f (h t) = Some (hd ?rest)" "bh_v (h t) = Some (last ?rest)"
    by (rule ring_first [OF ring ne])+
  have hl: "hd ?rest \<in> set ?rest" "last ?rest \<in> set ?rest" using ne by (metis hd_in_set, metis last_in_set)
  show thesis
  proof (rule that [OF fv])
    show "hd ?rest \<noteq> t" "last ?rest \<noteq> t" "hd ?rest \<in> set ring" "last ?rest \<in> set ring"
      using hl d r by auto
    show "t = hd ring \<Longrightarrow> hd ?rest = hd (remove1 t ring)"
      using d r rm by (cases ys) auto
  next
    fix h' :: "baddr \<Rightarrow> bhdr"
    assume a: "\<And>x. x \<in> set ring - {t} \<Longrightarrow> bh_f (h' x) = (if x = last ?rest then Some (hd ?rest) else bh_f (h x))
       \<and> bh_v (h' x) = (if x = hd ?rest then Some (last ?rest) else bh_v (h x))"
    have "is_ring h' ?rest"
    proof (rule ring_remove_first [OF ring ne d])
      fix x assume "x \<in> set ?rest"
      then have "x \<in> set ring - {t}" using d r by auto
      then show "bh_f (h' x) = (if x = last ?rest then bh_f (h t) else bh_f (h x))"
        "bh_v (h' x) = (if x = hd ?rest then bh_v (h t) else bh_v (h x))"
        using a fv by simp_all
    qed
    then show "is_ring h' (remove1 t ring)" using is_ring_rotate [of h' zs ys] by (simp add: rm)
  qed
qed

lemma rep_reparent:
  assumes "rep h par T" "apart T"
    and "\<And>x. x \<in> addrs T \<Longrightarrow> bh_l (h' x) = bh_l (h x) \<and> bh_r (h' x) = bh_r (h x)
      \<and> bh_f (h' x) = bh_f (h x) \<and> bh_v (h' x) = bh_v (h x)
      \<and> bh_p (h' x) = (if root_of T = Some x then par' else bh_p (h x))"
  shows "rep h' par' T"
proof (cases T)
  case (Node l ring r)
  have k: "hd ring \<in> set ring" "\<And>x. x \<in> set (tl ring) \<Longrightarrow> x \<in> set ring \<and> x \<noteq> hd ring"
    using assms(2) unfolding Node by (auto intro: list.set_sel(2)) (cases ring; auto)
  have ring: "is_ring h' ring \<longleftrightarrow> is_ring h ring" using assms(3) Node by (intro is_ring_cong) auto
  have n: "x \<noteq> hd ring" if "x \<in> addrs l \<union> addrs r" for x
    using that k(1) assms(2) unfolding Node by (auto simp: disjoint_iff)
  have l: "rep h' (Some (hd ring)) l \<longleftrightarrow> rep h (Some (hd ring)) l"
    using assms(2,3) n unfolding Node by (intro rep_cong) auto
  have r: "rep h' (Some (hd ring)) r \<longleftrightarrow> rep h (Some (hd ring)) r"
    using assms(2,3) n unfolding Node by (intro rep_cong) auto
  show ?thesis using assms(1,3) k unfolding Node by (simp add: ring l r) metis
qed simp

text \<open>The tree of the pool, as \<open>pooldel\<close> and \<open>pooladd\<close> find it.\<close>

definition tree_ok :: "pool \<Rightarrow> ftree \<Rightarrow> bool" where
  "tree_ok s T \<longleftrightarrow> rep (hdrs s) None T \<and> p_root s = root_of T \<and> apart T"

lemma parent_some: "rep h None T \<Longrightarrow> a \<in> reps T \<Longrightarrow> bh_p (h a) = None \<longleftrightarrow> root_of T = Some a"
proof (cases T)
  case (Node l ring r)
  assume a: "rep h None T" "a \<in> reps T"
  have "bh_p (h a) \<noteq> None" if "a \<in> reps l \<or> a \<in> reps r"
    using that a(1) parent_in [of h "Some (hd ring)" l a] parent_in [of h "Some (hd ring)" r a]
    unfolding Node by auto
  show ?thesis
  proof (cases "hd ring = a")
    case True
    then show ?thesis using a(1) unfolding Node by simp
  next
    case False
    then show ?thesis using a \<open>a \<in> reps l \<or> a \<in> reps r \<Longrightarrow> bh_p (h a) \<noteq> None\<close> unfolding Node by auto
  qed
qed simp

lemma parent_out:
  "rep h par T \<Longrightarrow> apart T \<Longrightarrow> a \<in> reps T \<Longrightarrow> root_of T = Some a \<or>
    (\<exists>q. bh_p (h a) = Some q \<and> q \<in> addrs T - addrs (sub_at a T))"
proof (induction T arbitrary: par)
  case (Node L ring R)
  show ?case
  proof (cases "hd ring = a")
    case False
    have b: "hd ring \<in> set ring" "hd ring \<notin> addrs L" "hd ring \<notin> addrs R"
      using Node.prems(2) hd_in_set [of ring] by (auto simp: disjoint_iff)
    show ?thesis
    proof (cases "a \<in> reps L")
      case True
      have "rep h (Some (hd ring)) L" "apart L" using Node.prems by auto
      from Node.IH(1) [OF this True]
      consider "root_of L = Some a" | q where "bh_p (h a) = Some q" "q \<in> addrs L - addrs (sub_at a L)"
        by auto
      then show ?thesis
      proof cases
        case 1
        then have "bh_p (h a) = Some (hd ring)" using Node.prems(1) by (cases L) auto
        then show ?thesis using b True False sub_at_addrs [of a L] by auto
      qed (use True False in auto)
    next
      case aL: False
      then have True: "a \<in> reps R" using Node.prems(3) False by auto
      have "rep h (Some (hd ring)) R" "apart R" using Node.prems by auto
      from Node.IH(2) [OF this True]
      consider "root_of R = Some a" | q where "bh_p (h a) = Some q" "q \<in> addrs R - addrs (sub_at a R)"
        by auto
      then show ?thesis
      proof cases
        case 1
        then have "bh_p (h a) = Some (hd ring)" using Node.prems(1) by (cases R) auto
        then show ?thesis using b aL False sub_at_addrs [of a R] by auto
      qed (use aL False in auto)
    qed
  qed simp
qed simp

lemma parent_child:
  "rep h par T \<Longrightarrow> a \<in> reps T \<Longrightarrow> bh_p (h a) = Some q \<Longrightarrow> root_of T = Some a \<and> par = Some q \<or>
    bh_l (h q) = Some a \<or> bh_r (h q) = Some a"
proof (induction T arbitrary: par)
  case (Node L ring R)
  show ?case
  proof (cases "hd ring = a")
    case True
    then show ?thesis using Node.prems by auto
  next
    case False
    have "rep h (Some (hd ring)) L" "rep h (Some (hd ring)) R" "bh_l (h (hd ring)) = root_of L"
      "bh_r (h (hd ring)) = root_of R" using Node.prems(1) by auto
    then show ?thesis using Node.IH(1) [of "Some (hd ring)"] Node.IH(2) [of "Some (hd ring)"] Node.prems(2,3) False
      by fastforce
  qed
qed simp

lemma tree_ok_tsub:
  assumes "tree_ok s T" "a \<in> reps T"
    and fr: "\<And>x. x \<in> addrs T - addrs (sub_at a T) \<Longrightarrow>
      bh_f (hdrs u x) = bh_f (hdrs s x) \<and> bh_v (hdrs u x) = bh_v (hdrs s x) \<and> bh_p (hdrs u x) = bh_p (hdrs s x)
      \<and> bh_l (hdrs u x) = (if bh_p (hdrs s a) = Some x \<and> bh_l (hdrs s x) = Some a then root_of S else bh_l (hdrs s x))
      \<and> bh_r (hdrs u x) = (if bh_p (hdrs s a) = Some x \<and> bh_l (hdrs s x) \<noteq> Some a then root_of S else bh_r (hdrs s x))"
    and "rep (hdrs u) (bh_p (hdrs s a)) S" "apart (tsub a S T)"
    and "p_root u = (if bh_p (hdrs s a) = None then root_of S else p_root s)"
  shows "tree_ok u (tsub a S T)"
proof -
  have T: "rep (hdrs s) None T" "apart T" "p_root s = root_of T" using assms(1) by (auto simp: tree_ok_def)
  have root: "root_of T = Some x \<Longrightarrow> bh_p (hdrs s x) = None" for x
    using T(1) by (cases T) auto
  have par: "bh_p (hdrs s a) = None \<longleftrightarrow> root_of T = Some a" by (rule parent_some [OF T(1) assms(2)])
  have "rep (hdrs u) None (tsub a S T)"
    by (rule rep_tsub [OF T(1,2) assms(2)]) (use fr root assms(4) par in auto)
  then show ?thesis using assms(5,6) par T(3) by (simp add: tree_ok_def root_of_tsub)
qed

text \<open>What the theorems below know of the node that holds \<open>t\<close>.\<close>

lemma sub_facts:
  assumes "tree_ok s T" "a \<in> reps T" "sub_at a T = \<langle>l, ring, r\<rangle>"
  shows "rep (hdrs s) (bh_p (hdrs s a)) \<langle>l, ring, r\<rangle>" "apart \<langle>l, ring, r\<rangle>" "hd ring = a"
    "addrs \<langle>l, ring, r\<rangle> \<subseteq> addrs T" "bh_p (hdrs s a) = Some q \<Longrightarrow> q \<in> addrs T - addrs \<langle>l, ring, r\<rangle>"
proof -
  have T: "rep (hdrs s) None T" "apart T" "p_root s = root_of T" using assms(1) by (auto simp: tree_ok_def)
  show S: "rep (hdrs s) (bh_p (hdrs s a)) \<langle>l, ring, r\<rangle>" "apart \<langle>l, ring, r\<rangle>"
      "addrs \<langle>l, ring, r\<rangle> \<subseteq> addrs T" "hd ring = a"
    using sub_at_rep [OF T(1) assms(2)] sub_at_apart [OF T(2), of a] sub_at_addrs [of a T]
      sub_at_node [OF assms(2)] assms(3) by auto
  show "q \<in> addrs T - addrs \<langle>l, ring, r\<rangle>" if "bh_p (hdrs s a) = Some q"
    using parent_out [OF T(1,2) assms(2)] parent_some [OF T(1) assms(2)] that assms(3) by auto
qed

end
