(* ===== verification/PoolDelRep.thy ===== *)
theory PoolDelRep
  imports PoolRep
begin

text \<open>\<open>pooldel\<close> is \<open>tdel\<close>: a block within its ring, the first of a larger ring, a node of its own.\<close>

lemma apart_tsub_ndel:
  assumes "tree_ok s T" "a \<in> reps T" "sub_at a T = \<langle>l, ring, r\<rangle>" "t \<in> set ring"
  shows "apart (tsub a (ndel t l ring r) T)"
  using assms apart_tdel [of T t] tdel_tsub [of T a l ring r t] by (simp add: tree_ok_def)

lemma node_links:
  assumes "tree_ok s T" "a \<in> reps T"
  shows "bh_p (hdrs s a) = None \<longleftrightarrow> p_root s = Some a"
    "bh_p (hdrs s a) = Some x \<Longrightarrow> bh_l (hdrs s x) \<noteq> Some a \<Longrightarrow> bh_r (hdrs s x) = Some a"
  using assms parent_some [of "hdrs s" T a] parent_child [of "hdrs s" None T a x] by (auto simp: tree_ok_def)

lemma pooldel_member:
  assumes "tree_ok s T" "a \<in> reps T" "sub_at a T = \<langle>l, ring, r\<rangle>" "t \<in> set ring" "t \<noteq> a"
  shows "\<exists>u. pooldel t s = Inr u \<and> tree_ok u (tsub a (ndel t l ring r) T)"
proof -
  note S = sub_facts [OF assms(1-3)]
  have ring: "is_ring (hdrs s) ring" "distinct ring" "ring \<noteq> [t]" "t \<in> set (tl ring)"
    using S(1-3) assms(4,5) by (simp_all, auto) (cases ring; auto)
  have p: "bh_p (hdrs s t) = None" using S(1) ring(4) by auto
  have "p_root s \<noteq> Some t"
  proof
    assume "p_root s = Some t"
    then obtain L rg R where T: "T = \<langle>L, rg, R\<rangle>" "hd rg = t" using assms(1) by (cases T) (auto simp: tree_ok_def)
    have "t \<in> addrs L \<union> addrs R"
      using assms(2-5) T sub_at_addrs [of a L] sub_at_addrs [of a R] by (auto split: if_splits)
    moreover have "t \<in> set rg" using T assms(1) by (auto simp: tree_ok_def)
    ultimately show False using assms(1) unfolding T by (auto simp: tree_ok_def disjoint_iff)
  qed
  then have eq: "pooldel t s = unring t s" using p by (simp add: pooldel_def)
  obtain f v where fv: "bh_f (hdrs s t) = Some f" "bh_v (hdrs s t) = Some v" "f \<noteq> t" "v \<noteq> t"
      "f \<in> set ring" "v \<in> set ring"
      "\<And>h'. (\<And>x. x \<in> set ring - {t} \<Longrightarrow> bh_f (h' x) = (if x = v then Some f else bh_f (hdrs s x))
       \<and> bh_v (h' x) = (if x = f then Some v else bh_v (hdrs s x))) \<Longrightarrow> is_ring h' (remove1 t ring)"
    by (rule ring_unring [OF ring(1,2) assms(4) ring(3)]) blast
  obtain u where u: "unring t s = Inr u" "p_root u = p_root s"
    "\<And>x. bh_l (hdrs u x) = bh_l (hdrs s x) \<and> bh_r (hdrs u x) = bh_r (hdrs s x) \<and> bh_p (hdrs u x) = bh_p (hdrs s x)
        \<and> bh_f (hdrs u x) = (if x = v then Some f else bh_f (hdrs s x))
        \<and> bh_v (hdrs u x) = (if x = f then Some v else bh_v (hdrs s x))"
    using unring_fields [OF fv(2,1,4)] by blast
  have hd: "hd (remove1 t ring) = a" "hd ring = a" "a \<in> set ring"
    using S(2,3) assms(5) by (cases ring; simp)+
  let ?S = "\<langle>l, remove1 t ring, r\<rangle>"
  have S': "ndel t l ring r = ?S" using ring(3) by (simp add: ndel_def)
  have nfv: "f \<notin> addrs l" "f \<notin> addrs r" "v \<notin> addrs l" "v \<notin> addrs r"
    using S(2) fv(5,6) by auto
  have tl: "x \<in> set (tl (remove1 t ring)) \<Longrightarrow> x \<in> set (tl ring)" for x
    using assms(5) hd using set_remove1_subset [of t "tl ring"] by (cases ring) auto
  have old: "rep (hdrs s) (Some a) l" "rep (hdrs s) (Some a) r" "apart l" "apart r" using S(1-3) by auto
  have rep_l: "rep (hdrs u) (Some a) l"
    by (rule rep_frame [OF old(1,3)]) (use u(3) nfv in auto)
  have rep_r: "rep (hdrs u) (Some a) r"
    by (rule rep_frame [OF old(2,4)]) (use u(3) nfv in auto)
  have "rep (hdrs u) (bh_p (hdrs s a)) ?S"
    using S(1) hd u(3) fv(7) [of "hdrs u"] rep_l rep_r tl by auto
  moreover note node_links [OF assms(1,2)]
  ultimately have "tree_ok u (tsub a ?S T)"
    using assms(1-4) u(2,3) hd(1) S(2) fv(5,6) apart_tsub_ndel [OF assms(1-4)] S'
    by (intro tree_ok_tsub [OF assms(1,2)]) auto
  then show ?thesis using eq u(1) S' by auto
qed

lemma del_ring_head_fields:
  assumes "bh_v (hdrs s t) = Some v" "bh_f (hdrs s t) = Some f" "v \<noteq> t" "f \<noteq> t"
    and q: "bh_p (hdrs s t) \<noteq> Some t" "bh_p (hdrs s t) \<noteq> Some f"
    and lr: "bh_l (hdrs s t) \<noteq> Some t" "bh_r (hdrs s t) \<noteq> Some t"
  shows "\<exists>u. del_ring_head t s = Inr u
    \<and> p_root u = (if bh_p (hdrs s t) = None then Some f else p_root s)
    \<and> (\<forall>x. bh_f (hdrs u x) = (if x = v then Some f else bh_f (hdrs s x))
        \<and> bh_v (hdrs u x) = (if x = f then Some v else bh_v (hdrs s x))
        \<and> bh_l (hdrs u x) = (if x = f then bh_l (hdrs s t)
             else if bh_p (hdrs s t) = Some x \<and> bh_l (hdrs s x) = Some t then Some f else bh_l (hdrs s x))
        \<and> bh_r (hdrs u x) = (if x = f then bh_r (hdrs s t)
             else if bh_p (hdrs s t) = Some x \<and> bh_l (hdrs s x) \<noteq> Some t then Some f else bh_r (hdrs s x))
        \<and> bh_p (hdrs u x) = (if bh_l (hdrs s t) = Some x \<or> bh_r (hdrs s t) = Some x then Some f
             else if x = f then bh_p (hdrs s t) else bh_p (hdrs s x)))"
proof -
  define s1 where "s1 = relink (bh_p (hdrs s t)) t (Some f) (upd_h f (bh_p_update (\<lambda>_. bh_p (hdrs s t))) s)"
  define s2 where "s2 = upd_opt (bh_l (hdrs s t)) (bh_p_update (\<lambda>_. Some f))
    (upd_h f (bh_l_update (\<lambda>_. bh_l (hdrs s t))) s1)"
  define s3 where "s3 = upd_opt (bh_r (hdrs s t)) (bh_p_update (\<lambda>_. Some f))
    (upd_h f (bh_r_update (\<lambda>_. bh_r (hdrs s t))) s2)"
  have h1: "hdrs s1 t = hdrs s t" using q(1) assms(4) by (simp add: s1_def relink_field)
  have h2: "hdrs s2 t = hdrs s t" using assms(4) lr(1) by (simp add: s2_def h1)
  have h3: "hdrs s3 t = hdrs s t" using assms(4) lr(2) by (simp add: s3_def h2)
  have eq: "del_ring_head t s = unring t s3"
    using assms(2,4) h1 h2 lr by (simp add: del_ring_head_def Let_def s3_def s2_def s1_def)
  obtain u where u: "unring t s3 = Inr u" "p_root u = p_root s3"
    "\<And>x. bh_l (hdrs u x) = bh_l (hdrs s3 x)" "\<And>x. bh_r (hdrs u x) = bh_r (hdrs s3 x)"
    "\<And>x. bh_p (hdrs u x) = bh_p (hdrs s3 x)"
    "\<And>x. bh_f (hdrs u x) = (if x = v then Some f else bh_f (hdrs s3 x))"
    "\<And>x. bh_v (hdrs u x) = (if x = f then Some v else bh_v (hdrs s3 x))"
    using unring_fields [of s3 t v f] assms(1-3) h3 by auto
  have f1: "bh_f (hdrs s1 x) = bh_f (hdrs s x)" "bh_v (hdrs s1 x) = bh_v (hdrs s x)"
    "bh_p (hdrs s1 x) = (if x = f then bh_p (hdrs s t) else bh_p (hdrs s x))"
    "bh_l (hdrs s1 x) = (if bh_p (hdrs s t) = Some x \<and> bh_l (hdrs s x) = Some t then Some f else bh_l (hdrs s x))"
    "bh_r (hdrs s1 x) = (if bh_p (hdrs s t) = Some x \<and> bh_l (hdrs s x) \<noteq> Some t then Some f else bh_r (hdrs s x))"
    for x using q(2) by (simp_all add: s1_def relink_field)
  have f3: "bh_f (hdrs s3 x) = bh_f (hdrs s1 x)" "bh_v (hdrs s3 x) = bh_v (hdrs s1 x)"
    "bh_p (hdrs s3 x) = (if bh_l (hdrs s t) = Some x \<or> bh_r (hdrs s t) = Some x then Some f else bh_p (hdrs s1 x))"
    "bh_l (hdrs s3 x) = (if x = f then bh_l (hdrs s t) else bh_l (hdrs s1 x))"
    "bh_r (hdrs s3 x) = (if x = f then bh_r (hdrs s t) else bh_r (hdrs s1 x))"
    for x by (simp_all add: s3_def s2_def)
  have "p_root s3 = (if bh_p (hdrs s t) = None then Some f else p_root s)"
    by (simp add: s3_def s2_def s1_def relink_field)
  then show ?thesis unfolding eq u(1) by (simp add: u(2-7) f3 f1)
qed

lemma pooldel_head:
  assumes "tree_ok s T" "a \<in> reps T" "sub_at a T = \<langle>l, ring, r\<rangle>" "ring \<noteq> [a]"
  shows "\<exists>u. pooldel a s = Inr u \<and> tree_ok u (tsub a (ndel a l ring r) T)"
proof -
  note S = sub_facts [OF assms(1-3)]
  have ring: "is_ring (hdrs s) ring" "distinct ring" "a \<in> set ring" "hd ring = a"
    using S(1-3) by auto
  obtain f v where fv: "bh_f (hdrs s a) = Some f" "bh_v (hdrs s a) = Some v" "f \<noteq> a" "v \<noteq> a"
      "f \<in> set ring" "v \<in> set ring" "f = hd (remove1 a ring)"
      "\<And>h'. (\<And>x. x \<in> set ring - {a} \<Longrightarrow> bh_f (h' x) = (if x = v then Some f else bh_f (hdrs s x))
       \<and> bh_v (h' x) = (if x = f then Some v else bh_v (hdrs s x))) \<Longrightarrow> is_ring h' (remove1 a ring)"
    by (rule ring_unring [OF ring(1,2,3) assms(4)]) (use ring(4) in blast)
  have child: "bh_l (hdrs s a) = root_of l" "bh_r (hdrs s a) = root_of r" using S(1) ring(4) by auto
  have sub: "root_of l = Some x \<Longrightarrow> x \<in> addrs l" "root_of r = Some x \<Longrightarrow> x \<in> addrs r" for x
    using S(2) reps_addrs [of l] reps_addrs [of r] root_of_reps [of l x] root_of_reps [of r x] by auto
  have nfv: "f \<notin> addrs l" "f \<notin> addrs r" "v \<notin> addrs l" "v \<notin> addrs r" "a \<notin> addrs l" "a \<notin> addrs r"
    using S(2) fv(5,6) ring(3) by auto
  have q: "bh_p (hdrs s a) \<noteq> Some x" if "x \<in> set ring \<union> addrs l \<union> addrs r" for x
    using that S(5) [of x] by auto
  have lr: "root_of l \<noteq> Some x" "root_of r \<noteq> Some x" if "x \<in> set ring" for x
    using that sub [of x] S(2) by auto
  obtain u where u: "del_ring_head a s = Inr u" "p_root u = (if bh_p (hdrs s a) = None then Some f else p_root s)"
    "\<And>x. bh_f (hdrs u x) = (if x = v then Some f else bh_f (hdrs s x))"
    "\<And>x. bh_v (hdrs u x) = (if x = f then Some v else bh_v (hdrs s x))"
    "\<And>x. bh_l (hdrs u x) = (if x = f then root_of l
             else if bh_p (hdrs s a) = Some x \<and> bh_l (hdrs s x) = Some a then Some f else bh_l (hdrs s x))"
    "\<And>x. bh_r (hdrs u x) = (if x = f then root_of r
             else if bh_p (hdrs s a) = Some x \<and> bh_l (hdrs s x) \<noteq> Some a then Some f else bh_r (hdrs s x))"
    "\<And>x. bh_p (hdrs u x) = (if root_of l = Some x \<or> root_of r = Some x then Some f
             else if x = f then bh_p (hdrs s a) else bh_p (hdrs s x))"
    using del_ring_head_fields [OF fv(2,1,4,3)] q [of a] q [of f] lr [OF ring(3)] ring(3) fv(5) unfolding child by simp blast
  have eq: "pooldel a s = del_ring_head a s"
    using node_links(1) [OF assms(1,2)] fv(1,3) by (auto simp: pooldel_def)
  let ?S = "\<langle>l, remove1 a ring, r\<rangle>"
  have S': "ndel a l ring r = ?S" using assms(4) by (simp add: ndel_def)
  have old: "rep (hdrs s) (Some a) l" "rep (hdrs s) (Some a) r" "apart l" "apart r" using S(1-3) by auto
  have disj: "\<And>x. x \<in> addrs l \<Longrightarrow> x \<notin> addrs r" using S(2) by auto
  have rep_l: "rep (hdrs u) (Some f) l"
    by (rule rep_reparent [OF old(1,3)]) (use u(3-7) nfv q sub disj in auto)
  have rep_r: "rep (hdrs u) (Some f) r"
    by (rule rep_reparent [OF old(2,4)]) (use u(3-7) nfv q sub disj in auto)
  have tl: "x \<in> set (tl (remove1 a ring)) \<Longrightarrow> x \<in> set (tl ring) \<and> x \<in> set ring \<and> x \<noteq> f" for x
    using ring(2,4) fv(7) by (cases ring; cases "tl ring") auto
  have rest: "is_ring (hdrs u) (remove1 a ring)" by (rule fv(8)) (simp add: u)
  have p: "bh_p (hdrs u f) = bh_p (hdrs s a)" using lr [OF fv(5)] by (simp add: u(7))
  have tl_p: "bh_p (hdrs u x) = None" if "x \<in> set (tl (remove1 a ring))" for x
    using tl [OF that] lr [of x] S(1) by (simp add: u(7))
  have "rep (hdrs u) (bh_p (hdrs s a)) ?S"
    using rest p tl_p rep_l rep_r by (simp add: fv(7) [symmetric] u(5,6))
  moreover have "bh_f (hdrs u x) = bh_f (hdrs s x) \<and> bh_v (hdrs u x) = bh_v (hdrs s x) \<and> bh_p (hdrs u x) = bh_p (hdrs s x)
      \<and> bh_l (hdrs u x) = (if bh_p (hdrs s a) = Some x \<and> bh_l (hdrs s x) = Some a then Some f else bh_l (hdrs s x))
      \<and> bh_r (hdrs u x) = (if bh_p (hdrs s a) = Some x \<and> bh_l (hdrs s x) \<noteq> Some a then Some f else bh_r (hdrs s x))"
    if x: "x \<in> addrs T - addrs (sub_at a T)" for x
  proof -
    have "x \<noteq> f" "x \<noteq> v" "root_of l \<noteq> Some x" "root_of r \<noteq> Some x"
      using x assms(3) fv(5,6) sub by auto
    then show ?thesis by (simp add: u(3-7))
  qed
  ultimately have "tree_ok u (tsub a ?S T)"
    using apart_tsub_ndel [OF assms(1-3) ring(3)] S' fv(7) u(2)
    by (intro tree_ok_tsub [OF assms(1,2)]) simp_all
  then show ?thesis using eq u(1) S' by auto
qed

end
