(* ===== verification/PoolDelOne.thy ===== *)
theory PoolDelOne
  imports PoolDelRep
begin

text \<open>\<open>pooldel\<close> of a node with one block: its subtrees are joined, the least node of the right one on top.\<close>

lemma split_min_node:
  "T \<noteq> \<langle>\<rangle> \<Longrightarrow> apart T \<Longrightarrow> split_min T = (ring, T') \<Longrightarrow>
    ring \<noteq> [] \<and> hd ring \<in> reps T \<and> (\<exists>R. sub_at (hd ring) T = \<langle>\<langle>\<rangle>, ring, R\<rangle> \<and> T' = tsub (hd ring) R T)"
proof (induction T arbitrary: T')
  case (Node l rg r)
  show ?case
  proof (cases "l = \<langle>\<rangle>")
    case False
    then obtain m l' where m: "split_min l = (m, l')" "ring = m" "T' = \<langle>l', rg, r\<rangle>"
      using Node.prems(3) by (auto split: prod.splits)
    then obtain R where R: "ring \<noteq> []" "hd ring \<in> reps l" "sub_at (hd ring) l = \<langle>\<langle>\<rangle>, ring, R\<rangle>"
        "l' = tsub (hd ring) R l"
      using Node.IH(1) [OF False, of l'] Node.prems(2) by auto
    have "hd ring \<in> addrs l" using R(2) reps_addrs [of l] Node.prems(2) by auto
    then have "hd ring \<noteq> hd rg" "hd ring \<notin> reps r"
      using Node.prems(2) hd_in_set [of rg] reps_addrs [of r] by (auto simp: disjoint_iff)
    then show ?thesis using m R by auto
  qed (use Node.prems in auto)
qed simp

lemma leftmost_min:
  "rep h (Some f0) T \<Longrightarrow> apart T \<Longrightarrow> root_of T = Some a \<Longrightarrow> split_min T = (ring, T') \<Longrightarrow>
    \<exists>f. leftmost h f0 a = Some (f, hd ring) \<and> bh_p (h (hd ring)) = Some f
      \<and> (f = f0 \<and> root_of T = Some (hd ring) \<or> f \<in> reps T \<and> bh_l (h f) = Some (hd ring))"
proof (induction T arbitrary: f0 a T')
  case (Node l rg r)
  have a: "a = hd rg" "bh_l (h a) = root_of l" "bh_p (h a) = Some f0" "rep h (Some a) l"
    using Node.prems by auto
  show ?case
  proof (cases l)
    case Leaf
    then show ?thesis using a Node.prems(4) by (subst leftmost.simps) auto
  next
    case (Node l1 lr l2)
    then obtain l' where m: "split_min l = (ring, l')"
      using Node.prems(4) by (auto split: prod.splits if_splits simp: Let_def)
    obtain b where b: "root_of l = Some b" using Node by simp
    have "apart l" using Node.prems(2) by simp
    then obtain f where f: "leftmost h a b = Some (f, hd ring)" "bh_p (h (hd ring)) = Some f"
        "f = a \<and> root_of l = Some (hd ring) \<or> f \<in> reps l \<and> bh_l (h f) = Some (hd ring)"
      using Node.IH(1) [OF a(4) _ b m] by auto
    then show ?thesis using a b by (subst leftmost.simps) auto
  qed
qed simp

text \<open>The replacement with two subtrees.\<close>

lemma del_replacement_fields:
  assumes "bh_l (hdrs s t) = Some x0" "bh_r (hdrs s t) = Some y0" "leftmost (hdrs s) t y0 = Some (f, m)"
    and "f \<noteq> t" "m \<noteq> t" "f \<noteq> m" "bh_r (hdrs s m) \<noteq> Some t" "x0 \<noteq> t" "y0 \<noteq> t"
    and "bh_r (hdrs s m) \<noteq> Some m" "y0 \<noteq> m"
  shows "\<exists>u. del_replacement t s = Inr (Some m, u) \<and> p_root u = p_root s
    \<and> (\<forall>x. bh_f (hdrs u x) = bh_f (hdrs s x) \<and> bh_v (hdrs u x) = bh_v (hdrs s x)
        \<and> bh_l (hdrs u x) = (if x = m then Some x0 else if x = f then bh_r (hdrs s m) else bh_l (hdrs s x))
        \<and> bh_r (hdrs u x) = (if x = m then Some y0 else bh_r (hdrs s x))
        \<and> bh_p (hdrs u x) = (if x = x0 \<or> x = y0 then Some m
             else if bh_r (hdrs s m) = Some x then Some f else bh_p (hdrs s x)))"
proof -
  define s1 where "s1 = upd_opt (bh_r (hdrs s m)) (bh_p_update (\<lambda>_. Some f))
    (upd_h f (bh_l_update (\<lambda>_. bh_r (hdrs s m))) s)"
  define s2 where "s2 = upd_h y0 (bh_p_update (\<lambda>_. Some m)) (upd_h m (bh_r_update (\<lambda>_. Some y0)) s1)"
  define s3 where "s3 = upd_h x0 (bh_p_update (\<lambda>_. Some m)) (upd_h m (bh_l_update (\<lambda>_. Some x0)) s2)"
  have h1: "hdrs s1 t = hdrs s t" using assms by (simp add: s1_def)
  have h2: "hdrs s2 t = hdrs s t" using assms by (simp add: s2_def h1)
  have r1: "bh_r (hdrs s1 x) = bh_r (hdrs s x)" "bh_f (hdrs s1 x) = bh_f (hdrs s x)" "bh_v (hdrs s1 x) = bh_v (hdrs s x)"
    "bh_l (hdrs s1 x) = (if x = f then bh_r (hdrs s m) else bh_l (hdrs s x))"
    "bh_p (hdrs s1 x) = (if bh_r (hdrs s m) = Some x then Some f else bh_p (hdrs s x))" for x
    by (simp_all add: s1_def)
  have r3: "bh_r (hdrs s3 x) = (if x = m then Some y0 else bh_r (hdrs s1 x))" "bh_f (hdrs s3 x) = bh_f (hdrs s1 x)"
    "bh_v (hdrs s3 x) = bh_v (hdrs s1 x)" "bh_l (hdrs s3 x) = (if x = m then Some x0 else bh_l (hdrs s1 x))"
    "bh_p (hdrs s3 x) = (if x = x0 \<or> x = y0 then Some m else bh_p (hdrs s1 x))" for x
    by (simp_all add: s3_def s2_def)
  have "del_replacement t s = Inr (Some m, s3)"
    using assms(1-4) h1 h2 unfolding del_replacement_def Let_def s3_def s2_def s1_def
    by (simp add: upd_opt_def)
  moreover have "p_root s3 = p_root s" by (simp add: s3_def s2_def s1_def)
  ultimately show ?thesis using assms(6) by (simp add: r3 r1)
qed

lemma root_in_addrs: "apart T \<Longrightarrow> root_of T = Some x \<Longrightarrow> x \<in> addrs T"
  using reps_addrs [of T] root_of_reps [of T x] by auto

lemma root_not_sub:
  assumes "apart T" "root_of T = Some y" "y \<noteq> a"
  shows "y \<notin> addrs (sub_at a T)"
proof (cases T)
  case (Node l ring r)
  then show ?thesis using assms sub_at_addrs [of a l] sub_at_addrs [of a r] hd_in_set [of ring]
    by (auto simp: disjoint_iff subset_iff)
qed simp

lemma tjoin_parts:
  assumes "apart \<langle>l, ring, r\<rangle>"
  shows "apart (tjoin l r)" "addrs (tjoin l r) = addrs l \<union> addrs r"
  using assms unfolding apart_iff addrs_inorder by (auto simp: addrs_inorder)

lemma del_replacement_join:
  assumes "rep (hdrs s) par \<langle>l, [t], r\<rangle>" "apart \<langle>l, [t], r\<rangle>"
  shows "\<exists>u p. del_replacement t s = Inr (root_of (tjoin l r), u) \<and> p_root u = p_root s
    \<and> rep (hdrs u) p (tjoin l r)
    \<and> (\<forall>x. x \<notin> addrs l \<union> addrs r \<longrightarrow> bh_l (hdrs u x) = bh_l (hdrs s x) \<and> bh_r (hdrs u x) = bh_r (hdrs s x)
        \<and> bh_p (hdrs u x) = bh_p (hdrs s x) \<and> bh_f (hdrs u x) = bh_f (hdrs s x) \<and> bh_v (hdrs u x) = bh_v (hdrs s x))"
proof -
  have t: "bh_l (hdrs s t) = root_of l" "bh_r (hdrs s t) = root_of r" "rep (hdrs s) (Some t) l"
    "rep (hdrs s) (Some t) r" using assms(1) by auto
  have ap: "apart l" "apart r" "t \<notin> addrs l" "t \<notin> addrs r" "\<And>x. x \<in> addrs l \<Longrightarrow> x \<notin> addrs r"
    using assms(2) by auto
  consider "l = \<langle>\<rangle>" | "l \<noteq> \<langle>\<rangle>" "r = \<langle>\<rangle>" | "l \<noteq> \<langle>\<rangle>" "r \<noteq> \<langle>\<rangle>" by blast
  then show ?thesis
  proof cases
    case 1
    then show ?thesis using t by (auto simp: del_replacement_def tjoin_def)
  next
    case 2
    then obtain x where "root_of l = Some x" by (cases l) auto
    then show ?thesis using t 2 by (auto simp: del_replacement_def tjoin_def)
  next
    case 3
    obtain x0 y0 where xy: "root_of l = Some x0" "root_of r = Some y0" using 3 by (cases l; cases r) auto
    obtain ring r' where mn: "split_min r = (ring, r')" by fastforce
    define m where "m = hd ring"
    obtain R where R: "ring \<noteq> []" "m \<in> reps r" "sub_at m r = \<langle>\<langle>\<rangle>, ring, R\<rangle>" "r' = tsub m R r"
      using split_min_node [OF 3(2) ap(2) mn] by (auto simp: m_def)
    obtain f where f: "leftmost (hdrs s) t y0 = Some (f, m)" "bh_p (hdrs s m) = Some f"
      "f = t \<and> root_of r = Some m \<or> f \<in> reps r \<and> bh_l (hdrs s f) = Some m"
      using leftmost_min [OF t(4) ap(2) xy(2) mn] by (auto simp: m_def)
    have join: "tjoin l r = \<langle>l, ring, r'\<rangle>" using 3 mn by (simp add: tjoin_def)
    have subR: "rep (hdrs s) (Some f) \<langle>\<langle>\<rangle>, ring, R\<rangle>" "apart \<langle>\<langle>\<rangle>, ring, R\<rangle>" "addrs \<langle>\<langle>\<rangle>, ring, R\<rangle> \<subseteq> addrs r"
      using sub_at_rep [OF t(4) R(2)] sub_at_apart [OF ap(2), of m] sub_at_addrs [of m r] f(2) R(3) by auto
    have m: "m \<in> set ring" "m \<in> addrs r" "m \<notin> addrs R" "bh_r (hdrs s m) = root_of R" "bh_l (hdrs s m) = None"
      "rep (hdrs s) (Some m) R" "apart R" "is_ring (hdrs s) ring"
      using subR R(1) by (auto simp: m_def disjoint_iff)
    have x0: "x0 \<in> addrs l" and y0: "y0 \<in> addrs r" using root_in_addrs ap xy by auto
    have rootR: "root_of R = Some x \<Longrightarrow> x \<in> addrs R" for x using root_in_addrs m(7) by auto
    have tl: "x \<in> set (tl ring) \<Longrightarrow> x \<in> set ring \<and> x \<noteq> m \<and> bh_p (hdrs s x) = None" for x
      using subR(1,2) R(1) by (auto simp: m_def) (cases ring; auto)+
    show ?thesis
    proof (cases "f = t")
      case True
      then have top: "root_of r = Some m" using f(3) reps_addrs [OF ap(2)] ap(4) by auto
      then have r': "r' = R" using R(3,4) by (cases r) auto
      let ?u = "upd_h x0 (bh_p_update (\<lambda>_. Some m)) (upd_h m (bh_l_update (\<lambda>_. Some x0)) s)"
      have eq: "del_replacement t s = Inr (Some m, ?u)"
        using t(1,2) xy f(1) True m(2) ap(4) by (simp add: del_replacement_def Let_def)
      have l: "rep (hdrs ?u) (Some m) l"
        by (rule rep_reparent [OF t(3) ap(1)]) (use m(2) ap(5) xy in auto)
      have Rr: "rep (hdrs ?u) (Some m) R"
        by (rule rep_frame [OF m(6,7)]) (use m x0 ap(5) subR(3) in auto)
      have "is_ring (hdrs ?u) ring" using m(8) by (subst is_ring_cong [of ring "hdrs ?u" "hdrs s"]) auto
      then have "rep (hdrs ?u) (bh_p (hdrs ?u m)) \<langle>l, ring, R\<rangle>"
        using l Rr xy m x0 ap(5) tl subR(3) by (auto simp: m_def [symmetric])
      moreover have "x0 \<in> addrs l \<union> addrs r" "m \<in> addrs l \<union> addrs r" using x0 m by auto
      ultimately show ?thesis using eq join r' by (intro exI [of _ ?u] exI) (auto simp: m_def)
    next
      case False
      then have f': "f \<in> reps r" "bh_l (hdrs s f) = Some m" using f(3) by auto
      then have fr: "f \<in> addrs r" using reps_addrs [OF ap(2)] by auto
      have fsub: "f \<notin> addrs \<langle>\<langle>\<rangle>, ring, R\<rangle>"
      proof
        have "root_of r \<noteq> Some m" using root_parent [OF t(4) R(2)] f(2) False ap(4) reps_addrs [OF ap(2)] by auto
        then have "\<exists>q. bh_p (hdrs s m) = Some q \<and> q \<in> addrs r - addrs (sub_at m r)"
          using parent_out [OF t(4) ap(2) R(2)] by auto
        moreover assume "f \<in> addrs \<langle>\<langle>\<rangle>, ring, R\<rangle>"
        ultimately show False using f(2) R(3) by auto
      qed
      have top: "root_of r \<noteq> Some m"
        using root_parent [OF t(4) R(2)] f(2) False ap(4) reps_addrs [OF ap(2)] by auto
      have neq: "m \<noteq> t" "f \<noteq> m" "root_of R \<noteq> Some t" "x0 \<noteq> t" "y0 \<noteq> t" "root_of R \<noteq> Some m" "y0 \<noteq> m"
        using m(2,3) ap(3,4) x0 y0 rootR top xy fsub m(1) subR(3) by auto
      have y0R: "y0 \<notin> set ring" "y0 \<notin> addrs R" using root_not_sub [OF ap(2) xy(2) neq(7)] R(3) by auto
      obtain u where u: "del_replacement t s = Inr (Some m, u)" "p_root u = p_root s"
        "\<And>x. bh_f (hdrs u x) = bh_f (hdrs s x)" "\<And>x. bh_v (hdrs u x) = bh_v (hdrs s x)"
        "\<And>x. bh_l (hdrs u x) = (if x = m then Some x0 else if x = f then root_of R else bh_l (hdrs s x))"
        "\<And>x. bh_r (hdrs u x) = (if x = m then Some y0 else bh_r (hdrs s x))"
        "\<And>x. bh_p (hdrs u x) = (if x = x0 \<or> x = y0 then Some m
             else if root_of R = Some x then Some f else bh_p (hdrs s x))"
        using del_replacement_fields [of s t x0 y0 f m] t(1,2) xy f(1) False neq unfolding m(4) by simp blast
      have l: "rep (hdrs u) (Some m) l"
        by (rule rep_reparent [OF t(3) ap(1)]) (use m ap(5) xy y0 fr subR(3) rootR in \<open>auto simp: u\<close>)
      have Rr: "rep (hdrs u) (Some f) R"
        by (rule rep_reparent [OF m(6,7)]) (use m ap(5) xy x0 y0R fsub subR(3) top rootR in \<open>auto simp: u\<close>)
      have sub: "rep (hdrs u) (Some m) (tsub m R r)"
        by (rule rep_tsub [OF t(4) ap(2) R(2)])
          (use R(3) f(2) f' m ap(5) xy x0 rootR Rr top in \<open>auto simp: u\<close>)
      have ringu: "is_ring (hdrs u) ring" using m(8) by (subst is_ring_cong [of ring "hdrs u" "hdrs s"]) (auto simp: u)
      have ringR: "x \<in> set ring \<Longrightarrow> x \<notin> addrs R" for x using subR(2) by auto
      have tl_p: "bh_p (hdrs u x) = None" if "x \<in> set (tl ring)" for x
      proof -
        have "x \<noteq> x0" "x \<noteq> y0" "root_of R \<noteq> Some x"
          using tl [OF that] x0 ap(5) subR(3) y0R ringR [of x] rootR by auto
        then show ?thesis using tl [OF that] by (simp add: u(7))
      qed
      have "root_of (tsub m R r) = Some y0" using top xy by (simp add: root_of_tsub)
      then have "rep (hdrs u) (bh_p (hdrs u m)) \<langle>l, ring, tsub m R r\<rangle>"
        using l sub ringu xy tl_p by (simp add: m_def [symmetric] u(5,6))
      moreover have "bh_l (hdrs u x) = bh_l (hdrs s x) \<and> bh_r (hdrs u x) = bh_r (hdrs s x)
          \<and> bh_p (hdrs u x) = bh_p (hdrs s x) \<and> bh_f (hdrs u x) = bh_f (hdrs s x) \<and> bh_v (hdrs u x) = bh_v (hdrs s x)"
        if "x \<notin> addrs l \<union> addrs r" for x
      proof -
        have "x \<noteq> x0" "x \<noteq> y0" "x \<noteq> m" "x \<noteq> f" "root_of R \<noteq> Some x"
          using that x0 y0 m(2) fr rootR subR(3) by auto
        then show ?thesis by (simp add: u(3-7))
      qed
      moreover have "root_of \<langle>l, ring, tsub m R r\<rangle> = Some m" by (simp add: m_def)
      ultimately show ?thesis unfolding join R(4) using u(1,2) by (intro exI [of _ u] exI) simp
    qed
  qed
qed

lemma pooldel_single:
  assumes "tree_ok s T" "t \<in> reps T" "sub_at t T = \<langle>l, [t], r\<rangle>"
  shows "\<exists>u. pooldel t s = Inr u \<and> tree_ok u (tsub t (ndel t l [t] r) T)"
proof -
  note S = sub_facts [OF assms]
  let ?S = "tjoin l r" and ?q = "bh_p (hdrs s t)"
  obtain v p where v: "del_replacement t s = Inr (root_of ?S, v)" "p_root v = p_root s" "rep (hdrs v) p ?S"
    "\<And>x. x \<notin> addrs l \<union> addrs r \<Longrightarrow> bh_l (hdrs v x) = bh_l (hdrs s x) \<and> bh_r (hdrs v x) = bh_r (hdrs s x)
        \<and> bh_p (hdrs v x) = bh_p (hdrs s x) \<and> bh_f (hdrs v x) = bh_f (hdrs s x) \<and> bh_v (hdrs v x) = bh_v (hdrs s x)"
    using del_replacement_join [OF S(1,2)] by blast
  have t: "t \<notin> addrs l \<union> addrs r" "bh_f (hdrs s t) = Some t" using S(1,2) by (auto simp: is_ring_single)
  have q: "x \<notin> addrs l \<union> addrs r" "x \<noteq> t" if "?q = Some x" for x using S(5) [OF that] by auto
  define u where "u = upd_opt (root_of ?S) (bh_p_update (\<lambda>_. ?q)) (relink ?q t (root_of ?S) v)"
  have eq: "pooldel t s = Inr u"
    using node_links(1) [OF assms(1,2)] t v(1) v(4) [OF t(1)] by (auto simp: pooldel_def Let_def u_def)
  have S': "apart ?S" "addrs ?S = addrs l \<union> addrs r" using tjoin_parts [OF S(2)] by auto
  have root: "root_of ?S = Some x \<Longrightarrow> x \<in> addrs l \<union> addrs r" for x using root_in_addrs [OF S'(1)] S'(2) by auto
  have fields: "bh_f (hdrs u x) = bh_f (hdrs v x)" "bh_v (hdrs u x) = bh_v (hdrs v x)"
    "bh_p (hdrs u x) = (if root_of ?S = Some x then ?q else bh_p (hdrs v x))"
    "bh_l (hdrs u x) = (if ?q = Some x \<and> bh_l (hdrs v x) = Some t then root_of ?S else bh_l (hdrs v x))"
    "bh_r (hdrs u x) = (if ?q = Some x \<and> bh_l (hdrs v x) \<noteq> Some t then root_of ?S else bh_r (hdrs v x))" for x
    by (simp_all add: u_def relink_field)
  have "rep (hdrs u) ?q ?S"
  proof (rule rep_reparent [OF v(3) S'(1)])
    fix x assume "x \<in> addrs ?S"
    then have "?q \<noteq> Some x" using q(1) S'(2) by auto
    then show "bh_l (hdrs u x) = bh_l (hdrs v x) \<and> bh_r (hdrs u x) = bh_r (hdrs v x) \<and> bh_f (hdrs u x) = bh_f (hdrs v x)
       \<and> bh_v (hdrs u x) = bh_v (hdrs v x) \<and> bh_p (hdrs u x) = (if root_of ?S = Some x then ?q else bh_p (hdrs v x))"
      by (simp add: fields)
  qed
  moreover have "bh_f (hdrs u x) = bh_f (hdrs s x) \<and> bh_v (hdrs u x) = bh_v (hdrs s x) \<and> bh_p (hdrs u x) = bh_p (hdrs s x)
      \<and> bh_l (hdrs u x) = (if ?q = Some x \<and> bh_l (hdrs s x) = Some t then root_of ?S else bh_l (hdrs s x))
      \<and> bh_r (hdrs u x) = (if ?q = Some x \<and> bh_l (hdrs s x) \<noteq> Some t then root_of ?S else bh_r (hdrs s x))"
    if "x \<in> addrs T - addrs (sub_at t T)" for x
  proof -
    have x: "x \<notin> addrs l \<union> addrs r" "root_of ?S \<noteq> Some x" using that assms(3) root by auto
    then show ?thesis using v(4) [OF x(1)] by (simp add: fields)
  qed
  moreover have "p_root u = (if ?q = None then root_of ?S else p_root s)"
    by (simp add: u_def relink_field v(2))
  moreover have "ndel t l [t] r = ?S" "apart (tsub t ?S T)"
    using apart_tsub_ndel [OF assms, of t] by (simp_all add: ndel_def)
  ultimately have "tree_ok u (tsub t ?S T)" by (intro tree_ok_tsub [OF assms(1,2)]) simp_all
  then show ?thesis using eq \<open>ndel t l [t] r = ?S\<close> by simp
qed

theorem pooldel_tdel:
  assumes "tree_ok s T" "t \<in> addrs T"
  shows "\<exists>u. pooldel t s = Inr u \<and> tree_ok u (tdel t T) \<and> links_only s u"
proof -
  have T: "apart T" using assms(1) by (simp add: tree_ok_def)
  obtain a l ring r where a: "a \<in> reps T" "sub_at a T = \<langle>l, ring, r\<rangle>" "hd ring = a" "t \<in> set ring"
    using node_of [OF assms(2) T] by blast
  have "\<exists>u. pooldel t s = Inr u \<and> tree_ok u (tsub a (ndel t l ring r) T)"
  proof (cases "t = a")
    case True
    then show ?thesis using pooldel_head [OF assms(1) a(1,2)] pooldel_single [OF assms(1) a(1)] a(2)
      by (cases "ring = [a]") auto
  qed (use pooldel_member [OF assms(1) a(1,2,4)] in simp)
  then show ?thesis using tdel_tsub [OF T a(1,2,4)] links_only_pooldel by auto
qed

end
