(* ===== verification/PoolFit.thy ===== *)
theory PoolFit
  imports PoolDelOne
begin

text \<open>\<open>pooladd\<close> is insertion by size, and \<open>find_fit\<close> finds a block of least sufficient size.\<close>

section \<open>Sizes\<close>

abbreviation size_of :: "pool \<Rightarrow> baddr \<Rightarrow> nat" where
  "size_of s x \<equiv> bh_size (hdrs s x)"

text \<open>The blocks of a ring have one size, and sizes grow from left to right.\<close>

definition one_size :: "(baddr \<Rightarrow> nat) \<Rightarrow> baddr list \<Rightarrow> bool" where
  "one_size sz ring \<longleftrightarrow> (\<forall>x \<in> set ring. sz x = sz (hd ring))"

definition sized :: "(baddr \<Rightarrow> nat) \<Rightarrow> ftree \<Rightarrow> bool" where
  "sized sz T \<longleftrightarrow> (\<forall>ring \<in> set_tree T. one_size sz ring)
     \<and> sorted_wrt (<) (map (\<lambda>ring. sz (hd ring)) (inorder T))"

lemma sized_simps [simp]:
  "sized sz \<langle>\<rangle>"
  "sized sz \<langle>l, ring, r\<rangle> \<longleftrightarrow> sized sz l \<and> sized sz r \<and> one_size sz ring
     \<and> (\<forall>x \<in> reps l. sz x < sz (hd ring)) \<and> (\<forall>x \<in> reps r. sz (hd ring) < sz x)"
  by (fastforce simp: sized_def sorted_wrt_append reps_def)+

lemma one_size_single [simp]: "one_size sz [q]"
  by (simp add: one_size_def)

lemma one_sizeD: "one_size sz ring \<Longrightarrow> x \<in> set ring \<Longrightarrow> sz x = sz (hd ring)"
  by (simp add: one_size_def)

lemma sized_addrs: "sized sz T \<Longrightarrow> x \<in> addrs T \<Longrightarrow> \<exists>y \<in> reps T. sz y = sz x"
  by (induction T) (auto dest: one_sizeD)

lemma sized_bounds:
  "sized sz \<langle>l, ring, r\<rangle> \<Longrightarrow> x \<in> addrs l \<Longrightarrow> sz x < sz (hd ring)"
  "sized sz \<langle>l, ring, r\<rangle> \<Longrightarrow> x \<in> addrs r \<Longrightarrow> sz (hd ring) < sz x"
  using sized_addrs [of sz l x] sized_addrs [of sz r x] by auto

lemma sized_cong:
  assumes "apart T" "\<And>x. x \<in> addrs T \<Longrightarrow> sz' x = sz x"
  shows "sized sz' T \<longleftrightarrow> sized sz T"
proof -
  have e: "sz' x = sz x" if "ring \<in> set_tree T" "x \<in> set ring" for ring x
    using that assms(2) by (auto simp: addrs_def)
  have h: "hd ring \<in> set ring" if "ring \<in> set_tree T" for ring
    using that assms(1) by (metis apart_iff hd_in_set set_inorder)
  have m: "map (\<lambda>ring. sz' (hd ring)) (inorder T) = map (\<lambda>ring. sz (hd ring)) (inorder T)"
    using e h by auto
  have "one_size sz' ring \<longleftrightarrow> one_size sz ring"
    if "ring \<in> set_tree T" for ring using e [OF that] h [OF that] by (simp add: one_size_def)
  then show ?thesis unfolding sized_def m by simp
qed

lemma one_size_remove1:
  assumes "one_size sz xs" "remove1 t xs \<noteq> []"
  shows "sz (hd (remove1 t xs)) = sz (hd xs)" "one_size sz (remove1 t xs)"
proof -
  have "hd (remove1 t xs) \<in> set xs" using assms(2) by (meson hd_in_set set_remove1_subset subsetD)
  then show h: "sz (hd (remove1 t xs)) = sz (hd xs)" using assms(1) by (simp add: one_size_def)
  show "one_size sz (remove1 t xs)"
    using assms(1) set_remove1_subset [of t xs] h unfolding one_size_def by auto
qed

lemma sized_ring_del:
  "\<forall>ring \<in> set rs. one_size sz ring \<Longrightarrow> sorted_wrt (<) (map (\<lambda>ring. sz (hd ring)) rs) \<Longrightarrow>
    (\<forall>ring \<in> set (ring_del t rs). one_size sz ring) \<and> sorted_wrt (<) (map (\<lambda>ring. sz (hd ring)) (ring_del t rs))"
proof (induction rs)
  case (Cons r rs)
  have rs: "sz (hd r) < sz (hd xs)" if "xs \<in> set (ring_del t rs)" for xs
  proof -
    obtain ys where "xs = remove1 t ys" "ys \<in> set rs" "xs \<noteq> []" using \<open>xs \<in> _\<close> by (auto simp: ring_del_def)
    then show ?thesis using Cons.prems one_size_remove1(1) [of sz ys t] by simp
  qed
  have IH: "\<forall>ring \<in> set (ring_del t rs). one_size sz ring"
    "sorted_wrt (<) (map (\<lambda>ring. sz (hd ring)) (ring_del t rs))" using Cons by simp_all
  show ?case
  proof (cases "remove1 t r = []")
    case True
    then have "ring_del t (r # rs) = ring_del t rs" by (simp add: ring_del_def)
    then show ?thesis using IH by simp
  next
    case False
    then have "ring_del t (r # rs) = remove1 t r # ring_del t rs" by (simp add: ring_del_def)
    then show ?thesis using IH rs one_size_remove1 [OF _ False, of sz] Cons.prems(1) by simp
  qed
qed (simp add: ring_del_def)

lemma sized_tdel: "sized sz T \<Longrightarrow> apart T \<Longrightarrow> sized sz (tdel t T)"
  using sized_ring_del [of "inorder T" sz t]
  by (simp add: sized_def set_inorder [symmetric] inorder_tdel del: set_inorder)

section \<open>Insertion\<close>

fun tins :: "(baddr \<Rightarrow> nat) \<Rightarrow> baddr \<Rightarrow> ftree \<Rightarrow> ftree" where
  "tins sz q \<langle>\<rangle> = \<langle>\<langle>\<rangle>, [q], \<langle>\<rangle>\<rangle>"
| "tins sz q \<langle>l, ring, r\<rangle> = (if sz q = sz (hd ring) then \<langle>l, ring @ [q], r\<rangle>
     else if sz q < sz (hd ring) then \<langle>tins sz q l, ring, r\<rangle> else \<langle>l, ring, tins sz q r\<rangle>)"

lemma addrs_tins [simp]: "addrs (tins sz q T) = insert q (addrs T)"
  by (induction T) auto

lemma apart_tins: "apart T \<Longrightarrow> q \<notin> addrs T \<Longrightarrow> apart (tins sz q T)"
  by (induction T) auto

lemma reps_tins: "apart T \<Longrightarrow> x \<in> reps (tins sz q T) \<Longrightarrow> x = q \<or> x \<in> reps T"
  by (induction T) (auto split: if_splits)

lemma sized_tins: "sized sz T \<Longrightarrow> apart T \<Longrightarrow> sized sz (tins sz q T)"
proof (induction T)
  case (Node l ring r)
  have l: "sized sz (tins sz q l)" using Node.IH(1) Node.prems by simp
  have r: "sized sz (tins sz q r)" using Node.IH(2) Node.prems by simp
  have rl: "x = q \<or> x \<in> reps l" if "x \<in> reps (tins sz q l)" for x
    using reps_tins [OF _ that] Node.prems(2) by simp
  have rr: "x = q \<or> x \<in> reps r" if "x \<in> reps (tins sz q r)" for x
    using reps_tins [OF _ that] Node.prems(2) by simp
  have hd: "hd (ring @ [q]) = hd ring" using Node.prems(2) by simp
  consider "sz q = sz (hd ring)" | "sz q < sz (hd ring)" | "sz (hd ring) < sz q" by linarith
  then show ?case
  proof cases
    case 1
    then have "tins sz q \<langle>l, ring, r\<rangle> = \<langle>l, ring @ [q], r\<rangle>" by simp
    moreover have "one_size sz (ring @ [q])"
      using Node.prems(1) 1 hd by (auto simp: one_size_def)
    ultimately show ?thesis using Node.prems(1) hd by simp
  next
    case 2
    then have "\<forall>x \<in> reps (tins sz q l). sz x < sz (hd ring)" using rl Node.prems(1) by auto
    then show ?thesis using Node.prems l 2 by simp
  next
    case 3
    then have "\<forall>x \<in> reps (tins sz q r). sz (hd ring) < sz x" using rr Node.prems(1) by auto
    then show ?thesis using Node.prems r 3 by simp
  qed
qed simp

text \<open>What the descent of \<open>pooladd\<close> finds, and the tree it is about to make.\<close>

definition ring_place :: "(baddr \<Rightarrow> nat) \<Rightarrow> baddr \<Rightarrow> ftree \<Rightarrow> baddr \<Rightarrow> bool" where
  "ring_place sz q T a \<longleftrightarrow> a \<in> reps T \<and> (\<forall>l ring r. sub_at a T = \<langle>l, ring, r\<rangle> \<longrightarrow>
     tins sz q T = tsub a \<langle>l, ring @ [q], r\<rangle> T)"

definition under_place :: "(baddr \<Rightarrow> nat) \<Rightarrow> baddr \<Rightarrow> ftree \<Rightarrow> baddr \<Rightarrow> bool" where
  "under_place sz q T a \<longleftrightarrow> a \<in> reps T \<and> (\<forall>l ring r. sub_at a T = \<langle>l, ring, r\<rangle> \<longrightarrow>
     (if sz q < sz a then l = \<langle>\<rangle> \<and> tins sz q T = tsub a \<langle>\<langle>\<langle>\<rangle>, [q], \<langle>\<rangle>\<rangle>, ring, r\<rangle> T
      else r = \<langle>\<rangle> \<and> tins sz q T = tsub a \<langle>l, ring, \<langle>\<langle>\<rangle>, [q], \<langle>\<rangle>\<rangle>\<rangle> T))"

definition placed :: "(baddr \<Rightarrow> nat) \<Rightarrow> baddr \<Rightarrow> baddr option \<Rightarrow> ftree \<Rightarrow> place \<Rightarrow> bool" where
  "placed sz q par T p \<longleftrightarrow> (case p of
       Ring a \<Rightarrow> ring_place sz q T a
     | Under tp \<Rightarrow> T = \<langle>\<rangle> \<and> tp = par \<or> (\<exists>a. tp = Some a \<and> under_place sz q T a))"

lemma hd_apart:
  assumes "apart \<langle>l, ring, r\<rangle>"
  shows "hd ring \<notin> reps l" "hd ring \<notin> reps r" "a \<in> reps l \<Longrightarrow> a \<notin> reps r"
  using assms reps_addrs [of l] reps_addrs [of r] hd_in_set [of ring] by (auto simp: disjoint_iff)

lemma child_simps:
  assumes "apart \<langle>l, ring, r\<rangle>"
  shows "a \<in> reps l \<Longrightarrow> sub_at a \<langle>l, ring, r\<rangle> = sub_at a l" "a \<in> reps r \<Longrightarrow> sub_at a \<langle>l, ring, r\<rangle> = sub_at a r"
    "a \<in> reps l \<Longrightarrow> tsub a S \<langle>l, ring, r\<rangle> = \<langle>tsub a S l, ring, r\<rangle>"
    "a \<in> reps r \<Longrightarrow> tsub a S \<langle>l, ring, r\<rangle> = \<langle>l, ring, tsub a S r\<rangle>"
  using hd_apart(1,2) [OF assms] hd_apart(3) [OF assms, of a] by (cases "a \<in> reps l"; auto)+

lemma placed_child:
  assumes "apart \<langle>l, ring, r\<rangle>"
  shows "sz q < sz (hd ring) \<Longrightarrow> ring_place sz q l a \<Longrightarrow> ring_place sz q \<langle>l, ring, r\<rangle> a"
    "sz (hd ring) < sz q \<Longrightarrow> ring_place sz q r a \<Longrightarrow> ring_place sz q \<langle>l, ring, r\<rangle> a"
    "sz q < sz (hd ring) \<Longrightarrow> under_place sz q l a \<Longrightarrow> under_place sz q \<langle>l, ring, r\<rangle> a"
    "sz (hd ring) < sz q \<Longrightarrow> under_place sz q r a \<Longrightarrow> under_place sz q \<langle>l, ring, r\<rangle> a"
    "sz q < sz (hd ring) \<Longrightarrow> l = \<langle>\<rangle> \<Longrightarrow> under_place sz q \<langle>l, ring, r\<rangle> (hd ring)"
    "sz (hd ring) < sz q \<Longrightarrow> r = \<langle>\<rangle> \<Longrightarrow> under_place sz q \<langle>l, ring, r\<rangle> (hd ring)"
proof -
  show "sz q < sz (hd ring) \<Longrightarrow> ring_place sz q l a \<Longrightarrow> ring_place sz q \<langle>l, ring, r\<rangle> a"
    unfolding ring_place_def by (metis child_simps(1,3) [OF assms] tins.simps(2) less_irrefl UnI1 insertCI reps_simps(2))
  show "sz (hd ring) < sz q \<Longrightarrow> ring_place sz q r a \<Longrightarrow> ring_place sz q \<langle>l, ring, r\<rangle> a"
    unfolding ring_place_def by (metis child_simps(2,4) [OF assms] tins.simps(2) less_irrefl less_asym UnI2 insertCI reps_simps(2))
  show "sz q < sz (hd ring) \<Longrightarrow> l = \<langle>\<rangle> \<Longrightarrow> under_place sz q \<langle>l, ring, r\<rangle> (hd ring)"
    "sz (hd ring) < sz q \<Longrightarrow> r = \<langle>\<rangle> \<Longrightarrow> under_place sz q \<langle>l, ring, r\<rangle> (hd ring)"
    by (simp_all add: under_place_def)
  show "under_place sz q \<langle>l, ring, r\<rangle> a" if a: "sz q < sz (hd ring)" "under_place sz q l a"
  proof -
    have "a \<in> reps l" using a(2) by (simp add: under_place_def)
    note c = child_simps(1,3) [OF assms this]
    have "tins sz q \<langle>l, ring, r\<rangle> = \<langle>tins sz q l, ring, r\<rangle>" using a(1) by simp
    then show ?thesis using a(2) unfolding under_place_def c by simp
  qed
  show "under_place sz q \<langle>l, ring, r\<rangle> a" if a: "sz (hd ring) < sz q" "under_place sz q r a"
  proof -
    have "a \<in> reps r" using a(2) by (simp add: under_place_def)
    note c = child_simps(2,4) [OF assms this]
    have "tins sz q \<langle>l, ring, r\<rangle> = \<langle>l, ring, tins sz q r\<rangle>" using a(1) by simp
    then show ?thesis using a(2) unfolding under_place_def c by simp
  qed
qed

lemma placed_childs:
  assumes "apart \<langle>l, ring, r\<rangle>"
  shows "sz q < sz (hd ring) \<Longrightarrow> placed sz q (Some (hd ring)) l p \<Longrightarrow> placed sz q par \<langle>l, ring, r\<rangle> p"
    "sz (hd ring) < sz q \<Longrightarrow> placed sz q (Some (hd ring)) r p \<Longrightarrow> placed sz q par \<langle>l, ring, r\<rangle> p"
  unfolding placed_def by (cases p; use placed_child [OF assms, of sz q] in auto)+

lemma descend_tins:
  "rep h par T \<Longrightarrow> apart T \<Longrightarrow> sz = (\<lambda>x. bh_size (h x)) \<Longrightarrow>
    \<exists>p. descend h (sz q) par (root_of T) = Some p \<and> placed sz q par T p"
proof (induction T arbitrary: par)
  case Leaf
  then show ?case by (subst descend.simps) (auto simp: placed_def)
next
  case (Node l ring r)
  have b: "bh_l (h (hd ring)) = root_of l" "bh_r (h (hd ring)) = root_of r"
    "rep h (Some (hd ring)) l" "rep h (Some (hd ring)) r" "apart l" "apart r" using Node.prems by auto
  consider "sz q = sz (hd ring)" | "sz q < sz (hd ring)" | "sz (hd ring) < sz q" by linarith
  then show ?case
  proof cases
    case 1
    then show ?thesis using Node.prems(3) by (subst descend.simps) (auto simp: placed_def ring_place_def)
  next
    case 2
    then have e: "descend h (sz q) par (root_of \<langle>l, ring, r\<rangle>) = descend h (sz q) (Some (hd ring)) (root_of l)"
      using b Node.prems(3) by (subst descend.simps) auto
    show ?thesis using Node.IH(1) [OF b(3,5) Node.prems(3)] placed_childs(1) [OF Node.prems(2) 2] e by auto
  next
    case 3
    then have e: "descend h (sz q) par (root_of \<langle>l, ring, r\<rangle>) = descend h (sz q) (Some (hd ring)) (root_of r)"
      using b Node.prems(3) by (subst descend.simps) auto
    show ?thesis using Node.IH(2) [OF b(4,6) Node.prems(3)] placed_childs(2) [OF Node.prems(2) 3] e by auto
  qed
qed

section \<open>pooladd\<close>

text \<open>The header \<open>pooladd\<close> starts from.\<close>

definition fresh_free :: "baddr \<Rightarrow> pool \<Rightarrow> pool" where
  "fresh_free q s = upd_h q (\<lambda>b. b\<lparr>bh_magic := MAGIC_F, bh_l := None, bh_r := None, bh_p := None,
     bh_f := Some q, bh_v := Some q\<rparr>) s"

lemma fresh_free_fields:
  "bh_l (hdrs (fresh_free q s) x) = (if x = q then None else bh_l (hdrs s x))"
  "bh_r (hdrs (fresh_free q s) x) = (if x = q then None else bh_r (hdrs s x))"
  "bh_p (hdrs (fresh_free q s) x) = (if x = q then None else bh_p (hdrs s x))"
  "bh_f (hdrs (fresh_free q s) x) = (if x = q then Some q else bh_f (hdrs s x))"
  "bh_v (hdrs (fresh_free q s) x) = (if x = q then Some q else bh_v (hdrs s x))"
  "bh_size (hdrs (fresh_free q s) x) = bh_size (hdrs s x)" "p_root (fresh_free q s) = p_root s"
  by (simp_all add: fresh_free_def)

lemma fresh_free_tree: "tree_ok s T \<Longrightarrow> q \<notin> addrs T \<Longrightarrow> tree_ok (fresh_free q s) T"
  unfolding tree_ok_def by (auto simp: fresh_free_fields intro!: rep_frame [of "hdrs s" _ T])

lemma add_to_ring:
  assumes "tree_ok s T" "q \<notin> addrs T" "a \<in> reps T" "sub_at a T = \<langle>l, ring, r\<rangle>"
    and q: "bh_p (hdrs s q) = None"
    and ap: "apart (tsub a \<langle>l, ring @ [q], r\<rangle> T)"
    and u: "p_root u = p_root s" "\<And>x. bh_l (hdrs u x) = bh_l (hdrs s x)" "\<And>x. bh_r (hdrs u x) = bh_r (hdrs s x)"
      "\<And>x. bh_p (hdrs u x) = bh_p (hdrs s x)"
      "\<And>x. bh_f (hdrs u x) = (if x = q then Some a else if bh_v (hdrs s a) = Some x then Some q else bh_f (hdrs s x))"
      "\<And>x. bh_v (hdrs u x) = (if x = a then Some q else if x = q then bh_v (hdrs s a) else bh_v (hdrs s x))"
  shows "tree_ok u (tsub a \<langle>l, ring @ [q], r\<rangle> T)"
proof -
  note S = sub_facts [OF assms(1,3,4)]
  have ring: "is_ring (hdrs s) ring" "distinct ring" "hd ring = a" "ring \<noteq> []" "q \<notin> set ring"
    using S(1-4) assms(2) by auto
  have qn: "q \<notin> addrs l" "q \<notin> addrs r" "q \<noteq> a" using S(4) assms(2) ring by auto
  have v: "bh_v (hdrs s a) = Some (last ring)"
  proof (cases "ring = [a]")
    case True
    then show ?thesis using ring(1) by (simp add: is_ring_single)
  next
    case False
    then obtain rest where "ring = a # rest" "rest \<noteq> []" using ring(3,4) by (cases ring) auto
    then show ?thesis using ring_first(2) [of "hdrs s" a rest] ring(1) by simp
  qed
  have ls: "last ring \<in> set ring" using ring(4) by simp
  have new: "is_ring (hdrs u) (ring @ [q])"
    by (rule ring_add_last [OF ring(1,5,2)]) (use ring(3,5) v u(5,6) qn(3) in auto)
  have out: "last ring \<noteq> x" "x \<noteq> a" if "x \<in> addrs l \<union> addrs r" for x
    using that S(2) ls ring(3,4) hd_in_set [of ring] by (auto simp: disjoint_iff)
  have old: "rep (hdrs s) (Some a) l" "rep (hdrs s) (Some a) r" "apart l" "apart r" using S(1-3) by auto
  have same: "bh_f (hdrs u x) = bh_f (hdrs s x)" "bh_v (hdrs u x) = bh_v (hdrs s x)"
    if "x \<in> addrs l \<union> addrs r" for x
    using out [OF that] qn that by (auto simp: u(5,6) v)
  have l: "rep (hdrs u) (Some a) l"
    by (rule rep_frame [OF old(1,3)]) (simp add: u(2-4) same)
  have r: "rep (hdrs u) (Some a) r"
    by (rule rep_frame [OF old(2,4)]) (simp add: u(2-4) same)
  have "rep (hdrs u) (bh_p (hdrs s a)) \<langle>l, ring @ [q], r\<rangle>"
    using S(1) l r new ring(3,4) q by (simp add: u)
  moreover have "bh_f (hdrs u x) = bh_f (hdrs s x) \<and> bh_v (hdrs u x) = bh_v (hdrs s x)"
    if "x \<in> addrs T - addrs (sub_at a T)" for x
    using that assms(2,4) v ls ring(3,4) hd_in_set [of ring] by (auto simp: u)
  ultimately show ?thesis
    using node_links [OF assms(1,3)] ap ring(3,4) by (intro tree_ok_tsub [OF assms(1,3)]) (auto simp: u)
qed

lemma add_under:
  assumes "tree_ok s T" "q \<notin> addrs T" "a \<in> reps T" "sub_at a T = \<langle>l, ring, r\<rangle>"
    and q: "bh_l (hdrs s q) = None" "bh_r (hdrs s q) = None" "bh_f (hdrs s q) = Some q" "bh_v (hdrs s q) = Some q"
    and S: "lft \<and> l = \<langle>\<rangle> \<and> S = \<langle>\<langle>\<langle>\<rangle>, [q], \<langle>\<rangle>\<rangle>, ring, r\<rangle> \<or> \<not> lft \<and> r = \<langle>\<rangle> \<and> S = \<langle>l, ring, \<langle>\<langle>\<rangle>, [q], \<langle>\<rangle>\<rangle>\<rangle>"
    and ap: "apart (tsub a S T)"
    and u: "p_root u = p_root s" "\<And>x. bh_l (hdrs u x) = (if x = a \<and> lft then Some q else bh_l (hdrs s x))"
      "\<And>x. bh_r (hdrs u x) = (if x = a \<and> \<not> lft then Some q else bh_r (hdrs s x))"
      "\<And>x. bh_p (hdrs u x) = (if x = q then Some a else bh_p (hdrs s x))"
      "\<And>x. bh_f (hdrs u x) = bh_f (hdrs s x)" "\<And>x. bh_v (hdrs u x) = bh_v (hdrs s x)"
  shows "tree_ok u (tsub a S T)"
proof -
  note F = sub_facts [OF assms(1,3,4)]
  have ring: "is_ring (hdrs s) ring" "hd ring = a" "ring \<noteq> []" "q \<notin> set ring" "a \<in> set ring"
    using F(1-4) assms(2) by auto
  have qn: "q \<notin> addrs l" "q \<notin> addrs r" "q \<noteq> a" using F(4) assms(2) ring by auto
  have an: "a \<notin> addrs l" "a \<notin> addrs r" using F(2) ring(5) by auto
  have old: "rep (hdrs s) (Some a) l" "rep (hdrs s) (Some a) r" "apart l" "apart r" using F(1-3) by auto
  have l: "rep (hdrs u) (Some a) l"
    by (rule rep_frame [OF old(1,3)]) (use an qn in \<open>auto simp: u\<close>)
  have r: "rep (hdrs u) (Some a) r"
    by (rule rep_frame [OF old(2,4)]) (use an qn in \<open>auto simp: u\<close>)
  have ringu: "is_ring (hdrs u) ring" using ring(1) by (subst is_ring_cong [of ring "hdrs u" "hdrs s"]) (auto simp: u)
  have tl: "x \<in> set (tl ring) \<Longrightarrow> x \<noteq> q" for x using ring(3,4) by (cases ring) auto
  have one: "rep (hdrs u) (Some a) \<langle>\<langle>\<rangle>, [q], \<langle>\<rangle>\<rangle>" using q qn by (simp add: u is_ring_single)
  have "rep (hdrs u) (bh_p (hdrs s a)) S"
    using F(1) S l r one ringu ring(2) qn tl by (auto simp: u)
  moreover have "root_of S = Some a" using S ring by auto
  moreover have "x \<noteq> a \<and> x \<noteq> q" if "x \<in> addrs T - addrs (sub_at a T)" for x
    using that assms(2,4) ring(5) by auto
  ultimately show ?thesis
    using node_links [OF assms(1,3)] ap by (intro tree_ok_tsub [OF assms(1,3)]) (auto simp: u)
qed

text \<open>Only \<open>q\<close> becomes free; nothing else but links changes.\<close>

definition frees :: "baddr \<Rightarrow> pool \<Rightarrow> pool \<Rightarrow> bool" where
  "frees q s u \<longleftrightarrow> links_only (set_magic q MAGIC_F s) u"

lemma links_only_fresh: "links_only (set_magic q MAGIC_F s) (fresh_free q s)"
  by (cases s) (simp add: links_only_def set_magic_def fresh_free_def upd_h_def)

lemma pooladd_frees: "pooladd q s = Inr u \<Longrightarrow> frees q s u"
  unfolding frees_def pooladd_def fresh_free_def [symmetric] Let_def
  by (auto simp: rbind_eq_Inr_iff links_only_fresh links_only_root intro!: links_only_intros
      split: if_splits option.splits place.splits)

theorem pooladd_tins:
  assumes "tree_ok s T" "q \<notin> addrs T" "size_of s q < 2 ^ 31"
  shows "\<exists>u. pooladd q s = Inr u \<and> tree_ok u (tins (size_of s) q T) \<and> frees q s u"
proof -
  let ?s = "fresh_free q s"
  have sz: "to_ulong (int32 (int (size_of ?s q))) = size_of s q"
    using assms(3) by (simp add: to_ulong_def int32_def fresh_free_fields signed_take_bit_int_eq_self)
  have T: "tree_ok ?s T" by (rule fresh_free_tree [OF assms(1,2)])
  have ap: "apart (tins (size_of s) q T)" using apart_tins assms(1,2) by (simp add: tree_ok_def)
  have size: "size_of ?s = size_of s" by (simp add: fun_eq_iff fresh_free_fields)
  have "\<exists>u. pooladd q s = Inr u \<and> tree_ok u (tins (size_of s) q T)"
  proof (cases "T = \<langle>\<rangle>")
    case True
    then have "p_root ?s = None" using T by (simp add: tree_ok_def)
    then show ?thesis using True
      by (simp add: pooladd_def fresh_free_def [symmetric] Let_def tree_ok_def is_ring_single fresh_free_fields)
  next
    case False
    then obtain rt where root: "p_root ?s = Some rt" using T by (cases T) (auto simp: tree_ok_def)
    obtain p where p: "descend (hdrs ?s) (size_of s q) None (p_root ?s) = Some p" "placed (size_of s) q None T p"
      using descend_tins [of "hdrs ?s" None T "size_of s" q] T size by (auto simp: tree_ok_def)
    show ?thesis
    proof (cases p)
      case (Ring a)
      then have a: "a \<in> reps T" "ring_place (size_of s) q T a" using p(2) by (auto simp: placed_def ring_place_def)
      obtain l ring r where sub: "sub_at a T = \<langle>l, ring, r\<rangle>" using sub_at_node [OF a(1)] by blast
      have new: "tins (size_of s) q T = tsub a \<langle>l, ring @ [q], r\<rangle> T" using a(2) sub by (simp add: ring_place_def)
      have "a \<in> addrs T" using a(1) reps_addrs [of T] T by (auto simp: tree_ok_def)
      then have qa: "q \<noteq> a" using assms(2) by auto
      have "is_ring (hdrs ?s) ring" "hd ring = a" using sub_facts [OF T a(1) sub] by auto
      then obtain v where v: "bh_v (hdrs ?s a) = Some v"
        by (cases ring rule: rev_cases) (auto simp: is_ring_def linked_snoc)
      let ?u = "upd_h a (bh_v_update (\<lambda>_. Some q)) (upd_h q (bh_f_update (\<lambda>_. Some a))
         (upd_h v (bh_f_update (\<lambda>_. Some q)) (upd_h q (bh_v_update (\<lambda>_. Some v)) ?s)))"
      have eq: "pooladd q s = Inr ?u"
        using p(1) root v qa sz unfolding pooladd_def fresh_free_def [symmetric] Let_def Ring
        by (simp add: nonnil_def)
      have "tree_ok ?u (tins (size_of s) q T)" unfolding new
        by (rule add_to_ring [OF T assms(2) a(1) sub]) (use ap new v qa in \<open>auto simp: fresh_free_fields\<close>)
      then show ?thesis using eq by blast
    next
      case (Under tp)
      then obtain a where a: "tp = Some a" "a \<in> reps T" "under_place (size_of s) q T a"
        using p(2) False by (auto simp: placed_def under_place_def)
      obtain l ring r where sub: "sub_at a T = \<langle>l, ring, r\<rangle>" using sub_at_node [OF a(2)] by blast
      have "a \<in> addrs T" using a(2) reps_addrs [of T] T by (auto simp: tree_ok_def)
      then have qa: "q \<noteq> a" using assms(2) by auto
      define lft where "lft = (size_of s q < size_of s a)"
      let ?S = "if lft then \<langle>\<langle>\<langle>\<rangle>, [q], \<langle>\<rangle>\<rangle>, ring, r\<rangle> else \<langle>l, ring, \<langle>\<langle>\<rangle>, [q], \<langle>\<rangle>\<rangle>\<rangle>"
      have new: "tins (size_of s) q T = tsub a ?S T" "lft \<Longrightarrow> l = \<langle>\<rangle>" "\<not> lft \<Longrightarrow> r = \<langle>\<rangle>"
        using a(3) sub unfolding under_place_def lft_def by (auto split: if_splits)
      let ?v = "upd_h q (bh_p_update (\<lambda>_. Some a)) ?s"
      let ?u = "if lft then upd_h a (bh_l_update (\<lambda>_. Some q)) ?v else upd_h a (bh_r_update (\<lambda>_. Some q)) ?v"
      have eq: "pooladd q s = Inr ?u"
        using p(1) root qa sz size unfolding pooladd_def fresh_free_def [symmetric] Let_def Under a(1)
        by (simp add: nonnil_def lft_def fresh_free_fields)
      have "tree_ok ?u (tins (size_of s) q T)" unfolding new(1)
        by (rule add_under [OF T assms(2) a(2) sub, of lft]) (use ap new qa in \<open>auto simp: fresh_free_fields\<close>)
      then show ?thesis using eq by blast
    qed
  qed
  then show ?thesis using pooladd_frees by blast
qed

section \<open>The search for a fit\<close>

text \<open>\<open>Best a\<close>: \<open>a\<close> is the candidate \<open>q\<close> from above, or a least block of the tree that is large enough.\<close>

definition best_ok :: "(baddr \<Rightarrow> nat) \<Rightarrow> nat \<Rightarrow> baddr option \<Rightarrow> ftree \<Rightarrow> baddr \<Rightarrow> bool" where
  "best_ok sz n q T a \<longleftrightarrow> q = Some a \<and> (\<forall>x \<in> addrs T. sz x < n)
     \<or> a \<in> reps T \<and> n < sz a \<and> (\<forall>x \<in> addrs T. n \<le> sz x \<longrightarrow> sz a \<le> sz x)"

definition fit_ok :: "(baddr \<Rightarrow> nat) \<Rightarrow> nat \<Rightarrow> baddr option \<Rightarrow> ftree \<Rightarrow> fit \<Rightarrow> bool" where
  "fit_ok sz n q T p \<longleftrightarrow> (case p of
       Exact a \<Rightarrow> a \<in> reps T \<and> sz a = n
     | NoFit \<Rightarrow> q = None \<and> (\<forall>x \<in> addrs T. sz x < n)
     | Best a \<Rightarrow> best_ok sz n q T a)"

lemma best_left:
  assumes "best_ok sz n (Some (hd ring)) l a" "n < sz (hd ring)" "\<And>x. x \<in> addrs l \<Longrightarrow> sz x < sz (hd ring)"
    "\<And>x. x \<in> set ring \<union> addrs r \<Longrightarrow> sz (hd ring) \<le> sz x" "reps l \<subseteq> addrs l"
  shows "best_ok sz n q \<langle>l, ring, r\<rangle> a"
proof -
  consider "a = hd ring" "\<forall>x \<in> addrs l. sz x < n"
    | "a \<in> reps l" "n < sz a" "\<forall>x \<in> addrs l. n \<le> sz x \<longrightarrow> sz a \<le> sz x"
    using assms(1) by (auto simp: best_ok_def)
  then show ?thesis
  proof cases
    case 1
    then show ?thesis using assms(2,4) unfolding best_ok_def by (intro disjI2) (auto dest: leD)
  next
    case 2
    then have "sz a < sz (hd ring)" using assms(3,5) by auto
    then have "sz a \<le> sz x" if "x \<in> set ring \<union> addrs r" for x using assms(4) [OF that] by simp
    then show ?thesis using 2 unfolding best_ok_def by (intro disjI2) auto
  qed
qed

lemma best_right:
  assumes "best_ok sz n q r a" "\<And>x. x \<in> set ring \<union> addrs l \<Longrightarrow> sz x < n"
  shows "best_ok sz n q \<langle>l, ring, r\<rangle> a"
proof -
  consider "q = Some a" "\<forall>x \<in> addrs r. sz x < n"
    | "a \<in> reps r" "n < sz a" "\<forall>x \<in> addrs r. n \<le> sz x \<longrightarrow> sz a \<le> sz x"
    using assms(1) by (auto simp: best_ok_def)
  then show ?thesis
  proof cases
    case 1
    then show ?thesis using assms(2) unfolding best_ok_def by (intro disjI1) auto
  next
    case 2
    have "sz a \<le> sz x" if "x \<in> set ring \<union> addrs l" "n \<le> sz x" for x using assms(2) [OF that(1)] that(2) by simp
    then show ?thesis using 2 unfolding best_ok_def by (intro disjI2) auto
  qed
qed

lemma find_fit_tree:
  "rep h par T \<Longrightarrow> apart T \<Longrightarrow> sized sz T \<Longrightarrow> sz = (\<lambda>x. bh_size (h x)) \<Longrightarrow>
    \<exists>p. find_fit h n (root_of T) q = Some p \<and> fit_ok sz n q T p"
proof (induction T arbitrary: par q)
  case Leaf
  then show ?case
    by (subst find_fit.simps) (auto simp: best_of_def fit_ok_def best_ok_def split: option.splits)
next
  case (Node l ring r)
  have b: "bh_l (h (hd ring)) = root_of l" "bh_r (h (hd ring)) = root_of r"
    "rep h (Some (hd ring)) l" "rep h (Some (hd ring)) r" "apart l" "apart r" using Node.prems by auto
  have s: "sized sz l" "sized sz r" using Node.prems(3) by auto
  note sb = sized_bounds [OF Node.prems(3)]
  have sr: "x \<in> set ring \<Longrightarrow> sz x = sz (hd ring)" for x
    using one_sizeD [of sz ring x] Node.prems(3) by simp
  consider "sz (hd ring) = n" | "n < sz (hd ring)" | "sz (hd ring) < n" by linarith
  then show ?case
  proof cases
    case 1
    then show ?thesis using Node.prems(4) by (subst find_fit.simps) (auto simp: fit_ok_def)
  next
    case 2
    then have e: "find_fit h n (root_of \<langle>l, ring, r\<rangle>) q = find_fit h n (root_of l) (Some (hd ring))"
      using b Node.prems(4) by (subst find_fit.simps) auto
    obtain p where p: "find_fit h n (root_of l) (Some (hd ring)) = Some p" "fit_ok sz n (Some (hd ring)) l p"
      using Node.IH(1) [OF b(3,5) s(1) Node.prems(4)] by blast
    have up: "x \<in> set ring \<union> addrs r \<Longrightarrow> sz (hd ring) \<le> sz x" for x using sb(2) [of x] sr [of x] by auto
    have "fit_ok sz n q \<langle>l, ring, r\<rangle> p"
    proof (cases p)
      case (Best a)
      then have a: "best_ok sz n (Some (hd ring)) l a" using p(2) by (simp add: fit_ok_def)
      have "best_ok sz n q \<langle>l, ring, r\<rangle> a"
        by (rule best_left [of sz, OF a 2 _ up reps_addrs [OF b(5)]]) (rule sb(1))
      then show ?thesis using Best by (simp add: fit_ok_def)
    qed (use p(2) in \<open>simp_all add: fit_ok_def\<close>)
    then show ?thesis using p(1) e by simp
  next
    case 3
    then have e: "find_fit h n (root_of \<langle>l, ring, r\<rangle>) q = find_fit h n (root_of r) q"
      using b Node.prems(4) by (subst find_fit.simps) auto
    obtain p where p: "find_fit h n (root_of r) q = Some p" "fit_ok sz n q r p"
      using Node.IH(2) [OF b(4,6) s(2) Node.prems(4)] by blast
    have low: "sz x < n" if "x \<in> set ring \<union> addrs l" for x
    proof -
      have "sz x \<le> sz (hd ring)" using that sb(1) [of x] sr [of x] by (cases "x \<in> set ring") simp_all
      then show ?thesis using 3 by simp
    qed
    have "fit_ok sz n q \<langle>l, ring, r\<rangle> p"
    proof (cases p)
      case (Best a)
      then show ?thesis using p(2) best_right [of sz n q r a ring l] low by (simp add: fit_ok_def)
    next
      case NoFit
      then have "\<forall>x \<in> addrs r. sz x < n" "q = None" using p(2) by (simp_all add: fit_ok_def)
      then show ?thesis using NoFit low by (simp add: fit_ok_def) blast
    qed (use p(2) in \<open>simp add: fit_ok_def\<close>)
    then show ?thesis using p(1) e by simp
  qed
qed

end
