(* ===== verification/PoolFree.thy ===== *)
theory PoolFree
  imports PoolFit
begin

text \<open>
  The tree of free blocks as a set: \<open>free_set s F\<close> hides the tree.  The locale \<open>free_store\<close> is
  what the allocator relies on, with its consequences for sequences of operations.
\<close>

definition free_set :: "pool \<Rightarrow> baddr set \<Rightarrow> bool" where
  "free_set s F \<longleftrightarrow> (\<exists>T. tree_ok s T \<and> sized (size_of s) T \<and> addrs T = F)"

lemma free_set_empty: "p_root s = None \<Longrightarrow> free_set s {}"
  unfolding free_set_def tree_ok_def by (intro exI [of _ "\<langle>\<rangle>"]) simp

lemma free_set_finite: "free_set s F \<Longrightarrow> finite F"
  by (auto simp: free_set_def)

lemma links_only_size: "links_only s u \<Longrightarrow> size_of u = size_of s"
  by (auto simp: links_only_def fun_eq_iff)

lemma frees_size: "frees q s u \<Longrightarrow> size_of u = size_of s"
  using links_only_size [of "set_magic q MAGIC_F s" u] by (auto simp: frees_def set_magic_def)

lemma free_set_cong:
  assumes "free_set s F" "p_root u = p_root s"
    and "\<And>x. x \<in> F \<Longrightarrow> bh_l (hdrs u x) = bh_l (hdrs s x) \<and> bh_r (hdrs u x) = bh_r (hdrs s x)
      \<and> bh_p (hdrs u x) = bh_p (hdrs s x) \<and> bh_f (hdrs u x) = bh_f (hdrs s x) \<and> bh_v (hdrs u x) = bh_v (hdrs s x)
      \<and> size_of u x = size_of s x"
  shows "free_set u F"
proof -
  obtain T where T: "tree_ok s T" "sized (size_of s) T" "addrs T = F" using assms(1) by (auto simp: free_set_def)
  have ap: "apart T" and r: "rep (hdrs s) None T" using T(1) by (auto simp: tree_ok_def)
  have "rep (hdrs u) None T" by (rule rep_frame [OF r ap]) (use assms(3) T(3) in blast)
  moreover have "sized (size_of u) T" using sized_cong [OF ap, of "size_of u" "size_of s"] assms(3) T by auto
  ultimately show ?thesis using T assms(2) ap r unfolding free_set_def
    by (intro exI [of _ T]) (simp add: tree_ok_def)
qed

lemma pooldel_free:
  assumes "free_set s F" "t \<in> F"
  shows "\<exists>u. pooldel t s = Inr u \<and> free_set u (F - {t}) \<and> links_only s u"
proof -
  obtain T where T: "tree_ok s T" "sized (size_of s) T" "addrs T = F" using assms(1) by (auto simp: free_set_def)
  obtain u where u: "pooldel t s = Inr u" "tree_ok u (tdel t T)" "links_only s u"
    using pooldel_tdel [OF T(1)] assms(2) T(3) by blast
  have ap: "apart T" using T(1) by (simp add: tree_ok_def)
  have "sized (size_of u) (tdel t T)"
    using sized_tdel [OF T(2) ap] links_only_size [OF u(3)] by simp
  then show ?thesis using u apart_tdel [OF ap, of t] T(3) by (auto simp: free_set_def)
qed

lemma pooladd_free:
  assumes "free_set s F" "q \<notin> F" "size_of s q < 2 ^ 31"
  shows "\<exists>u. pooladd q s = Inr u \<and> free_set u (insert q F) \<and> frees q s u"
proof -
  obtain T where T: "tree_ok s T" "sized (size_of s) T" "addrs T = F" using assms(1) by (auto simp: free_set_def)
  obtain u where u: "pooladd q s = Inr u" "tree_ok u (tins (size_of s) q T)" "frees q s u"
    using pooladd_tins [OF T(1) _ assms(3)] assms(2) T(3) by blast
  have "sized (size_of u) (tins (size_of s) q T)"
    using sized_tins [OF T(2)] T(1) frees_size [OF u(3)] by (simp add: tree_ok_def)
  then show ?thesis using u T(3) unfolding free_set_def by (intro exI [of _ u]) auto
qed

lemma ring_second:
  assumes "is_ring h ring"
  obtains t where "bh_f (h (hd ring)) = Some t" "t \<in> set ring"
proof (cases "tl ring = []")
  case True
  then have "ring = [hd ring]" using assms by (cases ring) (auto simp: is_ring_def)
  then show ?thesis using that [of "hd ring"] assms is_ring_single [of h "hd ring"] by (metis list.set_intros(1))
next
  case False
  then obtain a b zs where "ring = a # b # zs" by (cases ring; cases "tl ring") auto
  then show ?thesis using that [of b] assms by (auto simp: is_ring_def)
qed

lemma rep_ring: "rep h par T \<Longrightarrow> a \<in> reps T \<Longrightarrow> \<exists>ring \<in> set_tree T. hd ring = a \<and> is_ring h ring"
  by (induction T arbitrary: par) auto

lemma find_fit_free:
  assumes "free_set s F"
  shows "\<exists>p. find_fit (hdrs s) n (p_root s) None = Some p \<and> (case p of
      Exact a \<Rightarrow> \<exists>t \<in> F. bh_f (hdrs s a) = Some t \<and> size_of s t = n
    | Best a \<Rightarrow> a \<in> F \<and> n < size_of s a \<and> (\<forall>x \<in> F. n \<le> size_of s x \<longrightarrow> size_of s a \<le> size_of s x)
    | NoFit \<Rightarrow> \<forall>x \<in> F. size_of s x < n)"
proof -
  obtain T where T: "tree_ok s T" "sized (size_of s) T" "addrs T = F" using assms(1) by (auto simp: free_set_def)
  have r: "rep (hdrs s) None T" "apart T" "p_root s = root_of T" using T(1) by (auto simp: tree_ok_def)
  obtain p where p: "find_fit (hdrs s) n (p_root s) None = Some p" "fit_ok (size_of s) n None T p"
    using find_fit_tree [OF r(1,2) T(2) refl] r(3) by auto
  have sub: "reps T \<subseteq> F" using reps_addrs [OF r(2)] T(3) by simp
  show ?thesis
  proof (cases p)
    case (Exact a)
    then have a: "a \<in> reps T" "size_of s a = n" using p(2) by (auto simp: fit_ok_def)
    obtain ring where ring: "ring \<in> set_tree T" "hd ring = a" "is_ring (hdrs s) ring"
      using rep_ring [OF r(1) a(1)] by blast
    obtain t where t: "bh_f (hdrs s a) = Some t" "t \<in> set ring"
      using ring_second [OF ring(3)] ring(2) by auto
    have "size_of s t = n" using T(2) ring(1,2) t(2) a(2) by (auto simp: sized_def one_size_def)
    moreover have "t \<in> F" using t(2) ring(1) T(3) by (auto simp: addrs_def)
    ultimately show ?thesis using p(1) Exact t(1) by auto
  next
    case (Best a)
    then show ?thesis using p T(3) sub by (auto simp: fit_ok_def best_ok_def)
  next
    case NoFit
    then show ?thesis using p T(3) by (auto simp: fit_ok_def)
  qed
qed

section \<open>The store of free blocks as an interface\<close>

datatype 'a store_op = Put 'a | Take 'a

primrec store_run :: "('a \<Rightarrow> 's \<Rightarrow> 'f + 's) \<Rightarrow> ('a \<Rightarrow> 's \<Rightarrow> 'f + 's) \<Rightarrow> 'a store_op list \<Rightarrow> 's \<Rightarrow> 'f + 's" where
  "store_run add del [] s = Inr s"
| "store_run add del (x # xs) s =
     rbind (case x of Put q \<Rightarrow> add q s | Take t \<Rightarrow> del t s) (store_run add del xs)"

primrec held :: "'a store_op list \<Rightarrow> 'a set \<Rightarrow> 'a set" where
  "held [] F = F"
| "held (x # xs) F = held xs (case x of Put q \<Rightarrow> insert q F | Take t \<Rightarrow> F - {t})"

primrec legal :: "nat \<Rightarrow> ('a \<Rightarrow> nat) \<Rightarrow> 'a store_op list \<Rightarrow> 'a set \<Rightarrow> bool" where
  "legal bound k [] F \<longleftrightarrow> True"
| "legal bound k (x # xs) F \<longleftrightarrow> (case x of
       Put q \<Rightarrow> q \<notin> F \<and> k q < bound \<and> legal bound k xs (insert q F)
     | Take t \<Rightarrow> t \<in> F \<and> legal bound k xs (F - {t}))"

locale free_store =
  fixes ok :: "'s \<Rightarrow> 'a set \<Rightarrow> bool" and add :: "'a \<Rightarrow> 's \<Rightarrow> 'f + 's" and del :: "'a \<Rightarrow> 's \<Rightarrow> 'f + 's"
    and key :: "'s \<Rightarrow> 'a \<Rightarrow> nat" and bound :: nat
  assumes add: "ok s F \<Longrightarrow> q \<notin> F \<Longrightarrow> key s q < bound \<Longrightarrow>
      \<exists>u. add q s = Inr u \<and> ok u (insert q F) \<and> key u = key s"
    and del: "ok s F \<Longrightarrow> t \<in> F \<Longrightarrow> \<exists>u. del t s = Inr u \<and> ok u (F - {t}) \<and> key u = key s"
begin

lemma run_held:
  "ok s F \<Longrightarrow> legal bound (key s) xs F \<Longrightarrow>
    \<exists>u. store_run add del xs s = Inr u \<and> ok u (held xs F) \<and> key u = key s"
proof (induction xs arbitrary: s F)
  case (Cons x xs)
  show ?case
  proof (cases x)
    case (Put q)
    then obtain u where "add q s = Inr u" "ok u (insert q F)" "key u = key s"
      using add [of s F q] Cons.prems by auto
    then show ?thesis using Cons.IH [of u "insert q F"] Cons.prems Put by auto
  next
    case (Take t)
    then obtain u where "del t s = Inr u" "ok u (F - {t})" "key u = key s"
      using del [of s F t] Cons.prems by auto
    then show ?thesis using Cons.IH [of u "F - {t}"] Cons.prems Take by auto
  qed
qed simp

end

interpretation blocks: free_store free_set pooladd pooldel size_of "2 ^ 31"
proof
  show "\<exists>u. pooladd q s = Inr u \<and> free_set u (insert q F) \<and> size_of u = size_of s"
    if "free_set s F" "q \<notin> F" "size_of s q < 2 ^ 31" for s F q
    using pooladd_free [OF that] frees_size by blast
  show "\<exists>u. pooldel t s = Inr u \<and> free_set u (F - {t}) \<and> size_of u = size_of s"
    if "free_set s F" "t \<in> F" for s F t
    using pooldel_free [OF that] links_only_size by blast
qed

end
