(* ===== verification/PoolLayout.thy ===== *)
theory PoolLayout
  imports PoolFree
begin

text \<open>
  How a pool lies in memory: arenas tiled by blocks with boundary tags.  \<open>layout sz tg B L E\<close>:
  \<open>B\<close> are the blocks, \<open>L\<close> the leaders of the arenas, \<open>E\<close> the end marks, \<open>sz\<close> the sizes and \<open>tg\<close>
  the trailers by the address where a block ends.  An end mark needs the word of its magic
  number; 57 of its 64 bytes belong to the arena whatever the alignment took.
\<close>

definition layout :: "(baddr \<Rightarrow> nat) \<Rightarrow> (baddr \<Rightarrow> baddr option) \<Rightarrow> baddr set \<Rightarrow> baddr set \<Rightarrow> baddr set \<Rightarrow> bool" where
  "layout sz tg B L E \<longleftrightarrow>
     finite B \<and> B \<inter> L = {} \<and> E \<inter> (B \<union> L) = {}
     \<and> (\<forall>x \<in> B \<union> L \<union> E. 8 dvd x)
     \<and> (\<forall>x \<in> B \<union> L. 64 dvd sz x \<and> 0 < sz x \<and> tg (x + sz x) = Some x \<and> x + sz x \<in> B \<union> E)
     \<and> (\<forall>b \<in> B \<union> E. \<exists>c \<in> B \<union> L. c + sz c = b)
     \<and> (\<forall>x \<in> B \<union> L. \<forall>y \<in> B \<union> L \<union> E. x < y \<longrightarrow> x + sz x \<le> y)
     \<and> (\<forall>e \<in> E. \<forall>y \<in> B \<union> L \<union> E. e < y \<longrightarrow> e + 57 \<le> y)"

lemma layoutD:
  assumes "layout sz tg B L E"
  shows "finite B" "x \<in> B \<Longrightarrow> x \<notin> L" "x \<in> E \<Longrightarrow> x \<notin> B" "x \<in> E \<Longrightarrow> x \<notin> L"
    "x \<in> B \<union> L \<union> E \<Longrightarrow> 8 dvd x"
    "x \<in> B \<union> L \<Longrightarrow> 64 dvd sz x" "x \<in> B \<union> L \<Longrightarrow> 0 < sz x" "x \<in> B \<union> L \<Longrightarrow> tg (x + sz x) = Some x"
    "x \<in> B \<union> L \<Longrightarrow> x + sz x \<in> B \<union> E"
    "x \<in> B \<union> L \<Longrightarrow> y \<in> B \<union> L \<union> E \<Longrightarrow> x < y \<Longrightarrow> x + sz x \<le> y"
    "e \<in> E \<Longrightarrow> y \<in> B \<union> L \<union> E \<Longrightarrow> e < y \<Longrightarrow> e + 57 \<le> y"
  using assms by (auto simp: layout_def)

lemma layout_pred:
  assumes lay: "layout sz tg B L E" and b: "b \<in> B \<union> E"
  shows "\<exists>c. c \<in> B \<union> L \<and> c + sz c = b \<and> tg b = Some c"
proof -
  have "\<forall>b \<in> B \<union> E. \<exists>c \<in> B \<union> L. c + sz c = b" using lay unfolding layout_def by (elim conjE)
  then obtain c where "c \<in> B \<union> L" "c + sz c = b" using b by blast
  then show ?thesis using layoutD(8) [OF lay, of c] by auto
qed

lemma layout_inj:
  assumes "layout sz tg B L E" "x \<in> B \<union> L" "y \<in> B \<union> L" "x + sz x = y + sz y"
  shows "x = y"
proof -
  have "tg (y + sz y) = Some x" using layoutD(8) [OF assms(1,2)] unfolding assms(4) .
  then show ?thesis using layoutD(8) [OF assms(1,3)] by (simp only: option.inject)
qed

lemma layoutI:
  assumes "finite B" "\<And>x. x \<in> B \<Longrightarrow> x \<notin> L" "\<And>x. x \<in> E \<Longrightarrow> x \<notin> B \<and> x \<notin> L"
    "\<And>x. x \<in> B \<union> L \<union> E \<Longrightarrow> 8 dvd x"
    "\<And>x. x \<in> B \<union> L \<Longrightarrow> 64 dvd sz x \<and> 0 < sz x \<and> tg (x + sz x) = Some x \<and> x + sz x \<in> B \<union> E"
    "\<And>b. b \<in> B \<union> E \<Longrightarrow> \<exists>c \<in> B \<union> L. c + sz c = b"
    "\<And>x y. x \<in> B \<union> L \<Longrightarrow> y \<in> B \<union> L \<union> E \<Longrightarrow> x < y \<Longrightarrow> x + sz x \<le> y"
    "\<And>e y. e \<in> E \<Longrightarrow> y \<in> B \<union> L \<union> E \<Longrightarrow> e < y \<Longrightarrow> e + 57 \<le> y"
  shows "layout sz tg B L E"
proof -
  have 1: "B \<inter> L = {}" using assms(2) by auto
  have 2: "E \<inter> (B \<union> L) = {}" using assms(3) by auto
  have 4: "\<forall>x \<in> B \<union> L \<union> E. 8 dvd x" by (rule ballI) (rule assms(4))
  have 5: "\<forall>x \<in> B \<union> L. 64 dvd sz x \<and> 0 < sz x \<and> tg (x + sz x) = Some x \<and> x + sz x \<in> B \<union> E"
    by (rule ballI) (rule assms(5))
  have 6: "\<forall>b \<in> B \<union> E. \<exists>c \<in> B \<union> L. c + sz c = b" by (rule ballI) (rule assms(6))
  have 7: "\<forall>x \<in> B \<union> L. \<forall>y \<in> B \<union> L \<union> E. x < y \<longrightarrow> x + sz x \<le> y"
    by (rule ballI, rule ballI, rule impI) (rule assms(7))
  have 8: "\<forall>e \<in> E. \<forall>y \<in> B \<union> L \<union> E. e < y \<longrightarrow> e + 57 \<le> y"
    by (rule ballI, rule ballI, rule impI) (rule assms(8))
  show ?thesis unfolding layout_def
    by (rule conjI [OF assms(1) conjI [OF 1 conjI [OF 2 conjI [OF 4 conjI [OF 5 conjI [OF 6 conjI [OF 7 8]]]]]]])
qed

lemma layout_cong:
  assumes lay: "layout sz tg B L E"
    and e: "\<And>x. x \<in> B \<union> L \<Longrightarrow> sz' x = sz x \<and> tg' (x + sz x) = tg (x + sz x)"
  shows "layout sz' tg' B L E"
proof (rule layoutI)
  note D = layoutD [OF lay]
  show "finite B" by (rule D(1))
  show "x \<notin> L" if "x \<in> B" for x using D(2) that .
  show "x \<notin> B \<and> x \<notin> L" if "x \<in> E" for x using D(3,4) that by blast
  show "8 dvd x" if "x \<in> B \<union> L \<union> E" for x using D(5) that .
  show "64 dvd sz' x \<and> 0 < sz' x \<and> tg' (x + sz' x) = Some x \<and> x + sz' x \<in> B \<union> E" if x: "x \<in> B \<union> L" for x
    using D(6,7,8,9) [OF x] e [OF x] by simp
  show "\<exists>c \<in> B \<union> L. c + sz' c = b" if "b \<in> B \<union> E" for b
    using layout_pred [OF lay that] e by force
  show "x + sz' x \<le> y" if "x \<in> B \<union> L" "y \<in> B \<union> L \<union> E" "x < y" for x y
    using D(10) [OF that] e [OF that(1)] by simp
  show "x + 57 \<le> y" if "x \<in> E" "y \<in> B \<union> L \<union> E" "x < y" for x y using D(11) [OF that] .
qed

text \<open>Two neighbours become one block.\<close>

lemma layout_merge:
  assumes lay: "layout sz tg B L E" and b: "b \<in> B" and c: "c \<in> B" "c = b + sz b"
  shows "layout (sz(b := sz b + sz c)) (tg(b + (sz b + sz c) := Some b)) (B - {c}) L E"
proof -
  note D = layoutD [OF lay]
  let ?sz = "sz(b := sz b + sz c)" and ?tg = "tg(b + (sz b + sz c) := Some b)" and ?B = "B - {c}"
  have e: "b + ?sz b = c + sz c" using c by simp
  have bc: "b \<noteq> c" "b < c" using c D(7) [of b] b by auto
  have cn: "c \<notin> L" "c \<notin> E" "b \<notin> L" "b \<notin> E" using D(2,3) b c(1) by auto
  have inj: "x + sz x \<noteq> c + sz c" if "x \<in> B \<union> L" "x \<noteq> c" for x
    using layout_inj [OF lay that(1), of c] that(2) c(1) by auto
  have bpos: "x + sz x \<noteq> c" if "x \<in> B \<union> L" "x \<noteq> b" for x
    using layout_inj [OF lay that(1), of b] that(2) b c(2) by auto
  have block: "64 dvd ?sz x \<and> 0 < ?sz x \<and> ?tg (x + ?sz x) = Some x \<and> x + ?sz x \<in> ?B \<union> E" if x: "x \<in> ?B \<union> L" for x
  proof (cases "x = b")
    case True
    have "c + sz c \<in> B \<union> E" "c + sz c \<noteq> c" using D(7,9) [of c] c(1) by auto
    then show ?thesis using True D(6) [of b] D(6) [of c] D(7) [of b] b c by (auto simp: add.assoc)
  next
    case False
    have x': "x \<in> B \<union> L" "x \<noteq> c" using x cn by auto
    then have "x + sz x \<in> ?B \<union> E" using D(9) [of x] bpos [of x] False by auto
    moreover have "x + sz x \<noteq> b + (sz b + sz c)" using inj [OF x'] e by simp
    ultimately show ?thesis using False D(6,7,8) [OF x'(1)] by simp
  qed
  have pred: "\<exists>z \<in> ?B \<union> L. z + ?sz z = y" if y: "y \<in> ?B \<union> E" for y
  proof -
    obtain z where z: "z \<in> B \<union> L" "z + sz z = y" using layout_pred [OF lay, of y] y by auto
    have yc: "y \<noteq> c" using y cn by auto
    show ?thesis
    proof (cases "z = c")
      case True
      then show ?thesis using z e b bc by (intro bexI [of _ b]) auto
    next
      case False
      moreover have "z \<noteq> b" using z yc c(2) by auto
      ultimately show ?thesis using z cn by (intro bexI [of _ z]) auto
    qed
  qed
  have dis: "x + ?sz x \<le> y" if x: "x \<in> ?B \<union> L" "y \<in> ?B \<union> L \<union> E" "x < y" for x y
  proof (cases "x = b")
    case True
    have y: "y \<in> B \<union> L \<union> E" "y \<noteq> c" using x(2) cn by auto
    then have "c \<le> y" using D(10) [of b y] b x(3) True c(2) by auto
    then have "c + sz c \<le> y" using D(10) [of c y] c(1) y by auto
    then show ?thesis using True e by simp
  next
    case False
    then show ?thesis using D(10) [of x y] x cn by auto
  qed
  show ?thesis
  proof (rule layoutI)
    show "finite ?B" using D(1) by simp
    show "x \<notin> L" if "x \<in> ?B" for x using D(2) that by blast
    show "x \<notin> ?B \<and> x \<notin> L" if "x \<in> E" for x using D(3,4) that by blast
    show "8 dvd x" if "x \<in> ?B \<union> L \<union> E" for x using D(5) [of x] that by blast
    show "x + 57 \<le> y" if "x \<in> E" "y \<in> ?B \<union> L \<union> E" "x < y" for x y using D(11) [of x y] that by blast
  qed (use block pred dis in blast)+
qed

text \<open>A block is split.\<close>

lemma layout_split:
  assumes lay: "layout sz tg B L E" and q: "q \<in> B" "sz q = n + m" "64 dvd n" "64 dvd m" "0 < n" "0 < m"
  shows "layout (sz(q := n, q + n := m)) (tg(q + n := Some q, q + n + m := Some (q + n))) (insert (q + n) B) L E"
proof -
  note D = layoutD [OF lay]
  let ?sz = "sz(q := n, q + n := m)" and ?tg = "tg(q + n := Some q, q + n + m := Some (q + n))" and ?B = "insert (q + n) B"
  have new: "q + n \<notin> B \<union> L \<union> E"
    using D(10) [of q "q + n"] q by auto
  have e: "q + n + m = q + sz q" "q + n \<noteq> q" using q by auto
  have inj: "x + sz x \<noteq> q + n + m" if "x \<in> B \<union> L" "x \<noteq> q" for x
    using layout_inj [OF lay that(1), of q] that(2) q(1) e(1) by auto
  have block: "64 dvd ?sz x \<and> 0 < ?sz x \<and> ?tg (x + ?sz x) = Some x \<and> x + ?sz x \<in> ?B \<union> E" if x: "x \<in> ?B \<union> L" for x
  proof -
    consider "x = q" | "x = q + n" | "x \<in> B \<union> L" "x \<noteq> q" "x \<noteq> q + n" using x by auto
    then show ?thesis
    proof cases
      case 1
      then show ?thesis using q by simp
    next
      case 2
      have "q + n + m \<in> B \<union> E" using D(9) [of q] q(1) by (simp only: e(1)) simp
      then show ?thesis using 2 q e(2) by auto
    next
      case 3
      then have "x + sz x \<in> B \<union> E" "x + sz x \<noteq> q + n" using D(9) [of x] new by auto
      then show ?thesis using 3 D(6,7,8) [OF 3(1)] inj [OF 3(1,2)] by auto
    qed
  qed
  have pred: "\<exists>z \<in> ?B \<union> L. z + ?sz z = y" if y: "y \<in> ?B \<union> E" for y
  proof (cases "y = q + n")
    case True
    then show ?thesis using q(1) e(2) by (intro bexI [of _ q]) auto
  next
    case False
    then obtain z where z: "z \<in> B \<union> L" "z + sz z = y" using layout_pred [OF lay, of y] y by auto
    show ?thesis
    proof (cases "z = q")
      case True
      then show ?thesis using z e by (intro bexI [of _ "q + n"]) auto
    next
      case False
      then show ?thesis using z new by (intro bexI [of _ z]) auto
    qed
  qed
  have dis: "x + ?sz x \<le> y" if x: "x \<in> ?B \<union> L" "y \<in> ?B \<union> L \<union> E" "x < y" for x y
  proof -
    have q': "y = q + n \<or> q + n + m \<le> y" if "q < y"
      using D(10) [of q y] q(1) that x(2) e(1) by auto
    consider "x = q" | "x = q + n" | "x \<in> B \<union> L" "x \<noteq> q" "x \<noteq> q + n" using x by auto
    then show ?thesis
    proof cases
      case 1
      then show ?thesis using q' x(3) by auto
    next
      case 2
      then show ?thesis using q' x(3) by auto
    next
      case 3
      show ?thesis
      proof (cases "y = q + n")
        case True
        then have "x < q" using x(3) 3 D(10) [of q x] q(1) e by (cases "q < x") auto
        then show ?thesis using D(10) [of x q] 3 q(1) True by auto
      next
        case False
        then show ?thesis using D(10) [of x y] 3 x by auto
      qed
    qed
  qed
  have ends: "e + 57 \<le> y" if x: "e \<in> E" "y \<in> ?B \<union> L \<union> E" "e < y" for e y
  proof (cases "y = q + n")
    case True
    have "e < q"
    proof (rule ccontr)
      assume "\<not> e < q"
      then have "q < e" using D(3) [of e] x(1) q(1) by (cases "e = q") auto
      then show False using D(10) [of q e] q x True by auto
    qed
    then show ?thesis using D(11) [of e q] x(1) q(1) True by auto
  qed (use D(11) [of e y] x in auto)
  have al: "8 dvd q + n" using D(5) [of q] q by (auto intro: dvd_trans [of 8 64])
  show ?thesis
  proof (rule layoutI)
    show "finite ?B" using D(1) by simp
    show "x \<notin> L" if "x \<in> ?B" for x using D(2) [of x] new that by blast
    show "x \<notin> ?B \<and> x \<notin> L" if "x \<in> E" for x using D(3,4) [of x] new that by blast
    show "8 dvd x" if "x \<in> ?B \<union> L \<union> E" for x using D(5) [of x] al that by blast
  qed (use block pred dis ends in blast)+
qed


text \<open>An arena grows at its end, and a new one appears in memory nothing else uses.\<close>

lemma layout_extend:
  assumes lay: "layout sz tg B L E" and e: "e \<in> E" "64 dvd n" "0 < n"
    and fresh: "\<And>y. y \<in> B \<union> L \<union> E \<Longrightarrow> e < y \<Longrightarrow> e + n + 57 \<le> y"
  shows "layout (sz(e := n)) (tg(e + n := Some e)) (insert e B) L (insert (e + n) (E - {e}))"
proof -
  note D = layoutD [OF lay]
  let ?sz = "sz(e := n)" and ?tg = "tg(e + n := Some e)" and ?B = "insert e B" and ?E = "insert (e + n) (E - {e})"
  have en: "e \<notin> B" "e \<notin> L" using D(3,4) e(1) by auto
  have new: "e + n \<notin> B \<union> L \<union> E" using fresh [of "e + n"] e(3) by auto
  have before: "x + sz x \<le> e" if "x \<in> B \<union> L" "x < e" for x using D(10) [OF that(1) _ that(2)] e(1) by blast
  have after: "e + n + 57 \<le> x" if "x \<in> B \<union> L" "\<not> x < e" for x
    using fresh [of x] that en by (cases "x = e") auto
  have block: "64 dvd ?sz x \<and> 0 < ?sz x \<and> ?tg (x + ?sz x) = Some x \<and> x + ?sz x \<in> ?B \<union> ?E" if x: "x \<in> ?B \<union> L" for x
  proof (cases "x = e")
    case True
    then show ?thesis using e by simp
  next
    case False
    then have x': "x \<in> B \<union> L" using x by auto
    have "x + sz x \<noteq> e + n" using before [OF x'] after [OF x'] e(3) D(7) [OF x'] by (cases "x < e") auto
    moreover have "x + sz x \<in> ?B \<union> ?E" using D(9) [OF x'] by auto
    ultimately show ?thesis using D(6,7,8) [OF x'] False by simp
  qed
  have pred: "\<exists>c \<in> ?B \<union> L. c + ?sz c = b" if b: "b \<in> ?B \<union> ?E" for b
  proof (cases "b = e + n")
    case False
    then obtain c where "c \<in> B \<union> L" "c + sz c = b" using layout_pred [OF lay, of b] b e(1) by auto
    then show ?thesis using en by (intro bexI [of _ c]) auto
  qed auto
  have dis: "x + ?sz x \<le> y" if xy: "x \<in> ?B \<union> L" "y \<in> ?B \<union> L \<union> ?E" "x < y" for x y
  proof (cases "x = e")
    case True
    then show ?thesis using fresh [of y] xy by (cases "y = e + n") auto
  next
    case False
    then have x': "x \<in> B \<union> L" using xy(1) by auto
    show ?thesis
    proof (cases "y = e + n")
      case True
      then show ?thesis using before [OF x'] after [OF x'] xy(3) False by (cases "x < e") auto
    next
      case yn: False
      then have "y \<in> B \<union> L \<union> E" using xy(2) e(1) by auto
      then show ?thesis using D(10) [OF x' _ xy(3)] False by simp
    qed
  qed
  have ends: "x + 57 \<le> y" if xy: "x \<in> ?E" "y \<in> ?B \<union> L \<union> ?E" "x < y" for x y
  proof -
    have y: "y = e + n \<or> y \<in> B \<union> L \<union> E" using xy(2) e(1) by auto
    show ?thesis
    proof (cases "x = e + n")
      case True
      then show ?thesis using fresh [of y] y xy(3) e(3) by auto
    next
      case False
      then have x: "x \<in> E" "x \<noteq> e" using xy(1) by auto
      show ?thesis
      proof (cases "y = e + n")
        case True
        have "x < e" using fresh [of x] x xy(3) True by (cases "e < x") auto
        then show ?thesis using D(11) [OF x(1), of e] e(1) True by auto
      next
        case False
        then show ?thesis using D(11) [OF x(1) _ xy(3)] y by blast
      qed
    qed
  qed
  have al: "8 dvd e + n" using D(5) [of e] e by (auto intro: dvd_trans [of 8 64])
  show ?thesis
  proof (rule layoutI [OF _ _ _ _ block pred dis ends])
    show "finite ?B" using D(1) by simp
    show "x \<notin> L" if "x \<in> ?B" for x using D(2) [of x] en that by blast
    show "x \<notin> ?B \<and> x \<notin> L" if "x \<in> ?E" for x using D(3) [of x] D(4) [of x] new that e(3) by (cases "x = e + n") auto
    show "8 dvd x" if "x \<in> ?B \<union> L \<union> ?E" for x using D(5) [of x] al that e(1) by blast
  qed
qed

lemma layout_new:
  assumes lay: "layout sz tg B L E" and t: "8 dvd t" "64 dvd n" "0 < n"
    and freshb: "\<And>x. x \<in> B \<union> L \<Longrightarrow> x + sz x \<le> t \<or> t + 64 + n + 57 \<le> x"
    and freshe: "\<And>x. x \<in> E \<Longrightarrow> x + 57 \<le> t \<or> t + 64 + n + 57 \<le> x"
  shows "layout (sz(t := 64, t + 64 := n)) (tg(t + 64 := Some t, t + 64 + n := Some (t + 64)))
    (insert (t + 64) B) (insert t L) (insert (t + 64 + n) E)"
proof -
  note D = layoutD [OF lay]
  let ?sz = "sz(t := 64, t + 64 := n)" and ?tg = "tg(t + 64 := Some t, t + 64 + n := Some (t + 64))"
    and ?B = "insert (t + 64) B" and ?L = "insert t L" and ?E = "insert (t + 64 + n) E"
  have old: "x < t \<or> t + 64 + n < x" if "x \<in> B \<union> L \<union> E" for x
    using freshb [of x] freshe [of x] D(7) [of x] that by auto
  have new: "t \<notin> B \<union> L \<union> E" "t + 64 \<notin> B \<union> L \<union> E" "t + 64 + n \<notin> B \<union> L \<union> E"
    using old [of t] old [of "t + 64"] old [of "t + 64 + n"] by auto
  have old_sz: "?sz x = sz x" if "x \<in> B \<union> L" for x using new that by auto
  have block: "64 dvd ?sz x \<and> 0 < ?sz x \<and> ?tg (x + ?sz x) = Some x \<and> x + ?sz x \<in> ?B \<union> ?E" if x: "x \<in> ?B \<union> ?L" for x
  proof -
    consider "x = t" | "x = t + 64" | "x \<in> B \<union> L" using x by auto
    then show ?thesis
    proof cases
      case 3
      have "x + sz x \<in> B \<union> E" using D(9) [OF 3] .
      moreover from this have "x + sz x \<noteq> t + 64" "x + sz x \<noteq> t + 64 + n" using new by auto
      ultimately show ?thesis using old_sz [OF 3] D(6,7,8) [OF 3] by simp
    qed (use t in auto)
  qed
  have pred: "\<exists>c \<in> ?B \<union> ?L. c + ?sz c = b" if b: "b \<in> ?B \<union> ?E" for b
  proof -
    consider "b = t + 64" | "b = t + 64 + n" | "b \<in> B \<union> E" using b by auto
    then show ?thesis
    proof cases
      case 1
      then show ?thesis by (intro bexI [of _ t]) auto
    next
      case 2
      then show ?thesis by (intro bexI [of _ "t + 64"]) auto
    next
      case 3
      then obtain c where "c \<in> B \<union> L" "c + sz c = b" using layout_pred [OF lay 3] by blast
      then show ?thesis using old_sz [of c] by (intro bexI [of _ c]) auto
    qed
  qed
  have dis: "x + ?sz x \<le> y" if xy: "x \<in> ?B \<union> ?L" "y \<in> ?B \<union> ?L \<union> ?E" "x < y" for x y
  proof -
    have y: "y = t \<or> y = t + 64 \<or> y = t + 64 + n \<or> y \<in> B \<union> L \<union> E" using xy(2) by auto
    consider "x = t" | "x = t + 64" | "x \<in> B \<union> L" using xy(1) by auto
    then show ?thesis
    proof cases
      case 3
      show ?thesis
      proof (cases "y \<in> B \<union> L \<union> E")
        case True
        then show ?thesis using D(10) [OF 3 True xy(3)] old_sz [OF 3] by simp
      next
        case False
        then show ?thesis using y freshb [OF 3] old_sz [OF 3] xy(3) by auto
      qed
    qed (use y old [of y] xy(3) in auto)
  qed
  have ends: "x + 57 \<le> y" if xy: "x \<in> ?E" "y \<in> ?B \<union> ?L \<union> ?E" "x < y" for x y
  proof -
    have y: "y = t \<or> y = t + 64 \<or> y = t + 64 + n \<or> y \<in> B \<union> L \<union> E" using xy(2) by auto
    show ?thesis
    proof (cases "x = t + 64 + n")
      case True
      then have yy: "y \<in> B \<union> L \<union> E" using y xy(3) by auto
      then show ?thesis using freshb [of y] freshe [of y] D(7) [of y] True xy(3) by auto
    next
      case False
      then have x: "x \<in> E" using xy(1) by auto
      show ?thesis
      proof (cases "y \<in> B \<union> L \<union> E")
        case True
        then show ?thesis using D(11) [OF x True xy(3)] by simp
      next
        case False
        then show ?thesis using y freshe [OF x] xy(3) by auto
      qed
    qed
  qed
  have al: "8 dvd t + 64" "8 dvd t + 64 + n" using t by (auto intro: dvd_trans [of 8 64])
  show ?thesis
  proof (rule layoutI [OF _ _ _ _ block pred dis ends])
    show "finite ?B" using D(1) by simp
    show "x \<notin> ?L" if "x \<in> ?B" for x using D(2) [of x] new that by auto
    show "x \<notin> ?B \<and> x \<notin> ?L" if "x \<in> ?E" for x using D(3) [of x] D(4) [of x] new that t(3) by (cases "x = t + 64 + n") auto
    show "8 dvd x" if "x \<in> ?B \<union> ?L \<union> ?E" for x using D(5) [of x] al t(1) that by blast
  qed
qed

end
