(* ===== verification/PoolInv.thy ===== *)
theory PoolInv
  imports PoolLayout
begin

text \<open>
  The invariant of a pool.  \<open>pool_ok s B ls E F lim\<close>: the blocks are \<open>B\<close>, the leaders of the
  arenas \<open>ls\<close> (newest first), the end marks \<open>E\<close>, the free blocks \<open>F\<close>.  The addresses in \<open>lim\<close> are
  between two states: blocks taken out of the tree or not yet charged, and end marks not yet
  written.  Between operations \<open>lim\<close> is empty.
\<close>

fun chain_of :: "pool \<Rightarrow> baddr option \<Rightarrow> baddr list \<Rightarrow> bool" where
  "chain_of s p [] \<longleftrightarrow> p = None"
| "chain_of s p (l # ls) \<longleftrightarrow> p = Some l \<and> chain_of s (bh_link (hdrs s l)) ls"

lemma chain_of_unique: "chain_of s p ls \<Longrightarrow> chain_of s p ls' \<Longrightarrow> ls = ls'"
proof (induction ls arbitrary: p ls')
  case Nil
  then show ?case by (cases ls') auto
next
  case (Cons l ls)
  then show ?case by (cases ls') auto
qed

lemma chain_of_cong:
  "chain_of s p ls \<Longrightarrow> (\<And>l. l \<in> set ls \<Longrightarrow> bh_link (hdrs u l) = bh_link (hdrs s l)) \<Longrightarrow> chain_of u p ls"
  by (induction ls arbitrary: p) auto

definition arenas_ok :: "pool \<Rightarrow> baddr set \<Rightarrow> baddr list \<Rightarrow> baddr set \<Rightarrow> bool" where
  "arenas_ok s B ls E \<longleftrightarrow> chain_of s (p_chain s) ls \<and> E = B2LIMIT s ` set ls
     \<and> (\<forall>b \<in> B. \<exists>l \<in> set ls. l < b \<and> B2NB s b \<le> B2LIMIT s l)
     \<and> (\<forall>l \<in> set ls. size_of s l = 64 \<and> l < B2LIMIT s l)
     \<and> (\<forall>l \<in> set ls. \<forall>l' \<in> set ls. l < l' \<longrightarrow> B2LIMIT s l \<le> l')"

definition config_ok :: "pool \<Rightarrow> bool" where
  "config_ok s \<longleftrightarrow> p_quanta s = 63 \<and> 64 dvd p_chunk s \<and> 0 < p_chunk s \<and> p_maxsize s < 2 ^ 31
     \<and> p_arenasize s \<le> p_maxsize s \<and> \<not> p_move s"

definition pool_ok :: "pool \<Rightarrow> baddr set \<Rightarrow> baddr list \<Rightarrow> baddr set \<Rightarrow> baddr set \<Rightarrow> baddr set \<Rightarrow> bool" where
  "pool_ok s B ls E F lim \<longleftrightarrow>
     layout (size_of s) (tails s) B (set ls) E \<and> arenas_ok s B ls E \<and> config_ok s
     \<and> free_set s F \<and> F \<subseteq> B \<and> F \<inter> lim = {}
     \<and> (\<forall>b \<in> B - lim. bh_magic (hdrs s b) \<in> (if b \<in> F then {MAGIC_F} else {MAGIC_A, MAGIC_I}))
     \<and> (\<forall>x \<in> set ls \<union> E - lim. bh_magic (hdrs s x) = MAGIC_E)
     \<and> (\<forall>b \<in> F. B2NB s b \<notin> F)
     \<and> p_cursize s = of_nat (sum (size_of s) (B - F - lim))
     \<and> sum (size_of s) B \<le> p_arenasize s
     \<and> (\<forall>p. gc_ptr s = Some p \<longrightarrow> p \<in> B \<union> set ls \<union> E)"

lemma pool_okD:
  assumes "pool_ok s B ls E F lim"
  shows "layout (size_of s) (tails s) B (set ls) E" "arenas_ok s B ls E" "config_ok s" "free_set s F"
    "F \<subseteq> B" "F \<inter> lim = {}"
    "\<And>b. b \<in> B \<Longrightarrow> b \<notin> lim \<Longrightarrow> bh_magic (hdrs s b) \<in> (if b \<in> F then {MAGIC_F} else {MAGIC_A, MAGIC_I})"
    "\<And>x. x \<in> set ls \<union> E \<Longrightarrow> x \<notin> lim \<Longrightarrow> bh_magic (hdrs s x) = MAGIC_E"
    "\<And>b. b \<in> F \<Longrightarrow> B2NB s b \<notin> F"
    "p_cursize s = of_nat (sum (size_of s) (B - F - lim))" "sum (size_of s) B \<le> p_arenasize s"
    "\<And>p. gc_ptr s = Some p \<Longrightarrow> p \<in> B \<union> set ls \<union> E"
  using assms unfolding pool_ok_def by blast+

lemma pool_okI:
  assumes "layout (size_of s) (tails s) B (set ls) E" "arenas_ok s B ls E" "config_ok s" "free_set s F"
    "F \<subseteq> B" "F \<inter> lim = {}"
    "\<And>b. b \<in> B \<Longrightarrow> b \<notin> lim \<Longrightarrow> bh_magic (hdrs s b) \<in> (if b \<in> F then {MAGIC_F} else {MAGIC_A, MAGIC_I})"
    "\<And>x. x \<in> set ls \<union> E \<Longrightarrow> x \<notin> lim \<Longrightarrow> bh_magic (hdrs s x) = MAGIC_E"
    "\<And>b. b \<in> F \<Longrightarrow> B2NB s b \<notin> F"
    "p_cursize s = of_nat (sum (size_of s) (B - F - lim))" "sum (size_of s) B \<le> p_arenasize s"
    "\<And>p. gc_ptr s = Some p \<Longrightarrow> p \<in> B \<union> set ls \<union> E"
  shows "pool_ok s B ls E F lim"
  using assms unfolding pool_ok_def by simp

lemma magic_neq [simp]:
  "MAGIC_A \<noteq> MAGIC_F" "MAGIC_I \<noteq> MAGIC_F" "MAGIC_E \<noteq> MAGIC_F" "MAGIC_F \<noteq> MAGIC_A" "MAGIC_F \<noteq> MAGIC_I"
  "MAGIC_F \<noteq> MAGIC_E" "MAGIC_A \<noteq> MAGIC_E" "MAGIC_I \<noteq> MAGIC_E" "MAGIC_E \<noteq> MAGIC_A" "MAGIC_E \<noteq> MAGIC_I"
  "(0 :: u64) \<noteq> MAGIC_F" "MAGIC_A \<noteq> MAGIC_I" "MAGIC_I \<noteq> MAGIC_A"
  by (simp_all add: MAGIC_A_def MAGIC_F_def MAGIC_E_def MAGIC_I_def)

lemma size_bound: "pool_ok s B ls E F lim \<Longrightarrow> b \<in> B \<Longrightarrow> size_of s b < 2 ^ 31"
  using member_le_sum [of b B "size_of s"] pool_okD(11) [of s B ls E F lim] pool_okD(3) [of s B ls E F lim]
    layoutD(1) [OF pool_okD(1)] by (fastforce simp: config_ok_def)

text \<open>Steps that leave the layout alone.\<close>

definition same_layout :: "pool \<Rightarrow> pool \<Rightarrow> bool" where
  "same_layout s u \<longleftrightarrow> (\<forall>x. size_of u x = size_of s x) \<and> tails u = tails s \<and> p_chain u = p_chain s
     \<and> (\<forall>x. bh_link (hdrs u x) = bh_link (hdrs s x) \<and> bh_csize (hdrs u x) = bh_csize (hdrs s x))
     \<and> p_quanta u = p_quanta s \<and> p_chunk u = p_chunk s \<and> p_maxsize u = p_maxsize s
     \<and> p_arenasize u = p_arenasize s \<and> p_move u = p_move s"

lemma same_layoutD:
  assumes "same_layout s u"
  shows "size_of u x = size_of s x" "size_of u = size_of s" "tails u = tails s" "B2LIMIT u = B2LIMIT s"
    "B2NB u = B2NB s" "p_arenasize u = p_arenasize s" "config_ok u \<longleftrightarrow> config_ok s"
  using assms by (auto simp: same_layout_def B2LIMIT_def B2NB_def config_ok_def fun_eq_iff)

lemma arenas_ok_cong: "same_layout s u \<Longrightarrow> arenas_ok s B ls E \<Longrightarrow> arenas_ok u B ls E"
proof -
  assume a: "same_layout s u" "arenas_ok s B ls E"
  have "chain_of u (p_chain s) ls" "p_chain u = p_chain s"
    using a chain_of_cong [of s "p_chain s" ls u] by (simp_all add: same_layout_def arenas_ok_def)
  then show ?thesis using a(2) by (simp add: arenas_ok_def same_layoutD [OF a(1)])
qed

lemma pool_ok_same:
  assumes "pool_ok s B ls E F lim" "same_layout s u" "free_set u F'" "F' \<subseteq> B" "F' \<inter> lim' = {}"
    and "\<And>b. b \<in> B \<Longrightarrow> b \<notin> lim' \<Longrightarrow> bh_magic (hdrs u b) \<in> (if b \<in> F' then {MAGIC_F} else {MAGIC_A, MAGIC_I})"
    and "\<And>x. x \<in> set ls \<union> E \<Longrightarrow> x \<notin> lim' \<Longrightarrow> bh_magic (hdrs u x) = MAGIC_E"
    and "\<And>b. b \<in> F' \<Longrightarrow> B2NB s b \<notin> F'"
    and "p_cursize u = of_nat (sum (size_of s) (B - F' - lim'))"
    and "\<And>p. gc_ptr u = Some p \<Longrightarrow> p \<in> B \<union> set ls \<union> E"
  shows "pool_ok u B ls E F' lim'"
proof -
  note D = pool_okD [OF assms(1)] and e = same_layoutD [OF assms(2)]
  show ?thesis
  proof (rule pool_okI)
    show "layout (size_of u) (tails u) B (set ls) E" using D(1) unfolding e(2,3) .
    show "arenas_ok u B ls E" by (rule arenas_ok_cong [OF assms(2) D(2)])
    show "config_ok u" using D(3) e(7) by simp
    show "p_cursize u = of_nat (sum (size_of u) (B - F' - lim'))" using assms(9) unfolding e(2) .
    show "sum (size_of u) B \<le> p_arenasize u" using D(11) unfolding e(2,6) .
    show "B2NB u b \<notin> F'" if "b \<in> F'" for b using assms(8) [OF that] unfolding e(5) .
  qed (rule assms; assumption)+
qed

lemma same_layout_links: "links_only s u \<Longrightarrow> same_layout s u"
  by (cases s; cases u) (auto simp: links_only_def same_layout_def fun_eq_iff)

lemma links_only_fields:
  assumes "links_only s u"
  shows "bh_magic (hdrs u x) = bh_magic (hdrs s x)" "p_cursize u = p_cursize s" "gc_ptr u = gc_ptr s"
    "p_brks u = p_brks s" "p_data u = p_data s" "p_ressize u = p_ressize s" "p_nfree u = p_nfree s"
  using assms by (cases s; cases u; simp add: links_only_def)+

lemma pool_del:
  assumes ok: "pool_ok s B ls E F lim" and t: "t \<in> F"
  shows "\<exists>u. pooldel t s = Inr u \<and> pool_ok u B ls E (F - {t}) (insert t lim) \<and> links_only s u"
proof -
  note D = pool_okD [OF ok]
  obtain u where u: "pooldel t s = Inr u" "free_set u (F - {t})" "links_only s u"
    using pooldel_free [OF D(4) t] by blast
  have sum: "B - (F - {t}) - insert t lim = B - F - lim" using D(5,6) t by auto
  have "pool_ok u B ls E (F - {t}) (insert t lim)"
  proof (rule pool_ok_same [OF ok same_layout_links [OF u(3)] u(2)])
    show "F - {t} \<subseteq> B" "(F - {t}) \<inter> insert t lim = {}" using D(5,6) by auto
    show "bh_magic (hdrs u b) \<in> (if b \<in> F - {t} then {MAGIC_F} else {MAGIC_A, MAGIC_I})"
      if "b \<in> B" "b \<notin> insert t lim" for b
      using D(7) [of b] that by (simp add: links_only_fields [OF u(3)])
    show "bh_magic (hdrs u x) = MAGIC_E" if "x \<in> set ls \<union> E" "x \<notin> insert t lim" for x
      using D(8) [OF that(1)] that(2) by (simp add: links_only_fields [OF u(3)])
    show "B2NB s b \<notin> F - {t}" if "b \<in> F - {t}" for b using D(9) that by blast
    show "p_cursize u = of_nat (sum (size_of s) (B - (F - {t}) - insert t lim))"
      unfolding sum links_only_fields [OF u(3)] by (rule D(10))
    show "p \<in> B \<union> set ls \<union> E" if "gc_ptr u = Some p" for p
      using D(12) that by (simp only: links_only_fields [OF u(3)])
  qed
  then show ?thesis using u by blast
qed

lemma frees_fields:
  assumes "frees q s u"
  shows "bh_magic (hdrs u x) = (if x = q then MAGIC_F else bh_magic (hdrs s x))" "p_cursize u = p_cursize s"
    "gc_ptr u = gc_ptr s" "p_brks u = p_brks s" "p_data u = p_data s" "p_ressize u = p_ressize s" "p_nfree u = p_nfree s"
  using links_only_fields [OF assms [unfolded frees_def]] by (simp_all add: set_magic_def upd_h_def)

lemma same_layout_magic: "same_layout s (set_magic q m s)"
  by (auto simp: same_layout_def set_magic_def upd_h_def fun_eq_iff)

lemma same_layout_trans: "same_layout s t \<Longrightarrow> same_layout t u \<Longrightarrow> same_layout s u"
  by (simp add: same_layout_def)

lemma pool_add:
  assumes ok: "pool_ok s B ls E F lim" and b: "b \<in> B" "b \<in> lim" "B2NB s b \<notin> F" "\<And>c. c \<in> F \<Longrightarrow> B2NB s c \<noteq> b"
  shows "\<exists>u. pooladd b s = Inr u \<and> pool_ok u B ls E (insert b F) (lim - {b}) \<and> frees b s u"
proof -
  note D = pool_okD [OF ok]
  have bF: "b \<notin> F" using D(6) b(2) by auto
  obtain u where u: "pooladd b s = Inr u" "free_set u (insert b F)" "frees b s u"
    using pooladd_free [OF D(4) bF size_bound [OF ok b(1)]] by blast
  have sl: "same_layout s u"
    using same_layout_trans [OF same_layout_magic same_layout_links] u(3) by (auto simp: frees_def)
  have "0 < size_of s b" using layoutD(7) [OF D(1)] b(1) by auto
  then have nb: "B2NB s b \<noteq> b" by (simp add: B2NB_def)
  have ne: "b \<notin> set ls \<union> E" using layoutD(2,3) [OF D(1)] b(1) by blast
  have sum: "B - insert b F - (lim - {b}) = B - F - lim" using b(2) by auto
  have "pool_ok u B ls E (insert b F) (lim - {b})"
  proof (rule pool_ok_same [OF ok sl u(2)])
    show "insert b F \<subseteq> B" "insert b F \<inter> (lim - {b}) = {}" using D(5,6) b(1) by auto
    show "bh_magic (hdrs u x) \<in> (if x \<in> insert b F then {MAGIC_F} else {MAGIC_A, MAGIC_I})"
      if "x \<in> B" "x \<notin> lim - {b}" for x
      using D(7) [of x] that by (auto simp: frees_fields [OF u(3)])
    show "bh_magic (hdrs u x) = MAGIC_E" if "x \<in> set ls \<union> E" "x \<notin> lim - {b}" for x
      using D(8) [of x] that ne by (auto simp: frees_fields [OF u(3)])
    show "B2NB s x \<notin> insert b F" if "x \<in> insert b F" for x
      using D(9) [of x] that b(3) b(4) [of x] nb by auto
    show "p_cursize u = of_nat (sum (size_of s) (B - insert b F - (lim - {b})))"
      unfolding sum frees_fields [OF u(3)] by (rule D(10))
    show "p \<in> B \<union> set ls \<union> E" if "gc_ptr u = Some p" for p
      using D(12) that by (simp only: frees_fields [OF u(3)])
  qed
  then show ?thesis using u by blast
qed

section \<open>Steps on blocks in limbo\<close>

lemma pool_magic:
  assumes ok: "pool_ok s B ls E F lim" and x: "x \<in> lim \<or> x \<notin> B \<union> set ls \<union> E" "x \<notin> F"
  shows "pool_ok (set_magic x m s) B ls E F lim"
proof -
  note D = pool_okD [OF ok]
  have f: "hdrs (set_magic x m s) y = (if y = x then (hdrs s x)\<lparr>bh_magic := m\<rparr> else hdrs s y)"
    "p_cursize (set_magic x m s) = p_cursize s" "gc_ptr (set_magic x m s) = gc_ptr s"
    "p_root (set_magic x m s) = p_root s" for y
    by (simp_all add: set_magic_def upd_h_def)
  have free: "free_set (set_magic x m s) F"
    by (rule free_set_cong [OF D(4)]) (auto simp: f)
  show ?thesis
  proof (rule pool_ok_same [OF ok same_layout_magic free D(5,6)])
    show "bh_magic (hdrs (set_magic x m s) b) \<in> (if b \<in> F then {MAGIC_F} else {MAGIC_A, MAGIC_I})"
      if "b \<in> B" "b \<notin> lim" for b using D(7) [OF that] x that by (auto simp: f)
    show "bh_magic (hdrs (set_magic x m s) b) = MAGIC_E" if "b \<in> set ls \<union> E" "b \<notin> lim" for b
      using D(8) [OF that] x that by (auto simp: f)
    show "B2NB s b \<notin> F" if "b \<in> F" for b by (rule D(9) [OF that])
  qed (use D(10,12) f(2,3) in simp_all)
qed

text \<open>A block, or an end mark, whose magic number is written leaves limbo; a block is charged.\<close>

lemma pool_mark_end:
  assumes ok: "pool_ok s B ls E F lim" and e: "e \<in> E \<union> set ls" "e \<in> lim"
  shows "pool_ok (set_magic e MAGIC_E s) B ls E F (lim - {e})"
proof -
  note D = pool_okD [OF ok]
  have eB: "e \<notin> B" "e \<notin> F" using layoutD(2,3) [OF D(1)] e(1) D(5) by blast+
  note ok' = pool_magic [OF ok, of e MAGIC_E]
  have ok': "pool_ok (set_magic e MAGIC_E s) B ls E F lim" using ok' e(2) eB by blast
  note D' = pool_okD [OF ok']
  have sum: "B - F - (lim - {e}) = B - F - lim" using eB by auto
  have m: "bh_magic (hdrs (set_magic e MAGIC_E s) e) = MAGIC_E" by (simp add: set_magic_def)
  have sl: "same_layout (set_magic e MAGIC_E s) (set_magic e MAGIC_E s)" by (simp add: same_layout_def)
  show ?thesis
  proof (rule pool_ok_same [OF ok' sl D'(4,5)])
    show "F \<inter> (lim - {e}) = {}" using D'(6) by auto
    show "bh_magic (hdrs (set_magic e MAGIC_E s) b) \<in> (if b \<in> F then {MAGIC_F} else {MAGIC_A, MAGIC_I})"
      if "b \<in> B" "b \<notin> lim - {e}" for b using D'(7) [of b] that eB by auto
    show "bh_magic (hdrs (set_magic e MAGIC_E s) b) = MAGIC_E" if "b \<in> set ls \<union> E" "b \<notin> lim - {e}" for b
      using D'(8) [of b] that m by (cases "b = e") auto
    show "B2NB (set_magic e MAGIC_E s) b \<notin> F" if "b \<in> F" for b by (rule D'(9) [OF that])
    show "p_cursize (set_magic e MAGIC_E s) = of_nat (sum (size_of (set_magic e MAGIC_E s)) (B - F - (lim - {e})))"
      unfolding sum by (rule D'(10))
    show "p \<in> B \<union> set ls \<union> E" if "gc_ptr (set_magic e MAGIC_E s) = Some p" for p using D'(12) [OF that] .
  qed
qed

lemma charge_fields [simp]:
  "hdrs (charge t s) = hdrs s" "tails (charge t s) = tails s" "p_chain (charge t s) = p_chain s"
  "p_root (charge t s) = p_root s" "gc_ptr (charge t s) = gc_ptr s" "p_brks (charge t s) = p_brks s"
  "p_data (charge t s) = p_data s" "p_ressize (charge t s) = p_ressize s" "p_nfree (charge t s) = p_nfree s"
  by (simp_all add: charge_def Let_def)

lemma same_layout_charge: "same_layout s (charge t s)"
  by (simp add: same_layout_def charge_def Let_def)

lemma free_set_hdrs: "free_set s F \<Longrightarrow> hdrs u = hdrs s \<Longrightarrow> p_root u = p_root s \<Longrightarrow> free_set u F"
  by (rule free_set_cong) auto

lemma pool_charge:
  assumes ok: "pool_ok s B ls E F lim" and b: "b \<in> B" "b \<in> lim" "bh_magic (hdrs s b) \<in> {MAGIC_A, MAGIC_I}"
  shows "pool_ok (charge b s) B ls E F (lim - {b})"
proof -
  note D = pool_okD [OF ok]
  have fin: "finite B" by (rule layoutD(1) [OF D(1)])
  have bF: "b \<notin> F" using D(6) b(2) by auto
  have bE: "b \<notin> set ls \<union> E" using layoutD(2,3) [OF D(1)] b(1) by blast
  have sum: "B - F - (lim - {b}) = insert b (B - F - lim)" "b \<notin> B - F - lim" using b bF by auto
  have free: "free_set (charge b s) F" by (rule free_set_hdrs [OF D(4)]) simp_all
  show ?thesis
  proof (rule pool_ok_same [OF ok same_layout_charge free D(5)])
    show "F \<inter> (lim - {b}) = {}" using D(6) by auto
    show "bh_magic (hdrs (charge b s) x) \<in> (if x \<in> F then {MAGIC_F} else {MAGIC_A, MAGIC_I})"
      if "x \<in> B" "x \<notin> lim - {b}" for x using D(7) [of x] that b bF by (cases "x = b") auto
    show "bh_magic (hdrs (charge b s) x) = MAGIC_E" if "x \<in> set ls \<union> E" "x \<notin> lim - {b}" for x
      using D(8) [of x] that bE by auto
    show "B2NB s x \<notin> F" if "x \<in> F" for x by (rule D(9) [OF that])
    have "sum (size_of s) (B - F - (lim - {b})) = size_of s b + sum (size_of s) (B - F - lim)"
      unfolding sum(1) using fin sum(2) by simp
    then show "p_cursize (charge b s) = of_nat (sum (size_of s) (B - F - (lim - {b})))"
      using D(10) by (simp add: charge_def Let_def)
    show "p \<in> B \<union> set ls \<union> E" if "gc_ptr (charge b s) = Some p" for p using D(12) that by simp
  qed
qed

lemma pool_uncharge:
  assumes ok: "pool_ok s B ls E F lim" and b: "b \<in> B" "b \<notin> lim" "b \<notin> F"
    and u: "hdrs u = hdrs s" "p_root u = p_root s" "same_layout s u" "gc_ptr u = gc_ptr s"
      "p_cursize u = p_cursize s - of_nat (size_of s b)"
  shows "pool_ok u B ls E F (insert b lim)"
proof -
  note D = pool_okD [OF ok]
  have fin: "finite B" by (rule layoutD(1) [OF D(1)])
  have sum: "insert b (B - F - insert b lim) = B - F - lim" "b \<notin> B - F - insert b lim" using b by auto
  show ?thesis
  proof (rule pool_ok_same [OF ok u(3) free_set_hdrs [OF D(4) u(1,2)] D(5)])
    show "F \<inter> insert b lim = {}" using D(6) b(3) by auto
    show "bh_magic (hdrs u x) \<in> (if x \<in> F then {MAGIC_F} else {MAGIC_A, MAGIC_I})"
      if "x \<in> B" "x \<notin> insert b lim" for x using D(7) [of x] that u(1) by auto
    show "bh_magic (hdrs u x) = MAGIC_E" if "x \<in> set ls \<union> E" "x \<notin> insert b lim" for x
      using D(8) [of x] that u(1) by auto
    show "B2NB s x \<notin> F" if "x \<in> F" for x by (rule D(9) [OF that])
    have "sum (size_of s) (B - F - lim) = size_of s b + sum (size_of s) (B - F - insert b lim)"
      unfolding sum(1) [symmetric] using fin sum(2) by simp
    then show "p_cursize u = of_nat (sum (size_of s) (B - F - insert b lim))"
      using D(10) u(5) by simp
    show "p \<in> B \<union> set ls \<union> E" if "gc_ptr u = Some p" for p using D(12) that u(4) by simp
  qed
qed

end
