(* ===== verification/PoolOps.thy ===== *)
theory PoolOps
  imports PoolInv
begin

text \<open>The operations of a pool on its invariant: joining, splitting, freeing, allocating.\<close>

section \<open>Joining and splitting blocks\<close>

lemma set_block_fields:
  "size_of (set_block a n s) x = (if x = a then n else size_of s x)"
  "tails (set_block a n s) = (tails s)(a + n := Some a)"
  "bh_magic (hdrs (set_block a n s) x) = bh_magic (hdrs s x)"
  "bh_link (hdrs (set_block a n s) x) = bh_link (hdrs s x)" "bh_csize (hdrs (set_block a n s) x) = bh_csize (hdrs s x)"
  "p_chain (set_block a n s) = p_chain s" "p_cursize (set_block a n s) = p_cursize s"
  "p_arenasize (set_block a n s) = p_arenasize s" "gc_ptr (set_block a n s) = gc_ptr s"
  "p_root (set_block a n s) = p_root s" "config_ok (set_block a n s) = config_ok s"
  "p_brks (set_block a n s) = p_brks s" "p_data (set_block a n s) = p_data s"
  "p_ressize (set_block a n s) = p_ressize s" "p_nfree (set_block a n s) = p_nfree s"
  by (simp_all add: set_block_def Let_def upd_h_def config_ok_def)

lemma set_magic_fields:
  "size_of (set_magic a m s) x = size_of s x" "tails (set_magic a m s) = tails s"
  "bh_magic (hdrs (set_magic a m s) x) = (if x = a then m else bh_magic (hdrs s x))"
  "bh_link (hdrs (set_magic a m s) x) = bh_link (hdrs s x)" "bh_csize (hdrs (set_magic a m s) x) = bh_csize (hdrs s x)"
  "p_chain (set_magic a m s) = p_chain s" "p_cursize (set_magic a m s) = p_cursize s"
  "p_arenasize (set_magic a m s) = p_arenasize s" "gc_ptr (set_magic a m s) = gc_ptr s"
  "p_root (set_magic a m s) = p_root s" "config_ok (set_magic a m s) = config_ok s"
  "p_brks (set_magic a m s) = p_brks s" "p_data (set_magic a m s) = p_data s"
  "p_ressize (set_magic a m s) = p_ressize s" "p_nfree (set_magic a m s) = p_nfree s"
  by (simp_all add: set_magic_def upd_h_def config_ok_def)

lemma set_links:
  "bh_l (hdrs (set_block a n s) x) = bh_l (hdrs s x)" "bh_r (hdrs (set_block a n s) x) = bh_r (hdrs s x)"
  "bh_p (hdrs (set_block a n s) x) = bh_p (hdrs s x)" "bh_f (hdrs (set_block a n s) x) = bh_f (hdrs s x)"
  "bh_v (hdrs (set_block a n s) x) = bh_v (hdrs s x)"
  "bh_l (hdrs (set_magic a m s) x) = bh_l (hdrs s x)" "bh_r (hdrs (set_magic a m s) x) = bh_r (hdrs s x)"
  "bh_p (hdrs (set_magic a m s) x) = bh_p (hdrs s x)" "bh_f (hdrs (set_magic a m s) x) = bh_f (hdrs s x)"
  "bh_v (hdrs (set_magic a m s) x) = bh_v (hdrs s x)"
  by (simp_all add: set_block_def Let_def set_magic_def)

lemmas set_fields = set_block_fields set_magic_fields set_links

lemma free_set_block: "free_set s F \<Longrightarrow> a \<notin> F \<Longrightarrow> free_set (set_block a n s) F"
  by (rule free_set_cong) (auto simp: set_fields)

lemma free_set_magic: "free_set s F \<Longrightarrow> free_set (set_magic a m s) F"
  by (rule free_set_cong) (auto simp: set_fields)

lemma chain_set: "chain_of (set_block a n s) p ls \<longleftrightarrow> chain_of s p ls" "chain_of (set_magic a m s) p ls \<longleftrightarrow> chain_of s p ls"
  by (induction ls arbitrary: p) (simp_all add: set_fields)

lemma B2_set:
  "B2LIMIT (set_block a n s) = B2LIMIT s" "B2LIMIT (set_magic a m s) = B2LIMIT s" "B2NB (set_magic a m s) = B2NB s"
  "B2NB (set_block a n s) x = (if x = a then a + n else B2NB s x)"
  by (simp_all add: B2LIMIT_def B2NB_def set_fields fun_eq_iff)

lemma arena_at: "arenas_ok s B ls E \<Longrightarrow> b \<in> B \<Longrightarrow> \<exists>l. l \<in> set ls \<and> l < b \<and> B2NB s b \<le> B2LIMIT s l"
  unfolding arenas_ok_def by blast

lemma arenas_okI:
  assumes "arenas_ok s B ls E" "p_chain u = p_chain s" "B2LIMIT u = B2LIMIT s"
    and "\<And>l. l \<in> set ls \<Longrightarrow> bh_link (hdrs u l) = bh_link (hdrs s l) \<and> size_of u l = size_of s l"
    and "\<And>b. b \<in> B' \<Longrightarrow> \<exists>l \<in> set ls. l < b \<and> B2NB u b \<le> B2LIMIT s l"
  shows "arenas_ok u B' ls E"
  using assms chain_of_cong [of s "p_chain s" ls u] unfolding arenas_ok_def by simp

lemma pool_join:
  assumes ok: "pool_ok s B ls E F lim" and x: "x \<in> B" "x \<in> lim" and y: "y \<in> B" "y \<in> lim" "y = B2NB s x"
    and gc: "gc_ptr s \<noteq> Some y"
  shows "pool_ok (set_block x (size_of s x + size_of s y) (set_magic y 0 s)) (B - {y}) ls E F (lim - {y})"
    (is "pool_ok ?u _ _ _ _ _")
proof -
  note D = pool_okD [OF ok] and LD = layoutD [OF pool_okD(1) [OF ok]]
  have xy: "x \<noteq> y" "x < y" using y(3) LD(7) [of x] x(1) by (auto simp: B2NB_def)
  have xF: "x \<notin> F" "y \<notin> F" using D(6) x(2) y(2) by auto
  have yL: "y \<notin> set ls" "x \<notin> set ls" "y \<notin> E" using LD(2,3) x(1) y(1) by blast+
  have sz: "size_of ?u = (size_of s)(x := size_of s x + size_of s y)" by (simp add: set_fields fun_eq_iff)
  have tg: "tails ?u = (tails s)(x + (size_of s x + size_of s y) := Some x)" by (simp add: set_fields)
  have "B2NB s y = x + (size_of s x + size_of s y)" using y(3) by (simp add: B2NB_def)
  then have nb: "B2NB ?u z = (if z = x then B2NB s y else B2NB s z)" for z by (simp add: B2_set)
  have end_le: "B2NB s y \<le> B2LIMIT s l" if l: "l \<in> set ls" "l < x" "B2NB s x \<le> B2LIMIT s l" for l
  proof -
    have e: "B2LIMIT s l \<in> E" using D(2) l(1) by (simp add: arenas_ok_def)
    then have "y < B2LIMIT s l" using l(3) y(3) yL(3) by (cases "y = B2LIMIT s l") auto
    then show ?thesis using LD(10) [of y "B2LIMIT s l"] y(1) e by (auto simp: B2NB_def)
  qed
  show ?thesis
  proof (rule pool_okI)
    show "layout (size_of ?u) (tails ?u) (B - {y}) (set ls) E"
      unfolding sz tg by (rule layout_merge [OF D(1) x(1) y(1)]) (simp add: y(3) B2NB_def)
    have arena: "\<exists>l \<in> set ls. l < b \<and> B2NB ?u b \<le> B2LIMIT s l" if b: "b \<in> B - {y}" for b
    proof -
      obtain l where l: "l \<in> set ls" "l < b" "B2NB s b \<le> B2LIMIT s l" using arena_at [OF D(2), of b] b by blast
      then show ?thesis using end_le [of l] by (intro bexI [of _ l]) (auto simp: nb)
    qed
    show "arenas_ok ?u (B - {y}) ls E"
      by (rule arenas_okI [OF D(2) _ _ _ arena]) (use yL(2) in \<open>auto simp: B2_set set_fields\<close>)
    show "config_ok ?u" using D(3) by (simp add: set_fields)
    show "free_set ?u F" by (intro free_set_block free_set_magic D(4) xF(1))
    show "F \<subseteq> B - {y}" "F \<inter> (lim - {y}) = {}" using D(5,6) xF by auto
    show "bh_magic (hdrs ?u b) \<in> (if b \<in> F then {MAGIC_F} else {MAGIC_A, MAGIC_I})"
      if "b \<in> B - {y}" "b \<notin> lim - {y}" for b using D(7) [of b] that by (simp add: set_fields)
    show "bh_magic (hdrs ?u b) = MAGIC_E" if "b \<in> set ls \<union> E" "b \<notin> lim - {y}" for b
      using D(8) [of b] that yL by (auto simp: set_fields)
    show "B2NB ?u b \<notin> F" if "b \<in> F" for b using D(9) [OF that] that xF(1) by (auto simp: nb)
    have "B - {y} - F - (lim - {y}) = B - F - lim" using y(2) by auto
    moreover have "sum (size_of ?u) (B - F - lim) = sum (size_of s) (B - F - lim)"
      using x(2) by (intro sum.cong) (auto simp: set_fields)
    ultimately show "p_cursize ?u = of_nat (sum (size_of ?u) (B - {y} - F - (lim - {y})))"
      using D(10) by (simp only: set_fields)
    have "sum (size_of ?u) (B - {y}) = sum (size_of ?u) (B - {y} - {x}) + (size_of s x + size_of s y)"
      using sum.remove [of "B - {y}" x "size_of ?u"] LD(1) x(1) xy(1) by (simp add: set_fields)
    also have "sum (size_of ?u) (B - {y} - {x}) = sum (size_of s) (B - {y} - {x})"
      by (intro sum.cong) (auto simp: set_fields)
    also have "sum (size_of s) (B - {y} - {x}) + (size_of s x + size_of s y) = sum (size_of s) B"
      using sum.remove [of B y "size_of s"] sum.remove [of "B - {y}" x "size_of s"] LD(1) x(1) y(1) xy(1) by simp
    finally show "sum (size_of ?u) (B - {y}) \<le> p_arenasize ?u" using D(11) by (simp add: set_fields)
    show "p \<in> B - {y} \<union> set ls \<union> E" if "gc_ptr ?u = Some p" for p
      using D(12) [of p] that gc by (auto simp: set_fields)
  qed
qed

lemma pool_split:
  assumes ok: "pool_ok s B ls E F lim" and q: "q \<in> B" "q \<in> lim" "size_of s q = n + m" "64 dvd n" "64 dvd m" "0 < n" "0 < m"
  shows "pool_ok (set_block (q + n) m (set_block q n s)) (insert (q + n) B) ls E F (insert (q + n) lim)"
    (is "pool_ok ?u _ _ _ _ _") and "q + n \<notin> B \<union> set ls \<union> E"
proof -
  note D = pool_okD [OF ok] and LD = layoutD [OF pool_okD(1) [OF ok]]
  show new: "q + n \<notin> B \<union> set ls \<union> E" using LD(10) [of q "q + n"] q by auto
  have qF: "q \<notin> F" "q + n \<notin> F" using D(5,6) q(2) new by auto
  have qL: "q \<notin> set ls" using LD(2) q(1) by blast
  have sz: "size_of ?u = (size_of s)(q := n, q + n := m)" by (auto simp: set_fields fun_eq_iff)
  have tg: "tails ?u = (tails s)(q + n := Some q, q + n + m := Some (q + n))" by (simp add: set_fields)
  have "B2NB s q = q + n + m" using q(3) by (simp add: B2NB_def)
  then have nb: "B2NB ?u z = (if z = q + n then B2NB s q else if z = q then q + n else B2NB s z)" for z
    by (auto simp: B2_set)
  show "pool_ok ?u (insert (q + n) B) ls E F (insert (q + n) lim)"
  proof (rule pool_okI)
    show "layout (size_of ?u) (tails ?u) (insert (q + n) B) (set ls) E"
      unfolding sz tg by (rule layout_split [OF D(1) q(1,3-7)])
    have arena: "\<exists>l \<in> set ls. l < b \<and> B2NB ?u b \<le> B2LIMIT s l" if b: "b \<in> insert (q + n) B" for b
    proof (cases "b = q \<or> b = q + n")
      case True
      obtain l where l: "l \<in> set ls" "l < q" "B2NB s q \<le> B2LIMIT s l" using arena_at [OF D(2) q(1)] by blast
      moreover have "q + n \<le> B2NB s q" using q(3) by (simp add: B2NB_def)
      ultimately show ?thesis using True by (intro bexI [of _ l]) (auto simp: nb)
    next
      case False
      then obtain l where "l \<in> set ls" "l < b" "B2NB s b \<le> B2LIMIT s l" using arena_at [OF D(2)] b by blast
      then show ?thesis using False by (intro bexI [of _ l]) (auto simp: nb)
    qed
    show "arenas_ok ?u (insert (q + n) B) ls E"
      by (rule arenas_okI [OF D(2) _ _ _ arena]) (use qL new in \<open>auto simp: B2_set set_fields\<close>)
    show "config_ok ?u" using D(3) by (simp add: set_fields)
    show "free_set ?u F" by (intro free_set_block D(4) qF)
    show "F \<subseteq> insert (q + n) B" "F \<inter> insert (q + n) lim = {}" using D(5,6) qF by auto
    show "bh_magic (hdrs ?u b) \<in> (if b \<in> F then {MAGIC_F} else {MAGIC_A, MAGIC_I})"
      if "b \<in> insert (q + n) B" "b \<notin> insert (q + n) lim" for b using D(7) [of b] that by (auto simp: set_fields)
    show "bh_magic (hdrs ?u b) = MAGIC_E" if "b \<in> set ls \<union> E" "b \<notin> insert (q + n) lim" for b
      using D(8) [of b] that by (auto simp: set_fields)
    show "B2NB ?u b \<notin> F" if "b \<in> F" for b using D(9) [OF that] that qF by (auto simp: nb)
    have "insert (q + n) B - F - insert (q + n) lim = B - F - lim" using new by auto
    moreover have "sum (size_of ?u) (B - F - lim) = sum (size_of s) (B - F - lim)"
      using q(2) new by (intro sum.cong) (auto simp: set_fields)
    ultimately show "p_cursize ?u = of_nat (sum (size_of ?u) (insert (q + n) B - F - insert (q + n) lim))"
      using D(10) by (simp only: set_fields)
    have "sum (size_of ?u) (insert (q + n) B) = m + (n + sum (size_of ?u) (B - {q}))"
      using sum.remove [of B q "size_of ?u"] LD(1) q(1,6) new by (simp add: set_fields)
    also have "sum (size_of ?u) (B - {q}) = sum (size_of s) (B - {q})"
      using new by (intro sum.cong) (auto simp: set_fields)
    also have "m + (n + sum (size_of s) (B - {q})) = sum (size_of s) B"
      using sum.remove [of B q "size_of s"] LD(1) q(1,3) by simp
    finally show "sum (size_of ?u) (insert (q + n) B) \<le> p_arenasize ?u" using D(11) by (simp add: set_fields)
    show "p \<in> insert (q + n) B \<union> set ls \<union> E" if "gc_ptr ?u = Some p" for p
      using D(12) [of p] that by (auto simp: set_fields)
  qed
qed

end
