(* ===== verification/PoolRelease.thy ===== *)
theory PoolRelease
  imports PoolOps
begin

text \<open>\<open>poolfree\<close> on the invariant: the block and its free neighbours become one free block.\<close>

section \<open>What the operations keep\<close>

text \<open>The blocks of \<open>X\<close> with their sizes and kinds, the clients' bytes, and the configuration.\<close>

definition kept :: "baddr set \<Rightarrow> pool \<Rightarrow> pool \<Rightarrow> bool" where
  "kept X s u \<longleftrightarrow> (\<forall>x \<in> X. size_of u x = size_of s x \<and> bh_magic (hdrs u x) = bh_magic (hdrs s x))
     \<and> p_data u = p_data s \<and> p_brks u = p_brks s \<and> p_ressize u = p_ressize s \<and> p_maxsize u = p_maxsize s
     \<and> p_chunk u = p_chunk s \<and> p_arenasize u = p_arenasize s \<and> p_chain u = p_chain s
     \<and> p_nfree u = p_nfree s \<and> p_nalloc u = p_nalloc s
     \<and> (\<forall>x. bh_csize (hdrs u x) = bh_csize (hdrs s x))"

lemma kept_refl [simp]: "kept X s s"
  by (simp add: kept_def)

lemma kept_trans: "kept X s t \<Longrightarrow> kept X t u \<Longrightarrow> kept X s u"
  by (simp add: kept_def)

lemma kept_mono: "kept X s t \<Longrightarrow> Y \<subseteq> X \<Longrightarrow> kept Y s t"
  by (auto simp: kept_def)

lemma links_only_kept: "links_only s u \<Longrightarrow> kept X s u"
  by (cases s; cases u) (auto simp: links_only_def kept_def)

lemma kept_magic: "a \<notin> X \<Longrightarrow> kept X s (set_magic a m s)"
  by (auto simp: kept_def set_magic_def upd_h_def)

lemma kept_block: "a \<notin> X \<Longrightarrow> kept X s (set_block a n s)"
  by (auto simp: kept_def set_block_def Let_def upd_h_def)

lemma kept_gc: "kept X s (s\<lparr>gc_ptr := p\<rparr>)"
  by (simp add: kept_def)

lemma frees_kept: "frees q s u \<Longrightarrow> q \<notin> X \<Longrightarrow> kept X s u"
  using kept_trans [OF kept_magic links_only_kept] by (simp add: frees_def)

lemma B2LIMIT_kept: "kept X s u \<Longrightarrow> B2LIMIT u = B2LIMIT s"
  by (simp add: kept_def B2LIMIT_def fun_eq_iff)

lemma pool_gc:
  assumes ok: "pool_ok s B ls E F lim" and b: "b \<in> B"
  shows "pool_ok (s\<lparr>gc_ptr := Some b\<rparr>) B ls E F lim"
proof -
  note D = pool_okD [OF ok]
  have sl: "same_layout s (s\<lparr>gc_ptr := Some b\<rparr>)" by (simp add: same_layout_def)
  show ?thesis
    by (rule pool_ok_same [OF ok sl free_set_hdrs [OF D(4)] D(5,6)]) (use D(7-10) b in simp_all)
qed

lemma magic_free:
  assumes "pool_ok s B ls E F lim" "c \<in> B \<union> set ls \<union> E" "c \<notin> lim"
  shows "bh_magic (hdrs s c) = MAGIC_F \<longleftrightarrow> c \<in> F"
proof (cases "c \<in> B")
  case True
  then show ?thesis using pool_okD(7) [OF assms(1) True assms(3)] by (auto split: if_splits)
next
  case False
  then have "bh_magic (hdrs s c) = MAGIC_E" using pool_okD(8) [OF assms(1) _ assms(3)] assms(2) by blast
  then show ?thesis using False pool_okD(5) [OF assms(1)] by auto
qed

section \<open>Joining\<close>

definition join_forward :: "baddr \<Rightarrow> pool \<Rightarrow> pfault + pool" where
  "join_forward b s = (let c = B2NB s b in
     if bh_magic (hdrs s c) = MAGIC_F then
       (let s = (if gc_ptr s = Some c then s\<lparr>gc_ptr := Some b\<rparr> else s)
        in rbind (pooldel c s) (\<lambda>s.
           let s = set_magic c 0 s in Inr (set_block b (bh_size (hdrs s b) + bh_size (hdrs s c)) s)))
     else Inr s)"

definition join_back :: "baddr \<Rightarrow> pool \<Rightarrow> pfault + baddr \<times> pool" where
  "join_back b s = rbind (nonnil (tails s b)) (\<lambda>c.
     if bh_magic (hdrs s c) = MAGIC_F then
       (let s = (if gc_ptr s = Some b then s\<lparr>gc_ptr := Some c\<rparr> else s)
        in rbind (pooldel c s) (\<lambda>s.
           let s = set_magic b 0 s in Inr (c, set_block c (bh_size (hdrs s c) + bh_size (hdrs s b)) s)))
     else Inr (b, s))"

lemma poolfree_steps:
  "poolfree v s = rbind (D2B v s) (\<lambda>b.
     rbind (join_forward b (s\<lparr>p_nfree := p_nfree s + 1, p_cursize := p_cursize s - of_nat (bh_size (hdrs s b))\<rparr>))
       (\<lambda>s. rbind (join_back b s) (\<lambda>(b, s). pooladd b s)))"
  by (simp add: poolfree_def join_forward_def join_back_def Let_def B2NB_def rbind_assoc cong: if_cong)

text \<open>The free block \<open>c\<close> leaves the tree and one of two neighbours takes over the other's memory.\<close>

lemma join_step:
  assumes ok: "pool_ok s B ls E F {b}" and b: "b \<in> B" and c: "c \<in> F"
    and xy: "x = b \<and> y = c \<or> x = c \<and> y = b" "y = B2NB s x"
    and gc: "t = (if gc_ptr s = Some y then s\<lparr>gc_ptr := Some x\<rparr> else s)"
  shows "\<exists>u w. pooldel c t = Inr w \<and> u = set_block x (size_of w x + size_of w y) (set_magic y 0 w)
      \<and> pool_ok u (B - {y}) ls E (F - {c}) {x}
      \<and> kept (B - F - {b}) s u \<and> size_of u x = size_of s x + size_of s y
      \<and> (\<forall>z. z \<noteq> x \<longrightarrow> B2NB u z = B2NB s z) \<and> B2NB u x = B2NB s y"
proof -
  have cB: "c \<in> B" "c \<noteq> b" using pool_okD(5,6) [OF ok] c by auto
  have okt: "pool_ok t B ls E F {b}" using pool_gc [OF ok, of x] ok xy(1) b cB(1) by (auto simp: gc)
  obtain w where w: "pooldel c t = Inr w" "pool_ok w B ls E (F - {c}) {c, b}" "links_only t w"
    using pool_del [OF okt c] by auto
  let ?u = "set_block x (size_of w x + size_of w y) (set_magic y 0 w)"
  have hd: "hdrs t = hdrs s" by (simp add: gc)
  have sz: "size_of w z = size_of s z" for z using same_layoutD(1) [OF same_layout_links [OF w(3)]] hd by simp
  have nb: "B2NB w z = B2NB s z" for z by (simp add: B2NB_def sz)
  have gcw: "gc_ptr w \<noteq> Some y" using links_only_fields(3) [OF w(3)] gc xy(1) cB(2) by auto
  have xyB: "x \<in> B" "y \<in> B" "x \<in> {c, b}" "y \<in> {c, b}" "x \<noteq> y" using xy(1) b cB by auto
  have "pool_ok ?u (B - {y}) ls E (F - {c}) ({c, b} - {y})"
    by (rule pool_join [OF w(2) xyB(1,3,2,4) _ gcw]) (simp add: nb xy(2))
  moreover have "{c, b} - {y} = {x}" using xy(1) cB(2) by auto
  ultimately have oku: "pool_ok ?u (B - {y}) ls E (F - {c}) {x}" by simp
  have n: "x \<notin> B - F - {b}" "y \<notin> B - F - {b}" using xy(1) c by auto
  have "kept (B - F - {b}) s t" using kept_gc by (simp add: gc)
  then have k: "kept (B - F - {b}) s ?u"
    by (rule kept_trans [OF _ kept_trans [OF links_only_kept [OF w(3)] kept_trans [OF kept_magic [OF n(2)] kept_block [OF n(1)]]]])
  have "size_of ?u x = size_of s x + size_of s y" by (simp add: set_fields sz)
  moreover have "B2NB ?u z = B2NB s z" if "z \<noteq> x" for z using that by (simp add: B2_set nb)
  moreover have "B2NB s y = x + (size_of s x + size_of s y)" using xy(2) by (simp add: B2NB_def)
  then have "B2NB ?u x = B2NB s y" by (simp add: B2_set sz)
  ultimately show ?thesis using w(1) oku k by blast
qed

lemma forward_ok:
  assumes ok: "pool_ok s B ls E F {b}" and b: "b \<in> B"
  shows "\<exists>u B' F'. join_forward b s = Inr u \<and> pool_ok u B' ls E F' {b} \<and> b \<in> B' \<and> B2NB u b \<notin> F'
    \<and> B' - F' = B - F \<and> kept (B - F - {b}) s u \<and> size_of s b \<le> size_of u b"
proof -
  let ?c = "B2NB s b"
  have c: "?c \<in> B \<union> set ls \<union> E" "?c \<noteq> b"
    using layoutD(7,9) [OF pool_okD(1) [OF ok], of b] b by (auto simp: B2NB_def)
  have bF: "b \<notin> F" using pool_okD(6) [OF ok] by simp
  show ?thesis
  proof (cases "?c \<in> F")
    case False
    then have "join_forward b s = Inr s"
      using magic_free [OF ok c(1)] c(2) by (simp add: join_forward_def Let_def)
    then show ?thesis using ok b False by (intro exI [of _ s] exI [of _ B] exI [of _ F]) simp
  next
    case True
    obtain u w where u: "pooldel ?c (if gc_ptr s = Some ?c then s\<lparr>gc_ptr := Some b\<rparr> else s) = Inr w"
      "u = set_block b (size_of w b + size_of w ?c) (set_magic ?c 0 w)"
      "pool_ok u (B - {?c}) ls E (F - {?c}) {b}" "kept (B - F - {b}) s u" "size_of u b = size_of s b + size_of s ?c"
      "B2NB u b = B2NB s ?c"
      using join_step [OF ok b True disjI1 [OF conjI [OF refl refl]] refl refl] by blast
    have m: "bh_magic (hdrs s ?c) = MAGIC_F" using magic_free [OF ok c(1)] c(2) True by simp
    have "join_forward b s = Inr u"
      using u(1,2) m by (simp add: join_forward_def Let_def set_fields)
    moreover have "B - {?c} - (F - {?c}) = B - F" using True by auto
    moreover have "B2NB u b \<notin> F - {?c}" using pool_okD(9) [OF ok True] u(6) by simp
    ultimately show ?thesis using u(3-5) b c(2)
      by (intro exI [of _ u] exI [of _ "B - {?c}"] exI [of _ "F - {?c}"]) simp
  qed
qed

lemma back_ok:
  assumes ok: "pool_ok s B ls E F {b}" and b: "b \<in> B" "B2NB s b \<notin> F"
  shows "\<exists>u B' F' x. join_back b s = Inr (x, u) \<and> pool_ok u B' ls E F' {x} \<and> x \<in> B' \<and> B2NB u x \<notin> F'
    \<and> (\<forall>d \<in> F'. B2NB u d \<noteq> x) \<and> B' - F' - {x} = B - F - {b} \<and> kept (B - F - {b}) s u
    \<and> x \<le> b \<and> b + size_of s b \<le> x + size_of u x"
proof -
  note LD = layoutD [OF pool_okD(1) [OF ok]]
  obtain c where c: "c \<in> B \<union> set ls" "c + size_of s c = b" "tails s b = Some c"
    using layout_pred [OF pool_okD(1) [OF ok], of b] b(1) by auto
  have cb: "c \<noteq> b" using c(2) LD(7) [OF c(1)] by auto
  have bF: "b \<notin> F" using pool_okD(6) [OF ok] by simp
  have m: "bh_magic (hdrs s c) = MAGIC_F \<longleftrightarrow> c \<in> F" using magic_free [OF ok _, of c] c(1) cb by blast
  show ?thesis
  proof (cases "c \<in> F")
    case False
    then have e: "join_back b s = Inr (b, s)" using m c(3) by (simp add: join_back_def)
    have "B2NB s d \<noteq> b" if d: "d \<in> F" for d
    proof
      assume "B2NB s d = b"
      then have "d = c" using layout_inj [OF pool_okD(1) [OF ok], of d c] c(1,2) d pool_okD(5) [OF ok]
        by (auto simp: B2NB_def)
      then show False using d False by simp
    qed
    then show ?thesis using e ok b by (intro exI [of _ s] exI [of _ B] exI [of _ F] exI [of _ b]) simp
  next
    case True
    have bn: "b = B2NB s c" using c(2) by (simp add: B2NB_def)
    obtain u w where u: "pooldel c (if gc_ptr s = Some b then s\<lparr>gc_ptr := Some c\<rparr> else s) = Inr w"
      "u = set_block c (size_of w c + size_of w b) (set_magic b 0 w)"
      "pool_ok u (B - {b}) ls E (F - {c}) {c}" "kept (B - F - {b}) s u" "size_of u c = size_of s c + size_of s b"
      "\<forall>z. z \<noteq> c \<longrightarrow> B2NB u z = B2NB s z" "B2NB u c = B2NB s b"
      using join_step [OF ok b(1) True disjI2 [OF conjI [OF refl refl]] bn refl] by blast
    have e: "join_back b s = Inr (c, u)"
      using u(1,2) m True c(3) by (simp add: join_back_def Let_def set_fields)
    have B: "B - {b} - (F - {c}) - {c} = B - F - {b}" "c \<in> B - {b}" using True cb pool_okD(5) [OF ok] by auto
    have nx: "B2NB u c \<notin> F - {c}" unfolding u(7) using b(2) by simp
    have pr: "\<forall>d \<in> F - {c}. B2NB u d \<noteq> c"
    proof
      fix d assume d: "d \<in> F - {c}"
      then have "B2NB u d = B2NB s d" using u(6) by blast
      moreover have "B2NB s d \<notin> F" using pool_okD(9) [OF ok, of d] d by blast
      ultimately show "B2NB u d \<noteq> c" using True by metis
    qed
    have le: "c \<le> b" "b + size_of s b \<le> c + size_of u c" unfolding u(5) c(2) [symmetric] by simp_all
    show ?thesis by (intro exI conjI) (rule e u(3) B(2) nx pr B(1) u(4) le)+
  qed
qed

section \<open>poolfree\<close>

lemma poolfree_ok:
  assumes ok: "pool_ok s B ls E F {}" and b: "b \<in> B" "b \<notin> F"
  shows "\<exists>u B' F' x. poolfree (B2D b) s = Inr u \<and> pool_ok u B' ls E F' {} \<and> B' - F' = B - F - {b}
    \<and> kept (B - F - {b}) (s\<lparr>p_nfree := p_nfree s + 1\<rparr>) u \<and> x \<in> F' \<and> x \<le> b \<and> b + size_of s b \<le> x + size_of u x"
proof -
  let ?s = "s\<lparr>p_nfree := p_nfree s + 1, p_cursize := p_cursize s - of_nat (size_of s b)\<rparr>"
  have m: "bh_magic (hdrs s b) \<in> {MAGIC_A, MAGIC_I}" using pool_okD(7) [OF ok b(1)] b(2) by simp
  have sl: "same_layout s ?s" by (simp add: same_layout_def)
  have ok0: "pool_ok ?s B ls E F {b}"
    using pool_uncharge [OF ok b(1) _ b(2) _ _ sl] by simp
  obtain u1 B1 F1 where 1: "join_forward b ?s = Inr u1" "pool_ok u1 B1 ls E F1 {b}" "b \<in> B1" "B2NB u1 b \<notin> F1"
    "B1 - F1 = B - F" "kept (B - F - {b}) ?s u1" "size_of s b \<le> size_of u1 b"
    using forward_ok [OF ok0 b(1)] by auto
  obtain u2 B2 F2 x where 2: "join_back b u1 = Inr (x, u2)" "pool_ok u2 B2 ls E F2 {x}" "x \<in> B2" "B2NB u2 x \<notin> F2"
    "\<forall>d \<in> F2. B2NB u2 d \<noteq> x" "B2 - F2 - {x} = B1 - F1 - {b}" "kept (B1 - F1 - {b}) u1 u2"
    "x \<le> b" "b + size_of u1 b \<le> x + size_of u2 x"
    using back_ok [OF 1(2-4)] by (elim exE conjE) (rule that)
  obtain u where u: "pooladd x u2 = Inr u" "pool_ok u B2 ls E (insert x F2) ({x} - {x})" "frees x u2 u"
    using pool_add [OF 2(2,3) insertI1 2(4)] 2(5) by blast
  have "D2B (B2D b) s = Inr b" using m by (auto simp: D2B_def B2D_def)
  then have e: "poolfree (B2D b) s = Inr u" using 1(1) 2(1) u(1) by (simp add: poolfree_steps)
  have B: "B2 - insert x F2 = B - F - {b}" using 2(6) 1(5) by auto
  have "x \<notin> B - F - {b}" using B by blast
  then have "kept (B - F - {b}) ?s u"
    using kept_trans [OF 1(6) kept_trans [OF 2(7) [unfolded 1(5)] frees_kept [OF u(3)]]] by blast
  then have k: "kept (B - F - {b}) (s\<lparr>p_nfree := p_nfree s + 1\<rparr>) u" by (simp add: kept_def)
  have "size_of u x = size_of u2 x" using frees_size [OF u(3)] by (rule fun_cong)
  then have sz: "b + size_of s b \<le> x + size_of u x" using 1(7) 2(9) by simp
  have oku: "pool_ok u B2 ls E (insert x F2) {}" using u(2) by simp
  show ?thesis by (intro exI conjI) (rule e oku B k insertI1 2(8) sz)+
qed

end
