(* ===== verification/PoolRound.thy ===== *)
theory PoolRound
  imports PoolRelease
begin

text \<open>The roundings of the allocator: blocks to 64 bytes, addresses to 8, arenas to the limit.\<close>

lemma and_not_int:
  fixes a :: int
  shows "a AND NOT 63 = a - a mod 64" "a AND NOT 7 = a - a mod 8"
proof -
  have e: "a AND NOT (mask n) = a - take_bit n a" for n
  proof -
    have "a - (a AND mask n) = a AND NOT (a AND mask n)"
      by (rule disjunctive_diff_eq_and_not) (auto intro: bit_eqI simp: bit_simps)
    also have "\<dots> = a AND NOT (mask n)" by (rule bit_eqI) (auto simp: bit_simps)
    finally show ?thesis by (simp add: take_bit_eq_mask)
  qed
  have "(63 :: int) = mask 6" "(7 :: int) = mask 3" by (simp_all add: mask_eq_exp_minus_1)
  then show "a AND NOT 63 = a - a mod 64" "a AND NOT 7 = a - a mod 8"
    using e [of 6] e [of 3] by (simp_all add: take_bit_eq_mod)
qed

lemma pool_round: "pool_round 63 n = (n + 87) div 64 * 64"
proof -
  have a: "int n + int BHDRSIZE + int 63 = int (n + 87)" by (simp add: BHDRSIZE_def DATA_def BTAIL_def)
  have "int (n + 87) - int (n + 87) mod 64 = int ((n + 87) div 64 * 64)"
    by (metis minus_mod_eq_div_mult of_nat_numeral zdiv_int of_nat_mult)
  then show ?thesis unfolding pool_round_def a using and_not_int(1) [of "int (n + 87)"] by simp
qed

lemma pool_round_bounds: "64 dvd pool_round 63 n" "n + 24 \<le> pool_round 63 n" "pool_round 63 n \<le> n + 87" "0 < pool_round 63 n"
  using pool_round [of n] by auto

lemma align8: "align8 t = (t + 7) div 8 * 8"
proof -
  have "int (t + 7) - int (t + 7) mod 8 = int ((t + 7) div 8 * 8)"
    by (metis minus_mod_eq_div_mult of_nat_numeral zdiv_int of_nat_mult)
  then show ?thesis unfolding align8_def using and_not_int(2) [of "int t + 7"] by simp
qed

lemma align8_bounds: "8 dvd align8 t" "t \<le> align8 t" "align8 t \<le> t + 7"
  using align8 [of t] by auto

lemma int32_eq: "- (2 ^ 31) \<le> x \<Longrightarrow> x < 2 ^ 31 \<Longrightarrow> int32 x = x"
  by (simp add: int32_def signed_take_bit_int_eq_self)

lemma to_ulong_eq: "0 \<le> x \<Longrightarrow> x < 2 ^ 64 \<Longrightarrow> to_ulong x = nat x"
  by (simp add: to_ulong_def)

lemma arena_bytes_fits:
  assumes c: "config_ok s" and n: "arena_bytes sz s = Some ns" "64 dvd sz" "0 < sz"
  shows "64 dvd ns" "sz \<le> ns" "p_arenasize s + (ns + 128) \<le> p_maxsize s"
proof -
  note q = c [unfolded config_ok_def]
  let ?n = "if sz > p_chunk s then sz else p_chunk s"
  have "64 dvd ns \<and> sz \<le> ns \<and> p_arenasize s + (ns + 128) \<le> p_maxsize s"
  proof (cases "p_arenasize s + (?n + 128) > p_maxsize s")
    case False
    then have "ns = ?n" using n(1) q by (auto simp: arena_bytes_def Let_def split: if_splits)
    then show ?thesis using False n(2) q by auto
  next
    case True
    let ?d = "int (p_maxsize s) - int (p_arenasize s) - 64 - 64"
    have "int32 ?d = ?d" using q by (intro int32_eq) auto
    then have "int sz \<le> ?d - ?d mod 64" "ns = nat (?d - ?d mod 64)"
      using n(1) True q and_not_int(1) [of ?d]
      by (auto simp: arena_bytes_def Let_def split: if_splits)
    moreover have "64 dvd nat (?d - ?d mod 64)"
      using dvd_minus_mod [of 64 ?d] by (metis dvd_nat_abs_iff int_nat_eq nat_dvd_iff of_nat_numeral dvd_0_right int_dvd_int_iff)
    moreover have "?d - ?d mod 64 \<le> ?d" by simp
    ultimately show ?thesis using n(3) by (auto simp: nat_le_iff)
  qed
  then show "64 dvd ns" "sz \<le> ns" "p_arenasize s + (ns + 128) \<le> p_maxsize s" by auto
qed

end
