(* ===== verification/PoolTake.thy ===== *)
theory PoolTake
  imports PoolRound
begin

text \<open>Allocation from the tree of free blocks: an exact fit, or the best fit, perhaps split.\<close>

section \<open>What an allocation grants\<close>

text \<open>
  \<open>keeps X s u\<close>: to the clients of the blocks \<open>X\<close> nothing has happened.  \<open>granted n s B F b u\<close>: the
  new block \<open>b\<close> of at least \<open>n\<close> bytes, and less than a quarter more.
\<close>

definition keeps :: "baddr set \<Rightarrow> pool \<Rightarrow> pool \<Rightarrow> bool" where
  "keeps X s u \<longleftrightarrow> (\<forall>x \<in> X. size_of u x = size_of s x \<and> bh_magic (hdrs u x) = bh_magic (hdrs s x))
     \<and> p_data u = p_data s \<and> p_ressize u = p_ressize s \<and> p_maxsize u = p_maxsize s"

lemma keeps_refl [simp]: "keeps X s s"
  by (simp add: keeps_def)

lemma keeps_trans: "keeps X s t \<Longrightarrow> keeps X t u \<Longrightarrow> keeps X s u"
  by (simp add: keeps_def)

lemma keeps_mono: "keeps X s t \<Longrightarrow> Y \<subseteq> X \<Longrightarrow> keeps Y s t"
  by (auto simp: keeps_def)

lemma kept_keeps: "kept X s u \<Longrightarrow> keeps X s u"
  by (simp add: kept_def keeps_def)

lemma charge_keeps: "keeps X s (charge t s)"
  by (simp add: keeps_def charge_def Let_def)

lemma keeps_magic: "a \<notin> X \<Longrightarrow> keeps X s (set_magic a m s)"
  using kept_magic kept_keeps by blast

lemma keeps_block: "a \<notin> X \<Longrightarrow> keeps X s (set_block a n s)"
  using kept_block kept_keeps by blast

definition granted :: "nat \<Rightarrow> pool \<Rightarrow> baddr set \<Rightarrow> baddr \<Rightarrow> pool \<Rightarrow> bool" where
  "granted n s A b u \<longleftrightarrow> (\<exists>B' ls' E' F'. pool_ok u B' ls' E' F' {} \<and> b \<notin> A \<and> B' - F' = insert b A \<and> keeps A s u
     \<and> bh_magic (hdrs u b) = MAGIC_A \<and> n \<le> size_of u b
     \<and> (size_of u b = n \<or> size_of u b < n + n div 4 \<and> size_of u b < n + 0x8000))"

lemma grantedI:
  assumes "pool_ok u B' ls' E' F' {}" "b \<notin> A" "B' - F' = insert b A" "keeps A s u" "bh_magic (hdrs u b) = MAGIC_A"
    "n \<le> size_of u b" "size_of u b = n \<or> size_of u b < n + n div 4 \<and> size_of u b < n + 0x8000"
  shows "granted n s A b u"
  unfolding granted_def by (intro exI conjI) (rule assms)+

lemma granted_keeps: "keeps A s t \<Longrightarrow> granted n t A b u \<Longrightarrow> granted n s A b u"
  unfolding granted_def using keeps_trans by blast

section \<open>Taking a block out of the tree\<close>

lemma take_ok:
  assumes ok: "pool_ok s B ls E F {}" and t: "t \<in> F"
  shows "\<exists>u. pooldel t s = Inr u \<and> pool_ok (set_magic t MAGIC_A u) B ls E (F - {t}) {t}
     \<and> kept (B - F) s (set_magic t MAGIC_A u) \<and> (\<forall>x. size_of u x = size_of s x)"
proof -
  obtain u where u: "pooldel t s = Inr u" "pool_ok u B ls E (F - {t}) {t}" "links_only s u"
    using pool_del [OF ok t] by blast
  have tF: "t \<notin> F - {t}" "t \<notin> B - F" "t \<in> {t} \<or> t \<notin> B \<union> set ls \<union> E" using t by auto
  have "kept (B - F) s (set_magic t MAGIC_A u)"
    by (rule kept_trans [OF links_only_kept [OF u(3)] kept_magic [OF tF(2)]])
  moreover have "\<forall>x. size_of u x = size_of s x" using same_layoutD(1) [OF same_layout_links [OF u(3)]] by blast
  ultimately show ?thesis using u(1) pool_magic [OF u(2) tF(3,1)] by blast
qed

lemma take_whole:
  assumes ok: "pool_ok s B ls E F {}" and t: "t \<in> F"
    and n: "n \<le> size_of s t" "size_of s t = n \<or> size_of s t < n + n div 4 \<and> size_of s t < n + 0x8000"
  shows "\<exists>u. pooldel t s = Inr u \<and> size_of u t = size_of s t
    \<and> granted n s (B - F) t (charge t (set_magic t MAGIC_A u))"
proof -
  obtain u where u: "pooldel t s = Inr u" "pool_ok (set_magic t MAGIC_A u) B ls E (F - {t}) {t}"
    "kept (B - F) s (set_magic t MAGIC_A u)" "\<forall>x. size_of u x = size_of s x"
    using take_ok [OF ok t] by blast
  let ?u = "charge t (set_magic t MAGIC_A u)"
  have tB: "t \<in> B" "t \<notin> B - F" using t pool_okD(5) [OF ok] by auto
  have m: "bh_magic (hdrs (set_magic t MAGIC_A u) t) = MAGIC_A" by (simp add: set_fields)
  have "pool_ok ?u B ls E (F - {t}) ({t} - {t})"
    by (rule pool_charge [OF u(2) tB(1)]) (simp_all add: m)
  then have oku: "pool_ok ?u B ls E (F - {t}) {}" by simp
  have "granted n s (B - F) t ?u"
  proof (rule grantedI [OF oku tB(2)])
    show "B - (F - {t}) = insert t (B - F)" using tB by auto
    show "keeps (B - F) s ?u" by (rule keeps_trans [OF kept_keeps [OF u(3)] charge_keeps])
    have "size_of ?u t = size_of s t" using u(4) by (simp add: set_fields)
    then show "n \<le> size_of ?u t" "size_of ?u t = n \<or> size_of ?u t < n + n div 4 \<and> size_of ?u t < n + 0x8000"
      using n by simp_all
  qed (simp add: m)
  then show ?thesis using u by blast
qed

text \<open>The rest of a split block goes back to the tree.\<close>

lemma split_add:
  assumes ok: "pool_ok s B ls E F lim" and q: "q \<in> B" "q \<in> lim" "size_of s q = n + m" "64 dvd n" "64 dvd m" "0 < n" "0 < m"
    and nx: "B2NB s q \<notin> F" and w: "w = set_block (q + n) m (set_block q n s)"
  shows "\<exists>u. pooladd (q + n) w = Inr u \<and> pool_ok u (insert (q + n) B) ls E (insert (q + n) F) (lim - {q + n})
    \<and> frees (q + n) w u \<and> q + n \<notin> B \<union> set ls \<union> E"
proof -
  have ok': "pool_ok w (insert (q + n) B) ls E F (insert (q + n) lim)"
    unfolding w by (rule pool_split(1) [OF ok q])
  have new: "q + n \<notin> B \<union> set ls \<union> E" by (rule pool_split(2) [OF ok q])
  have "B2NB s q = q + n + m" using q(3) by (simp add: B2NB_def)
  then have nb: "B2NB w (q + n) \<notin> F" using nx by (simp add: w B2_set)
  have pr: "B2NB w c \<noteq> q + n" if c: "c \<in> F" for c
  proof -
    have cB: "c \<in> B" "c \<noteq> q" "c \<noteq> q + n" using pool_okD(5,6) [OF ok] c q(2) new by auto
    then have "B2NB w c = B2NB s c" by (simp add: w B2_set)
    moreover have "B2NB s c \<in> B \<union> E" using layoutD(9) [OF pool_okD(1) [OF ok], of c] cB(1) by (simp add: B2NB_def)
    ultimately show ?thesis using new by auto
  qed
  obtain u where u: "pooladd (q + n) w = Inr u"
    "pool_ok u (insert (q + n) B) ls E (insert (q + n) F) (insert (q + n) lim - {q + n})" "frees (q + n) w u"
    using pool_add [OF ok' insertI1 insertI1 nb] pr by blast
  have "pool_ok u (insert (q + n) B) ls E (insert (q + n) F) (lim - {q + n})" using u(2) by simp
  then show ?thesis using u(1,3) new by blast
qed

lemma frees_fields2:
  assumes "frees q s u"
  shows "bh_magic (hdrs u x) = (if x = q then MAGIC_F else bh_magic (hdrs s x))" "size_of u x = size_of s x"
  using frees_fields(1) [OF assms] fun_cong [OF frees_size [OF assms]] by simp_all

lemma carve_ok:
  assumes ok: "pool_ok s B ls E F {}" and q: "q \<in> F" "n < size_of s q" "64 dvd n" "0 < n"
  shows "\<exists>u. carve q n s = Inr u \<and> granted n s (B - F) q u"
proof -
  have qB: "q \<in> B" "q \<notin> B - F" using pool_okD(5) [OF ok] q(1) by auto
  let ?m = "size_of s q - n"
  have lt: "size_of s q < 2 ^ 31" by (rule size_bound [OF ok qB(1)])
  have m: "int32 (int (size_of s q) - int n) = int ?m" "to_ulong (int ?m) = ?m" "size_of s q = n + ?m" "0 < ?m"
    using lt q(2) by (simp_all add: int32_eq to_ulong_eq of_nat_diff)
  have dm: "64 dvd ?m" using layoutD(6) [OF pool_okD(1) [OF ok], of q] qB(1) q(3) by (auto intro: dvd_diff_nat)
  show ?thesis
  proof (cases "int ?m < int (n div 4) \<and> int ?m < 0x8000")
    case True
    then have "size_of s q < n + n div 4 \<and> size_of s q < n + 0x8000" using m(3) by auto
    then obtain u where u: "pooldel q s = Inr u" "size_of u q = size_of s q"
      "granted n s (B - F) q (charge q (set_magic q MAGIC_A u))"
      using take_whole [OF ok q(1), of n] q(2) by auto
    then show ?thesis using True m(1) by (auto simp: carve_def Let_def set_fields)
  next
    case False
    obtain u where u: "pooldel q s = Inr u" "pool_ok (set_magic q MAGIC_A u) B ls E (F - {q}) {q}"
      "kept (B - F) s (set_magic q MAGIC_A u)" "\<forall>x. size_of u x = size_of s x"
      using take_ok [OF ok q(1)] by blast
    let ?v = "set_magic q MAGIC_A u"
    let ?w = "set_block (q + n) ?m (set_block q n ?v)"
    have sv: "size_of ?v q = n + ?m" using u(4) m(3) by (simp add: set_fields)
    have nx: "B2NB ?v q \<notin> F - {q}"
      using pool_okD(9) [OF ok q(1)] u(4) by (simp add: B2_set B2NB_def)
    obtain w where w: "pooladd (q + n) ?w = Inr w"
      "pool_ok w (insert (q + n) B) ls E (insert (q + n) (F - {q})) ({q} - {q + n})" "frees (q + n) ?w w"
      "q + n \<notin> B \<union> set ls \<union> E"
      using split_add [OF u(2) qB(1) _ sv q(3) dm q(4) m(4) nx refl] by auto
    have qn: "q \<noteq> q + n" "q + n \<notin> B - F" "{q} - {q + n} = {q}" using q(4) w(4) by auto
    have "kept (B - F) s w"
      by (rule kept_trans [OF u(3) kept_trans [OF kept_trans [OF kept_block [OF qB(2)] kept_block [OF qn(2)]] frees_kept [OF w(3) qn(2)]]])
    then have kw: "keeps (B - F) s (charge q w)" by (rule keeps_trans [OF kept_keeps charge_keeps])
    have f: "bh_magic (hdrs w q) = MAGIC_A" "size_of w q = n"
      using qn(1) frees_fields2 [OF w(3), of q] by (simp_all add: set_fields)
    have okw: "pool_ok (charge q w) (insert (q + n) B) ls E (insert (q + n) (F - {q})) {}"
      using pool_charge [OF w(2), of q] qn(3) qB(1) f(1) by simp
    have "granted n s (B - F) q (charge q w)"
    proof (rule grantedI [OF okw qB(2) _ kw])
      show "insert (q + n) B - insert (q + n) (F - {q}) = insert q (B - F)" using qB qn(1) w(4) by auto
    qed (simp_all add: f)
    moreover have "carve q n s = Inr (charge q w)"
      using u(1,4) w(1) m(1,2) False by (auto simp: carve_def Let_def set_fields B2_set)
    ultimately show ?thesis by blast
  qed
qed

section \<open>dopoolalloc, when a block fits\<close>

definition best_fit :: "pool \<Rightarrow> baddr set \<Rightarrow> nat \<Rightarrow> baddr \<Rightarrow> bool" where
  "best_fit s F n b \<longleftrightarrow> b \<in> F \<and> n \<le> size_of s b \<and> (\<forall>x \<in> F. n \<le> size_of s x \<longrightarrow> size_of s b \<le> size_of s x)"

lemma alloc_fits:
  assumes ok: "pool_ok s B ls E F {}" and n: "n = pool_round 63 asize" "asize < 1024 * 1024 * 1024"
    and x: "x \<in> F" "n \<le> size_of s x"
  shows "\<exists>b u. dopoolalloc_n (Suc k) restr asize s = Inr (Some (B2D b), u) \<and> best_fit s F n b \<and> granted n s (B - F) b u"
proof -
  let ?s = "s\<lparr>p_nalloc := p_nalloc s + 1\<rparr>"
  have sl: "same_layout s ?s" by (simp add: same_layout_def)
  have ok': "pool_ok ?s B ls E F {}"
    by (rule pool_ok_same [OF ok sl free_set_hdrs [OF pool_okD(4) [OF ok]] pool_okD(5,6) [OF ok]])
      (use pool_okD(7-10,12) [OF ok] in simp_all)
  have ks: "keeps (B - F) s ?s" by (simp add: keeps_def)
  have qa: "p_quanta s = 63" using pool_okD(3) [OF ok] by (simp add: config_ok_def)
  have n0: "64 dvd n" "0 < n" using pool_round_bounds n(1) by auto
  obtain p where p: "find_fit (hdrs s) n (p_root s) None = Some p" "case p of
      Exact a \<Rightarrow> \<exists>t \<in> F. bh_f (hdrs s a) = Some t \<and> size_of s t = n
    | Best a \<Rightarrow> a \<in> F \<and> n < size_of s a \<and> (\<forall>x \<in> F. n \<le> size_of s x \<longrightarrow> size_of s a \<le> size_of s x)
    | NoFit \<Rightarrow> \<forall>x \<in> F. size_of s x < n"
    using find_fit_free [OF pool_okD(4) [OF ok], of n] by blast
  show ?thesis
  proof (cases p)
    case (Exact a)
    then obtain t where t: "t \<in> F" "bh_f (hdrs s a) = Some t" "size_of s t = n" using p(2) by auto
    obtain u where u: "pooldel t ?s = Inr u" "granted n ?s (B - F) t (charge t (set_magic t MAGIC_A u))"
      using take_whole [OF ok' t(1), of n] t(3) by auto
    have "dopoolalloc_n (Suc k) restr asize s = Inr (Some (B2D t), charge t (set_magic t MAGIC_A u))"
      using n p(1) Exact t(2) u(1) qa by (simp add: Let_def nonnil_def)
    moreover have "best_fit s F n t" using t by (auto simp: best_fit_def)
    ultimately show ?thesis using granted_keeps [OF ks u(2)] by blast
  next
    case (Best q)
    then have q: "q \<in> F" "n < size_of ?s q" "\<forall>x \<in> F. n \<le> size_of s x \<longrightarrow> size_of s q \<le> size_of s x" using p(2) by auto
    obtain u where u: "carve q n ?s = Inr u" "granted n ?s (B - F) q u"
      using carve_ok [OF ok' q(1,2) n0] by blast
    have "dopoolalloc_n (Suc k) restr asize s = Inr (Some (B2D q), u)"
      using n p(1) Best u(1) qa by (simp add: Let_def)
    moreover have "best_fit s F n q" using q by (auto simp: best_fit_def)
    ultimately show ?thesis using granted_keeps [OF ks u(2)] by blast
  next
    case NoFit
    then show ?thesis using p(2) x by fastforce
  qed
qed

end
