(* ===== verification/PoolArena.thy ===== *)
theory PoolArena
  imports PoolTake
begin

text \<open>Memory from the host: a new arena, or more of the newest one.\<close>

text \<open>
  What \<open>sbrk\<close> promises: the \<open>n\<close> bytes from \<open>t\<close> are not in an arena.  Of the last quantum of an
  arena the 57 bytes that alignment never takes away count.
\<close>

definition fresh_mem :: "pool \<Rightarrow> baddr list \<Rightarrow> baddr \<Rightarrow> nat \<Rightarrow> bool" where
  "fresh_mem s ls t n \<longleftrightarrow> (\<forall>l \<in> set ls. B2LIMIT s l + 57 \<le> t \<or> t + n \<le> l)"

lemma arena_leader:
  assumes ok: "pool_ok s B ls E F lim" and l: "l \<in> set ls"
  shows "size_of s l = 64" "B2LIMIT s l \<in> E" "l + 64 \<le> B2LIMIT s l"
proof -
  have a: "size_of s l = 64" "l < B2LIMIT s l" "B2LIMIT s l \<in> E"
    using pool_okD(2) [OF ok] l by (auto simp: arenas_ok_def)
  then show "size_of s l = 64" "B2LIMIT s l \<in> E" by simp_all
  show "l + 64 \<le> B2LIMIT s l"
    using layoutD(10) [OF pool_okD(1) [OF ok], of l "B2LIMIT s l"] a l by auto
qed

lemma arena_region:
  assumes ok: "pool_ok s B ls E F lim" and y: "y \<in> B \<union> set ls \<union> E"
  shows "\<exists>l \<in> set ls. l \<le> y \<and> (y \<in> B \<union> set ls \<longrightarrow> y + size_of s y \<le> B2LIMIT s l) \<and> (y \<in> E \<longrightarrow> y = B2LIMIT s l)"
proof -
  note LD = layoutD [OF pool_okD(1) [OF ok]]
  consider "y \<in> B" | "y \<in> set ls" | "y \<in> E" using y by blast
  then show ?thesis
  proof cases
    case 1
    then obtain l where "l \<in> set ls" "l < y" "B2NB s y \<le> B2LIMIT s l" using arena_at [OF pool_okD(2) [OF ok]] by blast
    then show ?thesis using LD(3) [of y] 1 by (intro bexI [of _ l]) (auto simp: B2NB_def)
  next
    case 2
    then show ?thesis using arena_leader [OF ok 2] LD(4) [of y] by (intro bexI [of _ y]) auto
  next
    case 3
    then obtain l where l: "l \<in> set ls" "y = B2LIMIT s l" using pool_okD(2) [OF ok] by (auto simp: arenas_ok_def)
    then show ?thesis using arena_leader(3) [OF ok l(1)] LD(3,4) [OF 3] by (intro bexI [of _ l]) auto
  qed
qed

lemma fresh_mem_apart:
  assumes ok: "pool_ok s B ls E F lim" and f: "fresh_mem s ls t n"
  shows "x \<in> B \<union> set ls \<Longrightarrow> x + size_of s x \<le> t \<or> t + n \<le> x"
    and "e \<in> E \<Longrightarrow> e + 57 \<le> t \<or> t + n \<le> e"
proof -
  show "x + size_of s x \<le> t \<or> t + n \<le> x" if x: "x \<in> B \<union> set ls" for x
  proof -
    obtain l where "l \<in> set ls" "l \<le> x" "x + size_of s x \<le> B2LIMIT s l" using arena_region [OF ok, of x] x by blast
    then show ?thesis using f unfolding fresh_mem_def by fastforce
  qed
  show "e + 57 \<le> t \<or> t + n \<le> e" if e: "e \<in> E" for e
  proof -
    obtain l where "l \<in> set ls" "l \<le> e" "e = B2LIMIT s l" using arena_region [OF ok, of e] e by blast
    then show ?thesis using f unfolding fresh_mem_def by fastforce
  qed
qed

section \<open>A new arena\<close>

text \<open>The new arena with its one block in limbo; its end mark is still to be written.\<close>

definition arena_at_new :: "baddr \<Rightarrow> nat \<Rightarrow> pool \<Rightarrow> pool" where
  "arena_at_new t ns s = (let s = set_magic t MAGIC_E s;
          s = upd_h t (\<lambda>b. b\<lparr>bh_csize := ns + 64, bh_link := p_chain s\<rparr>) s
     in set_magic (t + 64) MAGIC_A (set_block t 64 (s\<lparr>p_chain := Some t\<rparr>)))"

lemma arena_at_new_fields:
  "size_of (arena_at_new t ns s) x = (if x = t then 64 else size_of s x)"
  "tails (arena_at_new t ns s) = (tails s)(t + 64 := Some t)"
  "bh_magic (hdrs (arena_at_new t ns s) x) = (if x = t + 64 then MAGIC_A else if x = t then MAGIC_E else bh_magic (hdrs s x))"
  "bh_link (hdrs (arena_at_new t ns s) x) = (if x = t then p_chain s else bh_link (hdrs s x))"
  "bh_csize (hdrs (arena_at_new t ns s) x) = (if x = t then ns + 64 else bh_csize (hdrs s x))"
  "p_chain (arena_at_new t ns s) = Some t" "p_cursize (arena_at_new t ns s) = p_cursize s"
  "p_arenasize (arena_at_new t ns s) = p_arenasize s" "gc_ptr (arena_at_new t ns s) = gc_ptr s"
  "p_root (arena_at_new t ns s) = p_root s" "config_ok (arena_at_new t ns s) = config_ok s"
  "p_data (arena_at_new t ns s) = p_data s" "p_ressize (arena_at_new t ns s) = p_ressize s"
  "p_maxsize (arena_at_new t ns s) = p_maxsize s" "p_quanta (arena_at_new t ns s) = p_quanta s"
  "bh_l (hdrs (arena_at_new t ns s) x) = bh_l (hdrs s x)" "bh_r (hdrs (arena_at_new t ns s) x) = bh_r (hdrs s x)"
  "bh_p (hdrs (arena_at_new t ns s) x) = bh_p (hdrs s x)" "bh_f (hdrs (arena_at_new t ns s) x) = bh_f (hdrs s x)"
  "bh_v (hdrs (arena_at_new t ns s) x) = bh_v (hdrs s x)"
  by (simp_all add: arena_at_new_def set_block_def set_magic_def upd_h_def config_ok_def Let_def)

lemma sum_new: "finite B \<Longrightarrow> t \<notin> B \<Longrightarrow> (\<And>x. x \<in> B \<Longrightarrow> f x = g x) \<Longrightarrow> sum f (insert t B) = f t + (sum g B :: nat)"
  by (simp cong: sum.cong)

lemma chain_of_new:
  assumes "chain_of s (p_chain s) ls" "t \<notin> set ls" "bh_link (hdrs u t) = p_chain s"
    "\<And>l. l \<in> set ls \<Longrightarrow> bh_link (hdrs u l) = bh_link (hdrs s l)"
  shows "chain_of u (Some t) (t # ls)"
  using chain_of_cong [OF assms(1), of u] assms by simp

lemma arena_new_ok:
  assumes ok: "pool_ok s B ls E F {}" and t: "8 dvd t" "64 dvd ns" "0 < ns"
    and fresh: "fresh_mem s ls t0 (ns + 128)" "t0 \<le> t" "t \<le> t0 + 7"
    and room: "sum (size_of s) B + ns \<le> p_arenasize s"
    and u: "u = set_block (t + 64) ns (arena_at_new t ns s)"
  shows "pool_ok u (insert (t + 64) B) (t # ls) (insert (t + 64 + ns) E) F {t + 64, t + 64 + ns}"
    and "t + 64 \<notin> B \<union> set ls \<union> E"
proof -
  note D = pool_okD [OF ok] and LD = layoutD [OF pool_okD(1) [OF ok]]
  let ?e = "t + 64 + ns" and ?b = "t + 64"
  have fb: "x + size_of s x \<le> t \<or> ?e + 57 \<le> x" if "x \<in> B \<union> set ls" for x
    using fresh_mem_apart(1) [OF ok fresh(1) that] fresh(2,3) by auto
  have fe: "x + 57 \<le> t \<or> ?e + 57 \<le> x" if "x \<in> E" for x
    using fresh_mem_apart(2) [OF ok fresh(1) that] fresh(2,3) by auto
  have out: "x < t \<or> ?e < x" if x: "x \<in> B \<union> set ls \<union> E" for x
    using fb [of x] fe [of x] LD(7) [of x] x by auto
  have new: "t \<notin> B \<union> set ls \<union> E" "?b \<notin> B \<union> set ls \<union> E" "?e \<notin> B \<union> set ls \<union> E"
    using out [of t] out [of ?b] out [of ?e] by auto
  have ne: "x \<noteq> t \<and> x \<noteq> ?b \<and> x \<noteq> ?e" if "x \<in> B \<union> set ls \<union> E" for x using new that by blast
  show "?b \<notin> B \<union> set ls \<union> E" using new by simp
  have tb: "t \<noteq> ?b" "t \<noteq> ?e" "?b \<noteq> ?e" using t(3) by auto
  have sz: "size_of u = (size_of s)(t := 64, ?b := ns)" by (auto simp: u set_fields arena_at_new_fields fun_eq_iff)
  have tg: "tails u = (tails s)(?b := Some t, ?e := Some ?b)" by (simp add: u set_fields arena_at_new_fields)
  have szx: "size_of u x = size_of s x" if "x \<in> B \<union> set ls \<union> E" for x
    using ne [OF that] by (simp add: u set_fields arena_at_new_fields)
  have szb: "size_of u ?b = ns" "size_of u t = 64" by (simp_all add: u set_fields arena_at_new_fields)
  have lim: "B2LIMIT u x = (if x = t then ?e else B2LIMIT s x)" for x
    by (simp add: u B2LIMIT_def set_fields arena_at_new_fields)
  have nbx: "B2NB u x = B2NB s x" if "x \<in> B" for x using szx [of x] that by (simp add: B2NB_def)
  have m: "bh_magic (hdrs u x) = (if x = ?b then MAGIC_A else if x = t then MAGIC_E else bh_magic (hdrs s x))" for x
    by (simp add: u set_fields arena_at_new_fields)
  have ch: "chain_of s (p_chain s) ls" and E: "E = B2LIMIT s ` set ls" and ar: "\<forall>l \<in> set ls. size_of s l = 64 \<and> l < B2LIMIT s l"
    and dis: "\<forall>l \<in> set ls. \<forall>l' \<in> set ls. l < l' \<longrightarrow> B2LIMIT s l \<le> l'"
    using D(2) by (simp_all add: arenas_ok_def)
  have apart: "B2LIMIT s l + 57 \<le> t0 \<or> t0 + (ns + 128) \<le> l" if "l \<in> set ls" for l
    using fresh(1) that by (simp add: fresh_mem_def)
  show "pool_ok u (insert ?b B) (t # ls) (insert ?e E) F {?b, ?e}"
  proof (rule pool_okI)
    show "layout (size_of u) (tails u) (insert ?b B) (set (t # ls)) (insert ?e E)"
      unfolding sz tg using layout_new [OF D(1) t fb fe] by simp
    show "arenas_ok u (insert ?b B) (t # ls) (insert ?e E)" unfolding arenas_ok_def
    proof (intro conjI ballI)
      have "p_chain u = Some t" by (simp add: u set_fields arena_at_new_fields)
      moreover have "chain_of u (Some t) (t # ls)"
        by (rule chain_of_new [OF ch]) (use ne in \<open>auto simp: u set_fields arena_at_new_fields\<close>)
      ultimately show "chain_of u (p_chain u) (t # ls)" by simp
      have "B2LIMIT u ` set ls = B2LIMIT s ` set ls" by (rule image_cong) (use ne lim in auto)
      then show "insert ?e E = B2LIMIT u ` set (t # ls)" using E lim [of t] by simp
      show "\<exists>l \<in> set (t # ls). l < b \<and> B2NB u b \<le> B2LIMIT u l" if "b \<in> insert ?b B" for b
      proof (cases "b = ?b")
        case True
        then show ?thesis using lim [of t] szb by (intro bexI [of _ t]) (auto simp: B2NB_def)
      next
        case False
        then have b: "b \<in> B" using that by simp
        then obtain l where l: "l \<in> set ls" "l < b" "B2NB s b \<le> B2LIMIT s l" using arena_at [OF D(2)] by blast
        then show ?thesis using nbx [OF b] lim [of l] ne [of l] by (intro bexI [of _ l]) auto
      qed
      show "size_of u l = 64" "l < B2LIMIT u l" if "l \<in> set (t # ls)" for l
      proof -
        have "size_of u l = 64 \<and> l < B2LIMIT u l"
        proof (cases "l = t")
          case True
          then show ?thesis using lim [of t] szb by simp
        next
          case False
          then have "l \<in> set ls" using that by simp
          then show ?thesis using lim [of l] szx [of l] ar False by simp
        qed
        then show "size_of u l = 64" "l < B2LIMIT u l" by simp_all
      qed
      show "l < l' \<longrightarrow> B2LIMIT u l \<le> l'" if ll: "l \<in> set (t # ls)" "l' \<in> set (t # ls)" for l l'
      proof -
        consider "l = t" "l' = t" | "l = t" "l' \<in> set ls" "l' \<noteq> t" | "l \<in> set ls" "l \<noteq> t" "l' = t"
          | "l \<in> set ls" "l' \<in> set ls" "l \<noteq> t" using ll by auto
        then show ?thesis
        proof cases
          case 2
          then show ?thesis using out [of l'] lim by auto
        next
          case 3
          then have "B2LIMIT s l \<in> E" using E by simp
          then show ?thesis using fresh fe [of "B2LIMIT s l"] out [of l] 3 lim [of l] apart [of l] by auto
        next
          case 4
          then show ?thesis using dis lim [of l] by simp
        qed simp
      qed
    qed
    show "config_ok u" using D(3) by (simp add: u set_fields arena_at_new_fields)
    show "free_set u F"
      by (rule free_set_cong [OF D(4)]) (use ne D(5) in \<open>auto simp: u set_fields arena_at_new_fields\<close>)
    show "F \<subseteq> insert ?b B" "F \<inter> {?b, ?e} = {}" using D(5) new by auto
    show "bh_magic (hdrs u b) \<in> (if b \<in> F then {MAGIC_F} else {MAGIC_A, MAGIC_I})" if "b \<in> insert ?b B" "b \<notin> {?b, ?e}" for b
      using D(7) [of b] that ne [of b] m [of b] by auto
    show "bh_magic (hdrs u x) = MAGIC_E" if "x \<in> set (t # ls) \<union> insert ?e E" "x \<notin> {?b, ?e}" for x
      using D(8) [of x] that ne [of x] m [of x] by auto
    show "B2NB u b \<notin> F" if "b \<in> F" for b using D(5) D(9) [of b] nbx [of b] that by auto
    have "insert ?b B - F - {?b, ?e} = B - F - {}" using new by auto
    moreover have "sum (size_of u) (B - F - {}) = sum (size_of s) (B - F - {})"
      by (rule sum.cong) (use szx in auto)
    ultimately show "p_cursize u = of_nat (sum (size_of u) (insert ?b B - F - {?b, ?e}))"
      using D(10) by (simp only: u set_fields arena_at_new_fields)
    have "sum (size_of u) (insert ?b B) = ns + sum (size_of s) B"
      using sum_new [of B ?b "size_of u" "size_of s"] LD(1) new(2) szx szb by simp
    then show "sum (size_of u) (insert ?b B) \<le> p_arenasize u" using room by (simp add: u set_fields arena_at_new_fields)
    show "p \<in> insert ?b B \<union> set (t # ls) \<union> insert ?e E" if "gc_ptr u = Some p" for p
      using D(12) [of p] that by (auto simp: u set_fields arena_at_new_fields)
  qed
qed

lemma set_block_twice: "set_block a n (set_block a k s) = (set_block a n s)\<lparr>tails := (tails s)(a + k := Some a, a + n := Some a)\<rparr>"
  by (simp add: set_block_def Let_def upd_h_def)

lemma set_block_split: "0 < m \<Longrightarrow> set_block (a + n) m (set_block a n (set_block a (n + m) s)) = set_block (a + n) m (set_block a n s)"
  by (simp add: set_block_def Let_def upd_h_def fun_upd_twist add.assoc)

lemma keeps_new: "t \<notin> X \<Longrightarrow> t + 64 \<notin> X \<Longrightarrow> keeps X s (arena_at_new t ns s)"
  by (auto simp: keeps_def arena_at_new_fields)

lemma new_arena_eq:
  assumes "p_quanta s = 63"
  shows "new_arena t ns n s = rbind (if ns - n > 0 then
        rbind (pooladd (t + 64 + n) (set_block (t + 64 + n) (ns - n) (set_block (t + 64) n (arena_at_new t ns s))))
          (\<lambda>s. Inr (t + 64 + n, s))
      else Inr (t + 64, set_block (t + 64) n (arena_at_new t ns s)))
    (\<lambda>(q, s). Inr (B2D (t + 64), charge (t + 64) (set_magic (B2NB s q) MAGIC_E s)))"
proof -
  let ?s = "arena_at_new t ns s"
  have b: "B2NB (set_block t 64 u) t = t + 64" "B2NB (set_block (t + 64) n ?s) (t + 64) = t + 64 + n" for u
    by (simp_all add: B2NB_def set_fields)
  show ?thesis using assms unfolding new_arena_def Let_def
    by (simp add: b(1)) (simp add: arena_at_new_def [unfolded Let_def, symmetric] b(2) cong: if_cong)
qed

lemma new_arena_ok:
  assumes ok: "pool_ok s B ls E F {}" and t: "8 dvd t" "64 dvd ns" "n \<le> ns" "64 dvd n" "0 < n"
    and fresh: "fresh_mem s ls t0 (ns + 128)" "t0 \<le> t" "t \<le> t0 + 7"
    and room: "sum (size_of s) B + ns \<le> p_arenasize s"
  shows "\<exists>u. new_arena t ns n s = Inr (B2D (t + 64), u) \<and> granted n s (B - F) (t + 64) u"
proof -
  let ?b = "t + 64" and ?e = "t + 64 + ns" and ?m = "ns - n" and ?a = "arena_at_new t ns s"
  let ?u = "set_block ?b ns ?a" and ?B = "insert (t + 64) B" and ?E = "insert (t + 64 + ns) E"
  have q: "p_quanta s = 63" using pool_okD(3) [OF ok] by (simp add: config_ok_def)
  have ns: "0 < ns" using t by simp
  have oku: "pool_ok ?u ?B (t # ls) ?E F {?b, ?e}" and new: "?b \<notin> B \<union> set ls \<union> E"
    using arena_new_ok [OF ok t(1,2) ns fresh room refl] by blast+
  have tn: "t \<notin> B" "?e \<notin> B" "?e \<notin> F"
    using layoutD(2,3) [OF pool_okD(1) [OF oku]] pool_okD(5) [OF ok] by auto
  have bF: "?b \<notin> F" "?b \<notin> B - F" "t \<notin> B - F" using new tn pool_okD(5) [OF ok] by auto
  have ka: "keeps (B - F) s ?a" by (rule keeps_new [OF bF(3,2)])
  have "\<exists>v B' F'. new_arena t ns n s = Inr (B2D ?b, charge ?b (set_magic ?e MAGIC_E v)) \<and> pool_ok v B' (t # ls) ?E F' {?b, ?e}
    \<and> ?b \<in> B' \<and> B' - F' = insert ?b (B - F) \<and> keeps (B - F) s v \<and> size_of v ?b = n \<and> bh_magic (hdrs v ?b) = MAGIC_A"
  proof (cases "?m = 0")
    case True
    then have e: "n = ns" using t(3) by simp
    have "new_arena t ns n s = Inr (B2D ?b, charge ?b (set_magic ?e MAGIC_E ?u))"
      using True e by (simp add: new_arena_eq [OF q] B2_set)
    moreover have "?B - F = insert ?b (B - F)" using bF by auto
    moreover have "keeps (B - F) s ?u" by (rule keeps_trans [OF ka keeps_block [OF bF(2)]])
    moreover have "size_of ?u ?b = n" "bh_magic (hdrs ?u ?b) = MAGIC_A" using e by (simp_all add: set_fields arena_at_new_fields)
    ultimately show ?thesis using oku by blast
  next
    case False
    let ?w = "set_block (?b + n) ?m (set_block ?b n ?a)"
    have m: "0 < ?m" "ns = n + ?m" "64 dvd ?m" using False t by auto
    have su: "size_of ?u ?b = n + ?m" using m(2) by (simp add: set_fields)
    have "B2NB ?u ?b = ?e" by (simp add: B2_set)
    then have nx: "B2NB ?u ?b \<notin> F" using tn(3) by simp
    have w: "?w = set_block (?b + n) ?m (set_block ?b n ?u)"
      using set_block_split [OF m(1), of ?b n ?a] m(2) by simp
    obtain v where v: "pooladd (?b + n) ?w = Inr v"
      "pool_ok v (insert (?b + n) ?B) (t # ls) ?E (insert (?b + n) F) ({?b, ?e} - {?b + n})" "frees (?b + n) ?w v"
      "?b + n \<notin> ?B \<union> set (t # ls) \<union> ?E"
      using split_add [OF oku insertI1 insertI1 su t(4) m(3) t(5) m(1) nx w] by blast
    have bn: "?b \<noteq> ?b + n" "?b + n \<notin> B - F" "{?b, ?e} - {?b + n} = {?b, ?e}" using v(4) by auto
    have f: "size_of v x = size_of ?w x" "bh_magic (hdrs v x) = (if x = ?b + n then MAGIC_F else bh_magic (hdrs ?w x))" for x
      using frees_fields2 [OF v(3)] by simp_all
    have "B2NB v (?b + n) = ?e" using m(2) by (simp add: B2NB_def f(1)) (simp add: set_fields)
    then have "new_arena t ns n s = Inr (B2D ?b, charge ?b (set_magic ?e MAGIC_E v))"
      using m(1) v(1) by (simp add: new_arena_eq [OF q])
    moreover have "insert (?b + n) ?B - insert (?b + n) F = insert ?b (B - F)" using bF bn v(4) by auto
    moreover have "keeps (B - F) s v"
      by (rule keeps_trans [OF ka keeps_trans [OF keeps_trans [OF keeps_block [OF bF(2)] keeps_block [OF bn(2)]]
          kept_keeps [OF frees_kept [OF v(3) bn(2)]]]])
    moreover have "size_of v ?b = n" "bh_magic (hdrs v ?b) = MAGIC_A"
      using bn(1) by (simp_all add: f) (simp_all add: set_fields arena_at_new_fields)
    ultimately show ?thesis using v(2) unfolding bn(3) by blast
  qed
  then obtain v B' F' where v: "new_arena t ns n s = Inr (B2D ?b, charge ?b (set_magic ?e MAGIC_E v))"
    "pool_ok v B' (t # ls) ?E F' {?b, ?e}" "?b \<in> B'" "B' - F' = insert ?b (B - F)" "keeps (B - F) s v"
    "size_of v ?b = n" "bh_magic (hdrs v ?b) = MAGIC_A" by blast
  let ?v = "set_magic ?e MAGIC_E v"
  have be: "?b \<noteq> ?e" "{?b, ?e} - {?e} = {?b}" "{?b} - {?b} = {}" using ns by auto
  have fv: "size_of ?v ?b = n" "bh_magic (hdrs ?v ?b) = MAGIC_A" using be(1) v(6,7) by (simp_all add: set_fields)
  have "pool_ok ?v B' (t # ls) ?E F' ({?b, ?e} - {?e})" by (rule pool_mark_end [OF v(2)]) auto
  then have ok1: "pool_ok ?v B' (t # ls) ?E F' {?b}" unfolding be(2) .
  have "pool_ok (charge ?b ?v) B' (t # ls) ?E F' ({?b} - {?b})" by (rule pool_charge [OF ok1 v(3)]) (simp_all add: fv)
  then have ok2: "pool_ok (charge ?b ?v) B' (t # ls) ?E F' {}" unfolding be(3) .
  have eA: "?e \<notin> B - F" using tn by simp
  have k: "keeps (B - F) s (charge ?b ?v)" by (rule keeps_trans [OF v(5) keeps_trans [OF keeps_magic [OF eA] charge_keeps]])
  have "granted n s (B - F) ?b (charge ?b ?v)"
    by (rule grantedI [OF ok2 bF(2) v(4) k]) (simp_all add: fv)
  then show ?thesis using v(1) by blast
qed

end
