(* ===== verification/PoolAlloc.thy ===== *)
theory PoolAlloc
  imports PoolArena
begin

text \<open>An arena that grows, and \<open>dopoolalloc\<close> as a whole.\<close>

section \<open>The newest arena grows\<close>

lemma extend_fields:
  assumes "extend_arena c n s = (v, u)" "q = B2LIMIT s c" "0 < n"
  shows "v = B2D q" "size_of u x = (if x = q then n else size_of s x)" "tails u = (tails s)(q + n := Some q)"
    "bh_magic (hdrs u x) = (if x = q + n then MAGIC_E else if x = q then MAGIC_A else bh_magic (hdrs s x))"
    "bh_link (hdrs u x) = bh_link (hdrs s x)" "bh_csize (hdrs u x) = (if x = c then bh_csize (hdrs s x) + n else bh_csize (hdrs s x))"
    "p_chain u = p_chain s" "p_cursize u = p_cursize s + of_nat n" "p_arenasize u = p_arenasize s" "gc_ptr u = gc_ptr s"
    "p_root u = p_root s" "config_ok u = config_ok s" "p_data u = p_data s" "p_ressize u = p_ressize s" "p_maxsize u = p_maxsize s"
    "bh_l (hdrs u x) = bh_l (hdrs s x)" "bh_r (hdrs u x) = bh_r (hdrs s x)" "bh_p (hdrs u x) = bh_p (hdrs s x)"
    "bh_f (hdrs u x) = bh_f (hdrs s x)" "bh_v (hdrs u x) = bh_v (hdrs s x)"
  using assms by (auto simp: extend_arena_def Let_def set_block_def set_magic_def upd_h_def B2NB_def config_ok_def)

lemma extend_ok:
  assumes ok: "pool_ok s B (c # ls) E F {}" and n: "64 dvd n" "0 < n"
    and fresh: "fresh_mem s (c # ls) t0 n" "B2LIMIT s c + 64 \<le> t0 + 7" "t0 \<le> B2LIMIT s c + 64"
    and room: "sum (size_of s) B + n \<le> p_arenasize s" and u: "extend_arena c n s = (v, u)"
  shows "\<exists>q B' E'. v = B2D q \<and> q \<notin> B \<and> q \<notin> F \<and> B' = insert q B \<and> size_of u q = n
    \<and> pool_ok u B' (c # ls) E' F {} \<and> keeps (B - F) s u"
proof -
  note D = pool_okD [OF ok] and LD = layoutD [OF pool_okD(1) [OF ok]]
  let ?q = "B2LIMIT s c" and ?L = "set (c # ls)"
  let ?B = "insert ?q B" and ?E = "insert (?q + n) (E - {?q})"
  have cL: "c \<in> ?L" by simp
  have q: "?q \<in> E" "c + 64 \<le> ?q" using arena_leader(2,3) [OF ok cL] by simp_all
  have qB: "?q \<notin> B" "?q \<notin> ?L" "?q \<notin> F" using LD(3,4) [OF q(1)] D(5) by auto
  have fr: "?q + n + 57 \<le> y" if y: "y \<in> B \<union> ?L \<union> E" "?q < y" for y
  proof -
    have a: "?q + 57 \<le> y" by (rule LD(11) [OF q(1) y])
    have "y + size_of s y \<le> t0 \<or> t0 + n \<le> y \<or> y + 57 \<le> t0"
      using fresh_mem_apart [OF ok fresh(1), of y] y(1) by blast
    moreover have "y + size_of s y \<le> t0 \<Longrightarrow> y \<in> B \<union> ?L \<Longrightarrow> False"
      using a LD(6,7) [of y] fresh(3) by (auto dest: dvd_imp_le)
    ultimately show ?thesis using a fresh(2,3) fresh_mem_apart [OF ok fresh(1), of y] y(1) by auto
  qed
  have new: "?q + n \<notin> B \<union> ?L \<union> E" using fr [of "?q + n"] n(2) by auto
  note f = extend_fields [OF u refl n(2)]
  have sz: "size_of u = (size_of s)(?q := n)" by (auto simp: f fun_eq_iff)
  have ne: "x \<noteq> ?q + n" if "x \<in> B \<union> ?L \<union> E" for x using new that by blast
  have lim: "B2LIMIT u x = (if x = c then ?q + n else B2LIMIT s x)" for x by (simp add: B2LIMIT_def f)
  have ar: "chain_of s (p_chain s) (c # ls)" "E = B2LIMIT s ` ?L" "\<forall>l \<in> ?L. size_of s l = 64 \<and> l < B2LIMIT s l"
    "\<forall>l \<in> ?L. \<forall>l' \<in> ?L. l < l' \<longrightarrow> B2LIMIT s l \<le> l'"
    using D(2) unfolding arenas_ok_def by blast+
  have other: "B2LIMIT s l \<noteq> ?q" if l: "l \<in> ?L" "l \<noteq> c" for l
  proof (cases "l < c")
    case True
    then have "B2LIMIT s l \<le> c" using ar(4) l cL by blast
    then show ?thesis using q(2) by simp
  next
    case False
    then have "c < l" using l(2) by simp
    then have "?q \<le> l" using ar(4) l cL by blast
    then show ?thesis using arena_leader(3) [OF ok l(1)] by simp
  qed
  have szx: "size_of u x = size_of s x" if "x \<in> B \<union> ?L" for x using qB that by (auto simp: f)
  have nbx: "B2NB u x = B2NB s x" if "x \<in> B" for x using szx [of x] that by (simp add: B2NB_def)
  have oku: "pool_ok u ?B (c # ls) ?E F {}"
  proof (rule pool_okI)
    show "layout (size_of u) (tails u) ?B ?L ?E"
      unfolding sz f(3) by (rule layout_extend [OF D(1) q(1) n fr])
    show "arenas_ok u ?B (c # ls) ?E" unfolding arenas_ok_def
    proof (intro conjI ballI impI)
      show "chain_of u (p_chain u) (c # ls)" unfolding f(7) by (rule chain_of_cong [OF ar(1)]) (simp add: f(5))
      have "B2LIMIT u ` ?L = insert (?q + n) (B2LIMIT s ` (?L - {c}))" using lim by auto
      moreover have "B2LIMIT s ` (?L - {c}) = E - {?q}" using other by (auto simp: ar(2))
      ultimately show "?E = B2LIMIT u ` ?L" by simp
      show "\<exists>l \<in> ?L. l < b \<and> B2NB u b \<le> B2LIMIT u l" if b: "b \<in> ?B" for b
      proof (cases "b = ?q")
        case True
        then show ?thesis using lim [of c] q(2) by (intro bexI [of _ c]) (auto simp: B2NB_def f)
      next
        case False
        then have b: "b \<in> B" using b by simp
        then obtain l where l: "l \<in> ?L" "l < b" "B2NB s b \<le> B2LIMIT s l" using arena_at [OF D(2)] by blast
        then show ?thesis using nbx [OF b] lim [of l] by (intro bexI [of _ l]) auto
      qed
      show "size_of u l = 64" "l < B2LIMIT u l" if "l \<in> ?L" for l
        using ar(3) that szx [of l] lim [of l] by auto
      show "B2LIMIT u l \<le> l'" if l: "l \<in> ?L" "l' \<in> ?L" "l < l'" for l l'
      proof (cases "l = c")
        case True
        then have "?q \<le> l'" "?q \<noteq> l'" using ar(4) l qB(2) by blast+
        then show ?thesis using fr [of l'] l(2) lim [of l] True by auto
      next
        case False
        moreover have "B2LIMIT s l \<le> l'" using ar(4) l by blast
        ultimately show ?thesis using lim [of l] by simp
      qed
    qed
    show "config_ok u" using D(3) by (simp add: f)
    show "free_set u F" by (rule free_set_cong [OF D(4)]) (use qB(3) in \<open>auto simp: f\<close>)
    show "F \<subseteq> ?B" "F \<inter> {} = {}" using D(5) by auto
    show "bh_magic (hdrs u b) \<in> (if b \<in> F then {MAGIC_F} else {MAGIC_A, MAGIC_I})" if b: "b \<in> ?B" "b \<notin> {}" for b
    proof (cases "b = ?q")
      case True
      then show ?thesis using n(2) qB(3) by (simp add: f)
    next
      case False
      then have b: "b \<in> B" using b by simp
      then have "bh_magic (hdrs u b) = bh_magic (hdrs s b)" using False ne [of b] by (simp add: f)
      then show ?thesis using D(7) [OF b] by simp
    qed
    show "bh_magic (hdrs u x) = MAGIC_E" if "x \<in> ?L \<union> ?E" "x \<notin> {}" for x
      using D(8) [of x] that qB(2) by (auto simp: f)
    show "B2NB u b \<notin> F" if "b \<in> F" for b using D(5) D(9) [of b] nbx [of b] that by auto
    have su: "sum (size_of u) (insert ?q X) = n + sum (size_of s) X" if "X \<subseteq> B" for X
    proof -
      have "finite X" "?q \<notin> X" using that LD(1) qB(1) finite_subset by auto
      moreover have "sum (size_of u) X = sum (size_of s) X" by (rule sum.cong [OF refl]) (use szx that in blast)
      ultimately show ?thesis using f(2) [of ?q] by simp
    qed
    have "?B - F - {} = insert ?q (B - F - {})" using qB(3) by auto
    then show "p_cursize u = of_nat (sum (size_of u) (?B - F - {}))"
      using su [of "B - F - {}"] D(10) f(8) by (simp only: of_nat_add) (simp add: Diff_subset)
    show "sum (size_of u) ?B \<le> p_arenasize u" using su [of B] room by (simp add: f)
    show "p \<in> ?B \<union> ?L \<union> ?E" if "gc_ptr u = Some p" for p
      using D(12) [of p] that by (auto simp: f)
  qed
  have "keeps (B - F) s u" unfolding keeps_def using qB(1) ne by (auto simp: f)
  then show ?thesis using oku f(1) f(2) [of ?q] qB(1,3) by (intro exI [of _ ?q] exI [of _ ?B] exI [of _ ?E]) simp
qed

section \<open>dopoolalloc\<close>

definition host_fresh :: "nat \<Rightarrow> pool \<Rightarrow> baddr list \<Rightarrow> bool" where
  "host_fresh asize s ls = (case p_brks s of
       Some t # _ \<Rightarrow> (case arena_bytes (pool_round (p_quanta s) asize) s of
           Some ns \<Rightarrow> fresh_mem s ls t (ns + 128) | None \<Rightarrow> True)
     | _ \<Rightarrow> True)"

definition refused :: "pool \<Rightarrow> baddr set \<Rightarrow> pool \<Rightarrow> bool" where
  "refused s A u \<longleftrightarrow> (\<exists>B' ls' E' F'. pool_ok u B' ls' E' F' {} \<and> B' - F' = A \<and> keeps A s u)"

definition outcome :: "nat \<Rightarrow> pool \<Rightarrow> baddr set \<Rightarrow> pfault + baddr option \<times> pool \<Rightarrow> bool" where
  "outcome n s A r \<longleftrightarrow> (\<exists>v u. r = Inr (v, u) \<and> (case v of
       None \<Rightarrow> refused s A u
     | Some v \<Rightarrow> \<exists>b. v = B2D b \<and> granted n s A b u))"

lemma outcome_keeps: "keeps A s t \<Longrightarrow> outcome n t A r \<Longrightarrow> outcome n s A r"
  unfolding outcome_def refused_def using granted_keeps keeps_trans by (fastforce split: option.splits)

lemma outcome_none: "pool_ok u B ls E F {} \<Longrightarrow> B - F = A \<Longrightarrow> keeps A s u \<Longrightarrow> outcome n s A (Inr (None, u))"
  by (auto simp: outcome_def refused_def)

lemma outcome_some: "granted n s A b u \<Longrightarrow> outcome n s A (Inr (Some (B2D b), u))"
  by (auto simp: outcome_def)

lemma pool_ok_budget:
  assumes ok: "pool_ok s B ls E F lim"
    and u: "hdrs u = hdrs s" "tails u = tails s" "p_root u = p_root s" "p_chain u = p_chain s" "gc_ptr u = gc_ptr s"
      "p_cursize u = p_cursize s" "p_arenasize s \<le> p_arenasize u" "config_ok u"
  shows "pool_ok u B ls E F lim"
proof -
  note D = pool_okD [OF ok]
  have nb: "B2NB u = B2NB s" "B2LIMIT u = B2LIMIT s" by (simp_all add: B2NB_def B2LIMIT_def u(1) fun_eq_iff)
  show ?thesis
  proof (rule pool_okI)
    show "layout (size_of u) (tails u) B (set ls) E" unfolding u(1,2) by (rule D(1))
    show "arenas_ok u B ls E"
      by (rule arenas_okI [OF D(2) u(4) nb(2)]) (use arena_at [OF D(2)] nb(1) in \<open>auto simp: u(1)\<close>)
    show "free_set u F" by (rule free_set_hdrs [OF D(4) u(1,3)])
    show "p_cursize u = of_nat (sum (size_of u) (B - F - lim))" unfolding u(1,6) by (rule D(10))
    show "sum (size_of u) B \<le> p_arenasize u" unfolding u(1) using D(11) u(7) by simp
    show "p \<in> B \<union> set ls \<union> E" if "gc_ptr u = Some p" for p using D(12) that unfolding u(5) .
    show "bh_magic (hdrs u b) \<in> (if b \<in> F then {MAGIC_F} else {MAGIC_A, MAGIC_I})" if "b \<in> B" "b \<notin> lim" for b
      unfolding u(1) by (rule D(7) [OF that])
    show "bh_magic (hdrs u x) = MAGIC_E" if "x \<in> set ls \<union> E" "x \<notin> lim" for x unfolding u(1) by (rule D(8) [OF that])
    show "B2NB u b \<notin> F" if "b \<in> F" for b unfolding nb(1) by (rule D(9) [OF that])
  qed (rule u(8) D(5) D(6))+
qed

text \<open>More memory was got, and freed into the tree: the second attempt finds it.\<close>

lemma extend_alloc:
  assumes ok: "pool_ok s B (c # ls) E F {}" and n: "n = pool_round 63 asize" "asize < 1024 * 1024 * 1024"
    and al: "64 dvd al" "n \<le> al" and fresh: "fresh_mem s (c # ls) t0 al" "B2LIMIT s c + 64 \<le> t0 + 7" "t0 \<le> B2LIMIT s c + 64"
    and room: "sum (size_of s) B + al \<le> p_arenasize s" and u: "extend_arena c al s = (v, u)"
  shows "outcome n s (B - F) (rbind (poolfree v u) (\<lambda>s. if restricted restr s then Inr (None, s) else dopoolalloc_n (Suc k) restr asize s))"
proof -
  have al0: "0 < al" using pool_round_bounds(4) [of asize] n(1) al(2) by simp
  obtain q B1 E1 where q: "v = B2D q" "q \<notin> B" "q \<notin> F" "B1 = insert q B" "size_of u q = al"
    "pool_ok u B1 (c # ls) E1 F {}" "keeps (B - F) s u"
    using extend_ok [OF ok al(1) al0 fresh room u] by blast
  have qB: "q \<in> B1" "B1 - F - {q} = B - F" using q(2-4) by auto
  obtain w B2 F2 x where w: "poolfree (B2D q) u = Inr w" "pool_ok w B2 (c # ls) E1 F2 {}" "B2 - F2 = B1 - F - {q}"
    "kept (B1 - F - {q}) (u\<lparr>p_nfree := p_nfree u + 1\<rparr>) w" "x \<in> F2" "x \<le> q" "q + size_of u q \<le> x + size_of w x"
    using poolfree_ok [OF q(6) qB(1) q(3)] by (elim exE conjE) (rule that)
  have "keeps (B - F) u w"
    using w(4) unfolding qB(2) by (simp add: kept_def keeps_def)
  then have k: "keeps (B - F) s w" by (rule keeps_trans [OF q(7)])
  have A: "B2 - F2 = B - F" using w(3) qB(2) by simp
  have x: "n \<le> size_of w x" using w(6,7) q(5) al(2) by simp
  obtain b y where b: "dopoolalloc_n (Suc k) restr asize w = Inr (Some (B2D b), y)" "granted n w (B2 - F2) b y"
    using alloc_fits [OF w(2) n w(5) x] by blast
  have "outcome n s (B - F) (Inr (Some (B2D b), y))"
    using outcome_some granted_keeps [OF k] b(2) unfolding A by blast
  moreover have "outcome n s (B - F) (Inr (None, w))" by (rule outcome_none [OF w(2) A k])
  ultimately show ?thesis using q(1) w(1) b(1) by simp
qed

lemma alloc_from_host:
  assumes ok: "pool_ok s B ls E F {}" and n: "n = pool_round 63 asize" "asize < 1024 * 1024 * 1024"
    and none: "find_fit (hdrs s) n (p_root s) None = Some NoFit" and host: "host_fresh asize s ls"
  shows "outcome n s (B - F) (dopoolalloc_n (Suc (Suc k)) restr asize s)"
proof -
  note D = pool_okD [OF ok]
  have cf: "p_quanta s = 63" "\<not> p_move s" "p_maxsize s < 2 ^ 31" using D(3) by (simp_all add: config_ok_def)
  have n0: "64 dvd n" "0 < n" using pool_round_bounds n(1) by auto
  let ?s = "s\<lparr>p_nalloc := p_nalloc s + 1\<rparr>"
  have ab: "arena_bytes n ?s = arena_bytes n s" by (simp add: arena_bytes_def Let_def)
  have ok1: "pool_ok ?s B ls E F {}" by (rule pool_ok_budget [OF ok]) (use D(3) in \<open>simp_all add: config_ok_def\<close>)
  show ?thesis
  proof (cases "arena_bytes n s")
    case None
    then have "dopoolalloc_n (Suc (Suc k)) restr asize s = Inr (None, ?s)"
      using n none cf ab by (simp add: Let_def poolcompact_def)
    then show ?thesis using outcome_none [OF ok1 refl, of s] by (simp add: keeps_def)
  next
    case (Some ns)
    note fits = arena_bytes_fits [OF D(3) Some n0]
    let ?u = "?s\<lparr>p_arenasize := p_arenasize s + (ns + 128), p_brks := tl (p_brks s)\<rparr>"
    let ?w = "?u\<lparr>p_nbrk := p_nbrk s + 1\<rparr>"
    have oku: "pool_ok ?u B ls E F {}" "pool_ok ?w B ls E F {}"
      by (rule pool_ok_budget [OF ok]; use D(3) fits(3) in \<open>simp add: config_ok_def\<close>)+
    have kw: "keeps (B - F) s ?u" "keeps (B - F) s ?w" by (simp_all add: keeps_def)
    show ?thesis
    proof (cases "\<exists>t ts. p_brks s = Some t # ts")
      case False
      then have "(case p_brks s of [] \<Rightarrow> None | b # _ \<Rightarrow> b) = None" by (auto split: list.splits)
      then have "dopoolalloc_n (Suc (Suc k)) restr asize s = Inr (None, ?u)"
        using n none cf ab Some by (simp add: Let_def add.assoc)
      then show ?thesis using outcome_none [OF oku(1) refl kw(1)] by simp
    next
      case True
      then obtain t0 ts where t0: "p_brks s = Some t0 # ts" by blast
      then have fr: "fresh_mem ?w ls t0 (ns + 128)"
        using host Some n(1) cf(1) by (simp add: host_fresh_def fresh_mem_def B2LIMIT_def)
      let ?t = "align8 t0"
      have room: "sum (size_of ?w) B + (ns + 128) \<le> p_arenasize ?w" using D(11) by simp
      have new: "outcome n s (B - F) (rbind (new_arena ?t ns n ?w) (\<lambda>(v, s). Inr (Some v, s)))"
      proof -
        obtain y where y: "new_arena ?t ns n ?w = Inr (B2D (?t + 64), y)" "granted n ?w (B - F) (?t + 64) y"
          using new_arena_ok [OF oku(2) align8_bounds(1) fits(1,2) n0 fr align8_bounds(2,3)] room by auto
        show ?thesis using y(1) outcome_some [OF granted_keeps [OF kw(2) y(2)]] by simp
      qed
      have step: "dopoolalloc_n (Suc (Suc k)) restr asize s = (case p_chain s of
           None \<Rightarrow> rbind (new_arena ?t ns n ?w) (\<lambda>(v, s). Inr (Some v, s))
         | Some c \<Rightarrow> if ?t = B2LIMIT s c + 64 then
               (case extend_arena c (ns + 128) ?w of (v, s) \<Rightarrow> rbind (poolfree v s)
                 (\<lambda>s. if restricted restr s then Inr (None, s) else dopoolalloc_n (Suc k) restr asize s))
             else rbind (new_arena ?t ns n ?w) (\<lambda>(v, s). Inr (Some v, s)))"
        using n none cf ab Some t0 unfolding dopoolalloc_n.simps(2) [of "Suc k"]
        by (simp add: Let_def add.assoc B2LIMIT_def split: option.splits del: dopoolalloc_n.simps)
      show ?thesis
      proof (cases ls)
        case Nil
        then have "p_chain s = None" using D(2) by (simp add: arenas_ok_def)
        then show ?thesis using step new by simp
      next
        case (Cons c cs)
        then have c: "p_chain s = Some c" using D(2) by (simp add: arenas_ok_def)
        show ?thesis
        proof (cases "?t = B2LIMIT s c + 64")
          case True
          obtain v y where y: "extend_arena c (ns + 128) ?w = (v, y)" by fastforce
          have lim: "B2LIMIT ?w c = B2LIMIT s c" by (simp add: B2LIMIT_def)
          have al: "64 dvd ns + 128" "n \<le> ns + 128" using fits(1,2) by (auto intro: dvd_add)
          have at: "B2LIMIT ?w c + 64 \<le> t0 + 7" "t0 \<le> B2LIMIT ?w c + 64"
            using align8_bounds(2,3) [of t0] True lim by simp_all
          have "outcome n ?w (B - F) (rbind (poolfree v y)
              (\<lambda>s. if restricted restr s then Inr (None, s) else dopoolalloc_n (Suc k) restr asize s))"
            by (rule extend_alloc [OF oku(2) [unfolded Cons] n al fr [unfolded Cons] at room y])
          then show ?thesis using step c True y outcome_keeps [OF kw(2)] by simp
        next
          case False
          then show ?thesis using step c new by simp
        qed
      qed
    qed
  qed
qed

theorem dopoolalloc_ok:
  assumes ok: "pool_ok s B ls E F {}" and host: "host_fresh asize s ls"
  shows "outcome (pool_round 63 asize) s (B - F) (dopoolalloc restr asize s)"
proof (cases "asize < 1024 * 1024 * 1024")
  case False
  then have "dopoolalloc restr asize s = Inr (None, s)" by (simp add: dopoolalloc_def numeral_2_eq_2)
  then show ?thesis using outcome_none [OF ok refl keeps_refl] by simp
next
  case True
  let ?n = "pool_round 63 asize"
  obtain p where p: "find_fit (hdrs s) ?n (p_root s) None = Some p" "case p of
      Exact a \<Rightarrow> \<exists>t \<in> F. bh_f (hdrs s a) = Some t \<and> size_of s t = ?n
    | Best a \<Rightarrow> a \<in> F \<and> ?n < size_of s a \<and> (\<forall>x \<in> F. ?n \<le> size_of s x \<longrightarrow> size_of s a \<le> size_of s x)
    | NoFit \<Rightarrow> \<forall>x \<in> F. size_of s x < ?n"
    using find_fit_free [OF pool_okD(4) [OF ok], of ?n] by blast
  show ?thesis
  proof (cases "\<exists>x \<in> F. ?n \<le> size_of s x")
    case True
    then obtain b u where "dopoolalloc_n (Suc (Suc 0)) restr asize s = Inr (Some (B2D b), u)" "granted ?n s (B - F) b u"
      using alloc_fits [OF ok refl \<open>asize < _\<close>] by blast
    then show ?thesis using outcome_some by (simp add: dopoolalloc_def numeral_2_eq_2 del: dopoolalloc_n.simps)
  next
    case False
    then have "p = NoFit" using p(2) by (cases p) (auto simp: not_le)
    then show ?thesis using alloc_from_host [OF ok refl \<open>asize < _\<close> _ host] p(1)
      by (simp add: dopoolalloc_def numeral_2_eq_2 del: dopoolalloc_n.simps)
  qed
qed

end
