(* ===== verification/PoolSpec.thy ===== *)
theory PoolSpec
  imports PoolAlloc
begin

text \<open>
  A pool in use: clients that allocate, free, resize and write into their blocks, a host that
  gives memory or refuses it.  Every state they reach satisfies the invariant.
\<close>

section \<open>The operations on a pool in order\<close>

text \<open>\<open>pool_state s A\<close>: the pool is in order and its allocated blocks are \<open>A\<close>.\<close>

definition pool_state :: "pool \<Rightarrow> baddr set \<Rightarrow> bool" where
  "pool_state s A \<longleftrightarrow> (\<exists>B ls E F. pool_ok s B ls E F {} \<and> B - F = A)"

text \<open>The promise of the host for the next answer: memory that no arena of the pool has.\<close>

definition host_ok :: "nat \<Rightarrow> pool \<Rightarrow> bool" where
  "host_ok asize s \<longleftrightarrow> (\<exists>ls. chain_of s (p_chain s) ls \<and> host_fresh asize s ls)"

lemma pool_stateI: "pool_ok s B ls E F {} \<Longrightarrow> B - F = A \<Longrightarrow> pool_state s A"
  by (auto simp: pool_state_def)

lemma pool_state_block:
  assumes "pool_state s A" "b \<in> A"
  shows "bh_magic (hdrs s b) \<in> {MAGIC_A, MAGIC_I}" "D2B (B2D b) s = Inr b" "64 \<le> size_of s b" "size_of s b < 2 ^ 31"
proof -
  obtain B ls E F where ok: "pool_ok s B ls E F {}" and A: "B - F = A" using assms(1) by (auto simp: pool_state_def)
  have b: "b \<in> B" "b \<notin> F" using A assms(2) by auto
  then show m: "bh_magic (hdrs s b) \<in> {MAGIC_A, MAGIC_I}" using pool_okD(7) [OF ok b(1)] by simp
  then show "D2B (B2D b) s = Inr b" by (auto simp: D2B_def B2D_def)
  show "64 \<le> size_of s b"
    using layoutD(6,7) [OF pool_okD(1) [OF ok], of b] b(1) by (auto dest: dvd_imp_le)
  show "size_of s b < 2 ^ 31" by (rule size_bound [OF ok b(1)])
qed

lemma pool_state_disjoint:
  assumes "pool_state s A" "b \<in> A" "c \<in> A" "b \<noteq> c"
  shows "b + size_of s b \<le> c \<or> c + size_of s c \<le> b"
proof -
  obtain B ls E F where ok: "pool_ok s B ls E F {}" and A: "B - F = A" using assms(1) by (auto simp: pool_state_def)
  have "b \<in> B" "c \<in> B" using A assms(2,3) by auto
  then show ?thesis using layoutD(10) [OF pool_okD(1) [OF ok], of b c] layoutD(10) [OF pool_okD(1) [OF ok], of c b] assms(4)
    by (cases "b < c") auto
qed

text \<open>\<open>poolalloc\<close>.\<close>

definition alloc_result :: "nat \<Rightarrow> pool \<Rightarrow> baddr set \<Rightarrow> baddr option \<Rightarrow> pool \<Rightarrow> bool" where
  "alloc_result n s A v u \<longleftrightarrow> (case v of
       None \<Rightarrow> pool_state u A \<and> keeps A s u
     | Some v \<Rightarrow> \<exists>b. v = B2D b \<and> b \<notin> A \<and> pool_state u (insert b A) \<and> keeps A s u
         \<and> bh_magic (hdrs u b) = MAGIC_A \<and> n \<le> size_of u b
         \<and> (size_of u b = n \<or> size_of u b < n + n div 4 \<and> size_of u b < n + 0x8000))"

lemma outcome_alloc: "outcome n s A r \<Longrightarrow> \<exists>v u. r = Inr (v, u) \<and> alloc_result n s A v u"
  unfolding outcome_def refused_def granted_def alloc_result_def pool_state_def
  by (fastforce split: option.splits)

lemma poolalloc_state:
  assumes st: "pool_state s A" and host: "host_ok asize s"
  shows "\<exists>v u. poolalloc restr asize s = Inr (v, u) \<and> alloc_result (pool_round 63 asize) s A v u"
proof (cases "restricted restr s")
  case True
  then show ?thesis using st by (simp add: poolalloc_def alloc_result_def)
next
  case False
  obtain B ls E F where ok: "pool_ok s B ls E F {}" and A: "B - F = A" using st by (auto simp: pool_state_def)
  have "chain_of s (p_chain s) ls" using pool_okD(2) [OF ok] by (simp add: arenas_ok_def)
  then have "host_fresh asize s ls" using host chain_of_unique by (auto simp: host_ok_def)
  then have "outcome (pool_round 63 asize) s A (dopoolalloc restr asize s)" using dopoolalloc_ok [OF ok] A by simp
  then show ?thesis using outcome_alloc False by (auto simp: poolalloc_def)
qed

text \<open>\<open>poolfree\<close>: the memory of the block is part of a free block afterwards.\<close>

lemma poolfree_state:
  assumes st: "pool_state s A" and b: "b \<in> A"
  shows "\<exists>u. poolfree (B2D b) s = Inr u \<and> pool_state u (A - {b}) \<and> keeps (A - {b}) s u
    \<and> p_cursize u = p_cursize s - of_nat (size_of s b)"
proof -
  obtain B ls E F where ok: "pool_ok s B ls E F {}" and A: "B - F = A" using st by (auto simp: pool_state_def)
  have bB: "b \<in> B" "b \<notin> F" using A b by auto
  obtain u B' F' x where u: "poolfree (B2D b) s = Inr u" "pool_ok u B' ls E F' {}" "B' - F' = B - F - {b}"
    "kept (B - F - {b}) (s\<lparr>p_nfree := p_nfree s + 1\<rparr>) u" "x \<in> F'" "x \<le> b" "b + size_of s b \<le> x + size_of u x"
    using poolfree_ok [OF ok bB] by (elim exE conjE) (rule that)
  have k: "keeps (A - {b}) s u" using u(4) A by (simp add: kept_def keeps_def)
  have "B - F - {} = insert b (A - {b})" using A bB by auto
  moreover have "finite (A - {b})" using layoutD(1) [OF pool_okD(1) [OF ok]] A by auto
  ultimately have "sum (size_of s) (B - F - {}) = size_of s b + sum (size_of s) (A - {b})"
    by (simp del: insert_Diff_single)
  then have "p_cursize s = of_nat (size_of s b + sum (size_of s) (A - {b}))"
    using pool_okD(10) [OF ok] by (simp only:)
  moreover have "sum (size_of u) (A - {b}) = sum (size_of s) (A - {b})"
    by (rule sum.cong [OF refl]) (use k in \<open>simp add: keeps_def\<close>)
  then have "p_cursize u = of_nat (sum (size_of s) (A - {b}))"
    using pool_okD(10) [OF u(2)] u(3) A by (simp only: Diff_empty)
  ultimately have "p_cursize u = p_cursize s - of_nat (size_of s b)" by simp
  then show ?thesis using u(1,3) k A pool_stateI [OF u(2)] by blast
qed

text \<open>\<open>poolrealloc\<close> of a block: it stays, or its bytes are in a larger one and it is free.\<close>

lemma pool_state_data: "pool_state s A \<Longrightarrow> pool_state (s\<lparr>p_data := d\<rparr>) A"
  unfolding pool_state_def
proof (elim exE conjE)
  fix B ls E F assume ok: "pool_ok s B ls E F {}" and A: "B - F = A"
  have "pool_ok (s\<lparr>p_data := d\<rparr>) B ls E F {}"
    by (rule pool_ok_budget [OF ok]) (use pool_okD(3) [OF ok] in \<open>simp_all add: config_ok_def\<close>)
  then show "\<exists>B ls E F. pool_ok (s\<lparr>p_data := d\<rparr>) B ls E F {} \<and> B - F = A" using A by blast
qed

definition realloc_result :: "baddr \<Rightarrow> nat \<Rightarrow> pool \<Rightarrow> baddr set \<Rightarrow> baddr option \<Rightarrow> pool \<Rightarrow> bool" where
  "realloc_result b n s A v u \<longleftrightarrow> (\<exists>nv. v = Some nv \<and> nv = B2D b \<and> u = s)
     \<or> v = None \<and> pool_state u A \<and> keeps A s u
     \<or> (\<exists>c. v = Some (B2D c) \<and> c \<notin> A \<and> pool_state u (insert c (A - {b})) \<and> n + BHDRSIZE \<le> size_of u c
          \<and> (\<forall>x \<in> A - {b}. size_of u x = size_of s x \<and> bh_magic (hdrs u x) = bh_magic (hdrs s x))
          \<and> (\<forall>i < size_of s b - BHDRSIZE. p_data u (B2D c + i) = p_data s (B2D b + i))
          \<and> (\<forall>a. \<not> (B2D c \<le> a \<and> a < B2D c + n) \<longrightarrow> p_data u a = p_data s a))"

lemma poolrealloc_state:
  assumes st: "pool_state s A" and b: "b \<in> A" and host: "host_ok n s" and n: "0 < n"
  shows "\<exists>v u. poolrealloc restr (Some (B2D b)) n s = Inr (v, u) \<and> realloc_result b n s A v u"
proof -
  note blk = pool_state_block [OF st b]
  let ?o = "size_of s b - BHDRSIZE"
  have h: "BHDRSIZE = 24" by (simp add: BHDRSIZE_def DATA_def BTAIL_def)
  have o: "to_ulong (int32 (int (size_of s b) - int BHDRSIZE)) = ?o"
    using blk(3,4) by (simp add: int32_eq to_ulong_eq h)
  show ?thesis
  proof (cases "n \<ge> 1024 * 1024 * 1024 \<or> ?o \<ge> n")
    case True
    then show ?thesis using st n o blk(2) by (auto simp: poolrealloc_def realloc_result_def Let_def)
  next
    case False
    obtain v u where v: "poolalloc restr n s = Inr (v, u)" "alloc_result (pool_round 63 n) s A v u"
      using poolalloc_state [OF st host] by blast
    have e: "poolrealloc restr (Some (B2D b)) n s = (case v of None \<Rightarrow> Inr (None, u)
        | Some nv \<Rightarrow> rbind (poolfree (B2D b) (copy_data nv (B2D b) ?o u)) (\<lambda>s. Inr (Some nv, s)))"
      using False n o blk(2) v(1) by (cases v) (simp_all add: poolrealloc_def Let_def)
    show ?thesis
    proof (cases v)
      case None
      then show ?thesis using e v(2) by (simp add: realloc_result_def alloc_result_def)
    next
      case (Some nv)
      then obtain c where c: "nv = B2D c" "c \<notin> A" "pool_state u (insert c A)" "keeps A s u" "pool_round 63 n \<le> size_of u c"
        using v(2) by (auto simp: alloc_result_def)
      let ?u = "copy_data nv (B2D b) ?o u"
      have st1: "pool_state ?u (insert c A)" unfolding copy_data_def by (rule pool_state_data [OF c(3)])
      obtain w where w: "poolfree (B2D b) ?u = Inr w" "pool_state w (insert c A - {b})" "keeps (insert c A - {b}) ?u w"
        using poolfree_state [OF st1, of b] b by auto
      have cb: "insert c A - {b} = insert c (A - {b})" "c \<in> insert c A - {b}" using c(2) b by auto
      have sz: "size_of ?u x = size_of u x" "bh_magic (hdrs ?u x) = bh_magic (hdrs u x)" for x by (simp_all add: copy_data_def)
      have "size_of w c = size_of u c" using w(3) cb(2) sz by (simp add: keeps_def)
      then have "n + BHDRSIZE \<le> size_of w c" using c(5) pool_round_bounds(2) [of n] h by simp
      moreover have "size_of w x = size_of s x \<and> bh_magic (hdrs w x) = bh_magic (hdrs s x)" if "x \<in> A - {b}" for x
        using w(3) c(4) that sz [of x] by (simp add: keeps_def)
      moreover have "p_data w = p_data ?u" using w(3) by (simp add: keeps_def)
      moreover have "p_data u = p_data s" using c(4) by (simp add: keeps_def)
      ultimately have "realloc_result b n s A (Some nv) w"
        unfolding realloc_result_def using c(1,2) w(2) False unfolding cb(1)
        by (intro disjI2 exI [of _ c]) (auto simp: copy_data_def)
      then show ?thesis using e Some w(1) by simp
    qed
  qed
qed

section \<open>Clients and the host\<close>

text \<open>
  A client may write any byte of the data of its blocks: the links and the leader's fields it
  shares with a header, and what lies within the block.
\<close>

definition scribble :: "baddr set \<Rightarrow> pool \<Rightarrow> pool \<Rightarrow> bool" where
  "scribble A s u \<longleftrightarrow> (\<exists>h t d. u = s\<lparr>hdrs := h, tails := t, p_data := d\<rparr>
     \<and> (\<forall>b \<in> A. bh_magic (h b) = bh_magic (hdrs s b) \<and> bh_size (h b) = bh_size (hdrs s b))
     \<and> (\<forall>a. (\<forall>b \<in> A. \<not> (b \<le> a \<and> a < b + size_of s b)) \<longrightarrow> h a = hdrs s a)
     \<and> (\<forall>a. (\<forall>b \<in> A. \<not> (b < a \<and> a < b + size_of s b)) \<longrightarrow> t a = tails s a))"

definition fresh_pool :: "pool \<Rightarrow> bool" where
  "fresh_pool s \<longleftrightarrow> p_root s = None \<and> p_chain s = None \<and> p_cursize s = 0 \<and> p_arenasize s = 0
     \<and> gc_ptr s = None \<and> config_ok s"

inductive reachable :: "pool \<Rightarrow> baddr set \<Rightarrow> bool" where
  start: "fresh_pool s \<Longrightarrow> reachable s {}"
| allocates: "reachable s A \<Longrightarrow> host_ok n s \<Longrightarrow> poolalloc restr n s = Inr (Some v, u) \<Longrightarrow> reachable u (insert (v - DATA) A)"
| lacks: "reachable s A \<Longrightarrow> host_ok n s \<Longrightarrow> poolalloc restr n s = Inr (None, u) \<Longrightarrow> reachable u A"
| frees: "reachable s A \<Longrightarrow> b \<in> A \<Longrightarrow> poolfree (B2D b) s = Inr u \<Longrightarrow> reachable u (A - {b})"
| resizes: "reachable s A \<Longrightarrow> b \<in> A \<Longrightarrow> host_ok n s \<Longrightarrow> 0 < n \<Longrightarrow>
    poolrealloc restr (Some (B2D b)) n s = Inr (v, u) \<Longrightarrow>
    reachable u (case v of None \<Rightarrow> A | Some v \<Rightarrow> insert (v - DATA) (A - {b}))"
| hides: "reachable s A \<Longrightarrow> b \<in> A \<Longrightarrow> poolimmutable (B2D b) s = Inr u \<Longrightarrow> reachable u A"
| writes: "reachable s A \<Longrightarrow> scribble A s u \<Longrightarrow> reachable u A"
| collects: "reachable s A \<Longrightarrow> b \<in> A \<Longrightarrow> reachable (s\<lparr>gc_ptr := Some b\<rparr>) A"
| hosts: "reachable s A \<Longrightarrow> reachable (s\<lparr>p_brks := bs\<rparr>) A"

lemma fresh_pool_state: "fresh_pool s \<Longrightarrow> pool_state s {}"
proof (rule pool_stateI)
  assume f: "fresh_pool s"
  show "pool_ok s {} [] {} {} {}"
  proof (rule pool_okI)
    show "layout (size_of s) (tails s) {} (set []) {}" by (rule layoutI) auto
    show "arenas_ok s {} [] {}" "config_ok s" "free_set s {}"
      using f by (simp_all add: fresh_pool_def arenas_ok_def free_set_empty)
  qed (use f in \<open>simp_all add: fresh_pool_def\<close>)
qed simp

lemma immutable_state:
  assumes st: "pool_state s A" and b: "b \<in> A"
  shows "poolimmutable (B2D b) s = Inr (set_magic b MAGIC_I s) \<and> pool_state (set_magic b MAGIC_I s) A"
proof -
  obtain B ls E F where ok: "pool_ok s B ls E F {}" and A: "B - F = A" using st by (auto simp: pool_state_def)
  note D = pool_okD [OF ok]
  have bB: "b \<in> B" "b \<notin> F" "b \<notin> set ls \<union> E" using A b layoutD(2,3) [OF D(1)] by blast+
  let ?u = "set_magic b MAGIC_I s"
  have "pool_ok ?u B ls E F {}"
  proof (rule pool_ok_same [OF ok same_layout_magic free_set_magic [OF D(4)] D(5,6)])
    show "bh_magic (hdrs ?u x) \<in> (if x \<in> F then {MAGIC_F} else {MAGIC_A, MAGIC_I})" if "x \<in> B" "x \<notin> {}" for x
      using D(7) [OF that] bB(2) by (auto simp: set_fields)
    show "bh_magic (hdrs ?u x) = MAGIC_E" if "x \<in> set ls \<union> E" "x \<notin> {}" for x
      using D(8) [OF that] that bB(3) by (auto simp: set_fields)
  qed (use D(9,10,12) in \<open>simp_all add: set_fields\<close>)
  then show ?thesis using pool_state_block(2) [OF st b] A by (auto simp: poolimmutable_def pool_state_def)
qed

lemma scribble_state:
  assumes st: "pool_state s A" and w: "scribble A s u"
  shows "pool_state u A"
proof -
  obtain B ls E F where ok: "pool_ok s B ls E F {}" and A: "B - F = A" using st by (auto simp: pool_state_def)
  note D = pool_okD [OF ok] and LD = layoutD [OF pool_okD(1) [OF ok]]
  obtain h t d where u: "u = s\<lparr>hdrs := h, tails := t, p_data := d\<rparr>"
    and hA: "\<forall>b \<in> A. bh_magic (h b) = bh_magic (hdrs s b) \<and> bh_size (h b) = bh_size (hdrs s b)"
    and ho: "\<And>a. (\<forall>b \<in> A. \<not> (b \<le> a \<and> a < b + size_of s b)) \<Longrightarrow> h a = hdrs s a"
    and ta: "\<And>a. (\<forall>b \<in> A. \<not> (b < a \<and> a < b + size_of s b)) \<Longrightarrow> t a = tails s a"
    using w unfolding scribble_def by blast
  have AB: "A \<subseteq> B" "A \<inter> F = {}" "A \<inter> (set ls \<union> E) = {}" using A LD(2,3) by auto
  have in_block: "x \<notin> A \<Longrightarrow> x \<in> B \<union> set ls \<union> E \<Longrightarrow> \<forall>b \<in> A. \<not> (b \<le> x \<and> x < b + size_of s b)" for x
    using LD(10) AB(1) by (metis UnI1 in_mono le_eq_less_or_eq not_le)
  have hx: "h x = hdrs s x" if "x \<notin> A" "x \<in> B \<union> set ls \<union> E" for x using ho in_block that by blast
  have f: "bh_magic (h x) = bh_magic (hdrs s x)" "bh_size (h x) = bh_size (hdrs s x)" if "x \<in> B \<union> set ls \<union> E" for x
    using hA hx [of x] that by (cases "x \<in> A"; simp)+
  have tx: "t x = tails s x" if "x \<in> B \<union> set ls \<union> E" for x
  proof (rule ta, intro ballI notI, elim conjE)
    fix b assume b: "b \<in> A" "b < x" "x < b + size_of s b"
    then show False using LD(10) [of b x] AB(1) that by auto
  qed
  have lim: "B2LIMIT u l = B2LIMIT s l" "bh_link (hdrs u l) = bh_link (hdrs s l)" if "l \<in> set ls" for l
  proof -
    have "h l = hdrs s l" using hx [of l] that AB(3) by blast
    then show "B2LIMIT u l = B2LIMIT s l" "bh_link (hdrs u l) = bh_link (hdrs s l)" by (simp_all add: u B2LIMIT_def)
  qed
  have su: "size_of u x = size_of s x" "B2NB u x = B2NB s x" if "x \<in> B \<union> set ls \<union> E" for x
    using f(2) [OF that] by (simp_all add: u B2NB_def)
  have ch: "chain_of s (p_chain s) ls" "E = B2LIMIT s ` set ls" using D(2) by (simp_all add: arenas_ok_def)
  have "pool_ok u B ls E F {}"
  proof (rule pool_okI)
    show "layout (size_of u) (tails u) B (set ls) E"
    proof (rule layout_cong [OF D(1)])
      fix x assume x: "x \<in> B \<union> set ls"
      then show "size_of u x = size_of s x \<and> tails u (x + size_of s x) = tails s (x + size_of s x)"
        using su(1) [of x] tx [of "x + size_of s x"] LD(9) [OF x] by (auto simp: u)
    qed
    have "chain_of u (p_chain s) ls" by (rule chain_of_cong [OF ch(1) lim(2)])
    moreover have "p_chain u = p_chain s" by (simp add: u)
    moreover have "B2LIMIT u ` set ls = B2LIMIT s ` set ls" by (rule image_cong [OF refl lim(1)])
    ultimately show "arenas_ok u B ls E" using D(2) lim(1) su unfolding arenas_ok_def by simp
    show "config_ok u" using D(3) by (simp add: config_ok_def u)
    have "hdrs u x = hdrs s x" if "x \<in> F" for x using hx [of x] that D(5) AB(2) by (auto simp: u)
    then show "free_set u F" by (intro free_set_cong [OF D(4)]) (simp_all add: u)
    show "bh_magic (hdrs u b) \<in> (if b \<in> F then {MAGIC_F} else {MAGIC_A, MAGIC_I})" if "b \<in> B" "b \<notin> {}" for b
      using D(7) [OF that] f(1) [of b] that by (simp add: u)
    show "bh_magic (hdrs u x) = MAGIC_E" if "x \<in> set ls \<union> E" "x \<notin> {}" for x
      using D(8) [OF that] f(1) [of x] that by (auto simp: u)
    show "B2NB u b \<notin> F" if "b \<in> F" for b using D(9) [OF that] su(2) [of b] D(5) that by auto
    have s1: "sum (size_of u) X = sum (size_of s) X" if "X \<subseteq> B" for X
      by (rule sum.cong [OF refl]) (use su(1) that in blast)
    show "p_cursize u = of_nat (sum (size_of u) (B - F - {}))"
      using D(10) s1 [of "B - F - {}"] by (simp only: Diff_subset Diff_empty) (simp add: u)
    show "sum (size_of u) B \<le> p_arenasize u" using D(11) s1 [of B] by (simp add: u)
    show "p \<in> B \<union> set ls \<union> E" if "gc_ptr u = Some p" for p using D(12) that by (simp add: u)
  qed (rule D(5) D(6))+
  then show ?thesis using A by (rule pool_stateI)
qed

lemma B2D_DATA [simp]: "B2D b - DATA = b"
  by (simp add: B2D_def)

lemma reachable_state: "reachable s A \<Longrightarrow> pool_state s A"
proof (induction rule: reachable.induct)
  case (start s)
  then show ?case by (rule fresh_pool_state)
next
  case (allocates s A n restr v u)
  then obtain v' u' where "poolalloc restr n s = Inr (v', u')" "alloc_result (pool_round 63 n) s A v' u'"
    using poolalloc_state by blast
  then show ?case using allocates.hyps by (auto simp: alloc_result_def)
next
  case (lacks s A n restr u)
  then obtain v' u' where "poolalloc restr n s = Inr (v', u')" "alloc_result (pool_round 63 n) s A v' u'"
    using poolalloc_state by blast
  then show ?case using lacks.hyps by (auto simp: alloc_result_def)
next
  case (frees s A b u)
  then show ?case using poolfree_state by fastforce
next
  case (resizes s A b n restr v u)
  then obtain v' u' where "poolrealloc restr (Some (B2D b)) n s = Inr (v', u')" "realloc_result b n s A v' u'"
    using poolrealloc_state by blast
  then have "realloc_result b n s A v u" using resizes.hyps by simp
  then show ?case using resizes by (auto simp: realloc_result_def insert_absorb)
next
  case (hides s A b u)
  then show ?case using immutable_state by fastforce
next
  case (writes s A u)
  then show ?case using scribble_state by blast
next
  case (collects s A b)
  then show ?case unfolding pool_state_def using pool_gc by fastforce
next
  case (hosts s A bs)
  then obtain B ls E F where ok: "pool_ok s B ls E F {}" and A: "B - F = A" by (auto simp: pool_state_def)
  have "pool_ok (s\<lparr>p_brks := bs\<rparr>) B ls E F {}"
    by (rule pool_ok_budget [OF ok]) (use pool_okD(3) [OF ok] in \<open>simp_all add: config_ok_def\<close>)
  then show ?case using A by (rule pool_stateI)
qed

end
