(* ===== verification/PoolAudit.thy ===== *)
theory PoolAudit
  imports PoolSpec
begin

text \<open>The operations that only look at a pool: \<open>ptrinpool\<close>, \<open>poolmax\<close> and the auditor.\<close>

section \<open>Membership\<close>

lemma chain_find_iff:
  "chain_of s p ls \<Longrightarrow> chain_find s u p = Some (\<exists>l \<in> set ls. l \<le> u \<and> u < B2LIMIT s l)"
  by (induction ls arbitrary: p; subst chain_find.simps) auto

lemma ptrinpool_iff:
  "pool_ok s B ls E F lim \<Longrightarrow> ptrinpool s u = Inr (\<exists>l \<in> set ls. l \<le> u \<and> u < B2LIMIT s l)"
  using chain_find_iff [of s "p_chain s" ls u] pool_okD(2) [of s B ls E F lim] by (simp add: ptrinpool_def arenas_ok_def)

section \<open>The largest free block\<close>

lemma rightmost_max:
  "rep h par T \<Longrightarrow> apart T \<Longrightarrow> sized sz T \<Longrightarrow> root_of T = Some t \<Longrightarrow>
    \<exists>m. rightmost h t = Some m \<and> m \<in> addrs T \<and> (\<forall>x \<in> addrs T. sz x \<le> sz m)"
proof (induction T arbitrary: par t)
  case (Node l ring r)
  have t: "t = hd ring" "hd ring \<in> set ring" using Node.prems(2,4) by auto
  have r: "bh_r (h t) = root_of r" "rep h (Some (hd ring)) r" "apart r" "sized sz r" using Node.prems t(1) by auto
  note sb = sized_bounds [OF Node.prems(3)]
  have sr: "sz x = sz (hd ring)" if "x \<in> set ring" for x using one_sizeD [of sz ring x] Node.prems(3) that by simp
  show ?case
  proof (cases "root_of r")
    case None
    then have "r = \<langle>\<rangle>" by (cases r) auto
    then have "sz x \<le> sz t" if "x \<in> addrs \<langle>l, ring, r\<rangle>" for x using sb(1) [of x] sr [of x] that t(1) by auto
    then show ?thesis using None r(1) t by (subst rightmost.simps) auto
  next
    case (Some a)
    obtain m where m: "rightmost h a = Some m" "m \<in> addrs r" "\<forall>x \<in> addrs r. sz x \<le> sz m"
      using Node.IH(2) [OF r(2-4) Some] by blast
    have "sz x \<le> sz m" if "x \<in> addrs \<langle>l, ring, r\<rangle>" for x
      using m(3) sb(1) [of x] sb(2) [OF m(2)] sr [of x] that by auto
    then show ?thesis using m(1,2) Some r(1) by (subst rightmost.simps) auto
  qed
qed simp

lemma poolmax_ok:
  assumes ok: "pool_ok s B ls E F {}"
  shows "\<exists>n m. poolmax s = Inr n \<and> unat n = (if BHDRSIZE \<le> m then m - BHDRSIZE else m)
    \<and> m \<in> insert (p_maxsize s - unat (p_cursize s)) (size_of s ` F)
    \<and> (\<forall>k \<in> insert (p_maxsize s - unat (p_cursize s)) (size_of s ` F). k \<le> m)"
proof -
  note D = pool_okD [OF ok]
  let ?c = "sum (size_of s) (B - F)"
  have "?c \<le> sum (size_of s) B" using layoutD(1) [OF D(1)] by (intro sum_mono2) auto
  then have c: "?c \<le> p_maxsize s" "p_maxsize s < 2 ^ 31" using D(3,11) by (auto simp: config_ok_def)
  have cur: "p_cursize s = of_nat ?c" using D(10) by (simp only: Diff_empty)
  have un: "unat (of_nat k :: u64) = k" if "k < 2 ^ 31" for k
    using that by (simp add: unat_of_nat take_bit_nat_eq_self_iff)
  have uc: "unat (p_cursize s) = ?c" unfolding cur using c by (intro un) simp
  let ?z = "of_nat (p_maxsize s) - p_cursize s" and ?m = "p_maxsize s - ?c"
  have z: "?z = of_nat ?m" unfolding cur using c(1) by (simp only: of_nat_diff)
  have lt: "?m < 2 ^ 31" using c by simp
  have less: "unat (if of_nat k \<ge> (of_nat BHDRSIZE :: u64) then of_nat k - of_nat BHDRSIZE else of_nat k :: u64)
      = (if BHDRSIZE \<le> k then k - BHDRSIZE else k)" if k: "k < 2 ^ 31" for k
  proof -
    have u: "unat (of_nat k :: u64) = k" "unat (of_nat BHDRSIZE :: u64) = BHDRSIZE"
      by (rule un [OF k]) (simp add: BHDRSIZE_def DATA_def BTAIL_def)
    then show ?thesis by (auto simp: word_le_nat_alt unat_sub)
  qed
  show ?thesis
  proof (cases "p_root s")
    case None
    obtain T where "tree_ok s T" "addrs T = F" using D(4) by (auto simp: free_set_def)
    then have "F = {}" using None by (cases T) (auto simp: tree_ok_def)
    moreover have "poolmax s = Inr (if of_nat ?m \<ge> (of_nat BHDRSIZE :: u64) then of_nat ?m - of_nat BHDRSIZE else of_nat ?m)"
      using None z by (simp add: poolmax_def Let_def)
    ultimately show ?thesis using less [OF lt] uc by (intro exI conjI) (assumption | simp)+
  next
    case (Some r)
    obtain T where T: "tree_ok s T" "sized (size_of s) T" "addrs T = F" using D(4) by (auto simp: free_set_def)
    then obtain x where x: "rightmost (hdrs s) r = Some x" "x \<in> F" "\<forall>y \<in> F. size_of s y \<le> size_of s x"
      using rightmost_max [of "hdrs s" None T "size_of s" r] Some by (auto simp: tree_ok_def)
    have sx: "size_of s x < 2 ^ 31" using size_bound [OF ok] x(2) D(5) by auto
    let ?k = "if ?m < size_of s x then size_of s x else ?m"
    have "(of_nat ?m :: u64) < of_nat (size_of s x) \<longleftrightarrow> ?m < size_of s x"
      using lt sx unfolding word_less_nat_alt by (simp only: un)
    then have "poolmax s = Inr (if of_nat ?k \<ge> (of_nat BHDRSIZE :: u64) then of_nat ?k - of_nat BHDRSIZE else of_nat ?k)"
      using Some z x(1) by (simp add: poolmax_def Let_def)
    moreover have "?k < 2 ^ 31" using lt sx by simp
    ultimately show ?thesis using less [of ?k] uc x(2,3)
      by (intro exI [of _ "_ :: u64"] exI [of _ ?k] conjI) (assumption | force)+
  qed
qed

section \<open>The auditor\<close>

lemma word_quanta: "64 dvd n \<Longrightarrow> (n :: nat) AND 63 = 0"
proof -
  assume "64 dvd n"
  moreover have "n AND mask 6 = n mod 64" by (simp add: take_bit_eq_mask [symmetric] take_bit_eq_mod)
  ultimately show ?thesis by (simp add: mask_eq_exp_minus_1)
qed

lemma complaint_audit:
  assumes ok: "pool_ok s B ls E F {}" and b: "b \<in> B \<or> b = l \<and> l \<in> set ls"
  shows "block_complaint audit s l b = audit b s"
proof -
  note D = pool_okD [OF ok] and LD = layoutD [OF pool_okD(1) [OF ok]]
  have bb: "b \<in> B \<union> set ls" using b by auto
  have "p_quanta s = 63" using D(3) by (simp add: config_ok_def)
  then have sz: "size_of s b AND p_quanta s = 0" "size_of s b \<noteq> 0" using word_quanta LD(6,7) [OF bb] by simp_all
  have "bh_magic (hdrs s b) \<in> {MAGIC_F, MAGIC_A, MAGIC_I} \<or> bh_magic (hdrs s b) = MAGIC_E \<and> b = l"
  proof (cases "b \<in> B")
    case True
    then show ?thesis using D(7) [OF True] by (auto split: if_splits)
  next
    case False
    then show ?thesis using D(8) [of b] b by auto
  qed
  then show ?thesis using sz by (auto simp: block_complaint_def Let_def)
qed

lemma end_at_limit:
  assumes ok: "pool_ok s B ls E F {}" and l: "l \<in> set ls" and e: "e \<in> E" "l < e" "e \<le> B2LIMIT s l"
  shows "e = B2LIMIT s l"
proof -
  have ar: "E = B2LIMIT s ` set ls" "\<forall>l \<in> set ls. \<forall>l' \<in> set ls. l < l' \<longrightarrow> B2LIMIT s l \<le> l'"
    using pool_okD(2) [OF ok] by (simp_all add: arenas_ok_def)
  obtain l' where l': "l' \<in> set ls" "e = B2LIMIT s l'" using ar(1) e(1) by auto
  consider "l = l'" | "l < l'" | "l' < l" by linarith
  then show ?thesis
  proof cases
    case 2
    then have "B2LIMIT s l \<le> l'" using ar(2) l l'(1) by blast
    then show ?thesis using arena_leader(3) [OF ok l'(1)] e(3) l'(2) by simp
  next
    case 3
    then have "e \<le> l" using ar(2) l l' by blast
    then show ?thesis using e(2) by simp
  qed (use l' in simp)
qed

text \<open>The walk ends at the end mark, or with a complaint of the callback.\<close>

lemma audit_blocks_ok:
  assumes ok: "pool_ok s B ls E F {}" and l: "l \<in> set ls"
  shows "l \<le> b \<Longrightarrow> b \<le> B2LIMIT s l \<Longrightarrow> b \<in> B \<union> E \<or> b = l \<Longrightarrow>
    \<exists>r. audit_blocks audit s l (B2LIMIT s l) b = Some r
      \<and> (case r of Inl c \<Rightarrow> \<exists>x \<in> B \<union> set ls. audit x s = Some c | Inr e \<Rightarrow> e = B2LIMIT s l)"
proof (induction "B2LIMIT s l - b" arbitrary: b rule: less_induct)
  case less
  note LD = layoutD [OF pool_okD(1) [OF ok]]
  show ?case
  proof (cases "b = B2LIMIT s l")
    case True
    then show ?thesis by (subst audit_blocks.simps) simp
  next
    case False
    then have lt: "b < B2LIMIT s l" using less.prems(2) by simp
    have bb: "b \<in> B \<or> b = l \<and> l \<in> set ls"
      using less.prems end_at_limit [OF ok l, of b] False l LD(4) [of b] by (cases "b = l") auto
    then have b': "b \<in> B \<union> set ls" by auto
    have c: "block_complaint audit s l b = audit b s" by (rule complaint_audit [OF ok bb])
    have nx: "B2NB s b \<in> B \<union> E" "b < B2NB s b" using LD(9) [OF b'] LD(7) [OF b'] by (simp_all add: B2NB_def)
    have "B2NB s b \<le> B2LIMIT s l"
      using LD(10) [OF b' _ lt] arena_leader(2) [OF ok l] by (simp add: B2NB_def)
    moreover have "B2LIMIT s l - B2NB s b < B2LIMIT s l - b" "l \<le> B2NB s b" using nx(2) less.prems(1) lt by simp_all
    ultimately obtain r where r: "audit_blocks audit s l (B2LIMIT s l) (B2NB s b) = Some r"
      "case r of Inl c \<Rightarrow> \<exists>x \<in> B \<union> set ls. audit x s = Some c | Inr e \<Rightarrow> e = B2LIMIT s l"
      using less.hyps [of "B2NB s b"] nx(1) by blast
    show ?thesis
    proof (cases "audit b s")
      case None
      then have "audit_blocks audit s l (B2LIMIT s l) b = Some r" using lt c r(1) by (subst audit_blocks.simps) simp
      then show ?thesis using r(2) by blast
    next
      case (Some d)
      then have "audit_blocks audit s l (B2LIMIT s l) b = Some (Inl d)" using lt c by (subst audit_blocks.simps) simp
      moreover have "\<exists>x \<in> B \<union> set ls. audit x s = Some d" using Some b' by blast
      ultimately show ?thesis by (intro exI [of _ "Inl d"]) simp
    qed
  qed
qed

lemma audit_arenas_ok:
  assumes ok: "pool_ok s B ls E F {}"
  shows "chain_of s p ks \<Longrightarrow> set ks \<subseteq> set ls \<Longrightarrow>
    \<exists>r. audit_arenas audit s p = Some r \<and> (\<forall>c. r = Some c \<longrightarrow> (\<exists>x \<in> B \<union> set ls. audit x s = Some c))"
proof (induction ks arbitrary: p)
  case Nil
  then show ?case by (subst audit_arenas.simps) simp
next
  case (Cons l ks)
  have l: "l \<in> set ls" "p = Some l" "set ks \<subseteq> set ls" "chain_of s (bh_link (hdrs s l)) ks" using Cons.prems by auto
  have m: "bh_magic (hdrs s l) = MAGIC_E" "bh_magic (hdrs s (B2LIMIT s l)) = MAGIC_E"
    using pool_okD(8) [OF ok] l(1) arena_leader(2) [OF ok l(1)] by auto
  obtain r where r: "audit_blocks audit s l (B2LIMIT s l) l = Some r"
    "case r of Inl c \<Rightarrow> \<exists>x \<in> B \<union> set ls. audit x s = Some c | Inr e \<Rightarrow> e = B2LIMIT s l"
    using audit_blocks_ok [OF ok l(1), of l audit] arena_leader(3) [OF ok l(1)] by auto
  show ?case
  proof (cases r)
    case (Inl c)
    then have "audit_arenas audit s p = Some (Some c)" using l(2) m r(1) by (subst audit_arenas.simps) simp
    then show ?thesis using Inl r(2) by auto
  next
    case (Inr e)
    then have "audit_arenas audit s p = audit_arenas audit s (bh_link (hdrs s l))"
      using l(2) m r by (subst audit_arenas.simps) simp
    then show ?thesis using Cons.IH [OF l(4,3)] by simp
  qed
qed

end
