(* ===== verification/PoolDemo.thy ===== *)
theory PoolDemo
  imports PoolAudit
begin

text \<open>Pools as they start, runs of operations on them, and their evaluation.\<close>

definition blank :: bhdr where
  "blank = \<lparr>bh_magic = 0, bh_size = 0, bh_l = None, bh_r = None, bh_p = None, bh_v = None, bh_f = None,
     bh_link = None, bh_csize = 0\<rparr>"

definition empty_pool :: "nat \<Rightarrow> nat \<Rightarrow> nat \<Rightarrow> bool \<Rightarrow> baddr option list \<Rightarrow> pool" where
  "empty_pool mx ch rs mv bs = \<lparr>hdrs = \<lambda>_. blank, tails = \<lambda>_. None, p_data = \<lambda>_. 1, p_root = None, p_chain = None,
     p_maxsize = mx, p_quanta = 63, p_chunk = ch, p_ressize = of_nat rs, p_cursize = 0, p_arenasize = 0, p_hw = 0,
     p_nalloc = 0, p_nfree = 0, p_nbrk = 0, p_lastfree = 0, p_move = mv, p_brks = bs, gc_ptr = None\<rparr>"

text \<open>The entries \<open>main\<close> and \<open>heap\<close> of \<open>table\<close>.\<close>

definition main_pool :: "baddr option list \<Rightarrow> pool" where
  "main_pool = empty_pool (32 * 1024 * 1024) (512 * 1024) (31 * 1024 * 1024) False"

datatype pool_op = Alloc nat | Free baddr | Compact

fun pool_run :: "pool_op list \<Rightarrow> pool \<Rightarrow> pfault + pool" where
  "pool_run [] s = Inr s"
| "pool_run (Alloc n # xs) s = rbind (poolalloc False n s) (\<lambda>(_, s). pool_run xs s)"
| "pool_run (Free v # xs) s = rbind (poolfree v s) (pool_run xs)"
| "pool_run (Compact # xs) s = rbind (poolcompact s) (\<lambda>(_, s). pool_run xs s)"

lemma poolalloc_fits:
  assumes "asize < 1024 * 1024 * 1024" "p_quanta s = 63"
  shows "poolalloc False asize s = (let n = pool_round 63 asize; u = s\<lparr>p_nalloc := p_nalloc s + 1\<rparr> in
    case find_fit (hdrs s) n (p_root s) None of
      Some (Exact t) \<Rightarrow> rbind (nonnil (bh_f (hdrs s t))) (\<lambda>t.
          rbind (pooldel t u) (\<lambda>s. Inr (Some (B2D t), charge t (set_magic t MAGIC_A s))))
    | Some (Best q) \<Rightarrow> rbind (carve q n u) (\<lambda>s. Inr (Some (B2D q), s))
    | _ \<Rightarrow> dopoolalloc False asize s)"
  using assms by (auto simp: poolalloc_def dopoolalloc_def restricted_def numeral_2_eq_2 Let_def split: option.splits fit.splits)

lemma arena_bytes_nalloc: "arena_bytes n (s\<lparr>p_nalloc := k\<rparr>) = arena_bytes n s"
  by (simp add: arena_bytes_def Let_def)

lemma dopoolalloc_first:
  assumes "asize < 1024 * 1024 * 1024" "p_quanta s = 63" "p_root s = None" "p_chain s = None" "p_brks s = Some t # bs"
    "arena_bytes (pool_round 63 asize) s = Some ns"
  shows "dopoolalloc restr asize s = rbind (new_arena (align8 t) ns (pool_round 63 asize) (s\<lparr>p_nalloc := p_nalloc s + 1,
     p_arenasize := p_arenasize s + (ns + 128), p_brks := bs, p_nbrk := p_nbrk s + 1\<rparr>)) (\<lambda>(v, s). Inr (Some v, s))"
  using assms by (simp add: dopoolalloc_def numeral_2_eq_2 Let_def find_fit.simps best_of_def add.assoc arena_bytes_nalloc)

lemma dopoolalloc_refused:
  assumes "asize < 1024 * 1024 * 1024" "p_quanta s = 63" "p_root s = None" "p_brks s = []"
    "arena_bytes (pool_round 63 asize) s = Some ns"
  shows "dopoolalloc restr asize s = Inr (None, s\<lparr>p_nalloc := p_nalloc s + 1, p_arenasize := p_arenasize s + (ns + 128)\<rparr>)"
  using assms by (simp add: dopoolalloc_def numeral_2_eq_2 Let_def find_fit.simps best_of_def add.assoc arena_bytes_nalloc)

lemma rbind_weak_cong: "m = m' \<Longrightarrow> rbind m f = rbind m' f"
  by simp

lemmas pool_eval = poolalloc_fits dopoolalloc_first empty_pool_def blank_def pool_round find_fit.simps best_of_def
  arena_bytes_def Let_def align8 new_arena_def set_magic_def upd_h_def set_block_def B2NB_def B2D_def DATA_def pooladd_def
  descend.simps nonnil_def charge_def B2LIMIT_def carve_def pooldel_def unring_def del_ring_head_def del_replacement_def
  leftmost.simps relink_def upd_opt_def poolfree_def D2B_def int32_def to_ulong_def poolcompact_def compact_loop.simps
  compact_rest_def move_block_def

section \<open>A pool with one block\<close>

lemma demo_alloc:
  "\<exists>u. poolalloc False 100 (main_pool [Some 1000]) = Inr (Some (B2D 1064), u) \<and> p_root u = Some 1192
     \<and> size_of u 1064 = 128 \<and> size_of u 1192 = 524160 \<and> p_brks u = []"
  by (simp add: main_pool_def pool_eval cong: rbind_weak_cong let_weak_cong)

lemma fresh_main: "fresh_pool (main_pool bs)"
  by (simp add: fresh_pool_def main_pool_def empty_pool_def config_ok_def)

lemma main_host: "host_ok n (main_pool bs)"
proof -
  have "chain_of (main_pool bs) (p_chain (main_pool bs)) []" by (simp add: main_pool_def empty_pool_def)
  moreover have "host_fresh n (main_pool bs) []"
    by (auto simp: host_fresh_def fresh_mem_def split: list.splits option.splits)
  ultimately show ?thesis unfolding host_ok_def by blast
qed

lemma no_host: "p_brks s = [] \<Longrightarrow> pool_state s A \<Longrightarrow> host_ok n s"
  by (auto simp: host_ok_def host_fresh_def pool_state_def dest!: pool_okD(2) simp: arenas_ok_def)

lemma demo_state:
  "\<exists>s. reachable s {1064} \<and> p_root s = Some 1192 \<and> size_of s 1064 = 128 \<and> size_of s 1192 = 524160
     \<and> (\<forall>n. host_ok n s) \<and> pool_state s {1064}"
proof -
  obtain u where u: "poolalloc False 100 (main_pool [Some 1000]) = Inr (Some (B2D 1064), u)" "p_root u = Some 1192"
    "size_of u 1064 = 128" "size_of u 1192 = 524160" "p_brks u = []" using demo_alloc by blast
  have r: "reachable u {1064}"
    using reachable.allocates [OF reachable.start [OF fresh_main] main_host u(1)] by simp
  then have st: "pool_state u {1064}" by (rule reachable_state)
  have "\<forall>n. host_ok n u" using no_host [OF u(5) st] by blast
  then show ?thesis using r u(2-4) st by (intro exI [of _ u]) simp
qed

lemma root_free: "free_set s F \<Longrightarrow> p_root s = Some q \<Longrightarrow> q \<in> F"
  unfolding free_set_def tree_ok_def using root_in_addrs by auto

section \<open>A host that refuses\<close>

definition refused_times :: "nat \<Rightarrow> pool" where
  "refused_times k = (main_pool [])\<lparr>p_nalloc := of_nat k, p_arenasize := k * 524416\<rparr>"

lemma refused_once:
  assumes "k < 63"
  shows "poolalloc False 0 (refused_times k) = Inr (None, refused_times (Suc k))"
proof -
  let ?s = "refused_times k"
  have f: "p_quanta ?s = 63" "p_root ?s = None" "p_brks ?s = []" "p_chunk ?s = 524288" "p_maxsize ?s = 33554432"
    "p_arenasize ?s = k * 524416" by (simp_all add: refused_times_def main_pool_def empty_pool_def)
  have "arena_bytes (pool_round 63 0) ?s = Some 524288"
    using assms by (simp add: arena_bytes_def Let_def f pool_round)
  then show ?thesis using dopoolalloc_refused [of 0 ?s 524288 False] f
    by (simp add: poolalloc_def restricted_def refused_times_def)
qed

lemma refused_reachable: "k \<le> 63 \<Longrightarrow> reachable (refused_times k) {}"
proof (induction k)
  case 0
  have "refused_times 0 = main_pool []" by (simp add: refused_times_def main_pool_def empty_pool_def)
  then show ?case using reachable.start [OF fresh_main] by simp
next
  case (Suc k)
  then have r: "reachable (refused_times k) {}" by simp
  have "host_ok 0 (refused_times k)"
    by (rule no_host [OF _ reachable_state [OF r]]) (simp add: refused_times_def main_pool_def empty_pool_def)
  then show ?case using reachable.lacks [OF r _ refused_once] Suc.prems by simp
qed

lemma refused_last:
  "poolalloc False 0 (refused_times 63) = Inr (None, (refused_times 63)\<lparr>p_nalloc := 64, p_arenasize := 33554432\<rparr>)"
proof -
  let ?s = "refused_times 63"
  have f: "p_quanta ?s = 63" "p_root ?s = None" "p_brks ?s = []" "p_chunk ?s = 524288" "p_maxsize ?s = 33554432"
    "p_arenasize ?s = 33038208" "p_nalloc ?s = 63" by (simp_all add: refused_times_def main_pool_def empty_pool_def)
  have "arena_bytes (pool_round 63 0) ?s = Some 516096"
    by (simp add: arena_bytes_def Let_def f pool_round int32_eq)
  then show ?thesis using dopoolalloc_refused [of 0 ?s 516096 False] f
    by (simp add: poolalloc_def restricted_def)
qed

lemma full_refuses:
  assumes "p_arenasize s = p_maxsize s" "p_maxsize s < 2 ^ 31" "p_quanta s = 63" "p_root s = None" "\<not> p_move s"
  shows "\<exists>u. poolalloc restr n s = Inr (None, u)"
proof -
  have "arena_bytes (pool_round 63 n) s = None"
    using assms pool_round_bounds(4) [of n] by (simp add: arena_bytes_def Let_def int32_eq)
  then show ?thesis using assms
    by (simp add: poolalloc_def dopoolalloc_def numeral_2_eq_2 Let_def find_fit.simps best_of_def arena_bytes_nalloc poolcompact_def)
qed

end
