(* ===== verification/PoolProps.thy ===== *)
theory PoolProps
  imports PoolDemo
begin

text \<open>What the allocator promises, and where it fails.\<close>

section \<open>The state of a pool\<close>

text \<open>
  C2. The state invariant of a pool.  Whatever clients allocate, free, resize and write into their
  blocks, and whatever the host answers, every arena is tiled by its leader, blocks with boundary
  tags, and an end mark; the magic numbers tell free from allocated; the tree holds exactly the
  free blocks, ordered by size; no two free blocks are neighbours; \<open>cursize\<close> is the sum of the
  allocated sizes.
\<close>

theorem pool_invariant: "reachable s A \<Longrightarrow> \<exists>B ls E F. pool_ok s B ls E F {} \<and> B - F = A"
  using reachable_state unfolding pool_state_def by blast

theorem pool_invariant_witness:
  "\<exists>s. reachable s {1064} \<and> (\<exists>B ls E F. pool_ok s B ls E F {} \<and> B - F = {1064})"
proof -
  obtain s where s: "reachable s {1064}" using demo_state by (elim exE conjE) (rule that)
  show ?thesis by (rule exI [of _ s]) (rule conjI [OF s pool_invariant [OF s]])
qed

text \<open>
  C23. Allocated blocks of a reachable pool do not overlap, have room for the header and the
  trailer, and lie within the arenas: \<open>ptrinpool\<close> accepts each of their addresses.
\<close>

theorem pool_blocks_apart:
  "reachable s A \<Longrightarrow> b \<in> A \<Longrightarrow> 64 \<le> size_of s b
    \<and> (\<forall>c \<in> A - {b}. b + size_of s b \<le> c \<or> c + size_of s c \<le> b)
    \<and> (\<forall>u. b \<le> u \<and> u < b + size_of s b \<longrightarrow> ptrinpool s u = Inr True)"
proof (intro conjI ballI allI impI)
  assume r: "reachable s A" and b: "b \<in> A"
  have st: "pool_state s A" by (rule reachable_state [OF r])
  show "64 \<le> size_of s b" by (rule pool_state_block(3) [OF st b])
  show "b + size_of s b \<le> c \<or> c + size_of s c \<le> b" if "c \<in> A - {b}" for c
    using pool_state_disjoint [OF st b, of c] that by blast
  show "ptrinpool s u = Inr True" if u: "b \<le> u \<and> u < b + size_of s b" for u
  proof -
    obtain B ls E F where ok: "pool_ok s B ls E F {}" and A: "B - F = A" using st by (auto simp: pool_state_def)
    obtain l where l: "l \<in> set ls" "l < b" "B2NB s b \<le> B2LIMIT s l"
      using arena_at [OF pool_okD(2) [OF ok], of b] A b by blast
    then have "l \<le> u \<and> u < B2LIMIT s l" using u by (simp add: B2NB_def)
    then show ?thesis using ptrinpool_iff [OF ok] l(1) by auto
  qed
qed

theorem pool_blocks_apart_witness:
  "\<exists>s. reachable s {1064} \<and> 64 \<le> size_of s 1064
    \<and> (\<forall>c \<in> {1064} - {1064}. 1064 + size_of s 1064 \<le> c \<or> c + size_of s c \<le> 1064)
    \<and> (\<forall>u. 1064 \<le> u \<and> u < 1064 + size_of s 1064 \<longrightarrow> ptrinpool s u = Inr True)"
proof -
  obtain s where s: "reachable s {1064}" using demo_state by (elim exE conjE) (rule that)
  show ?thesis by (rule exI [of _ s]) (rule conjI [OF s pool_blocks_apart [OF s insertI1]])
qed

text \<open>
  Every operation on a reachable pool comes to an end without a fault: the descents of the
  tree, the search along the chain and the walk of the auditor terminate, and two calls of
  \<open>dopoolalloc\<close> are enough whatever the host answers.
\<close>

theorem pool_operations_return:
  "reachable s A \<Longrightarrow>
    (\<forall>n restr. host_ok n s \<longrightarrow> (\<exists>v u. poolalloc restr n s = Inr (v, u)))
    \<and> (\<forall>b \<in> A. \<exists>u. poolfree (B2D b) s = Inr u)
    \<and> (\<forall>b \<in> A. \<forall>n restr. 0 < n \<and> host_ok n s \<longrightarrow> (\<exists>v u. poolrealloc restr (Some (B2D b)) n s = Inr (v, u)))
    \<and> (\<forall>a. \<exists>r. ptrinpool s a = Inr r) \<and> (\<exists>n. poolmax s = Inr n)
    \<and> (\<forall>b \<in> A. poolmsize (Some (B2D b)) s = Inr (size_of s b - BHDRSIZE))"
proof (intro conjI ballI allI impI)
  assume r: "reachable s A"
  have st: "pool_state s A" by (rule reachable_state [OF r])
  obtain B ls E F where ok: "pool_ok s B ls E F {}" and A: "B - F = A" using st by (auto simp: pool_state_def)
  show "\<exists>v u. poolalloc restr n s = Inr (v, u)" if "host_ok n s" for n restr
    using poolalloc_state [OF st that] by blast
  show "\<exists>u. poolfree (B2D b) s = Inr u" if "b \<in> A" for b using poolfree_state [OF st that] by blast
  show "\<exists>v u. poolrealloc restr (Some (B2D b)) n s = Inr (v, u)" if "b \<in> A" "0 < n \<and> host_ok n s" for b n restr
    using poolrealloc_state [OF st that(1), of n] that(2) by blast
  show "\<exists>r. ptrinpool s a = Inr r" for a using ptrinpool_iff [OF ok] by blast
  show "\<exists>n. poolmax s = Inr n" using poolmax_ok [OF ok] by blast
  show "poolmsize (Some (B2D b)) s = Inr (size_of s b - BHDRSIZE)" if "b \<in> A" for b
    using pool_state_block(2) [OF st that] by (simp add: poolmsize_def)
qed

theorem pool_operations_return_witness:
  "\<exists>s. reachable s {1064} \<and> (\<exists>v u. poolalloc False 5000 s = Inr (v, u)) \<and> (\<exists>u. poolfree (B2D 1064) s = Inr u)"
proof -
  obtain s where s: "reachable s {1064}" "\<forall>n. host_ok n s" using demo_state by (elim exE conjE) (rule that)
  then show ?thesis using pool_operations_return [OF s(1)] by blast
qed

text \<open>
  C21. The auditor \<open>poolaudit\<close> agrees: on reachable pools its own tests of headers, sizes, magic
  numbers and ends never complain, so each complaint it returns is one of its callback.
\<close>

theorem pool_audit_accepts:
  "(\<forall>s \<in> set ps. \<exists>A. reachable s A) \<Longrightarrow>
    \<exists>r. poolaudit audit ps = Some r \<and> (\<forall>c. r = Some c \<longrightarrow> (\<exists>s \<in> set ps. \<exists>b. audit b s = Some c))"
proof (induction ps)
  case (Cons s ps)
  then obtain A where "reachable s A" by auto
  then obtain B ls E F where ok: "pool_ok s B ls E F {}" using pool_state_def reachable_state by metis
  have ch: "chain_of s (p_chain s) ls" using pool_okD(2) [OF ok] by (simp add: arenas_ok_def)
  obtain r where r: "audit_arenas audit s (p_chain s) = Some r" "\<forall>c. r = Some c \<longrightarrow> (\<exists>x \<in> B \<union> set ls. audit x s = Some c)"
    using audit_arenas_ok [OF ok ch subset_refl, of audit] by blast
  obtain q where q: "poolaudit audit ps = Some q" "\<forall>c. q = Some c \<longrightarrow> (\<exists>s \<in> set ps. \<exists>b. audit b s = Some c)"
    using Cons by auto
  show ?case
  proof (cases r)
    case None
    then show ?thesis using r(1) q by auto
  next
    case (Some c)
    then show ?thesis using r by auto
  qed
qed simp

theorem pool_audit_accepts_witness:
  "poolaudit (\<lambda>b s. None) [main_pool [], refused_times 5] = Some None"
proof -
  have "\<forall>s \<in> set [main_pool [], refused_times 5]. \<exists>A. reachable s A"
    using reachable.start [OF fresh_main] refused_reachable [of 5] by auto
  then obtain r where r: "poolaudit (\<lambda>b s. None) [main_pool [], refused_times 5] = Some r"
    "\<forall>c. r = Some c \<longrightarrow> (\<exists>s \<in> set [main_pool [], refused_times 5]. \<exists>b :: baddr. (None :: string option) = Some c)"
    using pool_audit_accepts [of "[main_pool [], refused_times 5]" "\<lambda>b s. None"] by blast
  then have "r = None" by (cases r) auto
  then show ?thesis using r(1) by simp
qed

section \<open>Allocating and freeing\<close>



text \<open>
  C20. Best fit: when some free block is large enough, \<open>poolalloc\<close> does not ask the host, and the
  block it cuts the answer from is a smallest one that suffices.
\<close>

theorem poolalloc_best_fit:
  "pool_ok s B ls E F {} \<Longrightarrow> asize < 2 ^ 30 \<Longrightarrow> \<not> restricted restr s \<Longrightarrow> x \<in> F \<Longrightarrow> pool_round 63 asize \<le> size_of s x \<Longrightarrow>
    \<exists>b u. poolalloc restr asize s = Inr (Some (B2D b), u) \<and> pool_state u (insert b (B - F)) \<and> keeps (B - F) s u
      \<and> b \<in> F \<and> pool_round 63 asize \<le> size_of s b
      \<and> (\<forall>y \<in> F. pool_round 63 asize \<le> size_of s y \<longrightarrow> size_of s b \<le> size_of s y)"
proof -
  assume ok: "pool_ok s B ls E F {}" and n: "asize < 2 ^ 30" "\<not> restricted restr s"
    and x: "x \<in> F" "pool_round 63 asize \<le> size_of s x"
  have lt: "asize < 1024 * 1024 * 1024" using n(1) by simp
  obtain b u where b: "dopoolalloc_n (Suc (Suc 0)) restr asize s = Inr (Some (B2D b), u)"
    "best_fit s F (pool_round 63 asize) b" "granted (pool_round 63 asize) s (B - F) b u"
    using alloc_fits [OF ok refl lt x] by blast
  have "poolalloc restr asize s = Inr (Some (B2D b), u)"
    using n(2) b(1) by (simp add: poolalloc_def dopoolalloc_def numeral_2_eq_2 del: dopoolalloc_n.simps)
  then show ?thesis using b(2,3) unfolding best_fit_def granted_def pool_state_def by blast
qed

theorem poolalloc_best_fit_witness:
  "\<exists>s B ls E F b u. pool_ok s B ls E F {} \<and> 1192 \<in> F \<and> poolalloc False 5000 s = Inr (Some (B2D b), u) \<and> b \<in> F"
proof -
  obtain s where s: "p_root s = Some 1192" "size_of s 1192 = 524160" "pool_state s {1064}" using demo_state by blast
  then obtain B ls E F where ok: "pool_ok s B ls E F {}" by (auto simp: pool_state_def)
  have F: "1192 \<in> F" by (rule root_free [OF pool_okD(4) [OF ok] s(1)])
  have "(5000 :: nat) < 2 ^ 30" "\<not> restricted False s" "pool_round 63 5000 \<le> size_of s 1192"
    using s(2) by (simp_all add: restricted_def pool_round)
  then show ?thesis using poolalloc_best_fit [OF ok _ _ F] ok F by blast
qed





text \<open>
  C8. The tree of free blocks, with its rings of blocks of one size, is a set: \<open>pooladd\<close> and \<open>pooldel\<close>,
  in any sequence that adds only blocks that are out and takes only blocks that are in, succeed, and the
  tree holds the set that insertions and deletions give.
\<close>

theorem free_tree_is_set:
  "free_set s F \<Longrightarrow> legal (2 ^ 31) (size_of s) xs F \<Longrightarrow>
    \<exists>u. store_run pooladd pooldel xs s = Inr u \<and> free_set u (held xs F) \<and> size_of u = size_of s"
  by (rule blocks.run_held)

theorem free_tree_is_set_witness:
  "\<exists>u. store_run pooladd pooldel [Put 5, Put 3, Put 9, Take 5, Put 5, Take 3] (main_pool []) = Inr u
     \<and> free_set u {9, 5} \<and> size_of u = size_of (main_pool [])"
proof -
  have f: "free_set (main_pool []) {}" by (rule free_set_empty) (simp add: main_pool_def empty_pool_def)
  have l: "legal (2 ^ 31) (size_of (main_pool [])) [Put 5, Put 3, Put 9, Take 5, Put 5, Take 3] {}"
    by (simp add: main_pool_def empty_pool_def blank_def)
  have "held [Put 5, Put 3, Put 9, Take 5, Put 5, Take 3] {} = {9, 5 :: nat}" by auto
  then show ?thesis using free_tree_is_set [OF f l] by simp
qed

lemma reachable_data: "reachable s A \<Longrightarrow> reachable (s\<lparr>p_data := d\<rparr>) A"
  by (rule reachable.writes) (auto simp: scribble_def intro!: exI [of _ "hdrs s"] exI [of _ "tails s"])

text \<open>
  C22. \<open>malloc\<close> and \<open>free\<close> on a reachable pool, for sizes that do not wrap: nil, or new memory of at least
  the size, zero in all its bytes, none of which belongs to another block; \<open>msize\<close> reports at least the
  size; and \<open>free\<close> of the pointer restores the allocated blocks.
\<close>

theorem malloc_free_roundtrip:
  "reachable s A \<Longrightarrow> sz + PAD < 2 ^ 64 \<Longrightarrow> host_ok (sz + PAD) s \<Longrightarrow>
    \<exists>v u. malloc restr sz s = Inr (v, u) \<and> (case v of
      None \<Rightarrow> reachable u A \<and> p_data u = p_data s
    | Some v \<Rightarrow> \<exists>b w. v = B2D b + PAD \<and> b \<notin> A \<and> reachable u (insert b A) \<and> (\<forall>i < sz. p_data u (v + i) = 0)
        \<and> (\<forall>a. \<not> (v \<le> a \<and> a < v + sz) \<longrightarrow> p_data u a = p_data s a) \<and> v + sz + BTAIL \<le> b + size_of u b
        \<and> msize (Some v) u = Inr (of_nat (size_of u b - BHDRSIZE - PAD)) \<and> sz \<le> size_of u b - BHDRSIZE - PAD
        \<and> mfree (Some v) u = Inr w \<and> reachable w A)"
proof -
  assume r: "reachable s A" and n: "sz + PAD < 2 ^ 64" and host: "host_ok (sz + PAD) s"
  have pad: "padded sz = sz + PAD" using n by (simp add: padded_def)
  obtain v u where v: "poolalloc restr (sz + PAD) s = Inr (v, u)" "alloc_result (pool_round 63 (sz + PAD)) s A v u"
    using poolalloc_state [OF reachable_state [OF r] host] by blast
  show ?thesis
  proof (cases v)
    case None
    then have "malloc restr sz s = Inr (None, u)" "reachable u A" "p_data u = p_data s"
      using v reachable.lacks [OF r host] by (simp_all add: malloc_def pad cleared_def alloc_result_def keeps_def)
    then show ?thesis by (intro exI [of _ None] exI [of _ u]) simp
  next
    case (Some x)
    then obtain b where b: "x = B2D b" "b \<notin> A" "keeps A s u" "pool_round 63 (sz + PAD) \<le> size_of u b"
      using v(2) by (auto simp: alloc_result_def)
    let ?p = "B2D b + PAD"
    let ?u = "fill_data ?p 0 sz u"
    have e: "malloc restr sz s = Inr (Some ?p, ?u)" using v(1) Some b(1) by (simp add: malloc_def pad cleared_def Let_def)
    have ru: "reachable ?u (insert b A)" unfolding fill_data_def
      using reachable_data reachable.allocates [OF r host, of restr x u] v(1) Some b(1) by simp
    have sz: "size_of ?u b = size_of u b" by (simp add: fill_data_def)
    have h: "BHDRSIZE = 24" "PAD = 16" "DATA = 16" "BTAIL = 8" by (simp_all add: BHDRSIZE_def DATA_def BTAIL_def PAD_def)
    have room: "sz + 40 \<le> size_of ?u b" using pool_round_bounds(2) [of "sz + PAD"] b(4) sz h by simp
    have st: "pool_state ?u (insert b A)" by (rule reachable_state [OF ru])
    have d: "D2B (B2D b) ?u = Inr b" by (rule pool_state_block(2) [OF st insertI1])
    obtain w where w: "poolfree (B2D b) ?u = Inr w" using poolfree_state [OF st insertI1] by blast
    have "insert b A - {b} = A" using b(2) by auto
    then have rw: "reachable w A" using reachable.frees [OF ru insertI1 w] by simp
    have f: "mfree (Some ?p) ?u = Inr w" using d w by (simp add: mfree_def)
    have m: "msize (Some ?p) ?u = Inr (of_nat (size_of ?u b - BHDRSIZE - PAD))"
      using d room h by (simp add: msize_def poolmsize_def of_nat_diff)
    have data: "\<forall>i < sz. p_data ?u (?p + i) = 0" "\<forall>a. \<not> (?p \<le> a \<and> a < ?p + sz) \<longrightarrow> p_data ?u a = p_data s a"
      using b(3) by (auto simp: fill_data_def keeps_def)
    have le: "?p + sz + BTAIL \<le> b + size_of ?u b" "sz \<le> size_of ?u b - BHDRSIZE - PAD"
      using room h by (simp_all add: B2D_def)
    have "\<exists>c w. ?p = B2D c + PAD \<and> c \<notin> A \<and> reachable ?u (insert c A) \<and> (\<forall>i < sz. p_data ?u (?p + i) = 0)
        \<and> (\<forall>a. \<not> (?p \<le> a \<and> a < ?p + sz) \<longrightarrow> p_data ?u a = p_data s a) \<and> ?p + sz + BTAIL \<le> c + size_of ?u c
        \<and> msize (Some ?p) ?u = Inr (of_nat (size_of ?u c - BHDRSIZE - PAD)) \<and> sz \<le> size_of ?u c - BHDRSIZE - PAD
        \<and> mfree (Some ?p) ?u = Inr w \<and> reachable w A"
      by (intro exI conjI) (rule refl b(2) ru data le m f rw)+
    then show ?thesis using e by (intro exI [of _ "Some ?p"] exI [of _ ?u]) simp
  qed
qed

theorem malloc_free_roundtrip_witness:
  "\<exists>v u. malloc False 100 (main_pool [Some 1000]) = Inr (v, u)
    \<and> (\<forall>p. v = Some p \<longrightarrow> (\<exists>w. mfree (Some p) u = Inr w \<and> reachable w {}))"
proof -
  have "100 + PAD < 2 ^ 64" by (simp add: PAD_def)
  then show ?thesis
    using malloc_free_roundtrip [OF reachable.start [OF fresh_main, of "[Some 1000]"] _ main_host, of 100 False]
    by (fastforce split: option.splits)
qed

section \<open>Where the allocator fails\<close>

text \<open>
  A refusal of the host is charged to the pool for good: \<open>arenasize\<close> is not taken back when \<open>sbrk\<close>
  fails.  A pool with the limits of \<open>main\<close> reaches, by 64 refused requests, a state in which it
  owns no memory at all and refuses every request, even of a host that has memory again.
\<close>

theorem refusals_exhaust_pool:
  "\<exists>s. reachable s {} \<and> p_chain s = None \<and> p_maxsize s = 32 * 1024 * 1024
    \<and> (\<forall>restr n bs. \<exists>u. poolalloc restr n (s\<lparr>p_brks := bs\<rparr>) = Inr (None, u))"
proof -
  let ?s = "(refused_times 63)\<lparr>p_nalloc := 64, p_arenasize := 33554432\<rparr>"
  have r: "reachable (refused_times 63) {}" by (rule refused_reachable) simp
  have "host_ok 0 (refused_times 63)"
    by (rule no_host [OF _ reachable_state [OF r]]) (simp add: refused_times_def main_pool_def empty_pool_def)
  then have rs: "reachable ?s {}" using reachable.lacks [OF r _ refused_last] by simp
  have f: "p_chain ?s = None" "p_maxsize ?s = 32 * 1024 * 1024"
    by (simp_all add: refused_times_def main_pool_def empty_pool_def)
  have "\<exists>u. poolalloc restr n (?s\<lparr>p_brks := bs\<rparr>) = Inr (None, u)" for restr n bs
    by (rule full_refuses) (simp_all add: refused_times_def main_pool_def empty_pool_def)
  then show ?thesis using rs f by blast
qed

text \<open>
  \<open>poolcompact\<close> moves blocks with their trailers, and the trailer of a moved block still points to where
  the block was.  After a compaction, freeing the block behind a moved one joins it with
  whatever free block begins there: the free block at 1256 claims the memory up to 1384, beyond the end of
  its arena at 1320, and the block that was freed is lost.
\<close>

theorem compaction_leaves_trailers:
  "\<exists>u. pool_run [Alloc 168, Alloc 40, Free 1080, Compact, Alloc 40, Alloc 40, Free 1144]
      (empty_pool 384 256 10000 True [Some 1000]) = Inr u
    \<and> p_chain u = Some 1000 \<and> B2LIMIT u 1000 = 1320 \<and> bh_magic (hdrs u 1256) = MAGIC_F \<and> B2NB u 1256 = 1384"
  by (simp add: pool_eval cong: rbind_weak_cong let_weak_cong)

text \<open>
  The size that \<open>malloc\<close> passes on wraps: a request of 8 bytes less than the whole address space gets a block
  of 64 bytes, and all the memory behind it is cleared; and \<open>calloc\<close> of \<open>2 ^ 32\<close> objects of \<open>2 ^ 32\<close> bytes gets
  a block of 64 bytes.
\<close>

theorem malloc_wraps:
  "(\<exists>u. malloc False (2 ^ 64 - 8) (main_pool [Some 1000]) = Inr (Some 1096, u) \<and> size_of u 1064 = 64
      \<and> (\<forall>a. p_data u a = (if 1096 \<le> a \<and> a < 2 ^ 64 + 1088 then 0 else 1)))
   \<and> (\<exists>u. calloc False (2 ^ 32) (2 ^ 32) (main_pool [Some 1000]) = Inr (Some 1096, u) \<and> size_of u 1064 = 64)"
  by (simp add: malloc_def calloc_def padded_def PAD_def cleared_def fill_data_def main_pool_def pool_eval
      cong: rbind_weak_cong let_weak_cong)

end
