(* ===== verification/Spec2Isabelle.thy ===== *)
theory Spec2Isabelle
  imports Utf Styx9P Dirstat DisStringSpec VlrtSpec Strtol ChanProps PoolProps
begin

text \<open>
  Inferno64 is an operating system that runs hosted (\<^verbatim>\<open>emu/\<close>) or on bare machines (\<^verbatim>\<open>os/\<close>).  Programs
  are written in Limbo and run on the Dis virtual machine (\<^verbatim>\<open>libinterp/\<close>): a scheduler takes progs
  from a run queue, progs communicate over channels and select among them with alt, and values
  live on a heap with reference counts.  Everything outside a program is a file served over 9P
  (\<^verbatim>\<open>libkern/conv*.c\<close>), text is UTF-8 (\<^verbatim>\<open>libkern/rune.c\<close>), and the small C library \<^verbatim>\<open>libkern/\<close> carries
  64-bit arithmetic and the conversion of numbers.  This development models those parts; each
  theory translates its C files function by function and proves what makes them correct.

  \<^bold>\<open>Conventions.\<close>  A C function that can fail is a function into a sum, \<open>Inl\<close> the failure.  A
  failure is a memory access outside its object, a nil pointer, a loop that does not end, or an
  exception of the program, so that absence of the first three is a theorem and never an
  accident of total functions.  Objects the code shares through pointers live in stores indexed
  by names, and the stores are passed and returned.  Integers have the width the code gives
  them wherever it matters (\<open>u16\<close>, \<open>u32\<close>, \<open>u64\<close>); pointers into a buffer are offsets.  \<^verbatim>\<open>Prelude\<close>
  holds the result type, the bounds-checked accesses (\<open>fetch\<close>, \<open>store\<close>, \<open>rdblock\<close>, \<open>wrblock\<close>)
  and the calculus of procedures (\<open>bnd\<close>, \<open>seqs\<close>, \<open>wp\<close>) the codec theories share.

  \<^bold>\<open>UTF-8\<close> (\<^verbatim>\<open>libkern/rune.c\<close>; theory \<^verbatim>\<open>Utf\<close>).  \<open>chartorune\<close>, \<open>runetochar\<close>, \<open>runelen\<close>, \<open>runenlen\<close>
  and \<open>fullrune\<close> with their loops.  Decoding what was encoded gives the rune back; what
  decodes is canonical (no overlong form, no surrogate); \<open>fullrune\<close> is right about having
  enough bytes.

  \<^bold>\<open>9P messages\<close> (\<^verbatim>\<open>include/fcall.h\<close>, \<^verbatim>\<open>libkern/convS2M.c\<close>, \<^verbatim>\<open>libkern/convM2S.c\<close>; theories \<^verbatim>\<open>Fcall\<close>,
  \<^verbatim>\<open>Cursor\<close>, \<^verbatim>\<open>S2M\<close>, \<^verbatim>\<open>M2S\<close>, \<^verbatim>\<open>Styx9P\<close>).  \<open>Fcall\<close> is the union of all messages, \<open>layout\<close> the wire
  format as a list of typed fields.  The writer produces that layout, the parser never leaves
  its buffer whatever the bytes, accepts only that layout, and the two are inverse.
  Directory entries (\<^verbatim>\<open>libkern/convD2M.c\<close>, \<^verbatim>\<open>convM2D.c\<close>) are in \<^verbatim>\<open>Dirstat\<close>: the round trip, and
  that \<open>statcheck\<close> accepts exactly what \<open>convM2D\<close> parses to the end.

  \<^bold>\<open>Dis strings\<close> (\<^verbatim>\<open>libinterp/string.c\<close>; theories \<^verbatim>\<open>DisString\<close>, \<^verbatim>\<open>DisStringProofs\<close>, \<^verbatim>\<open>DisStringSpec\<close>).
  A string object has a reference count, a length whose sign tells its representation (bytes
  or runes), and a capacity.  The abstraction \<open>str_at\<close> reads an object as a list of characters;
  the theorems say that \<open>addstring\<close>, \<open>insc\<close>, \<open>slicer\<close>, \<open>indc\<close> and \<open>stringcmp\<close> compute the list
  operations and leave every other string alone, sharing and copy on write included.  The
  allocator is a parameter with the hypothesis \<open>alloc_ok\<close> (what it returns is fresh and large
  enough), which the witnesses instantiate.

  \<^bold>\<open>Scheduler\<close> (\<^verbatim>\<open>emu/port/dis.c\<close>; theory \<^verbatim>\<open>Sched\<close>).  The run queue is the code's linked list;
  \<open>runq\<close> reads it as a list.  \<open>addrun\<close>, \<open>delrun\<close>, \<open>pushrun\<close>, \<open>delrunq\<close> and the rotation of
  \<open>vmachine\<close> are queue operations (locale \<open>run_queue\<close>, interpreted on them), and every ready prog
  reaches the head.  The search of \<open>delrunq\<close> is a \<open>partial_function\<close>: on a cycle it does not end
  and the model says \<open>Spin\<close>; on a well-formed queue it ends.

  \<^bold>\<open>Channels and alt\<close> (\<^verbatim>\<open>libinterp/xec.c\<close>, \<^verbatim>\<open>libinterp/alt.c\<close>, \<^verbatim>\<open>emu/port/dis.c\<close>; theories \<^verbatim>\<open>Chan\<close> to
  \<^verbatim>\<open>ChanProps\<close>).  \<^verbatim>\<open>Chan\<close> translates wait queues, the ring buffer, \<open>isend\<close>, \<open>irecv\<close>, the three
  passes of alt, and what an exception or a hangup does to a blocked prog.  \<^verbatim>\<open>ChanOps\<close> gives
  closed forms, \<^verbatim>\<open>ChanWake\<close> the cases of send and receive, \<^verbatim>\<open>ChanInv\<close> the invariant \<open>dis_inv\<close> (run
  queue and wait queues hold exactly the progs in the matching states, nobody waits on a
  channel that could serve him), \<^verbatim>\<open>ChanAlt\<close> that an alt with a ready entry is the plain operation
  on the chosen entry, \<^verbatim>\<open>ChanSpec\<close> the step relation \<open>dstep\<close> and the invariant of every reachable
  state, \<^verbatim>\<open>ChanProps\<close> the properties (channels are first-in first-out, the buffer through the
  locale \<open>bounded_fifo\<close>).  A scheduler step takes the prog at the head of the queue, as \<open>currun\<close>
  does.  \<open>killcomm\<close> is bounded by the length of the wait queue, which each round shortens.

  \<^bold>\<open>64-bit arithmetic\<close> (\<^verbatim>\<open>libkern/vlrt-arm.c\<close> and its siblings; theories \<^verbatim>\<open>Vlrt\<close>, \<^verbatim>\<open>VlrtSpec\<close>).  A
  \<open>vlong\<close> is a pair of 32-bit words.  \<open>vl_val\<close>-style readings show each routine equal to the
  operation on 64-bit words.  The loops of \<open>dodiv\<close> shift a 64-bit divisor: \<open>scale\<close> has fuel 64,
  and the theorems show it never runs out (a non-zero divisor leaves in at most 63 shifts).

  \<^bold>\<open>Numbers from text\<close> (\<^verbatim>\<open>libkern/strtol.c\<close> and siblings; theory \<^verbatim>\<open>Strtol\<close>).  Values, positions and
  saturation against a specification by digit runs, through the locale \<open>accumulator\<close>.

  \<^bold>\<open>Memory pools\<close> (\<^verbatim>\<open>emu/port/alloc.c\<close>, \<^verbatim>\<open>include/pool.h\<close>; theories \<^verbatim>\<open>Pool\<close> to \<^verbatim>\<open>PoolProps\<close>).  \<^verbatim>\<open>Pool\<close>
  translates the allocator: headers and trailers by address, the tree of free blocks (a search
  tree by size whose nodes are rings), \<open>pooladd\<close>, \<open>pooldel\<close>, \<open>poolfree\<close>, \<open>dopoolalloc\<close> and the rest.
  \<^verbatim>\<open>PoolTree\<close> to \<^verbatim>\<open>PoolFree\<close> show that the tree is a set (locale \<open>free_store\<close>, interpreted on
  \<open>pooladd\<close> and \<open>pooldel\<close>) and that the search finds a best fit; \<^verbatim>\<open>PoolLayout\<close> and \<^verbatim>\<open>PoolInv\<close> hold
  the invariant \<open>pool_ok\<close>: arenas tiled by blocks with boundary tags, the tree exactly the free
  blocks, no two free neighbours, \<open>cursize\<close> the allocated sum.  \<^verbatim>\<open>PoolOps\<close> to \<^verbatim>\<open>PoolAlloc\<close> prove it
  for every operation, \<^verbatim>\<open>PoolSpec\<close> for every state that clients and host can reach (\<open>reachable\<close>;
  clients may write all the data of their blocks, the host may refuse), \<^verbatim>\<open>PoolAudit\<close> treats the
  operations that only look, \<^verbatim>\<open>PoolDemo\<close> runs concrete pools.  \<open>dopoolalloc\<close> and \<open>poolalloc\<close> call
  one another; fuel 2 is enough, since the second call finds the memory that the first has freed
  into the tree.  The invariant is for pools that do not compact (\<open>config_ok\<close>): \<open>poolcompact\<close> is
  translated, but breaks it.  The host promises memory that no arena has (\<open>host_ok\<close>).

  \<^bold>\<open>What goes wrong.\<close>  Some theorems state defects as the code has them: an alt that receives
  twice on a channel leaves a nil queue pointer, an alt can take its own offer, a string
  appended to itself is overrun, \<open>strtol\<close> misses overflows, \<open>_vasop\<close> loses the sign of narrow
  operands, \<open>malloc\<close> lets sizes wrap, a refusal of the host uses up a pool, and compaction leaves
  trailers that point nowhere.  The general theorems carry the hypotheses that exclude them.

  \<^bold>\<open>Not modelled.\<close>  \<open>csendalt\<close>, process groups and \<open>killprog\<close>, program creation, reference counts
  of channel values, allocation failure in channel creation, and the threads of the host; the
  debugging aids, the printed statistics and the tags of the allocator; the
  other Dis instructions, the loader, the collector and the code generators; floating point;
  the native kernel, drivers, graphics, file systems, cryptography, the Limbo compiler, and the
  third-party libraries of the tree.
\<close>

end
